(* ===== verification/Quic_Prelude.thy ===== *)
theory Quic_Prelude
  imports Main "HOL-Library.Word"
begin

text \<open>
  Shared vocabulary of the development: the integer types of
  \<^verbatim>\<open>src/model/net/quic/core/quic_types.h\<close>, the collections of simplification
  rules the component theories extend, and generic facts on options and lists.
\<close>

section \<open>Types of the code\<close>

type_synonym uint8 = "8 word"
type_synonym uint16 = "16 word"
type_synonym uint32 = "32 word"
type_synonym uint64 = "64 word"
type_synonym QuicPacketNumber = "64 word"
type_synonym QuicByteCount = "64 word"
type_synonym QuicStreamOffset = "64 word"
type_synonym QuicStreamId = "32 word"
type_synonym QuicTime = int
type_synonym QuicTimeDelta = int

section \<open>Collections\<close>

named_theorems lru_simps \<open>operations of the LRU cache unfolded on a well-formed heap\<close>

section \<open>Lists\<close>

lemma distinct_map_filter_fst [simp]:
  "distinct (map fst xs) \<Longrightarrow> distinct (map fst (filter P xs))"
  by (induction xs) auto

lemma map_of_filter_neq [simp]:
  "map_of (filter (\<lambda>p. fst p \<noteq> k) xs) k' = (if k' = k then None else map_of xs k')"
  by (induction xs) auto

lemma upt_split: "i \<le> j \<Longrightarrow> j \<le> k \<Longrightarrow> [i..<k] = [i..<j] @ [j..<k]"
  using upt_add_eq_append [of i j "k - j"] by simp

section \<open>Words\<close>

lemma word_less_not_max: "v < w \<Longrightarrow> v \<noteq> - 1" for v w :: "'a::len word"
  by auto

lemma unat_inc: "w \<noteq> - 1 \<Longrightarrow> unat (w + 1) = Suc (unat w)" for w :: "'a::len word"
  using unatSuc [of w] by (simp add: add.commute eq_neg_iff_add_eq_0)

lemma less_inc_iff: "w \<noteq> - 1 \<Longrightarrow> v < w + 1 \<longleftrightarrow> v \<le> w" for v w :: "'a::len word"
  by (simp add: word_less_nat_alt word_le_nat_alt unat_inc less_Suc_eq_le)

lemma inc_le_iff: "w \<noteq> - 1 \<Longrightarrow> w + 1 \<le> v \<longleftrightarrow> w < v" for v w :: "'a::len word"
  by (simp add: inc_less_eq_iff)

lemma less_inc_self: "w \<noteq> - 1 \<Longrightarrow> w < w + 1" for w :: "'a::len word"
  by (simp add: less_inc_iff)

lemma word_atLeast0: "{0..<h} = {..<h}" for h :: "'a::len word"
  by auto

text \<open>Shifts, as division and multiplication of the unsigned value.\<close>

lemma unat_drop_bit_div: "unat (drop_bit n w) = unat w div 2 ^ n" for w :: "'a::len word"
  unfolding unat_drop_bit_eq by (simp add: drop_bit_eq_div)

lemma unat_push_bit_mult:
  "unat w * 2 ^ n < 2 ^ LENGTH('a) \<Longrightarrow> unat (push_bit n w) = unat w * 2 ^ n" for w :: "'a::len word"
  unfolding unsigned_push_bit_eq by (simp add: push_bit_eq_mult [where 'a = nat] take_bit_eq_mod)

lemma unat_push_bit_1: "n < LENGTH('a) \<Longrightarrow> unat (push_bit n 1 :: 'a::len word) = 2 ^ n"
  using unat_push_bit_mult [of "1::'a word" n] by simp

text \<open>64-bit words as signed and unsigned integers.\<close>

lemma uint_of_int64: "0 \<le> i \<Longrightarrow> i < 2 ^ 64 \<Longrightarrow> uint (word_of_int i :: 64 word) = i"
  by (simp add: unsigned_of_int take_bit_int_eq_self)

lemma sint_of_int64: "- (2 ^ 63) \<le> x \<Longrightarrow> x < 2 ^ 63 \<Longrightarrow> sint (word_of_int x :: 64 word) = x"
  by (simp add: signed_of_int signed_take_bit_int_eq_self)

lemma signed_drop_bit_of_int64:
  assumes "- (2 ^ 63) \<le> x" "x < 2 ^ 63"
  shows "signed_drop_bit n (word_of_int x :: 64 word) = word_of_int (x div 2 ^ n)"
proof -
  have "sint (signed_drop_bit n (word_of_int x :: 64 word)) = x div 2 ^ n"
    by (simp only: sint_signed_drop_bit_eq sint_of_int64 [OF assms] drop_bit_eq_div)
  then have "word_of_int (sint (signed_drop_bit n (word_of_int x :: 64 word))) = (word_of_int (x div 2 ^ n) :: 64 word)"
    by simp
  then show ?thesis
    by simp
qed

lemma drop_bit_of_int64:
  assumes "0 \<le> x" "x < 2 ^ 64"
  shows "drop_bit n (word_of_int x :: 64 word) = word_of_int (x div 2 ^ n)"
proof -
  have "uint (drop_bit n (word_of_int x :: 64 word)) = x div 2 ^ n"
    unfolding unsigned_drop_bit_eq uint_of_int64 [OF assms]
    using assms by (simp add: drop_bit_eq_div take_bit_int_eq_self)
  then have "word_of_int (uint (drop_bit n (word_of_int x :: 64 word))) = (word_of_int (x div 2 ^ n) :: 64 word)"
    by simp
  then show ?thesis
    by simp
qed

section \<open>64-bit naturals\<close>

text \<open>Sums and differences of \<^verbatim>\<open>uint64_t\<close> and \<^verbatim>\<open>size_t\<close> values that are kept as naturals.\<close>

definition add64 :: "nat \<Rightarrow> nat \<Rightarrow> nat" where "add64 a b = (a + b) mod 2 ^ 64"
definition sub64 :: "nat \<Rightarrow> nat \<Rightarrow> nat" where "sub64 a b = (a + (2 ^ 64 - b)) mod 2 ^ 64"

lemma add64_id: "a + b < 2 ^ 64 \<Longrightarrow> add64 a b = a + b"
  by (simp add: add64_def)

lemma sub64_id: "b \<le> a \<Longrightarrow> a < 2 ^ 64 \<Longrightarrow> sub64 a b = a - b"
proof -
  assume "b \<le> a" "a < 2 ^ 64"
  then have "a + (2 ^ 64 - b) = (a - b) + 2 ^ 64" "a - b < 2 ^ 64" by arith+
  then show ?thesis unfolding sub64_def by (simp only: mod_add_self2 mod_less)
qed

section \<open>Simulation\<close>

text \<open>Runs of a component whose operations may fail and return results, and runs of its specification.\<close>

primrec op_run :: "('s \<Rightarrow> 'op \<Rightarrow> ('s \<times> 'out) option) \<Rightarrow> 's \<Rightarrow> 'op list \<Rightarrow> ('s \<times> 'out list) option" where
  "op_run step s [] = Some (s, [])"
| "op_run step s (x # xs) =
     (case step s x of
        None \<Rightarrow> None
      | Some (s', out) \<Rightarrow> map_option (\<lambda>(s'', outs). (s'', out # outs)) (op_run step s' xs))"

primrec spec_run :: "('a \<Rightarrow> 'op \<Rightarrow> 'a \<times> 'out) \<Rightarrow> 'a \<Rightarrow> 'op list \<Rightarrow> 'a \<times> 'out list" where
  "spec_run spec a [] = (a, [])"
| "spec_run spec a (x # xs) =
     (let (a', out) = spec a x; (a'', outs) = spec_run spec a' xs in (a'', out # outs))"

text \<open>A component simulates its specification: each operation succeeds, keeps the invariant and
  commutes with the abstraction.\<close>

locale simulation =
  fixes step :: "'s \<Rightarrow> 'op \<Rightarrow> ('s \<times> 'out) option"
    and spec :: "'a \<Rightarrow> 'op \<Rightarrow> 'a \<times> 'out"
    and inv :: "'s \<Rightarrow> bool"
    and abs :: "'s \<Rightarrow> 'a"
    and ok :: "'op \<Rightarrow> bool"
  assumes sim: "inv s \<Longrightarrow> ok x \<Longrightarrow> \<exists>s' out. step s x = Some (s', out) \<and> inv s' \<and> spec (abs s) x = (abs s', out)"
begin

lemma run_refines:
  "inv s \<Longrightarrow> \<forall>x\<in>set xs. ok x \<Longrightarrow>
   \<exists>s'. op_run step s xs = Some (s', snd (spec_run spec (abs s) xs)) \<and> inv s' \<and> abs s' = fst (spec_run spec (abs s) xs)"
proof (induction xs arbitrary: s)
  case (Cons x xs)
  then obtain s1 out where s1: "step s x = Some (s1, out)" "inv s1" "spec (abs s) x = (abs s1, out)"
    using sim [of s x] by auto
  then show ?case using Cons.IH [OF s1(2)] Cons.prems(2) by (auto simp: split_beta Let_def)
qed simp

end

lemma those_map_ok:
  "\<forall>e\<in>set es. \<exists>x. f e = Some x \<and> P x \<Longrightarrow> \<exists>ops. those (map f es) = Some ops \<and> (\<forall>x\<in>set ops. P x)"
  by (induction es) auto

text \<open>A list that is the start of every extension of \<open>xs\<close> is a prefix of \<open>xs\<close>.\<close>

lemma prefix_of_extensions:
  fixes xs :: "'a list" and d d' :: 'a
  assumes "\<And>S. \<forall>i<length xs. S i = xs ! i \<Longrightarrow> ys = map S [0..<n]" "d \<noteq> d'"
  shows "n \<le> length xs \<and> ys = take n xs"
proof -
  let ?S = "\<lambda>d i. if i < length xs then xs ! i else d"
  have e: "ys = map (?S d) [0..<n]" "ys = map (?S d') [0..<n]" using assms(1) by simp_all
  have n: "n \<le> length xs"
  proof (rule ccontr)
    assume "\<not> n \<le> length xs"
    then have "ys ! length xs = d" "ys ! length xs = d'"
      using arg_cong [OF e(1), of "\<lambda>ys. ys ! length xs"] arg_cong [OF e(2), of "\<lambda>ys. ys ! length xs"] by simp_all
    then show False using assms(2) by simp
  qed
  then show ?thesis unfolding e(1) by (auto intro: nth_equalityI)
qed

end
