(* ===== verification/Float_Model.thy ===== *)
theory Float_Model
  imports Complex_Main "HOL-Library.Log_Nat"
begin

text \<open>
  Rounding of floating point arithmetic: the result of an operation on \<open>float\<close> or \<open>double\<close>
  values is the exact rational result rounded to the nearest number of 24 or 53 significant bits,
  ties to even.  The range of the exponent is not modelled: all values the code computes are far
  from overflow and underflow.
\<close>

definition pow2 :: "int \<Rightarrow> rat" where
  "pow2 k = 2 powi k"

text \<open>The exponent of the highest bit of a positive rational.\<close>

definition ilog2 :: "rat \<Rightarrow> int" where
  "ilog2 x =
     (let (n, d) = quotient_of x; k = bitlen n - bitlen d in if pow2 k \<le> x then k else k - 1)"

definition round_half_even :: "rat \<Rightarrow> int" where
  "round_half_even x =
     (let f = \<lfloor>x\<rfloor>; r = x - of_int f
      in if r < 1 / 2 then f else if r > 1 / 2 then f + 1 else if even f then f else f + 1)"

definition fround :: "nat \<Rightarrow> rat \<Rightarrow> rat" where
  "fround p x =
     (if x = 0 then 0
      else let e = ilog2 \<bar>x\<bar> - int p + 1 in of_int (round_half_even (x / pow2 e)) * pow2 e)"

definition float_round :: "rat \<Rightarrow> rat" where "float_round x = fround 24 x"
definition double_round :: "rat \<Rightarrow> rat" where "double_round x = fround 53 x"

text \<open>Conversion to an integer type cuts the fraction off.\<close>

definition to_integer :: "rat \<Rightarrow> int" where
  "to_integer x = (if x \<ge> 0 then \<lfloor>x\<rfloor> else \<lceil>x\<rceil>)"

section \<open>Properties of rounding\<close>

lemma pow2_pos [simp]: "0 < pow2 k"
  by (simp add: pow2_def)

lemma pow2_add: "pow2 (a + b) = pow2 a * pow2 b"
  by (simp add: pow2_def power_int_add)

lemma pow2_nat: "pow2 (int n) = 2 ^ n"
  by (simp add: pow2_def)

lemma pow2_numeral: "pow2 (numeral n) = 2 ^ numeral n"
  using pow2_nat [of "numeral n"] by simp

lemma pow2_mono: "a \<le> b \<Longrightarrow> pow2 a \<le> pow2 b"
  by (simp add: pow2_def power_int_increasing)

lemma pow2_strict_mono: "a < b \<Longrightarrow> pow2 a < pow2 b"
  by (simp add: pow2_def power_int_strict_increasing)

lemma bitlen_pow2: "0 < n \<Longrightarrow> pow2 (bitlen n - 1) \<le> of_int n \<and> of_int n < pow2 (bitlen n)"
proof -
  assume "0 < n"
  then have b: "2 ^ nat (bitlen n - 1) \<le> n" "n < 2 ^ nat (bitlen n)" "0 < bitlen n"
    using bitlen_bounds [of n] by (auto, cases "bitlen n \<le> 0") auto
  have "of_int (2 ^ nat (bitlen n - 1)) \<le> (of_int n :: rat)" "of_int n < (of_int (2 ^ nat (bitlen n)) :: rat)"
    using b by (simp_all only: of_int_le_iff of_int_less_iff)
  then show ?thesis
    using b(3) by (simp add: pow2_def power_int_def)
qed

lemma ilog2_bounds:
  assumes "0 < x"
  shows "pow2 (ilog2 x) \<le> x \<and> x < pow2 (ilog2 x + 1)"
proof -
  obtain n d where nd: "quotient_of x = (n, d)"
    by (cases "quotient_of x")
  have d: "0 < d" and x: "x = of_int n / of_int d"
    using quotient_of_denom_pos [OF nd] quotient_of_div [OF nd] by auto
  have n: "0 < n"
    using assms d by (simp add: x zero_less_divide_iff)
  let ?k = "bitlen n - bitlen d"
  have split: "pow2 ?k * pow2 (bitlen d) = pow2 (bitlen n)" "pow2 (?k - 1) * pow2 (bitlen d) = pow2 (bitlen n - 1)"
    by (simp_all add: pow2_add [symmetric])
  have "x < pow2 (?k + 1)"
  proof -
    have "of_int n < pow2 (bitlen n)"
      using bitlen_pow2 [OF n] by blast
    also have "\<dots> = pow2 (?k + 1) * pow2 (bitlen d - 1)"
      by (simp add: pow2_add [symmetric])
    also have "\<dots> \<le> pow2 (?k + 1) * of_int d"
      using bitlen_pow2 [OF d] by (intro mult_left_mono) (auto simp: less_imp_le)
    finally show ?thesis
      using d by (simp add: x divide_less_eq)
  qed
  moreover have "pow2 (?k - 1) \<le> x"
  proof -
    have "pow2 (?k - 1) * of_int d \<le> pow2 (?k - 1) * pow2 (bitlen d)"
      using bitlen_pow2 [OF d] by (intro mult_left_mono) (auto simp: less_imp_le)
    also have "\<dots> \<le> of_int n"
      using bitlen_pow2 [OF n] split(2) by simp
    finally show ?thesis
      using d by (simp add: x le_divide_eq)
  qed
  ultimately show ?thesis
    by (simp add: ilog2_def nd Let_def not_le)
qed

lemma round_half_even_cases:
  obtains "round_half_even x = \<lfloor>x\<rfloor>" "x - of_int \<lfloor>x\<rfloor> \<le> 1 / 2" | "round_half_even x = \<lfloor>x\<rfloor> + 1" "1 / 2 \<le> x - of_int \<lfloor>x\<rfloor>"
proof -
  consider "x - of_int \<lfloor>x\<rfloor> < 1 / 2" | "x - of_int \<lfloor>x\<rfloor> > 1 / 2" | "x - of_int \<lfloor>x\<rfloor> = 1 / 2"
    by (metis linorder_cases)
  then show thesis
    by cases (use that in \<open>simp_all add: round_half_even_def Let_def, presburger\<close>)
qed

lemma round_half_even_error: "\<bar>of_int (round_half_even x) - x\<bar> \<le> 1 / 2"
proof (rule round_half_even_cases [of x])
  assume "round_half_even x = \<lfloor>x\<rfloor>" "x - of_int \<lfloor>x\<rfloor> \<le> 1 / 2"
  then show ?thesis
    using of_int_floor_le [of x] by (simp only: abs_le_iff) linarith
next
  assume "round_half_even x = \<lfloor>x\<rfloor> + 1" "1 / 2 \<le> x - of_int \<lfloor>x\<rfloor>"
  then show ?thesis
    using floor_correct [of x] by (simp only: abs_le_iff of_int_add of_int_1) linarith
qed

lemma round_half_even_int [simp]: "round_half_even (of_int n) = n"
  by (simp add: round_half_even_def)

lemma round_half_even_bounds: "\<lfloor>x\<rfloor> \<le> round_half_even x \<and> round_half_even x \<le> \<lfloor>x\<rfloor> + 1"
  by (rule round_half_even_cases [of x]) auto

lemma round_half_even_mono:
  assumes "x \<le> y"
  shows "round_half_even x \<le> round_half_even y"
proof (cases "\<lfloor>x\<rfloor> = \<lfloor>y\<rfloor>")
  case True
  have "round_half_even y = \<lfloor>y\<rfloor> + 1" if "round_half_even x = \<lfloor>x\<rfloor> + 1"
    using that assms True by (simp add: round_half_even_def Let_def split: if_splits)
  then show ?thesis
    using True round_half_even_bounds [of x] round_half_even_bounds [of y] by linarith
next
  case False
  then have "\<lfloor>x\<rfloor> + 1 \<le> \<lfloor>y\<rfloor>"
    using floor_mono [OF assms] by simp
  then show ?thesis
    using round_half_even_bounds [of x] round_half_even_bounds [of y] by linarith
qed

text \<open>The relative error of one rounding to \<open>p\<close> bits is at most \<open>2^-p\<close>.\<close>

lemma fround_error:
  shows "\<bar>fround p x - x\<bar> \<le> \<bar>x\<bar> * pow2 (- int p)"
proof (cases "x = 0")
  case False
  let ?e = "ilog2 \<bar>x\<bar> - int p + 1"
  have e: "pow2 ?e \<noteq> 0"
    using pow2_pos [of ?e] by (rule less_imp_neq [symmetric])
  then have "fround p x - x = (of_int (round_half_even (x / pow2 ?e)) - x / pow2 ?e) * pow2 ?e"
    using False by (simp only: fround_def Let_def left_diff_distrib if_False nonzero_divide_eq_eq [symmetric]) simp
  then have "\<bar>fround p x - x\<bar> = \<bar>of_int (round_half_even (x / pow2 ?e)) - x / pow2 ?e\<bar> * pow2 ?e"
    by (simp only: abs_mult abs_of_pos [OF pow2_pos])
  also have "\<dots> \<le> 1 / 2 * pow2 ?e"
    by (rule mult_right_mono [OF round_half_even_error less_imp_le [OF pow2_pos]])
  finally have "\<bar>fround p x - x\<bar> \<le> 1 / 2 * pow2 ?e" .
  also have "pow2 ?e = 2 * (pow2 (ilog2 \<bar>x\<bar>) * pow2 (- int p))"
    using pow2_add [of "ilog2 \<bar>x\<bar>" "- int p"] pow2_add [of "ilog2 \<bar>x\<bar> - int p" 1]
    by (simp add: pow2_def)
  also have "1 / 2 * (2 * (pow2 (ilog2 \<bar>x\<bar>) * pow2 (- int p))) \<le> \<bar>x\<bar> * pow2 (- int p)"
    using ilog2_bounds [of "\<bar>x\<bar>"] False by (simp add: mult_right_mono less_imp_le)
  finally show ?thesis .
qed (simp add: fround_def)

text \<open>Integers of at most \<open>p\<close> bits are kept.\<close>

lemma fround_int:
  assumes "\<bar>n\<bar> < 2 ^ p"
  shows "fround p (of_int n) = of_int n"
proof (cases "n = 0")
  case False
  define l where "l = ilog2 \<bar>of_int n\<bar>"
  define k where "k = nat (int p - 1 - l)"
  have "pow2 l \<le> \<bar>of_int n\<bar>"
    using ilog2_bounds [of "\<bar>of_int n\<bar>"] False by (simp add: l_def)
  also have "\<dots> = of_int \<bar>n\<bar>"
    by simp
  also have "\<dots> < of_int (2 ^ p)"
    using assms by (simp only: of_int_less_iff)
  also have "\<dots> = pow2 (int p)"
    by (simp add: pow2_nat)
  finally have "l < int p"
    using pow2_mono [of "int p" l] by linarith
  then have e: "l - int p + 1 = - int k"
    by (simp add: k_def)
  have p: "pow2 (- int k) * 2 ^ k = 1"
    by (simp add: pow2_def power_int_minus)
  then have "pow2 (- int k) \<noteq> 0"
    by auto
  then have eq: "of_int n / pow2 (- int k) = of_int (n * 2 ^ k)"
    using p by (simp add: divide_eq_eq mult.assoc mult.commute)
  have "fround p (of_int n) = of_int (round_half_even (of_int n / pow2 (- int k))) * pow2 (- int k)"
    using False by (simp add: fround_def Let_def l_def [symmetric] e)
  also have "\<dots> = of_int n * (pow2 (- int k) * 2 ^ k)"
    unfolding eq round_half_even_int by simp
  finally show ?thesis
    by (simp add: p)
qed (simp add: fround_def)

text \<open>Rounding does not pass a multiple of the unit in the last place.\<close>

lemma fround_le:
  assumes "x \<le> of_int m * pow2 k" "0 \<le> m" "x < pow2 (k + int p)"
  shows "fround p x \<le> of_int m * pow2 k"
proof (cases "0 < x")
  case True
  let ?e = "ilog2 \<bar>x\<bar> - int p + 1"
  have "pow2 (ilog2 \<bar>x\<bar>) < pow2 (k + int p)"
    using ilog2_bounds [OF True] True assms(3) by simp
  then have "ilog2 \<bar>x\<bar> < k + int p"
    using pow2_mono [of "k + int p" "ilog2 \<bar>x\<bar>"] by linarith
  define j where "j = nat (k - ?e)"
  have k: "pow2 k = pow2 ?e * 2 ^ j"
    using \<open>ilog2 \<bar>x\<bar> < k + int p\<close> pow2_add [of ?e "int j"] unfolding pow2_nat by (simp add: j_def)
  have "x / pow2 ?e \<le> of_int (m * 2 ^ j)"
    using assms(1) pow2_pos [of ?e] by (simp add: k divide_le_eq mult.assoc mult.commute mult.left_commute)
  from round_half_even_mono [OF this] have "round_half_even (x / pow2 ?e) \<le> m * 2 ^ j"
    by (simp only: round_half_even_int)
  then have "of_int (round_half_even (x / pow2 ?e)) * pow2 ?e \<le> of_int (m * 2 ^ j) * pow2 ?e"
    by (intro mult_right_mono) (simp_all only: of_int_le_iff less_imp_le [OF pow2_pos])
  then show ?thesis
    using True by (simp add: fround_def Let_def k mult.assoc mult.commute mult.left_commute)
next
  case False
  have "of_int (round_half_even (x / pow2 e)) * pow2 e \<le> 0" for e
  proof -
    have "round_half_even (x / pow2 e) \<le> round_half_even (of_int 0)"
      using False less_imp_le [OF pow2_pos [of e]] by (intro round_half_even_mono) (simp add: divide_le_0_iff)
    then show ?thesis
      using less_imp_le [OF pow2_pos [of e]] by (simp only: round_half_even_int) (simp add: mult_le_0_iff)
  qed
  then have "fround p x \<le> 0"
    by (simp add: fround_def Let_def)
  also have "0 \<le> of_int m * pow2 k"
    using assms(2) less_imp_le [OF pow2_pos [of k]] by simp
  finally show ?thesis .
qed

lemma fround_nonneg: "0 \<le> x \<Longrightarrow> 0 \<le> fround p x"
proof -
  assume "0 \<le> x"
  let ?e = "ilog2 \<bar>x\<bar> - int p + 1"
  have "round_half_even 0 \<le> round_half_even (x / pow2 ?e)"
    using \<open>0 \<le> x\<close> pow2_pos [of ?e] by (intro round_half_even_mono) (simp add: divide_nonneg_pos)
  then have "0 \<le> round_half_even (x / pow2 ?e)"
    using round_half_even_int [of 0] by simp
  then show ?thesis
    using less_imp_le [OF pow2_pos [of ?e]] by (simp add: fround_def Let_def mult_nonneg_nonneg)
qed

text \<open>Rounding commutes with powers of two.\<close>

lemma ilog2_unique: "0 < x \<Longrightarrow> pow2 k \<le> x \<Longrightarrow> x < pow2 (k + 1) \<Longrightarrow> ilog2 x = k"
  using ilog2_bounds [of x] pow2_mono [of "k + 1" "ilog2 x"] pow2_mono [of "ilog2 x + 1" k]
  by (metis add_le_cancel_right linorder_not_le order_antisym order_le_less_trans zle_add1_eq_le)

lemma ilog2_scaled:
  assumes "0 < x"
  shows "ilog2 (x * pow2 k) = ilog2 x + k"
proof (rule ilog2_unique)
  show "0 < x * pow2 k"
    using assms by simp
  show "pow2 (ilog2 x + k) \<le> x * pow2 k"
    using ilog2_bounds [OF assms] by (simp add: pow2_add mult_right_mono less_imp_le)
  have "x * pow2 k < pow2 (ilog2 x + 1) * pow2 k"
    using ilog2_bounds [OF assms] by (intro mult_strict_right_mono) auto
  then show "x * pow2 k < pow2 (ilog2 x + k + 1)"
    by (simp add: pow2_add mult.commute mult.left_commute)
qed

lemma fround_scaled: "fround p (x * pow2 k) = fround p x * pow2 k"
proof (cases "x = 0")
  case False
  define e where "e = ilog2 \<bar>x\<bar> - int p + 1"
  have "ilog2 \<bar>x * pow2 k\<bar> - int p + 1 = e + k"
    using ilog2_scaled [of "\<bar>x\<bar>" k] False by (simp add: abs_mult abs_of_pos [OF pow2_pos] e_def)
  moreover have "x * pow2 k / pow2 (e + k) = x / pow2 e"
    using less_imp_neq [OF pow2_pos [of k]] by (simp add: pow2_add)
  moreover have "x * pow2 k \<noteq> 0"
    using False less_imp_neq [OF pow2_pos [of k]] by simp
  ultimately show ?thesis
    using False by (simp only: fround_def Let_def e_def [symmetric] if_False pow2_add mult.assoc)
qed (simp add: fround_def)

lemma fround_int_scaled: "\<bar>n\<bar> < 2 ^ p \<Longrightarrow> fround p (of_int n * pow2 k) = of_int n * pow2 k"
  by (simp add: fround_scaled fround_int)

lemma fround_ge_ulp:
  assumes "0 < x" "of_int m * pow2 (ilog2 x - int p + 1) \<le> x"
  shows "of_int m * pow2 (ilog2 x - int p + 1) \<le> fround p x"
proof -
  define e where "e = ilog2 x - int p + 1"
  have "of_int m \<le> x / pow2 e"
    using assms(2) by (simp add: le_divide_eq e_def)
  from round_half_even_mono [OF this] have "m \<le> round_half_even (x / pow2 e)"
    by (simp only: round_half_even_int)
  then have "of_int m * pow2 e \<le> of_int (round_half_even (x / pow2 e)) * pow2 e"
    by (intro mult_right_mono) (simp_all only: of_int_le_iff less_imp_le [OF pow2_pos])
  then show ?thesis
    using assms(1) by (simp add: fround_def e_def Let_def)
qed

lemma fround_ge:
  assumes "of_int n \<le> x" "n < 2 ^ p" "0 < n" "0 < p"
  shows "of_int n \<le> fround p x"
proof -
  have x: "0 < x"
    using assms(1,3) by (metis of_int_0_less_iff order_less_le_trans)
  define e where "e = ilog2 x - int p + 1"
  show ?thesis
  proof (cases "e \<le> 0")
    case True
    define k where "k = nat (- e)"
    have k: "2 ^ k * pow2 e = 1"
      using pow2_add [of "int k" e] True unfolding pow2_nat by (simp add: k_def) (simp add: pow2_def)
    have n: "of_int n = of_int (n * 2 ^ k) * pow2 e"
      using k by (simp add: mult.assoc)
    show ?thesis
      using fround_ge_ulp [OF x, of "n * 2 ^ k" p] assms(1) unfolding e_def [symmetric] n [symmetric] by simp
  next
    case False
    have l: "of_int (2 ^ (p - 1)) * pow2 e = pow2 (ilog2 x)"
      using pow2_add [of "int (p - 1)" e] assms(4) by (simp add: pow2_nat [symmetric] e_def)
    have "of_int n < (of_int (2 ^ p) :: rat)"
      using assms(2) by (simp only: of_int_less_iff)
    also have "\<dots> = pow2 (int p)"
      by (simp add: pow2_nat)
    also have "\<dots> \<le> pow2 (ilog2 x)"
      by (rule pow2_mono) (use False in \<open>simp add: e_def\<close>)
    also have "\<dots> \<le> fround p x"
      using fround_ge_ulp [OF x, of "2 ^ (p - 1)" p] ilog2_bounds [OF x] unfolding e_def [symmetric] l by simp
    finally show ?thesis by simp
  qed
qed

lemma float_round_error: "\<bar>float_round x - x\<bar> \<le> \<bar>x\<bar> / 2 ^ 24"
proof -
  have "pow2 (- int 24) = 1 / 2 ^ 24"
    by (simp add: pow2_def power_int_def power_one_over)
  then show ?thesis
    using fround_error [of 24 x] by (simp only: float_round_def) simp
qed

lemma float_round_int: "\<bar>n\<bar> < 2 ^ 24 \<Longrightarrow> float_round (of_int n) = of_int n"
  unfolding float_round_def by (rule fround_int)

lemma float_round_le: "x \<le> of_int n \<Longrightarrow> 0 \<le> n \<Longrightarrow> n < 2 ^ 24 \<Longrightarrow> float_round x \<le> of_int n"
proof -
  assume a: "x \<le> of_int n" "0 \<le> n" "n < 2 ^ 24"
  then have "of_int n < (of_int (2 ^ 24) :: rat)"
    by (simp only: of_int_less_iff)
  then show ?thesis
    using a fround_le [of x n 0 24] unfolding float_round_def by (simp add: pow2_def)
qed

lemma float_round_nonneg: "0 \<le> x \<Longrightarrow> 0 \<le> float_round x"
  unfolding float_round_def by (rule fround_nonneg)

lemma float_round_ge: "of_int n \<le> x \<Longrightarrow> 0 < n \<Longrightarrow> n < 2 ^ 24 \<Longrightarrow> of_int n \<le> float_round x"
  unfolding float_round_def by (rule fround_ge) simp_all

lemma to_integer_nonneg: "0 \<le> x \<Longrightarrow> 0 \<le> to_integer x \<and> of_int (to_integer x) \<le> x \<and> x < of_int (to_integer x) + 1"
  using floor_correct [of x] by (simp add: to_integer_def)

lemma float_round_double: "0 \<le> x \<Longrightarrow> float_round x \<le> 2 * x"
  using float_round_error [of x] unfolding abs_le_iff by simp

end
