(* ===== verification/Stream_Sequencer_Buffer.thy ===== *)
theory Stream_Sequencer_Buffer
  imports Quic_Prelude Float_Model "HOL-Library.Monad_Syntax"
begin

text \<open>
  The reassembly buffer of a stream,
  \<^verbatim>\<open>src/model/net/quic/core/quic_stream_sequencer_buffer.{h,cc}\<close>: a circular buffer of lazily
  allocated blocks of 8 KB, the list of gaps in the received data and the arrival times of the frames.

  Offsets and sizes are naturals below \<open>2 ^ 64\<close> with the wrap-around of the 64-bit operations written
  out.  A block is a total function on its 8192 positions, all zero when it is allocated
  (\<^verbatim>\<open>new BufferBlock()\<close>); an access beyond its end, through a null pointer, or to the front of an
  empty list has the value \<open>None\<close>, as has a loop whose step makes no progress.  The texts of
  \<^verbatim>\<open>error_details\<close> and the use-after-free marker are not modelled.

  The theory shows that the buffer refines a stream of bytes: a partial map from offsets to bytes
  and the number of bytes consumed.
\<close>

section \<open>The data\<close>

definition kBlockSizeBytes :: nat where "kBlockSizeBytes = 8 * 1024"
definition kMaxPacketGap :: nat where "kMaxPacketGap = 5000"
definition kMaxNumGapsAllowed :: nat where "kMaxNumGapsAllowed = 2 * kMaxPacketGap"
definition kMaxOffset :: nat where "kMaxOffset = 2 ^ 64 - 1"

datatype QuicErrorCode =
    QUIC_NO_ERROR
  | QUIC_INTERNAL_ERROR
  | QUIC_EMPTY_STREAM_FRAME_NO_FIN
  | QUIC_OVERLAPPING_STREAM_DATA
  | QUIC_TOO_MANY_FRAME_GAPS
  | QUIC_STREAM_SEQUENCER_INVALID_STATE

datatype Gap = Gap (begin_offset: nat) (end_offset: nat)

datatype FrameInfo = FrameInfo (frame_length: nat) (timestamp: QuicTime)

type_synonym buffer_block = "nat \<Rightarrow> uint8"

record sequencer_buffer =
  max_buffer_capacity_bytes :: nat
  blocks_count :: nat
  total_bytes_read :: nat
  gaps :: "Gap list"
  blocks :: "buffer_block option list option"
  num_bytes_buffered :: nat
  frame_arrival_time_map :: "(nat \<times> FrameInfo) list"

section \<open>Positions\<close>

definition GetBlockIndex :: "sequencer_buffer \<Rightarrow> nat \<Rightarrow> nat" where
  "GetBlockIndex b offset = (offset mod max_buffer_capacity_bytes b) div kBlockSizeBytes"

definition GetInBlockOffset :: "sequencer_buffer \<Rightarrow> nat \<Rightarrow> nat" where
  "GetInBlockOffset b offset = (offset mod max_buffer_capacity_bytes b) mod kBlockSizeBytes"

definition ReadOffset :: "sequencer_buffer \<Rightarrow> nat" where
  "ReadOffset b = GetInBlockOffset b (total_bytes_read b)"

definition NextBlockToRead :: "sequencer_buffer \<Rightarrow> nat" where
  "NextBlockToRead b = GetBlockIndex b (total_bytes_read b)"

definition GetBlockCapacity :: "sequencer_buffer \<Rightarrow> nat \<Rightarrow> nat" where
  "GetBlockCapacity b block_index =
     (if add64 block_index 1 = blocks_count b
      then let result = max_buffer_capacity_bytes b mod kBlockSizeBytes in
        if result = 0 then kBlockSizeBytes else result
      else kBlockSizeBytes)"

text \<open>\<^verbatim>\<open>gaps_.front()\<close> and \<^verbatim>\<open>gaps_.back()\<close>.\<close>

definition gaps_front :: "sequencer_buffer \<Rightarrow> Gap option" where
  "gaps_front b = (if gaps b = [] then None else Some (hd (gaps b)))"

definition gaps_back :: "sequencer_buffer \<Rightarrow> Gap option" where
  "gaps_back b = (if gaps b = [] then None else Some (last (gaps b)))"

definition ReadableBytes :: "sequencer_buffer \<Rightarrow> nat option" where
  "ReadableBytes b = map_option (\<lambda>g. sub64 (begin_offset g) (total_bytes_read b)) (gaps_front b)"

definition HasBytesToRead :: "sequencer_buffer \<Rightarrow> bool option" where
  "HasBytesToRead b = map_option (\<lambda>n. n > 0) (ReadableBytes b)"

definition BytesConsumed :: "sequencer_buffer \<Rightarrow> nat" where
  "BytesConsumed b = total_bytes_read b"

definition BytesBuffered :: "sequencer_buffer \<Rightarrow> nat" where
  "BytesBuffered b = num_bytes_buffered b"

definition buffer_Empty :: "sequencer_buffer \<Rightarrow> bool" where
  "buffer_Empty b = (length (gaps b) = 1 \<and> begin_offset (hd (gaps b)) = total_bytes_read b)"

section \<open>Blocks\<close>

definition RetireBlock :: "sequencer_buffer \<Rightarrow> nat \<Rightarrow> (sequencer_buffer \<times> bool) option" where
  "RetireBlock b idx =
     (case blocks b of
        None \<Rightarrow> None
      | Some bs \<Rightarrow>
          if idx < length bs then
            (case bs ! idx of
               None \<Rightarrow> Some (b, False)
             | Some _ \<Rightarrow> Some (b\<lparr>blocks := Some (bs[idx := None])\<rparr>, True))
          else None)"

definition RetireBlockIfEmpty :: "sequencer_buffer \<Rightarrow> nat \<Rightarrow> (sequencer_buffer \<times> bool) option" where
  "RetireBlockIfEmpty b block_index =
     (if buffer_Empty b then RetireBlock b block_index
      else do {
        back_gap \<leftarrow> gaps_back b;
        if GetBlockIndex b (sub64 (begin_offset back_gap) 1) = block_index then Some (b, True)
        else do {
          first_gap \<leftarrow> gaps_front b;
          if NextBlockToRead b = block_index \<and> GetBlockIndex b (end_offset first_gap) = block_index
          then Some (b, True)
          else RetireBlock b block_index
        }
      })"

primrec retire_blocks :: "sequencer_buffer \<Rightarrow> nat list \<Rightarrow> sequencer_buffer option" where
  "retire_blocks b [] = Some b"
| "retire_blocks b (i # is) =
     (case blocks b of
        None \<Rightarrow> None
      | Some bs \<Rightarrow>
          if i < length bs then
            if bs ! i \<noteq> None then do { (b, ok) \<leftarrow> RetireBlock b i; retire_blocks b is }
            else retire_blocks b is
          else None)"

definition Clear :: "sequencer_buffer \<Rightarrow> sequencer_buffer option" where
  "Clear b = do {
     b \<leftarrow> (if blocks b \<noteq> None then retire_blocks b [0..<blocks_count b] else Some b);
     Some (b\<lparr>num_bytes_buffered := 0, gaps := [Gap (total_bytes_read b) kMaxOffset],
             frame_arrival_time_map := []\<rparr>)
   }"

text \<open>The constructor divides as \<^verbatim>\<open>double\<close> and rounds up; it ends the process unless there are two blocks.\<close>

definition QuicStreamSequencerBuffer :: "nat \<Rightarrow> sequencer_buffer option" where
  "QuicStreamSequencerBuffer max_capacity_bytes =
     (let n = nat \<lceil>double_round (double_round (of_nat max_capacity_bytes) / of_nat kBlockSizeBytes)\<rceil> in
      if n > 1 then
        Clear \<lparr>max_buffer_capacity_bytes = max_capacity_bytes, blocks_count = n, total_bytes_read = 0,
          gaps = [], blocks = None, num_bytes_buffered = 0, frame_arrival_time_map = []\<rparr>
      else None)"

definition ReleaseWholeBuffer :: "sequencer_buffer \<Rightarrow> sequencer_buffer option" where
  "ReleaseWholeBuffer b = do { b \<leftarrow> Clear b; Some (b\<lparr>blocks := None\<rparr>) }"

definition FlushBufferedFrames :: "sequencer_buffer \<Rightarrow> (sequencer_buffer \<times> nat) option" where
  "FlushBufferedFrames b = do {
     back_gap \<leftarrow> gaps_back b;
     let prev_total_bytes_read = total_bytes_read b;
     b \<leftarrow> Clear (b\<lparr>total_bytes_read := begin_offset back_gap\<rparr>);
     Some (b, sub64 (total_bytes_read b) prev_total_bytes_read)
   }"

section \<open>Arrival times\<close>

text \<open>\<^verbatim>\<open>std::map::insert\<close> on the list of entries by increasing key: it keeps an entry that exists.\<close>

fun arrival_insert :: "nat \<Rightarrow> FrameInfo \<Rightarrow> (nat \<times> FrameInfo) list \<Rightarrow> (nat \<times> FrameInfo) list" where
  "arrival_insert k f [] = [(k, f)]"
| "arrival_insert k f ((k', f') # m) =
     (if k < k' then (k, f) # (k', f') # m
      else if k = k' then (k', f') # m
      else (k', f') # arrival_insert k f m)"

text \<open>The loop of \<^verbatim>\<open>UpdateFrameArrivalMap\<close> over the entries up to \<^verbatim>\<open>offset\<close>: each is erased, and one that
  reaches beyond \<^verbatim>\<open>offset\<close> is inserted again at \<^verbatim>\<open>offset\<close> unless there is an entry.  The entry inserted is
  visited later by the loop, unless the erased entry was the last to visit; then it stays (\<open>kept\<close>).\<close>

function erase_frames ::
  "nat \<Rightarrow> (nat \<times> FrameInfo) list \<Rightarrow> FrameInfo option \<Rightarrow> FrameInfo option" where
  "erase_frames offset [] kept = kept"
| "erase_frames offset ((k, f) # es) kept =
     (if add64 k (frame_length f) > offset then
        let updated = FrameInfo (sub64 (add64 k (frame_length f)) offset) (timestamp f) in
        if offset \<in> fst ` set es \<or> kept \<noteq> None then erase_frames offset es kept
        else if k < offset \<and> es \<noteq> [] then erase_frames offset (es @ [(offset, updated)]) kept
        else erase_frames offset es (Some updated)
      else erase_frames offset es kept)"
  by pat_completeness auto
termination
  by (relation "measure (\<lambda>(offset, es, kept). 2 * length (filter (\<lambda>e. fst e < offset) es) + length es)") auto

definition UpdateFrameArrivalMap :: "sequencer_buffer \<Rightarrow> nat \<Rightarrow> sequencer_buffer" where
  "UpdateFrameArrivalMap b offset =
     (let m = frame_arrival_time_map b;
          visited = takeWhile (\<lambda>e. fst e \<le> offset) m;
          rest = dropWhile (\<lambda>e. fst e \<le> offset) m in
      b\<lparr>frame_arrival_time_map :=
        (case erase_frames offset visited None of None \<Rightarrow> rest | Some f \<Rightarrow> (offset, f) # rest)\<rparr>)"

section \<open>Writing\<close>

text \<open>The gap list after \<^verbatim>\<open>bytes_written\<close> bytes were written at \<^verbatim>\<open>start_offset\<close> into the gap with index
  \<^verbatim>\<open>i\<close>.\<close>

definition UpdateGapList :: "Gap list \<Rightarrow> nat \<Rightarrow> nat \<Rightarrow> nat \<Rightarrow> Gap list" where
  "UpdateGapList gs i start_offset bytes_written =
     (let g = gs ! i; written_end = add64 start_offset bytes_written in
      if begin_offset g = start_offset \<and> end_offset g > written_end then
        gs[i := Gap written_end (end_offset g)]
      else if begin_offset g < start_offset \<and> end_offset g = written_end then
        gs[i := Gap (begin_offset g) start_offset]
      else if begin_offset g < start_offset \<and> end_offset g > written_end then
        take i gs @ [Gap (begin_offset g) start_offset, Gap written_end (end_offset g)] @ drop (Suc i) gs
      else if begin_offset g = start_offset \<and> end_offset g = written_end then
        take i gs @ drop (Suc i) gs
      else gs)"

definition memcpy :: "buffer_block \<Rightarrow> nat \<Rightarrow> uint8 list \<Rightarrow> buffer_block" where
  "memcpy block at_offset source =
     (\<lambda>i. if at_offset \<le> i \<and> i < at_offset + length source then source ! (i - at_offset) else block i)"

text \<open>One round of the write loop: the number of bytes copied, or an error.\<close>

definition write_block ::
  "sequencer_buffer \<Rightarrow> nat \<Rightarrow> uint8 list \<Rightarrow> (sequencer_buffer \<times> (QuicErrorCode + nat)) option" where
  "write_block b offset source =
     (let write_block_num = GetBlockIndex b offset;
          write_block_offset = GetInBlockOffset b offset;
          bytes_avail = sub64 (GetBlockCapacity b write_block_num) write_block_offset;
          range_end = add64 (total_bytes_read b) (max_buffer_capacity_bytes b);
          bytes_avail = (if add64 offset bytes_avail > range_end then sub64 range_end offset else bytes_avail);
          bs = (case blocks b of None \<Rightarrow> replicate (blocks_count b) None | Some bs \<Rightarrow> bs) in
      if write_block_num \<ge> blocks_count b
      then Some (b\<lparr>blocks := Some bs\<rparr>, Inl QUIC_STREAM_SEQUENCER_INVALID_STATE)
      else
        let block = (case bs ! write_block_num of None \<Rightarrow> (\<lambda>_. 0) | Some block \<Rightarrow> block);
            bytes_to_copy = min bytes_avail (length source) in
        if write_block_offset + bytes_to_copy \<le> kBlockSizeBytes
        then Some (b\<lparr>blocks := Some (bs[write_block_num :=
                       Some (memcpy block write_block_offset (take bytes_to_copy source))])\<rparr>,
                   Inr bytes_to_copy)
        else None)"

function write_blocks ::
  "sequencer_buffer \<Rightarrow> nat \<Rightarrow> uint8 list \<Rightarrow> (sequencer_buffer \<times> QuicErrorCode) option" where
  "write_blocks b offset source =
     (if source = [] then Some (b, QUIC_NO_ERROR)
      else
        case write_block b offset source of
          None \<Rightarrow> None
        | Some (b, Inl e) \<Rightarrow> Some (b, e)
        | Some (b, Inr bytes_to_copy) \<Rightarrow>
            if bytes_to_copy = 0 then None
            else write_blocks b (add64 offset bytes_to_copy) (drop bytes_to_copy source))"
  by pat_completeness auto
termination by (relation "measure (\<lambda>(b, offset, source). length source)") auto

declare write_blocks.simps [simp del]

definition OnStreamData ::
  "sequencer_buffer \<Rightarrow> nat \<Rightarrow> uint8 list \<Rightarrow> QuicTime \<Rightarrow> (sequencer_buffer \<times> QuicErrorCode \<times> nat) option" where
  "OnStreamData b starting_offset data now =
     (let offset = starting_offset; size = length data in
      if size = 0 then Some (b, QUIC_EMPTY_STREAM_FRAME_NO_FIN, 0)
      else
        let i = length (takeWhile (\<lambda>g. end_offset g \<le> offset) (gaps b)) in
        if i = length (gaps b) then None
        else
          let current_gap = gaps b ! i; frame_end = add64 offset size in
          if offset < begin_offset current_gap \<and> frame_end \<le> begin_offset current_gap
          then Some (b, QUIC_NO_ERROR, 0)
          else if offset < begin_offset current_gap \<and> frame_end > begin_offset current_gap
          then Some (b, QUIC_OVERLAPPING_STREAM_DATA, 0)
          else if frame_end > end_offset current_gap
          then Some (b, QUIC_OVERLAPPING_STREAM_DATA, 0)
          else if frame_end > add64 (total_bytes_read b) (max_buffer_capacity_bytes b)
          then Some (b, QUIC_INTERNAL_ERROR, 0)
          else if begin_offset current_gap \<noteq> starting_offset \<and> end_offset current_gap \<noteq> frame_end \<and>
            length (gaps b) \<ge> kMaxNumGapsAllowed
          then Some (b, QUIC_TOO_MANY_FRAME_GAPS, 0)
          else
            case write_blocks b offset data of
              None \<Rightarrow> None
            | Some (b, e) \<Rightarrow>
                if e \<noteq> QUIC_NO_ERROR then Some (b, e, 0)
                else Some (b\<lparr>gaps := UpdateGapList (gaps b) i starting_offset size,
                  frame_arrival_time_map := arrival_insert starting_offset (FrameInfo size now) (frame_arrival_time_map b),
                  num_bytes_buffered := add64 (num_bytes_buffered b) size\<rparr>, QUIC_NO_ERROR, size))"

section \<open>Reading\<close>

text \<open>One round of the inner loop of \<^verbatim>\<open>Readv\<close>: the bytes copied and whether the loop may go on.\<close>

definition read_block ::
  "sequencer_buffer \<Rightarrow> nat \<Rightarrow> (sequencer_buffer \<times> QuicErrorCode \<times> uint8 list) option" where
  "read_block b dest_remaining = do {
     readable \<leftarrow> ReadableBytes b;
     let block_idx = NextBlockToRead b;
     let start_offset_in_block = ReadOffset b;
     let bytes_available_in_block = min readable (sub64 (GetBlockCapacity b block_idx) start_offset_in_block);
     let bytes_to_copy = min bytes_available_in_block dest_remaining;
     bs \<leftarrow> blocks b;
     if block_idx \<ge> length bs then None
     else
       case bs ! block_idx of
         None \<Rightarrow> Some (b, QUIC_STREAM_SEQUENCER_INVALID_STATE, [])
       | Some block \<Rightarrow>
           if start_offset_in_block + bytes_to_copy > kBlockSizeBytes then None
           else do {
             let data = map block [start_offset_in_block..<start_offset_in_block + bytes_to_copy];
             let b = b\<lparr>num_bytes_buffered := sub64 (num_bytes_buffered b) bytes_to_copy,
                       total_bytes_read := add64 (total_bytes_read b) bytes_to_copy\<rparr>;
             if bytes_to_copy = bytes_available_in_block then do {
               (b, retired) \<leftarrow> RetireBlockIfEmpty b block_idx;
               Some (b, if retired then QUIC_NO_ERROR else QUIC_STREAM_SEQUENCER_INVALID_STATE, data)
             } else Some (b, QUIC_NO_ERROR, data)
           }
   }"

text \<open>The inner loop of \<^verbatim>\<open>Readv\<close>, which fills one buffer of the caller.\<close>

function read_blocks ::
  "sequencer_buffer \<Rightarrow> nat \<Rightarrow> (sequencer_buffer \<times> QuicErrorCode \<times> uint8 list) option" where
  "read_blocks b dest_remaining =
     (if dest_remaining = 0 then Some (b, QUIC_NO_ERROR, [])
      else
        case ReadableBytes b of
          None \<Rightarrow> None
        | Some readable \<Rightarrow>
            if readable = 0 then Some (b, QUIC_NO_ERROR, [])
            else
              case read_block b dest_remaining of
                None \<Rightarrow> None
              | Some (b, e, data) \<Rightarrow>
                  if e \<noteq> QUIC_NO_ERROR then Some (b, e, data)
                  else if data = [] then None
                  else map_option (\<lambda>(b, e, more). (b, e, data @ more))
                         (read_blocks b (dest_remaining - length data)))"
  by pat_completeness auto
termination by (relation "measure (\<lambda>(b, dest_remaining). dest_remaining)") auto

declare read_blocks.simps [simp del]

text \<open>The outer loop, over the lengths of the caller's buffers.\<close>

primrec read_iovecs ::
  "sequencer_buffer \<Rightarrow> nat list \<Rightarrow> (sequencer_buffer \<times> QuicErrorCode \<times> uint8 list list) option" where
  "read_iovecs b [] = Some (b, QUIC_NO_ERROR, [])"
| "read_iovecs b (iov_len # iovs) = do {
     readable \<leftarrow> ReadableBytes b;
     if readable = 0 then Some (b, QUIC_NO_ERROR, [])
     else do {
       (b, e, data) \<leftarrow> read_blocks b iov_len;
       if e \<noteq> QUIC_NO_ERROR then Some (b, e, [data])
       else map_option (\<lambda>(b, e, more). (b, e, data # more)) (read_iovecs b iovs)
     }
   }"

definition Readv ::
  "sequencer_buffer \<Rightarrow> nat list \<Rightarrow> (sequencer_buffer \<times> QuicErrorCode \<times> uint8 list list) option" where
  "Readv b dest_iov = do {
     (b, e, data) \<leftarrow> read_iovecs b dest_iov;
     Some (if e = QUIC_NO_ERROR \<and> concat data \<noteq> [] then UpdateFrameArrivalMap b (total_bytes_read b) else b, e, data)
   }"

function consume_blocks :: "sequencer_buffer \<Rightarrow> nat \<Rightarrow> sequencer_buffer option" where
  "consume_blocks b bytes_to_consume =
     (if bytes_to_consume = 0 then Some b
      else
        case ReadableBytes b of
          None \<Rightarrow> None
        | Some readable \<Rightarrow>
            let block_idx = NextBlockToRead b;
                bytes_available = min readable (sub64 (GetBlockCapacity b block_idx) (ReadOffset b));
                bytes_read = min bytes_to_consume bytes_available;
                b = b\<lparr>total_bytes_read := add64 (total_bytes_read b) bytes_read,
                      num_bytes_buffered := sub64 (num_bytes_buffered b) bytes_read\<rparr> in
            case (if bytes_available = bytes_read then map_option fst (RetireBlockIfEmpty b block_idx) else Some b) of
              None \<Rightarrow> None
            | Some b \<Rightarrow>
                if bytes_read = 0 then None
                else consume_blocks b (bytes_to_consume - bytes_read))"
  by pat_completeness auto
termination by (relation "measure (\<lambda>(b, n). n)") auto

declare consume_blocks.simps [simp del]

definition MarkConsumed :: "sequencer_buffer \<Rightarrow> nat \<Rightarrow> (sequencer_buffer \<times> bool) option" where
  "MarkConsumed b bytes_used = do {
     readable \<leftarrow> ReadableBytes b;
     if bytes_used > readable then Some (b, False)
     else do {
       b \<leftarrow> consume_blocks b bytes_used;
       Some (if bytes_used > 0 then UpdateFrameArrivalMap b (total_bytes_read b) else b, True)
     }
   }"

section \<open>Regions\<close>

text \<open>An \<^verbatim>\<open>iovec\<close> points into a block: the index of the block and a position in it, or null.\<close>

datatype iovec = iovec (iov_base: "(nat \<times> nat) option") (iov_len: nat)

text \<open>\<^verbatim>\<open>blocks_[i]->buffer + o\<close>.\<close>

definition block_pointer :: "sequencer_buffer \<Rightarrow> nat \<Rightarrow> nat \<Rightarrow> (nat \<times> nat) option" where
  "block_pointer b i o' =
     (case blocks b of
        None \<Rightarrow> None
      | Some bs \<Rightarrow> if i < length bs \<and> bs ! i \<noteq> None then Some (i, o') else None)"

function whole_blocks ::
  "sequencer_buffer \<Rightarrow> nat \<Rightarrow> nat \<Rightarrow> nat \<Rightarrow> nat \<Rightarrow> (iovec list \<times> nat) option" where
  "whole_blocks b start_block_idx end_block_idx iov_used iov_count =
     (let block_idx = (start_block_idx + iov_used) mod blocks_count b in
      if block_idx \<noteq> end_block_idx \<and> iov_used < iov_count then do {
        p \<leftarrow> block_pointer b block_idx 0;
        (regions, used) \<leftarrow> whole_blocks b start_block_idx end_block_idx (iov_used + 1) iov_count;
        Some (iovec (Some p) (GetBlockCapacity b block_idx) # regions, used)
      } else Some ([], iov_used))"
  by pat_completeness auto
termination by (relation "measure (\<lambda>(b, s, e, used, count). count - used)") auto

declare whole_blocks.simps [simp del]

definition GetReadableRegions :: "sequencer_buffer \<Rightarrow> nat \<Rightarrow> (iovec list \<times> nat) option" where
  "GetReadableRegions b iov_count = do {
     readable \<leftarrow> ReadableBytes b;
     if readable = 0 then Some ([iovec None 0], 0)
     else do {
       let start_block_idx = NextBlockToRead b;
       front_gap \<leftarrow> gaps_front b;
       let readable_offset_end = sub64 (begin_offset front_gap) 1;
       let end_block_offset = GetInBlockOffset b readable_offset_end;
       let end_block_idx = GetBlockIndex b readable_offset_end;
       p \<leftarrow> block_pointer b start_block_idx (ReadOffset b);
       if start_block_idx = end_block_idx \<and> ReadOffset b \<le> end_block_offset
       then Some ([iovec (Some p) readable], 1)
       else do {
         let first_region = iovec (Some p) (sub64 (GetBlockCapacity b start_block_idx) (ReadOffset b));
         (regions, iov_used) \<leftarrow> whole_blocks b start_block_idx end_block_idx 1 iov_count;
         if iov_used < iov_count then do {
           q \<leftarrow> block_pointer b end_block_idx 0;
           Some (first_region # regions @ [iovec (Some q) (end_block_offset + 1)], iov_used + 1)
         } else Some (first_region # regions, iov_used)
       }
     }
   }"

text \<open>The loop of \<^verbatim>\<open>GetReadableRegion\<close> over the frames: the length of the region and the entry it stops at.\<close>

fun same_time_region ::
  "QuicTime \<Rightarrow> nat \<Rightarrow> (nat \<times> FrameInfo) list \<Rightarrow> nat \<Rightarrow> nat \<times> (nat \<times> FrameInfo) list" where
  "same_time_region time available [] region_len = (region_len, [])"
| "same_time_region time available ((k, f) # m) region_len =
     (if add64 region_len (frame_length f) \<le> available \<and> timestamp f = time
      then same_time_region time available m (add64 region_len (frame_length f))
      else (region_len, (k, f) # m))"

definition GetReadableRegion :: "sequencer_buffer \<Rightarrow> (bool \<times> iovec \<times> QuicTime option) option" where
  "GetReadableRegion b = do {
     readable \<leftarrow> ReadableBytes b;
     if readable = 0 then Some (False, iovec None 0, None)
     else do {
       let start_block_idx = NextBlockToRead b;
       p \<leftarrow> block_pointer b start_block_idx (ReadOffset b);
       let readable_bytes_in_block = min (sub64 (GetBlockCapacity b start_block_idx) (ReadOffset b)) readable;
       time \<leftarrow> (case frame_arrival_time_map b of [] \<Rightarrow> None | (k, f) # m \<Rightarrow> Some (timestamp f));
       let (region_len, rest) = same_time_region time readable_bytes_in_block (frame_arrival_time_map b) 0;
       let region_len = (if rest = [] \<or> timestamp (snd (hd rest)) = time then readable_bytes_in_block else region_len);
       Some (True, iovec (Some p) region_len, Some time)
     }
   }"

section \<open>The stream of bytes\<close>

text \<open>The contract: what was consumed, and the bytes received beyond it.  Receiving a frame with
  bytes that are not new is harmless if none is, and an error otherwise; a frame beyond the capacity
  or one that makes too many gaps is refused.\<close>

record stream_spec =
  consumed :: nat
  stored :: "nat \<Rightarrow> uint8 option"

definition received :: "stream_spec \<Rightarrow> nat \<Rightarrow> bool" where
  "received s i \<longleftrightarrow> i < consumed s \<or> stored s i \<noteq> None"

definition gap_start :: "stream_spec \<Rightarrow> nat \<Rightarrow> bool" where
  "gap_start s i \<longleftrightarrow> \<not> received s i \<and> (i = 0 \<or> received s (i - 1))"

definition readable_bytes :: "stream_spec \<Rightarrow> nat" where
  "readable_bytes s = (LEAST n. stored s (consumed s + n) = None)"

definition store :: "(nat \<Rightarrow> uint8 option) \<Rightarrow> nat \<Rightarrow> uint8 list \<Rightarrow> nat \<Rightarrow> uint8 option" where
  "store m offset data = (\<lambda>i. if offset \<le> i \<and> i < offset + length data then Some (data ! (i - offset)) else m i)"

definition spec_receive :: "nat \<Rightarrow> stream_spec \<Rightarrow> nat \<Rightarrow> uint8 list \<Rightarrow> stream_spec \<times> QuicErrorCode \<times> nat" where
  "spec_receive capacity s offset data =
     (let range = {offset..<offset + length data} in
      if data = [] then (s, QUIC_EMPTY_STREAM_FRAME_NO_FIN, 0)
      else if \<forall>i\<in>range. received s i then (s, QUIC_NO_ERROR, 0)
      else if \<exists>i\<in>range. received s i then (s, QUIC_OVERLAPPING_STREAM_DATA, 0)
      else if offset + length data > consumed s + capacity then (s, QUIC_INTERNAL_ERROR, 0)
      else if \<not> gap_start s offset \<and> \<not> received s (offset + length data) \<and>
        card {i. gap_start s i} \<ge> kMaxNumGapsAllowed then (s, QUIC_TOO_MANY_FRAME_GAPS, 0)
      else (s\<lparr>stored := store (stored s) offset data\<rparr>, QUIC_NO_ERROR, length data))"

definition spec_consume :: "stream_spec \<Rightarrow> nat \<Rightarrow> stream_spec" where
  "spec_consume s n =
     s\<lparr>consumed := consumed s + n, stored := (\<lambda>i. if i < consumed s + n then None else stored s i)\<rparr>"

definition spec_data :: "stream_spec \<Rightarrow> nat \<Rightarrow> uint8 list" where
  "spec_data s n = map (\<lambda>i. the (stored s (consumed s + i))) [0..<n]"

primrec spec_readv :: "stream_spec \<Rightarrow> nat list \<Rightarrow> stream_spec \<times> uint8 list list" where
  "spec_readv s [] = (s, [])"
| "spec_readv s (len # lens) =
     (if readable_bytes s = 0 then (s, [])
      else let n = min len (readable_bytes s); (s', data) = spec_readv (spec_consume s n) lens in
        (s', spec_data s n # data))"

definition spec_clear :: "stream_spec \<Rightarrow> stream_spec" where
  "spec_clear s = s\<lparr>stored := Map.empty\<rparr>"

definition spec_flush :: "stream_spec \<Rightarrow> stream_spec \<times> nat" where
  "spec_flush s =
     (let last = (if dom (stored s) = {} then consumed s else Suc (Max (dom (stored s)))) in
      (\<lparr>consumed = last, stored = Map.empty\<rparr>, last - consumed s))"

section \<open>Arithmetic\<close>

lemma kBlockSizeBytes_pos [simp]: "0 < kBlockSizeBytes"
  by (simp add: kBlockSizeBytes_def)

text \<open>Within a window of the length of the buffer, positions determine offsets.\<close>

lemma mod_inj_window:
  fixes c t i j :: nat
  assumes "t \<le> i" "i < t + c" "t \<le> j" "j < t + c" "i mod c = j mod c"
  shows "i = j"
proof -
  have "i \<le> j \<Longrightarrow> i = j" if "t \<le> i" "j < t + c" "i mod c = j mod c" for i j :: nat
  proof -
    assume "i \<le> j"
    then have "c dvd j - i" using that(3) by (metis mod_eq_dvd_iff_nat)
    moreover have "j - i < c" using that(1,2) \<open>i \<le> j\<close> by arith
    ultimately have "j - i = 0" by (meson nat_dvd_not_less gr0I)
    then show "i = j" using \<open>i \<le> j\<close> by simp
  qed
  from this [OF assms(1,4,5)] this [OF assms(3,2) assms(5) [symmetric]] show ?thesis by fastforce
qed

lemma mod_add_small: "p mod c + k < c \<Longrightarrow> (p + k) mod c = p mod c + k" for p c k :: nat
  by (metis mod_add_left_eq mod_less)

text \<open>The dimensions of a buffer, as the constructor sets them.\<close>

definition well_sized :: "sequencer_buffer \<Rightarrow> bool" where
  "well_sized b \<longleftrightarrow> 1 < blocks_count b \<and> max_buffer_capacity_bytes b \<le> 2 ^ 32 \<and>
     blocks_count b = (max_buffer_capacity_bytes b + kBlockSizeBytes - 1) div kBlockSizeBytes \<and>
     (\<forall>bs. blocks b = Some bs \<longrightarrow> length bs = blocks_count b)"

lemma well_sizedD:
  assumes "well_sized b"
  shows "kBlockSizeBytes < max_buffer_capacity_bytes b" "max_buffer_capacity_bytes b \<le> 2 ^ 32"
    "\<And>p. p < max_buffer_capacity_bytes b \<longleftrightarrow> p div kBlockSizeBytes < blocks_count b \<and> p < max_buffer_capacity_bytes b"
    "blocks_count b \<le> 2 ^ 32"
proof -
  let ?c = "max_buffer_capacity_bytes b"
  have n: "1 < blocks_count b" "?c \<le> 2 ^ 32" "blocks_count b = (?c + kBlockSizeBytes - 1) div kBlockSizeBytes"
    using assms by (auto simp: well_sized_def)
  show "?c \<le> 2 ^ 32" by (rule n(2))
  have "2 * kBlockSizeBytes \<le> ?c + kBlockSizeBytes - 1"
    using n(1) less_eq_div_iff_mult_less_eq [of kBlockSizeBytes 2 "?c + kBlockSizeBytes - 1"] unfolding n(3) by simp
  then show "kBlockSizeBytes < ?c" by (simp add: kBlockSizeBytes_def)
  show "blocks_count b \<le> 2 ^ 32" unfolding n(3) using n(2) by (simp add: kBlockSizeBytes_def)
  show "p < ?c \<longleftrightarrow> p div kBlockSizeBytes < blocks_count b \<and> p < ?c" for p
  proof -
    have "p < ?c \<Longrightarrow> p div kBlockSizeBytes < blocks_count b" unfolding n(3)
      by (simp add: kBlockSizeBytes_def div_less_iff_less_mult)
    then show ?thesis by blast
  qed
qed

lemma last_block_length:
  fixes c i :: nat
  assumes "i * 8192 < c" "c \<le> (i + 1) * 8192"
  shows "c mod 8192 = (if c = (i + 1) * 8192 then 0 else c - i * 8192)"
proof -
  define d where "d = c - i * 8192"
  then have "c = i * 8192 + d" "0 < d" "d \<le> 8192" using assms by auto
  then show ?thesis by (cases "d = 8192") auto
qed

lemma blocks_round_up:
  fixes c :: nat
  assumes "0 < c"
  shows "c \<le> (c + 8191) div 8192 * 8192 \<and> (c + 8191) div 8192 * 8192 < c + 8192"
proof -
  have "(c + 8191) div 8192 * 8192 \<le> c + 8191" "c + 8191 < ((c + 8191) div 8192) * 8192 + 8192"
    using dividend_less_times_div [of 8192 "c + 8191"] by simp_all
  then show ?thesis by linarith
qed

lemma GetBlockCapacity_eq:
  assumes "well_sized b" "i < blocks_count b"
  shows "i * kBlockSizeBytes + GetBlockCapacity b i = min ((i + 1) * kBlockSizeBytes) (max_buffer_capacity_bytes b)"
    and "GetBlockCapacity b i \<le> kBlockSizeBytes"
proof -
  let ?c = "max_buffer_capacity_bytes b"
  have n: "?c \<le> blocks_count b * 8192" "blocks_count b * 8192 < ?c + 8192"
    using assms well_sizedD(1) [OF assms(1)] blocks_round_up [of ?c] by (auto simp: well_sized_def kBlockSizeBytes_def)
  have i: "(i + 1) * 8192 \<le> blocks_count b * 8192" using assms(2) by simp
  have a: "add64 i 1 = i + 1" using assms(2) well_sizedD(4) [OF assms(1)] by (intro add64_id) simp
  show "i * kBlockSizeBytes + GetBlockCapacity b i = min ((i + 1) * kBlockSizeBytes) ?c"
  proof (cases "i + 1 = blocks_count b")
    case True
    then have "i * 8192 < ?c" "?c \<le> (i + 1) * 8192" using n by auto
    then show ?thesis using last_block_length [of i ?c] True a
      by (auto simp: GetBlockCapacity_def kBlockSizeBytes_def Let_def)
  next
    case False
    then have "(i + 2) * 8192 \<le> blocks_count b * 8192" using assms(2) by (intro mult_right_mono) auto
    then have "(i + 1) * 8192 < ?c" using n by simp
    then show ?thesis using False a by (simp add: GetBlockCapacity_def kBlockSizeBytes_def)
  qed
  show "GetBlockCapacity b i \<le> kBlockSizeBytes"
    by (auto simp: GetBlockCapacity_def Let_def less_imp_le)
qed

lemma block_index_less:
  assumes "well_sized b"
  shows "GetBlockIndex b i < blocks_count b"
  using well_sizedD(3) [OF assms, of "i mod max_buffer_capacity_bytes b"] well_sizedD(1) [OF assms]
  by (auto simp: GetBlockIndex_def)

lemma position_split: "i mod max_buffer_capacity_bytes b = GetBlockIndex b i * kBlockSizeBytes + GetInBlockOffset b i"
  unfolding GetBlockIndex_def GetInBlockOffset_def by (rule div_mult_mod_eq [symmetric])

lemma position_eqI:
  assumes "GetBlockIndex b i = GetBlockIndex b j" "GetInBlockOffset b i = GetInBlockOffset b j"
  shows "i mod max_buffer_capacity_bytes b = j mod max_buffer_capacity_bytes b"
  by (simp only: position_split [of i b] position_split [of j b] assms)

lemma block_span:
  assumes "well_sized b"
  shows "GetInBlockOffset b i < GetBlockCapacity b (GetBlockIndex b i)"
    and "k < GetBlockCapacity b (GetBlockIndex b i) - GetInBlockOffset b i \<Longrightarrow>
         (i + k) mod max_buffer_capacity_bytes b = i mod max_buffer_capacity_bytes b + k \<and>
         GetBlockIndex b (i + k) = GetBlockIndex b i \<and> GetInBlockOffset b (i + k) = GetInBlockOffset b i + k"
proof -
  let ?c = "max_buffer_capacity_bytes b" and ?j = "GetBlockIndex b i" and ?p = "i mod max_buffer_capacity_bytes b"
  have cap: "?j * kBlockSizeBytes + GetBlockCapacity b ?j = min ((?j + 1) * kBlockSizeBytes) ?c"
    using GetBlockCapacity_eq(1) [OF assms block_index_less [OF assms]] .
  have p: "?p = ?j * kBlockSizeBytes + GetInBlockOffset b i"
    unfolding GetBlockIndex_def GetInBlockOffset_def by simp
  have "?p < ?c" using well_sizedD(1) [OF assms] by simp
  moreover have "?p < (?j + 1) * kBlockSizeBytes"
    unfolding p by (simp add: GetInBlockOffset_def)
  ultimately have "?j * kBlockSizeBytes + GetInBlockOffset b i < ?j * kBlockSizeBytes + GetBlockCapacity b ?j"
    unfolding cap p [symmetric] by simp
  then show "GetInBlockOffset b i < GetBlockCapacity b ?j" by simp
  assume k: "k < GetBlockCapacity b ?j - GetInBlockOffset b i"
  then have "?p + k < min ((?j + 1) * kBlockSizeBytes) ?c" unfolding cap [symmetric] p by simp
  then have q: "?p + k < ?c" "?p + k < (?j + 1) * kBlockSizeBytes" by simp_all
  have m: "(i + k) mod ?c = ?p + k" by (rule mod_add_small [OF q(1)])
  have "GetInBlockOffset b i + k < kBlockSizeBytes" using q(2) unfolding p by simp
  then have "(?p + k) div kBlockSizeBytes = ?j" "(?p + k) mod kBlockSizeBytes = GetInBlockOffset b i + k"
    unfolding p add.assoc by simp_all
  then show "(i + k) mod ?c = ?p + k \<and> GetBlockIndex b (i + k) = ?j \<and> GetInBlockOffset b (i + k) = GetInBlockOffset b i + k"
    using m unfolding GetBlockIndex_def GetInBlockOffset_def by simp
qed

section \<open>The flat view of the blocks\<close>

text \<open>The byte stored for an offset, and whether its block is allocated.\<close>

definition allocated :: "sequencer_buffer \<Rightarrow> nat \<Rightarrow> bool" where
  "allocated b i \<longleftrightarrow> block_pointer b i 0 \<noteq> None"

definition byte_at :: "sequencer_buffer \<Rightarrow> nat \<Rightarrow> uint8" where
  "byte_at b i =
     (case blocks b of
        None \<Rightarrow> 0
      | Some bs \<Rightarrow> (case bs ! GetBlockIndex b i of None \<Rightarrow> 0 | Some block \<Rightarrow> block (GetInBlockOffset b i)))"

lemma block_positions_frame [simp]:
  "GetBlockIndex (b\<lparr>blocks := x\<rparr>) i = GetBlockIndex b i" "GetInBlockOffset (b\<lparr>blocks := x\<rparr>) i = GetInBlockOffset b i"
  "GetBlockCapacity (b\<lparr>blocks := x\<rparr>) i = GetBlockCapacity b i"
  "GetBlockIndex (b\<lparr>total_bytes_read := t\<rparr>) i = GetBlockIndex b i" "GetInBlockOffset (b\<lparr>total_bytes_read := t\<rparr>) i = GetInBlockOffset b i"
  "GetBlockIndex (b\<lparr>num_bytes_buffered := n\<rparr>) i = GetBlockIndex b i" "GetInBlockOffset (b\<lparr>num_bytes_buffered := n\<rparr>) i = GetInBlockOffset b i"
  "GetBlockIndex (b\<lparr>gaps := gs\<rparr>) i = GetBlockIndex b i" "GetInBlockOffset (b\<lparr>gaps := gs\<rparr>) i = GetInBlockOffset b i"
  "GetBlockIndex (b\<lparr>frame_arrival_time_map := m\<rparr>) i = GetBlockIndex b i"
  "GetInBlockOffset (b\<lparr>frame_arrival_time_map := m\<rparr>) i = GetInBlockOffset b i"
  by (simp_all add: GetBlockIndex_def GetInBlockOffset_def GetBlockCapacity_def)

lemma memcpy_nth:
  "memcpy block o' src i = (if o' \<le> i \<and> i < o' + length src then src ! (i - o') else block i)"
  by (simp add: memcpy_def)

text \<open>One round of the write loop stores a positive number of bytes and nothing else.\<close>

lemma write_block_ok:
  assumes "well_sized b" "total_bytes_read b \<le> offset" "source \<noteq> []"
    and "offset + length source \<le> total_bytes_read b + max_buffer_capacity_bytes b" "offset + length source \<le> 2 ^ 62"
  obtains bs n where "write_block b offset source = Some (b\<lparr>blocks := Some bs\<rparr>, Inr n)" "0 < n" "n \<le> length source"
    "length bs = blocks_count b"
    "\<And>i. allocated (b\<lparr>blocks := Some bs\<rparr>) i \<longleftrightarrow> allocated b i \<or> i \<in> GetBlockIndex b ` {offset..<offset + n}"
    "\<And>i. total_bytes_read b \<le> i \<Longrightarrow> i < total_bytes_read b + max_buffer_capacity_bytes b \<Longrightarrow>
       byte_at (b\<lparr>blocks := Some bs\<rparr>) i = (if offset \<le> i \<and> i < offset + n then source ! (i - offset) else byte_at b i)"
proof -
  let ?c = "max_buffer_capacity_bytes b" and ?t = "total_bytes_read b"
  define j p where "j = GetBlockIndex b offset" and "p = GetInBlockOffset b offset"
  define avail where "avail = GetBlockCapacity b j - p"
  have c: "?c \<le> 2 ^ 32" and j: "j < blocks_count b" using well_sizedD(2) assms(1) block_index_less by (auto simp: j_def)
  have capK: "GetBlockCapacity b j \<le> kBlockSizeBytes" using GetBlockCapacity_eq(2) [OF assms(1) j] .
  have av: "0 < avail" "p + avail \<le> kBlockSizeBytes"
    using block_span(1) [OF assms(1), of offset] capK by (auto simp: avail_def j_def p_def)
  have small: "avail \<le> 8192" using av by (simp add: kBlockSizeBytes_def)
  define avail' where "avail' = (if offset + avail > ?t + ?c then ?t + ?c - offset else avail)"
  define n where "n = min avail' (length source)"
  have av': "0 < avail'" "avail' \<le> avail" using av(1) assms(3,4) by (cases source; auto simp: avail'_def)+
  have n: "0 < n" "n \<le> length source" "n \<le> avail" using av' assms(3) by (auto simp: n_def)
  define bs0 where "bs0 = (case blocks b of None \<Rightarrow> replicate (blocks_count b) None | Some bs \<Rightarrow> bs)"
  define blk where "blk = (case bs0 ! j of None \<Rightarrow> (\<lambda>_. 0) | Some block \<Rightarrow> block)"
  have len: "length bs0 = blocks_count b" using assms(1) by (auto simp: bs0_def well_sized_def split: option.split)
  have e1: "sub64 (GetBlockCapacity b j) p = avail"
    unfolding avail_def using block_span(1) [OF assms(1), of offset] capK
    by (intro sub64_id) (auto simp: j_def p_def kBlockSizeBytes_def)
  have e2: "add64 ?t ?c = ?t + ?c" "add64 offset avail = offset + avail"
    using assms(2-5) c small by (auto intro!: add64_id)
  have e3: "sub64 (?t + ?c) offset = ?t + ?c - offset" using assms(2-5) c by (intro sub64_id) auto
  define bs where "bs = bs0[j := Some (memcpy blk p (take n source))]"
  have "write_block b offset source = Some (b\<lparr>blocks := Some bs\<rparr>, Inr n)"
    using j n(3) av(2) unfolding write_block_def Let_def j_def [symmetric] p_def [symmetric] e1 e2 e3
      bs0_def [symmetric] avail'_def [symmetric] n_def [symmetric] blk_def [symmetric] bs_def by simp
  moreover have span: "GetBlockIndex b (offset + k) = j \<and> GetInBlockOffset b (offset + k) = p + k" if "k < n" for k
    using block_span(2) [OF assms(1), of k offset] that n(3) by (simp add: avail_def j_def p_def)
  have "GetBlockIndex b i = j" if "i \<in> {offset..<offset + n}" for i using span [of "i - offset"] that by auto
  then have "GetBlockIndex b ` {offset..<offset + n} = {j}"
    using n(1) by (auto simp: image_iff intro!: exI [of _ offset])
  then have "allocated (b\<lparr>blocks := Some bs\<rparr>) i \<longleftrightarrow> allocated b i \<or> i \<in> GetBlockIndex b ` {offset..<offset + n}" for i
    using j len by (auto simp: allocated_def block_pointer_def bs_def bs0_def nth_list_update split: option.splits)
  moreover have "byte_at (b\<lparr>blocks := Some bs\<rparr>) i = (if offset \<le> i \<and> i < offset + n then source ! (i - offset) else byte_at b i)"
    if i: "?t \<le> i" "i < ?t + ?c" for i
  proof (cases "offset \<le> i \<and> i < offset + n")
    case True
    then have "GetBlockIndex b i = j" "GetInBlockOffset b i = p + (i - offset)" "i - offset < n"
      using span [of "i - offset"] by auto
    then show ?thesis using True j len n(2) by (auto simp: byte_at_def bs_def memcpy_nth)
  next
    case False
    have "\<not> (GetBlockIndex b i = j \<and> p \<le> GetInBlockOffset b i \<and> GetInBlockOffset b i < p + n)"
    proof
      assume a: "GetBlockIndex b i = j \<and> p \<le> GetInBlockOffset b i \<and> GetInBlockOffset b i < p + n"
      define k where "k = GetInBlockOffset b i - p"
      then have k: "k < n" "GetInBlockOffset b i = p + k" using a by auto
      then have m: "i mod ?c = (offset + k) mod ?c"
        using span [OF k(1)] a by (intro position_eqI) simp_all
      have "?t \<le> offset + k" "offset + k < ?t + ?c" using k(1) n(2) assms(2,4) by linarith+
      then have "i = offset + k" by (rule mod_inj_window [OF i _ _ m])
      then show False using False k(1) by simp
    qed
    moreover have "byte_at b i = (case bs0 ! GetBlockIndex b i of None \<Rightarrow> 0 | Some block \<Rightarrow> block (GetInBlockOffset b i))"
      using block_index_less [OF assms(1)] by (simp add: byte_at_def bs0_def split: option.split)
    ultimately show ?thesis using False j len n(2)
      by (cases "GetBlockIndex b i = j") (auto simp: byte_at_def bs_def blk_def memcpy_nth split: option.splits)
  qed
  moreover have "length bs = blocks_count b" using len by (simp add: bs_def)
  ultimately show thesis by (intro that [OF _ n(1,2)])
qed

lemma well_sized_blocks:
  "well_sized b \<Longrightarrow> length bs = blocks_count b \<Longrightarrow> well_sized (b\<lparr>blocks := Some bs\<rparr>)"
  by (simp add: well_sized_def)

lemma allocated_frame [simp]:
  "allocated (b\<lparr>total_bytes_read := t\<rparr>) i = allocated b i" "allocated (b\<lparr>num_bytes_buffered := n\<rparr>) i = allocated b i"
  "allocated (b\<lparr>gaps := gs\<rparr>) i = allocated b i" "allocated (b\<lparr>frame_arrival_time_map := m\<rparr>) i = allocated b i"
  by (simp_all add: allocated_def block_pointer_def)

lemma byte_at_frame [simp]:
  "byte_at (b\<lparr>total_bytes_read := t\<rparr>) i = byte_at b i" "byte_at (b\<lparr>num_bytes_buffered := n\<rparr>) i = byte_at b i"
  "byte_at (b\<lparr>gaps := gs\<rparr>) i = byte_at b i" "byte_at (b\<lparr>frame_arrival_time_map := m\<rparr>) i = byte_at b i"
  by (simp_all add: byte_at_def cong: option.case_cong)

text \<open>The whole write loop stores the source, allocates the blocks it covers and leaves the rest alone.\<close>

lemma write_blocks_ok:
  assumes "well_sized b" "total_bytes_read b \<le> offset"
    and "offset + length source \<le> total_bytes_read b + max_buffer_capacity_bytes b" "offset + length source \<le> 2 ^ 62"
    and "source \<noteq> []"
  shows "\<exists>bs. write_blocks b offset source = Some (b\<lparr>blocks := Some bs\<rparr>, QUIC_NO_ERROR) \<and> length bs = blocks_count b \<and>
    (\<forall>i. allocated (b\<lparr>blocks := Some bs\<rparr>) i \<longleftrightarrow> allocated b i \<or> i \<in> GetBlockIndex b ` {offset..<offset + length source}) \<and>
    (\<forall>i. total_bytes_read b \<le> i \<and> i < total_bytes_read b + max_buffer_capacity_bytes b \<longrightarrow>
       byte_at (b\<lparr>blocks := Some bs\<rparr>) i =
         (if offset \<le> i \<and> i < offset + length source then source ! (i - offset) else byte_at b i))"
  using assms
proof (induction b offset source rule: write_blocks.induct)
  case (1 b offset source)
  let ?t = "total_bytes_read b" and ?c = "max_buffer_capacity_bytes b"
  obtain bs n where w: "write_block b offset source = Some (b\<lparr>blocks := Some bs\<rparr>, Inr n)" "0 < n" "n \<le> length source"
    "length bs = blocks_count b"
    and al: "\<And>i. allocated (b\<lparr>blocks := Some bs\<rparr>) i \<longleftrightarrow> allocated b i \<or> i \<in> GetBlockIndex b ` {offset..<offset + n}"
    and by1: "\<And>i. ?t \<le> i \<Longrightarrow> i < ?t + ?c \<Longrightarrow>
       byte_at (b\<lparr>blocks := Some bs\<rparr>) i = (if offset \<le> i \<and> i < offset + n then source ! (i - offset) else byte_at b i)"
    using write_block_ok [OF 1(2,3,6,4,5)] by metis
  have a: "add64 offset n = offset + n" using w(3) 1(5) by (intro add64_id) simp
  have step: "write_blocks b offset source = write_blocks (b\<lparr>blocks := Some bs\<rparr>) (offset + n) (drop n source)"
    using 1(6) w(2) by (subst write_blocks.simps) (simp add: w(1) a)
  show ?case
  proof (cases "n = length source")
    case True
    then have "write_blocks b offset source = Some (b\<lparr>blocks := Some bs\<rparr>, QUIC_NO_ERROR)"
      unfolding step by (simp add: write_blocks.simps)
    then show ?thesis using w(4) al by1 True by blast
  next
    case False
    let ?b = "b\<lparr>blocks := Some bs\<rparr>"
    have "\<exists>bs'. write_blocks ?b (offset + n) (drop n source) = Some (?b\<lparr>blocks := Some bs'\<rparr>, QUIC_NO_ERROR) \<and>
      length bs' = blocks_count ?b \<and>
      (\<forall>i. allocated (?b\<lparr>blocks := Some bs'\<rparr>) i \<longleftrightarrow>
         allocated ?b i \<or> i \<in> GetBlockIndex ?b ` {offset + n..<offset + n + length (drop n source)}) \<and>
      (\<forall>i. total_bytes_read ?b \<le> i \<and> i < total_bytes_read ?b + max_buffer_capacity_bytes ?b \<longrightarrow> byte_at (?b\<lparr>blocks := Some bs'\<rparr>) i =
        (if offset + n \<le> i \<and> i < offset + n + length (drop n source) then drop n source ! (i - (offset + n)) else byte_at ?b i))"
      by (rule 1(1) [OF 1(6) w(1) refl refl, unfolded a])
        (use well_sized_blocks [OF 1(2) w(4)] 1(3-5) w(2,3) False in simp_all)
    then obtain bs' where rec: "write_blocks ?b (offset + n) (drop n source) = Some (b\<lparr>blocks := Some bs'\<rparr>, QUIC_NO_ERROR)"
      "length bs' = blocks_count b"
      and al': "\<And>i. allocated (b\<lparr>blocks := Some bs'\<rparr>) i \<longleftrightarrow>
         allocated ?b i \<or> i \<in> GetBlockIndex b ` {offset + n..<offset + length source}"
      and by2: "\<And>i. ?t \<le> i \<Longrightarrow> i < ?t + ?c \<Longrightarrow> byte_at (b\<lparr>blocks := Some bs'\<rparr>) i =
        (if offset + n \<le> i \<and> i < offset + length source then source ! (i - offset) else byte_at ?b i)"
      using w(3) by auto
    have "{offset..<offset + length source} = {offset..<offset + n} \<union> {offset + n..<offset + length source}"
      using w(3) by auto
    then have "allocated (b\<lparr>blocks := Some bs'\<rparr>) i \<longleftrightarrow> allocated b i \<or> i \<in> GetBlockIndex b ` {offset..<offset + length source}" for i
      unfolding al' al by (simp only: image_Un Un_iff disj_assoc)
    moreover have "byte_at (b\<lparr>blocks := Some bs'\<rparr>) i =
         (if offset \<le> i \<and> i < offset + length source then source ! (i - offset) else byte_at b i)"
      if "?t \<le> i" "i < ?t + ?c" for i using by2 [OF that] by1 [OF that] w(3) by auto
    ultimately show ?thesis unfolding step using rec by blast
  qed
qed

section \<open>The list of gaps\<close>

definition in_gap :: "Gap list \<Rightarrow> nat \<Rightarrow> bool" where
  "in_gap gs i \<longleftrightarrow> (\<exists>g\<in>set gs. begin_offset g \<le> i \<and> i < end_offset g)"

text \<open>Gaps in increasing order, not empty, with data between two of them, the last without end.\<close>

fun gaps_from :: "nat \<Rightarrow> Gap list \<Rightarrow> bool" where
  "gaps_from lo [] = False"
| "gaps_from lo (g # gs) \<longleftrightarrow> lo \<le> begin_offset g \<and> begin_offset g < end_offset g \<and>
     (if gs = [] then end_offset g = kMaxOffset else gaps_from (Suc (end_offset g)) gs)"

lemma in_gap_Cons: "in_gap (g # gs) i \<longleftrightarrow> begin_offset g \<le> i \<and> i < end_offset g \<or> in_gap gs i"
  by (auto simp: in_gap_def)

lemma in_gap_append: "in_gap (gs @ hs) i \<longleftrightarrow> in_gap gs i \<or> in_gap hs i"
  by (auto simp: in_gap_def)

lemma in_gap_Nil [simp]: "\<not> in_gap [] i"
  by (simp add: in_gap_def)

lemma gaps_from_weaken: "gaps_from lo gs \<Longrightarrow> lo' \<le> lo \<Longrightarrow> gaps_from lo' gs"
  by (cases gs) auto

lemma gaps_from_bounds:
  "gaps_from lo gs \<Longrightarrow> g \<in> set gs \<Longrightarrow> lo \<le> begin_offset g \<and> begin_offset g < end_offset g \<and> end_offset g \<le> kMaxOffset"
proof (induction gs arbitrary: lo g)
  case (Cons h gs)
  show ?case
  proof (cases "gs = []")
    case False
    then have gs: "gaps_from (Suc (end_offset h)) gs" using Cons.prems by simp
    then obtain h' where "h' \<in> set gs" using False by (cases gs) auto
    then show ?thesis using Cons.IH [OF gs] Cons.prems by force
  qed (use Cons.prems in auto)
qed simp

lemma gaps_from_not_below: "gaps_from lo gs \<Longrightarrow> i < lo \<Longrightarrow> \<not> in_gap gs i"
  by (force simp: in_gap_def dest: gaps_from_bounds)

lemma gaps_from_last: "gaps_from lo gs \<Longrightarrow> end_offset (last gs) = kMaxOffset"
  by (induction gs arbitrary: lo) auto

lemma gaps_from_last_begin: "gaps_from lo gs \<Longrightarrow> lo \<le> begin_offset (last gs) \<and> begin_offset (last gs) < kMaxOffset"
  using gaps_from_bounds [of lo gs "last gs"] gaps_from_last [of lo gs] by (cases gs) auto

text \<open>Outside the gaps all is below the last gap, and the byte before the last gap is, if it is not
  below \<open>lo\<close>.\<close>

lemma not_in_gap_less:
  "gaps_from lo gs \<Longrightarrow> \<not> in_gap gs i \<Longrightarrow> i < kMaxOffset \<Longrightarrow> i < begin_offset (last gs)"
  using gaps_from_last [of lo gs] by (cases gs) (auto simp: in_gap_def not_le)

lemma gap_ends_in_data:
  "gaps_from lo (g # gs) \<Longrightarrow> gs \<noteq> [] \<Longrightarrow> \<not> in_gap (g # gs) (end_offset g)"
  by (auto simp: in_gap_Cons dest: gaps_from_not_below)

lemma before_last_gap:
  "gaps_from lo gs \<Longrightarrow> lo < begin_offset (last gs) \<Longrightarrow> \<not> in_gap gs (begin_offset (last gs) - 1)"
proof (induction gs arbitrary: lo)
  case (Cons g gs)
  show ?case
  proof (cases "gs = []")
    case False
    then have gs: "gaps_from (Suc (end_offset g)) gs" using Cons.prems by simp
    show ?thesis
    proof (cases "begin_offset (last gs) = Suc (end_offset g)")
      case True
      then show ?thesis using False gap_ends_in_data [OF Cons.prems(1) False] by simp
    next
      case False': False
      have "Suc (end_offset g) < begin_offset (last gs)" using gaps_from_last_begin [OF gs] False' by simp
      then show ?thesis using Cons.IH [OF gs] False by (auto simp: in_gap_Cons)
    qed
  qed (use Cons.prems in \<open>auto simp: in_gap_Cons\<close>)
qed simp

lemma gap_begins:
  "gaps_from lo gs \<Longrightarrow> in_gap gs i \<and> (i = 0 \<or> \<not> in_gap gs (i - 1)) \<longleftrightarrow> i \<in> begin_offset ` set gs"
proof (induction gs arbitrary: lo)
  case (Cons g gs)
  show ?case
  proof (cases "gs = []")
    case True
    then show ?thesis using Cons.prems by (auto simp: in_gap_Cons)
  next
    case False
    then have gs: "gaps_from (Suc (end_offset g)) gs" using Cons.prems by simp
    have g: "begin_offset g < end_offset g" using Cons.prems by simp
    show ?thesis
    proof (cases "i \<le> end_offset g")
      case True
      then have "\<not> in_gap gs i" "\<not> in_gap gs (i - 1)" using gaps_from_not_below [OF gs] by simp_all
      moreover have "i \<notin> begin_offset ` set gs" using gaps_from_bounds [OF gs] True by force
      ultimately show ?thesis using g by (auto simp: in_gap_Cons)
    next
      case False
      then have "in_gap (g # gs) i = in_gap gs i" "in_gap (g # gs) (i - 1) = in_gap gs (i - 1)" "i \<noteq> begin_offset g"
        using g by (auto simp: in_gap_Cons)
      then show ?thesis using Cons.IH [OF gs] by simp
    qed
  qed
qed simp

lemma gaps_from_distinct: "gaps_from lo gs \<Longrightarrow> distinct (map begin_offset gs)"
proof (induction gs arbitrary: lo)
  case (Cons g gs)
  show ?case
  proof (cases "gs = []")
    case False
    then have gs: "gaps_from (Suc (end_offset g)) gs" using Cons.prems by simp
    then have "begin_offset g \<notin> begin_offset ` set gs" using gaps_from_bounds [OF gs] Cons.prems by force
    then show ?thesis using Cons.IH [OF gs] by simp
  qed simp
qed simp

text \<open>Filling a range inside the first gap that reaches beyond its start.\<close>

fun fill_gap :: "Gap list \<Rightarrow> nat \<Rightarrow> nat \<Rightarrow> Gap list" where
  "fill_gap [] i j = []"
| "fill_gap (g # gs) i j =
     (if end_offset g \<le> i then g # fill_gap gs i j
      else (if begin_offset g < i then [Gap (begin_offset g) i] else []) @
           (if j < end_offset g then [Gap j (end_offset g)] else []) @ gs)"

abbreviation gap_index :: "Gap list \<Rightarrow> nat \<Rightarrow> nat" where
  "gap_index gs i \<equiv> length (takeWhile (\<lambda>g. end_offset g \<le> i) gs)"

lemma gap_index_less: "gaps_from lo gs \<Longrightarrow> i < kMaxOffset \<Longrightarrow> gap_index gs i < length gs"
  by (induction gs arbitrary: lo) (auto split: if_splits)

lemma gap_index_end: "gaps_from lo gs \<Longrightarrow> i < kMaxOffset \<Longrightarrow> i < end_offset (gs ! gap_index gs i)"
  by (induction gs arbitrary: lo) (auto split: if_splits)

lemma UpdateGapList_fill:
  assumes "add64 i n = i + n" "0 < n"
  shows "gaps_from lo gs \<Longrightarrow> i < kMaxOffset \<Longrightarrow> begin_offset (gs ! gap_index gs i) \<le> i \<Longrightarrow>
    i + n \<le> end_offset (gs ! gap_index gs i) \<Longrightarrow>
    UpdateGapList gs (gap_index gs i) i n = fill_gap gs i (i + n)"
proof (induction gs arbitrary: lo)
  case (Cons g gs)
  show ?case
  proof (cases "end_offset g \<le> i")
    case True
    then have "gs \<noteq> []" using Cons.prems by auto
    then have "UpdateGapList gs (gap_index gs i) i n = fill_gap gs i (i + n)"
      using Cons True by (auto split: if_splits)
    then show ?thesis using True by (auto simp: UpdateGapList_def Let_def)
  next
    case False
    then show ?thesis using Cons.prems assms by (auto simp: UpdateGapList_def Let_def)
  qed
qed simp

lemma fill_gap_ok:
  assumes "i < j" "j \<le> 2 ^ 62"
  shows "gaps_from lo gs \<Longrightarrow> begin_offset (gs ! gap_index gs i) \<le> i \<Longrightarrow> j \<le> end_offset (gs ! gap_index gs i) \<Longrightarrow>
    gaps_from lo (fill_gap gs i j) \<and> (\<forall>k. in_gap (fill_gap gs i j) k \<longleftrightarrow> in_gap gs k \<and> \<not> (i \<le> k \<and> k < j)) \<and>
    begin_offset (last (fill_gap gs i j)) \<le> max (begin_offset (last gs)) j"
proof (induction gs arbitrary: lo)
  case (Cons g gs)
  have max: "j < kMaxOffset" using assms by (simp add: kMaxOffset_def)
  show ?case
  proof (cases "gs = []")
    case True
    then show ?thesis using Cons.prems assms(1) max by (auto simp: in_gap_Cons)
  next
    case False
    then have gs: "gaps_from (Suc (end_offset g)) gs" using Cons.prems by simp
    show ?thesis
    proof (cases "end_offset g \<le> i")
      case True
      then have "gaps_from (Suc (end_offset g)) (fill_gap gs i j)"
        "\<forall>k. in_gap (fill_gap gs i j) k \<longleftrightarrow> in_gap gs k \<and> \<not> (i \<le> k \<and> k < j)"
        "begin_offset (last (fill_gap gs i j)) \<le> max (begin_offset (last gs)) j"
        using Cons.IH [OF gs] Cons.prems by auto
      note rec = this
      have ne: "fill_gap gs i j \<noteq> []" using rec(1) by auto
      then have "gaps_from lo (fill_gap (g # gs) i j)" using True Cons.prems rec(1) by simp
      moreover have "in_gap (fill_gap (g # gs) i j) k \<longleftrightarrow> in_gap (g # gs) k \<and> \<not> (i \<le> k \<and> k < j)" for k
        using spec [OF rec(2), of k] True by (auto simp: in_gap_Cons)
      moreover have "begin_offset (last (fill_gap (g # gs) i j)) \<le> max (begin_offset (last (g # gs))) j"
        using True False ne rec(3) by simp
      ultimately show ?thesis by blast
    next
      case F: False
      have g: "begin_offset g \<le> i" "j \<le> end_offset g" "lo \<le> begin_offset g" using Cons.prems F by simp_all
      have "gaps_from lo gs" "gaps_from (Suc i) gs"
        using gaps_from_weaken [OF gs, of lo] gaps_from_weaken [OF gs, of "Suc i"] g F by simp_all
      then have "gaps_from lo (fill_gap (g # gs) i j)" using F False g assms(1) gs by simp
      moreover have "in_gap (fill_gap (g # gs) i j) k \<longleftrightarrow> in_gap (g # gs) k \<and> \<not> (i \<le> k \<and> k < j)" for k
      proof (cases "k < j")
        case True
        then have "\<not> in_gap gs k" using gaps_from_not_below [OF gs, of k] g by simp
        then show ?thesis using F g assms(1) True by (simp add: in_gap_Cons) linarith
      next
        case False
        then show ?thesis using F g assms(1) by (simp add: in_gap_Cons)
      qed
      moreover have "begin_offset (last (fill_gap (g # gs) i j)) \<le> max (begin_offset (last (g # gs))) j"
        using F False by simp
      ultimately show ?thesis by blast
    qed
  qed
qed simp

section \<open>The invariant\<close>

definition buffered :: "sequencer_buffer \<Rightarrow> nat set" where
  "buffered b = {i. total_bytes_read b \<le> i \<and> i < kMaxOffset \<and> \<not> in_gap (gaps b) i}"

text \<open>The gaps are in order and within the window, the counter is right, and a block is allocated
  exactly if it holds data.\<close>

definition blocks_inv :: "sequencer_buffer \<Rightarrow> bool" where
  "blocks_inv b \<longleftrightarrow> well_sized b \<and> gaps_from (total_bytes_read b) (gaps b) \<and>
     begin_offset (last (gaps b)) \<le> total_bytes_read b + max_buffer_capacity_bytes b \<and>
     begin_offset (last (gaps b)) \<le> 2 ^ 62 \<and> length (gaps b) \<le> kMaxNumGapsAllowed \<and>
     num_bytes_buffered b = card (buffered b) \<and> (\<forall>i. allocated b i \<longleftrightarrow> i \<in> GetBlockIndex b ` buffered b)"

text \<open>The frames in the arrival map are disjoint and cover what is buffered.\<close>

fun frames_from :: "nat \<Rightarrow> (nat \<times> FrameInfo) list \<Rightarrow> bool" where
  "frames_from lo [] = True"
| "frames_from lo ((k, f) # m) \<longleftrightarrow> lo \<le> k \<and> 0 < frame_length f \<and> frames_from (k + frame_length f) m"

definition frame_bytes :: "(nat \<times> FrameInfo) list \<Rightarrow> nat set" where
  "frame_bytes m = (\<Union>(k, f)\<in>set m. {k..<k + frame_length f})"

definition sequencer_inv :: "sequencer_buffer \<Rightarrow> bool" where
  "sequencer_inv b \<longleftrightarrow> blocks_inv b \<and> frames_from (total_bytes_read b) (frame_arrival_time_map b) \<and>
     frame_bytes (frame_arrival_time_map b) = buffered b"

definition stream_of :: "sequencer_buffer \<Rightarrow> stream_spec" where
  "stream_of b = \<lparr>consumed = total_bytes_read b,
     stored = (\<lambda>i. if i \<in> buffered b then Some (byte_at b i) else None)\<rparr>"

lemma frame_bytes_simps [simp]:
  "frame_bytes [] = {}" "frame_bytes ((k, f) # m) = {k..<k + frame_length f} \<union> frame_bytes m"
  by (simp_all add: frame_bytes_def)

lemma frames_from_above: "frames_from lo m \<Longrightarrow> i \<in> frame_bytes m \<Longrightarrow> lo \<le> i"
  by (induction lo m rule: frames_from.induct) auto

lemma frames_from_weaken: "frames_from lo m \<Longrightarrow> lo' \<le> lo \<Longrightarrow> frames_from lo' m"
  by (cases m) auto

lemma arrival_insert_ok:
  "frames_from lo m \<Longrightarrow> lo \<le> i \<Longrightarrow> 0 < frame_length f \<Longrightarrow> {i..<i + frame_length f} \<inter> frame_bytes m = {} \<Longrightarrow>
   frames_from lo (arrival_insert i f m) \<and> frame_bytes (arrival_insert i f m) = {i..<i + frame_length f} \<union> frame_bytes m"
proof (induction lo m rule: frames_from.induct)
  case (2 lo k g m)
  have "i \<in> {i..<i + frame_length f}" "k \<in> {k..<k + frame_length g}" using 2(2,4) by simp_all
  then have k: "k \<notin> {i..<i + frame_length f}" "i \<notin> {k..<k + frame_length g}"
    using 2(5) unfolding frame_bytes_simps by blast+
  show ?case
  proof (cases "i < k")
    case True
    then have "i + frame_length f \<le> k" using k by simp
    then show ?thesis using 2(2,3,4) True by auto
  next
    case False
    then have "k + frame_length g \<le> i" "i \<noteq> k" using k 2(2) by auto
    then show ?thesis using 2 False by auto
  qed
qed simp

lemma buffered_less: "blocks_inv b \<Longrightarrow> i \<in> buffered b \<Longrightarrow> i < begin_offset (last (gaps b))"
  by (auto simp: blocks_inv_def buffered_def dest: not_in_gap_less)

lemma buffered_window:
  "blocks_inv b \<Longrightarrow> i \<in> buffered b \<Longrightarrow> total_bytes_read b \<le> i \<and> i < total_bytes_read b + max_buffer_capacity_bytes b"
  using buffered_less [of b i] by (auto simp: blocks_inv_def buffered_def)

lemma finite_buffered [simp]: "finite (buffered b)"
  by (rule finite_subset [of _ "{..<kMaxOffset}"]) (auto simp: buffered_def)

lemma received_stream_of:
  "blocks_inv b \<Longrightarrow> i < kMaxOffset \<Longrightarrow> received (stream_of b) i \<longleftrightarrow> \<not> in_gap (gaps b) i"
  using gaps_from_not_below [of "total_bytes_read b" "gaps b" i]
  by (auto simp: received_def stream_of_def buffered_def blocks_inv_def)

lemma not_received_max: "blocks_inv b \<Longrightarrow> kMaxOffset \<le> i \<Longrightarrow> \<not> received (stream_of b) i"
  using gaps_from_last_begin [of "total_bytes_read b" "gaps b"]
  by (auto simp: received_def stream_of_def buffered_def blocks_inv_def)

lemma gap_starts:
  assumes "blocks_inv b"
  shows "gap_start (stream_of b) i \<longleftrightarrow> i \<in> begin_offset ` set (gaps b)"
    and "card {i. gap_start (stream_of b) i} = length (gaps b)"
proof -
  have gs: "gaps_from (total_bytes_read b) (gaps b)" using assms by (simp add: blocks_inv_def)
  have b: "gap_start (stream_of b) i \<longleftrightarrow> i \<in> begin_offset ` set (gaps b)" for i
  proof (cases "i < kMaxOffset")
    case True
    then show ?thesis using gap_begins [OF gs, of i] received_stream_of [OF assms] by (simp add: gap_start_def)
  next
    case False
    have "in_gap (gaps b) (kMaxOffset - 1)"
      using gaps_from_last [OF gs] gaps_from_last_begin [OF gs] last_in_set [of "gaps b"] gaps_from.simps(1) [of "total_bytes_read b"] gs
      unfolding in_gap_def by (intro bexI [of _ "last (gaps b)"]) fastforce+
    then have "i = kMaxOffset \<Longrightarrow> \<not> received (stream_of b) (i - 1)"
      using received_stream_of [OF assms, of "i - 1"] by (auto simp: kMaxOffset_def)
    moreover have "i \<noteq> kMaxOffset \<Longrightarrow> \<not> received (stream_of b) (i - 1)"
      using False not_received_max [OF assms, of "i - 1"] by simp
    moreover have "i \<noteq> 0" using False by (auto simp: kMaxOffset_def)
    moreover have "i \<notin> begin_offset ` set (gaps b)" using gaps_from_bounds [OF gs] False by force
    ultimately show ?thesis by (auto simp: gap_start_def)
  qed
  then show "gap_start (stream_of b) i \<longleftrightarrow> i \<in> begin_offset ` set (gaps b)" .
  have "{i. gap_start (stream_of b) i} = set (map begin_offset (gaps b))" using b by auto
  then show "card {i. gap_start (stream_of b) i} = length (gaps b)"
    using distinct_card [OF gaps_from_distinct [OF gs]] by simp
qed

section \<open>Receiving refines\<close>

lemma fill_gap_length:
  "length (fill_gap gs i j) \<le>
     (if begin_offset (gs ! gap_index gs i) = i \<or> end_offset (gs ! gap_index gs i) = j then length gs else Suc (length gs))"
  by (induction gs) auto

lemma blocks_inv_frame [simp]: "blocks_inv (b\<lparr>frame_arrival_time_map := m\<rparr>) = blocks_inv b"
  by (simp add: blocks_inv_def well_sized_def buffered_def)

lemma stream_of_frame [simp]: "stream_of (b\<lparr>frame_arrival_time_map := m\<rparr>) = stream_of b"
  by (simp add: stream_of_def buffered_def fun_eq_iff)

text \<open>A frame inside a gap is stored.\<close>

lemma store_frame:
  assumes inv: "sequencer_inv b" and data: "data \<noteq> []" "offset + length data \<le> 2 ^ 62"
    and i: "i = gap_index (gaps b) offset" "begin_offset (gaps b ! i) \<le> offset" "offset + length data \<le> end_offset (gaps b ! i)"
    and room: "offset + length data \<le> total_bytes_read b + max_buffer_capacity_bytes b"
    and few: "begin_offset (gaps b ! i) = offset \<or> end_offset (gaps b ! i) = offset + length data \<or>
      length (gaps b) < kMaxNumGapsAllowed"
    and b': "write_blocks b offset data = Some (b1, e)"
      "b' = b1\<lparr>gaps := UpdateGapList (gaps b1) i offset (length data),
         frame_arrival_time_map := arrival_insert offset (FrameInfo (length data) now) (frame_arrival_time_map b1),
         num_bytes_buffered := add64 (num_bytes_buffered b1) (length data)\<rparr>"
  shows "e = QUIC_NO_ERROR \<and> sequencer_inv b' \<and>
     stream_of b' = (stream_of b)\<lparr>stored := store (stored (stream_of b)) offset data\<rparr> \<and>
     max_buffer_capacity_bytes b' = max_buffer_capacity_bytes b"
proof -
  let ?t = "total_bytes_read b" and ?n = "length data" and ?r = "{offset..<offset + length data}"
  have core: "blocks_inv b" and fr: "frames_from ?t (frame_arrival_time_map b)"
    "frame_bytes (frame_arrival_time_map b) = buffered b" using inv by (auto simp: sequencer_inv_def)
  have ws: "well_sized b" and gs: "gaps_from ?t (gaps b)" and num: "num_bytes_buffered b = card (buffered b)"
    and al: "\<And>i. allocated b i \<longleftrightarrow> i \<in> GetBlockIndex b ` buffered b"
    using core by (auto simp: blocks_inv_def)
  have max: "offset + ?n < kMaxOffset" using data(2) by (simp add: kMaxOffset_def)
  have t: "?t \<le> offset"
    using gaps_from_bounds [OF gs] nth_mem [OF gap_index_less [OF gs, of offset]] max i by force
  obtain bs where w: "b1 = b\<lparr>blocks := Some bs\<rparr>" "e = QUIC_NO_ERROR" "length bs = blocks_count b"
    and al1: "\<And>i. allocated (b\<lparr>blocks := Some bs\<rparr>) i \<longleftrightarrow> allocated b i \<or> i \<in> GetBlockIndex b ` ?r"
    and by1: "\<And>i. ?t \<le> i \<Longrightarrow> i < ?t + max_buffer_capacity_bytes b \<Longrightarrow> byte_at (b\<lparr>blocks := Some bs\<rparr>) i =
         (if offset \<le> i \<and> i < offset + ?n then data ! (i - offset) else byte_at b i)"
    using write_blocks_ok [OF ws t room data(2,1)] b'(1) by auto
  have fields: "total_bytes_read b' = ?t" "max_buffer_capacity_bytes b' = max_buffer_capacity_bytes b"
    by (simp_all add: b'(2) w)
  have add: "add64 offset ?n = offset + ?n" using data(2) by (intro add64_id) simp
  have upd: "gaps b' = fill_gap (gaps b) offset (offset + ?n)"
    using UpdateGapList_fill [OF add, of ?t "gaps b"] data(1) gs max i by (simp add: b'(2) w)
  have fill: "gaps_from ?t (gaps b')" "\<And>k. in_gap (gaps b') k \<longleftrightarrow> in_gap (gaps b) k \<and> \<not> (offset \<le> k \<and> k < offset + ?n)"
    "begin_offset (last (gaps b')) \<le> max (begin_offset (last (gaps b))) (offset + ?n)"
    using fill_gap_ok [of offset "offset + ?n" ?t "gaps b"] data gs i unfolding upd by auto
  have "in_gap (gaps b) k" if "k \<in> ?r" for k
    using nth_mem [OF gap_index_less [OF gs, of offset]] max i that
    by (auto simp: in_gap_def intro!: bexI [of _ "gaps b ! i"])
  then have disj: "?r \<inter> buffered b = {}" by (auto simp: buffered_def)
  have buf: "buffered b' = buffered b \<union> ?r"
    using t max by (auto simp: buffered_def fill(2)) (simp_all add: b'(2) w)
  have "card (buffered b) \<le> max_buffer_capacity_bytes b"
    using card_mono [of "{?t..<?t + max_buffer_capacity_bytes b}" "buffered b"] buffered_window [OF core]
    by (simp add: subset_iff)
  then have "num_bytes_buffered b' = card (buffered b) + ?n"
    using num well_sizedD(2) [OF ws] data(2) by (simp add: b'(2) w add64_id)
  then have "num_bytes_buffered b' = card (buffered b')"
    using card_Un_disjoint [of "buffered b" ?r] disj by (simp add: buf Int_commute)
  moreover have "length (gaps b') \<le> kMaxNumGapsAllowed"
    using fill_gap_length [of "gaps b" offset "offset + ?n"] few core unfolding upd i(1) by (auto simp: blocks_inv_def split: if_splits)
  moreover have "allocated b' j \<longleftrightarrow> j \<in> GetBlockIndex b' ` buffered b'" for j
    unfolding buf image_Un by (simp add: b'(2) w al1 al)
  moreover have "well_sized b'" using well_sized_blocks [OF ws w(3)] by (simp add: b'(2) w well_sized_def)
  ultimately have "blocks_inv b'"
    using fill(1,3) core room data(2) fields by (auto simp: blocks_inv_def)
  moreover have "frames_from ?t (frame_arrival_time_map b') \<and> frame_bytes (frame_arrival_time_map b') = buffered b'"
    using arrival_insert_ok [OF fr(1) t, of "FrameInfo ?n now"] data(1) disj fr(2) unfolding buf by (auto simp: b'(2) w)
  moreover have "stream_of b' = (stream_of b)\<lparr>stored := store (stored (stream_of b)) offset data\<rparr>"
    using by1 buffered_window [OF core] room t disj
    by (auto simp: stream_of_def buf store_def fun_eq_iff) (auto simp: b'(2) w)
  ultimately show ?thesis using w(2) fields by (simp add: sequencer_inv_def)
qed

lemma gaps_from_append: "gaps_from lo (pre @ g # post) \<Longrightarrow> post \<noteq> [] \<Longrightarrow> gaps_from (Suc (end_offset g)) post"
  by (induction pre arbitrary: lo) auto

text \<open>What the gap found for a frame says of the bytes of the frame.\<close>

lemma gap_found:
  assumes inv: "blocks_inv b" and n: "0 < n" "offset + n \<le> 2 ^ 62"
    and g: "g = gaps b ! gap_index (gaps b) offset"
  shows "(\<forall>i\<in>{offset..<offset + n}. received (stream_of b) i) \<longleftrightarrow> offset + n \<le> begin_offset g"
    and "begin_offset g < offset + n \<Longrightarrow>
      (\<exists>i\<in>{offset..<offset + n}. received (stream_of b) i) \<longleftrightarrow> offset < begin_offset g \<or> end_offset g < offset + n"
    and "begin_offset g \<le> offset \<Longrightarrow> gap_start (stream_of b) offset \<longleftrightarrow> begin_offset g = offset"
    and "begin_offset g \<le> offset \<Longrightarrow> offset + n \<le> end_offset g \<Longrightarrow>
      received (stream_of b) (offset + n) \<longleftrightarrow> end_offset g = offset + n"
proof -
  have gs: "gaps_from (total_bytes_read b) (gaps b)" using inv by (simp add: blocks_inv_def)
  have max: "offset < kMaxOffset" "offset + n < kMaxOffset" using n by (auto simp: kMaxOffset_def)
  note [simp] = received_stream_of [OF inv]
  obtain pre post where split: "gaps b = pre @ g # post" "\<forall>h\<in>set pre. end_offset h \<le> offset"
  proof
    show "gaps b = takeWhile (\<lambda>g. end_offset g \<le> offset) (gaps b) @ g # drop (Suc (gap_index (gaps b) offset)) (gaps b)"
      unfolding g by (subst takeWhile_eq_take) (rule id_take_nth_drop [OF gap_index_less [OF gs max(1)]])
    show "\<forall>h\<in>set (takeWhile (\<lambda>g. end_offset g \<le> offset) (gaps b)). end_offset h \<le> offset"
      by (auto dest: set_takeWhileD)
  qed
  have g': "offset < end_offset g" "begin_offset g < end_offset g" "end_offset g \<le> kMaxOffset"
    using gap_index_end [OF gs max(1), folded g] gaps_from_bounds [OF gs, of g] unfolding split(1) by simp_all
  have post: "post \<noteq> [] \<Longrightarrow> gaps_from (Suc (end_offset g)) post"
    using gaps_from_append gs unfolding split(1) .
  have last: "post = [] \<Longrightarrow> end_offset g = kMaxOffset" using gaps_from_last [OF gs] split(1) by simp
  have G: "in_gap (gaps b) i \<longleftrightarrow> begin_offset g \<le> i \<and> i < end_offset g" if "offset \<le> i" "i \<le> end_offset g" for i
  proof -
    have "\<not> in_gap post i" using gaps_from_not_below [OF post, of i] that(2) by (cases "post = []") auto
    moreover have "\<not> in_gap pre i" using split(2) that(1) by (force simp: in_gap_def)
    ultimately show ?thesis by (auto simp: split(1) in_gap_append in_gap_Cons)
  qed
  show "(\<forall>i\<in>{offset..<offset + n}. received (stream_of b) i) \<longleftrightarrow> offset + n \<le> begin_offset g"
  proof
    assume all: "\<forall>i\<in>{offset..<offset + n}. received (stream_of b) i"
    show "offset + n \<le> begin_offset g"
    proof (rule ccontr)
      assume "\<not> offset + n \<le> begin_offset g"
      then show False using all [rule_format, of "max offset (begin_offset g)"] G [of "max offset (begin_offset g)"] g' n(1) max
        by simp
    qed
  next
    assume "offset + n \<le> begin_offset g"
    then show "\<forall>i\<in>{offset..<offset + n}. received (stream_of b) i" using G g' max by auto
  qed
  show "(\<exists>i\<in>{offset..<offset + n}. received (stream_of b) i) \<longleftrightarrow> offset < begin_offset g \<or> end_offset g < offset + n"
    if "begin_offset g < offset + n"
  proof
    assume "\<exists>i\<in>{offset..<offset + n}. received (stream_of b) i"
    then show "offset < begin_offset g \<or> end_offset g < offset + n" using G max by force
  next
    assume "offset < begin_offset g \<or> end_offset g < offset + n"
    then show "\<exists>i\<in>{offset..<offset + n}. received (stream_of b) i"
      using G [of offset] G [of "end_offset g"] g' n(1) max
      by (auto intro: bexI [of _ offset] bexI [of _ "end_offset g"])
  qed
  show "gap_start (stream_of b) offset \<longleftrightarrow> begin_offset g = offset" if "begin_offset g \<le> offset"
  proof -
    have "g \<in> set (gaps b)" using split(1) by simp
    moreover have "\<not> gap_start (stream_of b) offset" if "begin_offset g < offset"
    proof -
      have "in_gap (gaps b) (offset - 1)" using \<open>g \<in> set (gaps b)\<close> that g' unfolding in_gap_def by (intro bexI [of _ g]) auto
      then show ?thesis using that max by (simp add: gap_start_def)
    qed
    ultimately show ?thesis using that gap_starts(1) [OF inv, of offset] by force
  qed
  show "received (stream_of b) (offset + n) \<longleftrightarrow> end_offset g = offset + n"
    if "begin_offset g \<le> offset" "offset + n \<le> end_offset g"
    using G [of "offset + n"] that max by auto
qed

theorem OnStreamData_refines:
  assumes inv: "sequencer_inv b" and data: "offset + length data \<le> 2 ^ 62"
  shows "\<exists>b' e n. OnStreamData b offset data now = Some (b', e, n) \<and> sequencer_inv b' \<and>
     spec_receive (max_buffer_capacity_bytes b) (stream_of b) offset data = (stream_of b', e, n) \<and>
     max_buffer_capacity_bytes b' = max_buffer_capacity_bytes b"
proof (cases "data = []")
  case True
  then show ?thesis using inv by (simp add: OnStreamData_def spec_receive_def)
next
  case False
  let ?n = "length data" and ?i = "gap_index (gaps b) offset" and ?c = "max_buffer_capacity_bytes b"
  let ?g = "gaps b ! ?i"
  have core: "blocks_inv b" and gs: "gaps_from (total_bytes_read b) (gaps b)" and ws: "well_sized b"
    using inv by (auto simp: sequencer_inv_def blocks_inv_def)
  have n: "0 < ?n" using False by simp
  have max: "offset < kMaxOffset" using data by (simp add: kMaxOffset_def)
  have i: "?i < length (gaps b)" by (rule gap_index_less [OF gs max])
  have add: "add64 offset ?n = offset + ?n" using data by (intro add64_id) simp
  have add': "add64 (total_bytes_read b) ?c = total_bytes_read b + ?c"
    using well_sizedD(2) [OF ws] gaps_from_last_begin [OF gs] core by (intro add64_id) (auto simp: blocks_inv_def)
  note found = gap_found [OF core n data refl]
  have g: "offset < end_offset ?g" by (rule gap_index_end [OF gs max])
  have eq: "OnStreamData b offset data now =
    (if offset + ?n \<le> begin_offset ?g then Some (b, QUIC_NO_ERROR, 0)
     else if offset < begin_offset ?g \<or> end_offset ?g < offset + ?n then Some (b, QUIC_OVERLAPPING_STREAM_DATA, 0)
     else if total_bytes_read b + ?c < offset + ?n then Some (b, QUIC_INTERNAL_ERROR, 0)
     else if begin_offset ?g \<noteq> offset \<and> end_offset ?g \<noteq> offset + ?n \<and> kMaxNumGapsAllowed \<le> length (gaps b)
     then Some (b, QUIC_TOO_MANY_FRAME_GAPS, 0)
     else (case write_blocks b offset data of
              None \<Rightarrow> None
            | Some (b, e) \<Rightarrow>
                if e \<noteq> QUIC_NO_ERROR then Some (b, e, 0)
                else Some (b\<lparr>gaps := UpdateGapList (gaps b) ?i offset ?n,
                  frame_arrival_time_map := arrival_insert offset (FrameInfo ?n now) (frame_arrival_time_map b),
                  num_bytes_buffered := add64 (num_bytes_buffered b) ?n\<rparr>, QUIC_NO_ERROR, ?n)))"
  proof (cases "offset < begin_offset ?g")
    case True
    then show ?thesis using i n unfolding OnStreamData_def Let_def add add' by simp
  next
    case F: False
    then have le: "\<not> offset + ?n \<le> begin_offset ?g" using n by linarith
    show ?thesis using i n F unfolding OnStreamData_def Let_def add add' if_not_P [OF le] by simp
  qed
  have spec: "spec_receive ?c (stream_of b) offset data =
    (if offset + ?n \<le> begin_offset ?g then (stream_of b, QUIC_NO_ERROR, 0)
     else if offset < begin_offset ?g \<or> end_offset ?g < offset + ?n then (stream_of b, QUIC_OVERLAPPING_STREAM_DATA, 0)
     else if total_bytes_read b + ?c < offset + ?n then (stream_of b, QUIC_INTERNAL_ERROR, 0)
     else if begin_offset ?g \<noteq> offset \<and> end_offset ?g \<noteq> offset + ?n \<and> kMaxNumGapsAllowed \<le> length (gaps b)
     then (stream_of b, QUIC_TOO_MANY_FRAME_GAPS, 0)
     else ((stream_of b)\<lparr>stored := store (stored (stream_of b)) offset data\<rparr>, QUIC_NO_ERROR, ?n))"
  proof (cases "offset + ?n \<le> begin_offset ?g")
    case True
    then show ?thesis using False unfolding spec_receive_def Let_def found(1) by simp
  next
    case over: False
    then have f2: "(\<exists>i\<in>{offset..<offset + ?n}. received (stream_of b) i) \<longleftrightarrow>
      offset < begin_offset ?g \<or> end_offset ?g < offset + ?n" using found(2) by simp
    have c: "consumed (stream_of b) = total_bytes_read b" by (simp add: stream_of_def)
    show ?thesis
    proof (cases "offset < begin_offset ?g \<or> end_offset ?g < offset + ?n")
      case True
      then show ?thesis using False over unfolding spec_receive_def Let_def found(1) f2 by simp
    next
      case inside: False
      then have "gap_start (stream_of b) offset \<longleftrightarrow> begin_offset ?g = offset"
        "received (stream_of b) (offset + ?n) \<longleftrightarrow> end_offset ?g = offset + ?n" using found(3,4) by simp_all
      then show ?thesis using False over inside unfolding spec_receive_def Let_def found(1) f2 c gap_starts(2) [OF core]
        by simp
    qed
  qed
  consider (new) "begin_offset ?g \<le> offset" "offset + ?n \<le> end_offset ?g" "offset + ?n \<le> total_bytes_read b + ?c"
        "\<not> (begin_offset ?g \<noteq> offset \<and> end_offset ?g \<noteq> offset + ?n \<and> kMaxNumGapsAllowed \<le> length (gaps b))"
    | (old) "\<not> (begin_offset ?g \<le> offset \<and> offset + ?n \<le> end_offset ?g \<and> offset + ?n \<le> total_bytes_read b + ?c \<and>
        \<not> (begin_offset ?g \<noteq> offset \<and> end_offset ?g \<noteq> offset + ?n \<and> kMaxNumGapsAllowed \<le> length (gaps b)))"
    by blast
  then show ?thesis
  proof cases
    case new
    have "total_bytes_read b \<le> offset" using gaps_from_bounds [OF gs nth_mem [OF i]] new(1) by simp
    then obtain b1 e where w: "write_blocks b offset data = Some (b1, e)"
      using write_blocks_ok [OF ws _ new(3) data False] by auto
    have few: "begin_offset ?g = offset \<or> end_offset ?g = offset + ?n \<or> length (gaps b) < kMaxNumGapsAllowed"
      using new(4) by linarith
    show ?thesis using store_frame [OF inv False data refl new(1-3) few w refl, of now] inv new n w unfolding eq spec by simp
  next
    case old
    then show ?thesis using inv unfolding eq spec by (auto split: if_splits)
  qed
qed

section \<open>Releasing blocks\<close>

text \<open>In a window of the length of the buffer, the block of its last byte is at the end of the window
  and, when the window does not start at a block boundary, also at its start.\<close>

lemma div_between: "a div k = j \<Longrightarrow> c div k = j \<Longrightarrow> a \<le> b \<Longrightarrow> b \<le> c \<Longrightarrow> b div k = j" for a b c k j :: nat
  by (metis div_le_mono le_antisym)

lemma window_last_block:
  assumes "0 < max_buffer_capacity_bytes b" "t \<le> i" "i < t + max_buffer_capacity_bytes b"
    and "GetBlockIndex b i = GetBlockIndex b (t + max_buffer_capacity_bytes b - 1)"
  shows "(\<forall>i'. t \<le> i' \<and> i' \<le> i \<longrightarrow> GetBlockIndex b i' = GetBlockIndex b i) \<or>
         (\<forall>i'. i \<le> i' \<and> i' < t + max_buffer_capacity_bytes b \<longrightarrow> GetBlockIndex b i' = GetBlockIndex b i)"
proof -
  define c a p where "c = max_buffer_capacity_bytes b" and "a = t div c * c" and "p = t mod c"
  have t: "t = a + p" "p < c" "0 < c" using assms(1) by (auto simp: a_def p_def c_def)
  have a: "(a + x) mod c = x mod c" for x by (simp add: a_def)
  have idx: "GetBlockIndex b (a + x) = x mod c div kBlockSizeBytes" for x
    by (simp add: GetBlockIndex_def c_def [symmetric] a)
  have first: "GetBlockIndex b (a + x) = x div kBlockSizeBytes" if "x < c" for x using idx that by simp
  have second: "GetBlockIndex b (a + (c + x)) = x div kBlockSizeBytes" if "x < c" for x using idx [of "c + x"] that by simp
  define x where "x = i - a"
  have x: "i = a + x" "p \<le> x" "x < p + c" using assms(2,3) t by (auto simp: x_def c_def)
  define j where "j = GetBlockIndex b i"
  show ?thesis
  proof (cases "p = 0")
    case True
    have "GetBlockIndex b i' = j" if "i \<le> i'" "i' < t + c" for i'
    proof -
      define y where "y = i' - a"
      have y: "i' = a + y" "x \<le> y" "y \<le> c - 1" "y < c" using that x t True by (auto simp: y_def)
      have "x div kBlockSizeBytes = j" "(c - 1) div kBlockSizeBytes = j"
        using first [of x] first [of "c - 1"] x t True assms(4) by (auto simp: j_def c_def)
      then show ?thesis using first [of y] y div_between [of x kBlockSizeBytes j "c - 1" y] by simp
    qed
    then show ?thesis unfolding j_def c_def by blast
  next
    case False
    then have "t + c - 1 = a + (c + (p - 1))" using t by simp
    then have q: "(p - 1) div kBlockSizeBytes = j" using second [of "p - 1"] t assms(4) by (simp add: j_def c_def)
    show ?thesis
    proof (cases "x < c")
      case True
      have "GetBlockIndex b i' = j" if "t \<le> i'" "i' \<le> i" for i'
      proof -
        define y where "y = i' - a"
        have y: "i' = a + y" "p - 1 \<le> y" "y \<le> x" "y < c" using that x t True by (auto simp: y_def)
        have "x div kBlockSizeBytes = j" using first [of x] True x by (simp add: j_def)
        then show ?thesis using first [of y] y div_between [of "p - 1" kBlockSizeBytes j x y] q by simp
      qed
      then show ?thesis unfolding j_def by blast
    next
      case ge: False
      have "GetBlockIndex b i' = j" if "i \<le> i'" "i' < t + c" for i'
      proof -
        define y where "y = i' - a - c"
        have y: "i' = a + (c + y)" "x - c \<le> y" "y \<le> p - 1" "y < c" using that x t ge False by (auto simp: y_def)
        have "(x - c) div kBlockSizeBytes = j" using second [of "x - c"] ge x t by (simp add: j_def)
        then show ?thesis using second [of y] y div_between [of "x - c" kBlockSizeBytes j "p - 1" y] q by simp
      qed
      then show ?thesis unfolding j_def c_def by blast
    qed
  qed
qed

lemma block_boundary:
  assumes "well_sized b" "0 < t" "GetInBlockOffset b t = 0"
  shows "GetBlockIndex b t \<noteq> GetBlockIndex b (t - 1)"
proof
  assume eq: "GetBlockIndex b t = GetBlockIndex b (t - 1)"
  let ?k = "GetBlockCapacity b (GetBlockIndex b (t - 1)) - GetInBlockOffset b (t - 1)"
  show False
  proof (cases "1 < ?k")
    case True
    then show False using block_span(2) [OF assms(1), of 1 "t - 1"] assms(2,3) by simp
  next
    case False
    let ?c = "max_buffer_capacity_bytes b" and ?j = "GetBlockIndex b (t - 1)"
    have "GetInBlockOffset b (t - 1) + 1 = GetBlockCapacity b ?j"
      using block_span(1) [OF assms(1), of "t - 1"] False by simp
    then have e: "(t - 1) mod ?c + 1 = min ((?j + 1) * kBlockSizeBytes) ?c"
      using GetBlockCapacity_eq(1) [OF assms(1) block_index_less [OF assms(1)], of "t - 1"]
      unfolding position_split by linarith
    have c: "kBlockSizeBytes < ?c" using well_sizedD(1) [OF assms(1)] .
    have m: "t mod ?c = ((t - 1) mod ?c + 1) mod ?c" using assms(2) mod_add_left_eq [of "t - 1" ?c 1] by simp
    show False
    proof (cases "(t - 1) mod ?c + 1 = ?c")
      case True
      then have "?j = 0" using eq m by (simp add: GetBlockIndex_def)
      then have "?c \<le> kBlockSizeBytes" using e True by simp
      then show False using c by simp
    next
      case False
      then have "t mod ?c = (?j + 1) * kBlockSizeBytes" using e m by (simp add: min_def split: if_splits)
      then have "GetBlockIndex b t = ?j + 1" unfolding GetBlockIndex_def [of b t] by simp
      then show False using eq by simp
    qed
  qed
qed

lemma block_end:
  assumes "well_sized b"
  shows "GetInBlockOffset b (t + (GetBlockCapacity b (GetBlockIndex b t) - GetInBlockOffset b t)) = 0"
proof -
  let ?c = "max_buffer_capacity_bytes b" and ?j = "GetBlockIndex b t"
  define m where "m = GetBlockCapacity b ?j - GetInBlockOffset b t"
  have "t mod ?c + m = min ((?j + 1) * kBlockSizeBytes) ?c"
    using GetBlockCapacity_eq(1) [OF assms block_index_less [OF assms], of t] block_span(1) [OF assms, of t]
    unfolding m_def position_split by linarith
  moreover have "(t + m) mod ?c = (t mod ?c + m) mod ?c" by (simp only: mod_add_left_eq)
  ultimately have "(t + m) mod ?c = 0 \<or> (t + m) mod ?c = (?j + 1) * kBlockSizeBytes"
    by (cases "(?j + 1) * kBlockSizeBytes < ?c") (simp_all add: min_def)
  then show ?thesis unfolding GetInBlockOffset_def m_def [symmetric, unfolded GetInBlockOffset_def] by auto
qed

lemma RetireBlock_ok:
  assumes "well_sized b" "allocated b j"
  shows "\<exists>bs. RetireBlock b j = Some (b\<lparr>blocks := Some bs\<rparr>, True) \<and> length bs = blocks_count b \<and>
     (\<forall>i. allocated (b\<lparr>blocks := Some bs\<rparr>) i \<longleftrightarrow> allocated b i \<and> i \<noteq> j) \<and>
     (\<forall>i. GetBlockIndex b i \<noteq> j \<longrightarrow> byte_at (b\<lparr>blocks := Some bs\<rparr>) i = byte_at b i)"
proof -
  obtain bs where bs: "blocks b = Some bs" "j < length bs" "bs ! j \<noteq> None" "length bs = blocks_count b"
    using assms by (auto simp: allocated_def block_pointer_def well_sized_def split: option.splits if_splits)
  then show ?thesis
    by (intro exI [of _ "bs[j := None]"])
      (auto simp: RetireBlock_def allocated_def block_pointer_def byte_at_def nth_list_update cong: option.case_cong)
qed

text \<open>A block that was read to its end, or up to a gap, is released exactly if no data is left in it.\<close>

lemma RetireBlockIfEmpty_ok:
  assumes ws: "well_sized b" and gs: "gaps_from (total_bytes_read b) (gaps b)"
    and win: "begin_offset (last (gaps b)) \<le> total_bytes_read b + max_buffer_capacity_bytes b"
      "begin_offset (last (gaps b)) \<le> 2 ^ 62"
    and pos: "0 < total_bytes_read b" and j: "j = GetBlockIndex b (total_bytes_read b - 1)"
    and al: "\<And>i. allocated b i \<longleftrightarrow> i \<in> GetBlockIndex b ` buffered b \<or> i = j"
    and stop: "begin_offset (hd (gaps b)) = total_bytes_read b \<or> GetInBlockOffset b (total_bytes_read b) = 0"
  shows "\<exists>x. RetireBlockIfEmpty b j = Some (b\<lparr>blocks := x\<rparr>, True) \<and> well_sized (b\<lparr>blocks := x\<rparr>) \<and>
     (\<forall>i. allocated (b\<lparr>blocks := x\<rparr>) i \<longleftrightarrow> i \<in> GetBlockIndex b ` buffered b) \<and>
     (\<forall>i\<in>buffered b. byte_at (b\<lparr>blocks := x\<rparr>) i = byte_at b i)"
proof -
  let ?t = "total_bytes_read b" and ?c = "max_buffer_capacity_bytes b" and ?L = "begin_offset (last (gaps b))"
  have same: ?thesis if "RetireBlockIfEmpty b j = Some (b, True)" "j \<in> GetBlockIndex b ` buffered b"
    using that al ws by (intro exI [of _ "blocks b"]) auto
  have retire: ?thesis if "RetireBlockIfEmpty b j = RetireBlock b j" "j \<notin> GetBlockIndex b ` buffered b"
  proof -
    obtain bs where "RetireBlock b j = Some (b\<lparr>blocks := Some bs\<rparr>, True)" "length bs = blocks_count b"
      "\<And>i. allocated (b\<lparr>blocks := Some bs\<rparr>) i \<longleftrightarrow> allocated b i \<and> i \<noteq> j"
      "\<And>i. GetBlockIndex b i \<noteq> j \<Longrightarrow> byte_at (b\<lparr>blocks := Some bs\<rparr>) i = byte_at b i"
      using RetireBlock_ok [OF ws, of j] al by auto
    then show ?thesis using that al well_sized_blocks [OF ws] by (intro exI [of _ "Some bs"]) auto
  qed
  obtain g gs' where g: "gaps b = g # gs'" using gs by (cases "gaps b") auto
  have front: "gaps_front b = Some g" "gaps_back b = Some (last (gaps b))" by (simp_all add: gaps_front_def gaps_back_def g)
  show ?thesis
  proof (cases "buffer_Empty b")
    case True
    then have "gs' = []" "begin_offset g = ?t" "end_offset g = kMaxOffset" using g gs by (auto simp: buffer_Empty_def)
    then have "buffered b = {}" using g by (auto simp: buffered_def in_gap_Cons)
    then show ?thesis using True by (intro retire) (simp_all add: RetireBlockIfEmpty_def)
  next
    case ne: False
    have L: "?t < ?L"
    proof (cases "gs' = []")
      case True
      then show ?thesis using ne gs g by (simp add: buffer_Empty_def)
    next
      case False
      then have "Suc (end_offset g) \<le> begin_offset (last gs')" using gs g gaps_from_last_begin [of "Suc (end_offset g)" gs'] by simp
      then show ?thesis using gs g False by simp
    qed
    have last: "?L - 1 \<in> buffered b"
      using before_last_gap [OF gs L] gaps_from_last_begin [OF gs] L by (auto simp: buffered_def)
    have sub: "sub64 ?L 1 = ?L - 1" using L win(2) by (intro sub64_id) auto
    have eq: "RetireBlockIfEmpty b j =
      (if GetBlockIndex b (?L - 1) = j then Some (b, True)
       else if GetBlockIndex b ?t = j \<and> GetBlockIndex b (end_offset g) = j then Some (b, True)
       else RetireBlock b j)"
      using ne unfolding RetireBlockIfEmpty_def front NextBlockToRead_def bind.bind_lunit sub by simp
    show ?thesis
    proof (cases "GetBlockIndex b (?L - 1) = j")
      case True
      then show ?thesis using last by (intro same) (auto simp: eq)
    next
      case notlast: False
      have ends: "gs' \<noteq> [] \<and> end_offset g \<in> buffered b" if "begin_offset g = ?t"
      proof -
        have "gs' \<noteq> []" using ne that g by (auto simp: buffer_Empty_def)
        moreover have "end_offset g < kMaxOffset"
          using calculation gs g gaps_from_last_begin [of "Suc (end_offset g)" gs'] by simp
        ultimately show ?thesis using gap_ends_in_data [of ?t g gs'] gs g by (auto simp: buffered_def)
      qed
      have at: "begin_offset g = ?t" if "GetBlockIndex b ?t = j"
        using block_boundary [OF ws pos] that stop g j by auto
      show ?thesis
      proof (cases "GetBlockIndex b ?t = j \<and> GetBlockIndex b (end_offset g) = j")
        case True
        then have "end_offset g \<in> buffered b" using ends at by blast
        then have "j \<in> GetBlockIndex b ` buffered b" using True by (metis imageI)
        then show ?thesis using True by (intro same) (simp_all add: eq)
      next
        case False
        have "j \<notin> GetBlockIndex b ` buffered b"
        proof
          assume "j \<in> GetBlockIndex b ` buffered b"
          then obtain i where i: "i \<in> buffered b" "GetBlockIndex b i = j" by auto
          have iL: "?t \<le> i" "i \<le> ?L - 1" "i < ?t + ?c" "?L - 1 < ?t + ?c"
            using i(1) not_in_gap_less [OF gs, of i] win L by (auto simp: buffered_def)
          have "?t + ?c - 1 = ?t - 1 + ?c" using pos by simp
          then have "j = GetBlockIndex b (?t + ?c - 1)" by (simp only: j GetBlockIndex_def mod_add_self2)
          then consider "\<forall>i'. ?t \<le> i' \<and> i' \<le> i \<longrightarrow> GetBlockIndex b i' = j" | "\<forall>i'. i \<le> i' \<and> i' < ?t + ?c \<longrightarrow> GetBlockIndex b i' = j"
            using window_last_block [OF _ iL(1,3)] well_sizedD(1) [OF ws] i(2) by (metis gr_implies_not0 gr0I)
          then show False
          proof cases
            case 1
            then have tj: "GetBlockIndex b ?t = j" using iL by simp
            then have "end_offset g \<le> i" using i(1) at [OF tj] g gs by (auto simp: buffered_def in_gap_Cons)
            moreover have "?t \<le> end_offset g" using gs g by simp
            ultimately show False using 1 False tj by blast
          next
            case 2
            then show False using iL notlast by blast
          qed
        qed
        then show ?thesis using notlast False by (intro retire) (auto simp: eq)
      qed
    qed
  qed
qed

section \<open>Reading refines\<close>

definition readable :: "sequencer_buffer \<Rightarrow> nat" where
  "readable b = begin_offset (hd (gaps b)) - total_bytes_read b"

lemma blocks_invD:
  assumes "blocks_inv b"
  shows "well_sized b" "gaps_from (total_bytes_read b) (gaps b)" "gaps b \<noteq> []"
    "total_bytes_read b \<le> begin_offset (hd (gaps b))" "begin_offset (hd (gaps b)) \<le> begin_offset (last (gaps b))"
    "begin_offset (last (gaps b)) \<le> total_bytes_read b + max_buffer_capacity_bytes b" "begin_offset (last (gaps b)) \<le> 2 ^ 62"
    "num_bytes_buffered b = card (buffered b)" "\<And>i. allocated b i \<longleftrightarrow> i \<in> GetBlockIndex b ` buffered b"
proof -
  have gs: "gaps_from (total_bytes_read b) (gaps b)" using assms by (simp add: blocks_inv_def)
  then obtain g gs' where g: "gaps b = g # gs'" by (cases "gaps b") auto
  show "begin_offset (hd (gaps b)) \<le> begin_offset (last (gaps b))" "total_bytes_read b \<le> begin_offset (hd (gaps b))"
    using gs g gaps_from_last_begin [of "Suc (end_offset g)" gs'] by auto
  show "gaps b \<noteq> []" using g by simp
qed (use assms in \<open>auto simp: blocks_inv_def\<close>)

lemma ReadableBytes_eq: "blocks_inv b \<Longrightarrow> ReadableBytes b = Some (readable b)"
  using blocks_invD(3,4,5,7) [of b] by (simp add: ReadableBytes_def gaps_front_def readable_def sub64_id)

lemma readable_buffered:
  assumes "blocks_inv b"
  shows "{total_bytes_read b..<total_bytes_read b + readable b} \<subseteq> buffered b"
    and "total_bytes_read b + readable b \<notin> buffered b"
proof -
  obtain g gs where g: "gaps b = g # gs" using blocks_invD(3) [OF assms] by (cases "gaps b") auto
  have gf: "gaps_from (total_bytes_read b) (gaps b)" by (rule blocks_invD(2) [OF assms])
  have e: "total_bytes_read b + readable b = begin_offset g" using blocks_invD(4) [OF assms] by (simp add: readable_def g)
  have low: "gaps_from (begin_offset g) (gaps b)" using gf g by simp
  show "{total_bytes_read b..<total_bytes_read b + readable b} \<subseteq> buffered b"
    using gaps_from_not_below [OF low] gaps_from_bounds [OF gf, of g] unfolding e by (auto simp: buffered_def g)
  show "total_bytes_read b + readable b \<notin> buffered b" using gf unfolding e by (auto simp: buffered_def g in_gap_Cons)
qed

lemma readable_bytes_stream_of: "blocks_inv b \<Longrightarrow> readable_bytes (stream_of b) = readable b"
  unfolding readable_bytes_def
proof (rule Least_equality)
  assume inv: "blocks_inv b"
  show "stored (stream_of b) (consumed (stream_of b) + readable b) = None"
    using readable_buffered(2) [OF inv] by (simp add: stream_of_def)
  show "readable b \<le> n" if "stored (stream_of b) (consumed (stream_of b) + n) = None" for n
  proof (rule ccontr)
    assume "\<not> readable b \<le> n"
    then have "total_bytes_read b + n \<in> buffered b" using readable_buffered(1) [OF inv] by auto
    then show False using that by (simp add: stream_of_def)
  qed
qed

text \<open>Advancing the read position within a block.\<close>

lemma advance_ok:
  assumes inv: "blocks_inv b" and m: "0 < m" "m \<le> available"
    and av: "available = min (readable b) (GetBlockCapacity b j - GetInBlockOffset b (total_bytes_read b))"
    and j: "j = GetBlockIndex b (total_bytes_read b)"
    and b1: "b1 = b\<lparr>num_bytes_buffered := num_bytes_buffered b - m, total_bytes_read := total_bytes_read b + m\<rparr>"
  shows "m < available \<Longrightarrow> blocks_inv b1 \<and> stream_of b1 = spec_consume (stream_of b) m"
    and "m = available \<Longrightarrow> \<exists>x. RetireBlockIfEmpty b1 j = Some (b1\<lparr>blocks := x\<rparr>, True) \<and>
      blocks_inv (b1\<lparr>blocks := x\<rparr>) \<and> stream_of (b1\<lparr>blocks := x\<rparr>) = spec_consume (stream_of b) m"
proof -
  let ?t = "total_bytes_read b" and ?r = "{total_bytes_read b..<total_bytes_read b + m}"
  note D = blocks_invD [OF inv]
  have mr: "m \<le> readable b" using m(2) av by simp
  obtain g gs where g: "gaps b = g # gs" using D(3) by (cases "gaps b") auto
  have hd: "?t + m \<le> begin_offset g" using mr D(4) by (simp add: readable_def g)
  have f: "total_bytes_read b1 = ?t + m" "gaps b1 = gaps b" "max_buffer_capacity_bytes b1 = max_buffer_capacity_bytes b"
    "well_sized b1 = well_sized b" "\<And>i. GetBlockIndex b1 i = GetBlockIndex b i" "\<And>i. GetInBlockOffset b1 i = GetInBlockOffset b i"
    "\<And>i. allocated b1 i = allocated b i" "\<And>i. byte_at b1 i = byte_at b i"
    by (simp_all add: b1 well_sized_def)
  have gs1: "gaps_from (total_bytes_read b1) (gaps b1)" using D(2) hd by (simp add: f g)
  have sub: "?r \<subseteq> buffered b" using readable_buffered(1) [OF inv] mr by auto
  have buf: "buffered b1 = buffered b - ?r" by (auto simp: buffered_def f)
  have num: "num_bytes_buffered b1 = card (buffered b1)"
    using card_Diff_subset [OF _ sub] D(8) by (simp add: buf) (simp add: b1)
  have span: "GetBlockIndex b (?t + k) = j \<and> GetInBlockOffset b (?t + k) = GetInBlockOffset b ?t + k" if "k < available" for k
    using block_span(2) [OF D(1), of k ?t] that av j by simp
  have "GetBlockIndex b i = j" if "i \<in> ?r" for i using span [of "i - ?t"] that m(2) by auto
  then have img: "GetBlockIndex b ` ?r = {j}" using m(1) by (auto simp: image_iff intro!: exI [of _ ?t])
  have "buffered b = buffered b1 \<union> ?r" using sub by (auto simp: buf)
  then have al: "allocated b1 i \<longleftrightarrow> i \<in> GetBlockIndex b ` buffered b1 \<or> i = j" for i
    unfolding f D(9) using img by (metis Un_iff image_Un singletonD singletonI)
  have stream: "stream_of (b1\<lparr>blocks := x\<rparr>) = spec_consume (stream_of b) m"
    if "\<forall>i\<in>buffered b1. byte_at (b1\<lparr>blocks := x\<rparr>) i = byte_at b1 i" for x
  proof -
    have "buffered (b1\<lparr>blocks := x\<rparr>) = buffered b1" by (simp add: buffered_def)
    then show ?thesis using that unfolding stream_of_def spec_consume_def
      by (auto simp: f buf fun_eq_iff) (auto simp: buffered_def)
  qed
  have inv1: "blocks_inv (b1\<lparr>blocks := x\<rparr>)"
    if "well_sized (b1\<lparr>blocks := x\<rparr>)" "\<forall>i. allocated (b1\<lparr>blocks := x\<rparr>) i \<longleftrightarrow> i \<in> GetBlockIndex b ` buffered b1" for x
  proof -
    have "buffered (b1\<lparr>blocks := x\<rparr>) = buffered b1" by (simp add: buffered_def)
    then show ?thesis using that gs1 num inv unfolding blocks_inv_def by (simp add: f)
  qed
  show "blocks_inv b1 \<and> stream_of b1 = spec_consume (stream_of b) m" if "m < available"
  proof -
    have "?t + m \<in> buffered b" using readable_buffered(1) [OF inv] that av by auto
    then have "?t + m \<in> buffered b1" unfolding buf by simp
    then have "j \<in> GetBlockIndex b ` buffered b1" using span [OF that] by (metis imageI)
    then show ?thesis using inv1 [of "blocks b1"] stream [of "blocks b1"] al D(1) f(4) by auto
  qed
  show "\<exists>x. RetireBlockIfEmpty b1 j = Some (b1\<lparr>blocks := x\<rparr>, True) \<and>
      blocks_inv (b1\<lparr>blocks := x\<rparr>) \<and> stream_of (b1\<lparr>blocks := x\<rparr>) = spec_consume (stream_of b) m" if "m = available"
  proof -
    have "j = GetBlockIndex b1 (total_bytes_read b1 - 1)" using span [of "m - 1"] m(1) that by (simp add: f)
    moreover have "begin_offset (hd (gaps b1)) = total_bytes_read b1 \<or> GetInBlockOffset b1 (total_bytes_read b1) = 0"
      using block_end [OF D(1), of ?t] that av D(4) by (auto simp: f readable_def j min_def split: if_splits)
    ultimately show ?thesis
      using RetireBlockIfEmpty_ok [of b1 j] gs1 D(1,6,7) m(1) al inv1 stream by (auto simp: f)
  qed
qed

text \<open>The arrival map after a read.\<close>

fun drop_frames :: "nat \<Rightarrow> (nat \<times> FrameInfo) list \<Rightarrow> (nat \<times> FrameInfo) list" where
  "drop_frames t [] = []"
| "drop_frames t ((k, f) # m) =
     (if t < k then (k, f) # m
      else if t < k + frame_length f then (t, FrameInfo (k + frame_length f - t) (timestamp f)) # m
      else drop_frames t m)"

lemma UpdateFrameArrivalMap_eq:
  assumes "frames_from lo (frame_arrival_time_map b)" "\<forall>i\<in>frame_bytes (frame_arrival_time_map b). i < 2 ^ 62"
  shows "UpdateFrameArrivalMap b t = b\<lparr>frame_arrival_time_map := drop_frames t (frame_arrival_time_map b)\<rparr>"
proof -
  have "(case erase_frames t (takeWhile (\<lambda>e. fst e \<le> t) m) None of
       None \<Rightarrow> dropWhile (\<lambda>e. fst e \<le> t) m | Some f \<Rightarrow> (t, f) # dropWhile (\<lambda>e. fst e \<le> t) m) = drop_frames t m"
    if "frames_from lo m" "\<forall>i\<in>frame_bytes m. i < 2 ^ 62" for lo m
    using that
  proof (induction lo m rule: frames_from.induct)
    case (2 lo k f m)
    have "k + frame_length f - 1 < 2 ^ 62" using 2(2,3) by auto
    then have e: "add64 k (frame_length f) = k + frame_length f" "k + frame_length f < 2 ^ 64" by (auto intro!: add64_id)
    consider "t < k" | "k \<le> t" "t < k + frame_length f" | "k + frame_length f \<le> t" by linarith
    then show ?case
    proof cases
      case 2
      have "takeWhile (\<lambda>e. fst e \<le> t) m = []" using \<open>frames_from lo ((k, f) # m)\<close> 2 by (cases m) auto
      moreover have "dropWhile (\<lambda>e. fst e \<le> t) m = m" using \<open>frames_from lo ((k, f) # m)\<close> 2 by (cases m) auto
      ultimately show ?thesis using 2 e by (simp add: sub64_id)
    next
      case 3
      then have "k \<le> t" by simp
      then show ?thesis using 2 3 e by (simp cong: option.case_cong)
    qed (use 2 in auto)
  qed simp
  from this [OF assms] show ?thesis by (simp add: UpdateFrameArrivalMap_def Let_def)
qed

lemma drop_frames_ok:
  "frames_from lo m \<Longrightarrow> frames_from t (drop_frames t m) \<and> frame_bytes (drop_frames t m) = frame_bytes m - {..<t}"
proof (induction lo m rule: frames_from.induct)
  case (2 lo k f m)
  have m: "frames_from (k + frame_length f) m" using 2(2) by simp
  show ?case
  proof (cases "t < k + frame_length f")
    case True
    then have "frame_bytes m - {..<t} = frame_bytes m" using frames_from_above [OF m] by force
    moreover have "{k..<k + frame_length f} - {..<t} = {max k t..<k + frame_length f}" by auto
    ultimately show ?thesis using 2(2) True by (cases "t < k") (simp_all add: Un_Diff max_def)
  next
    case False
    then have "frame_bytes ((k, f) # m) - {..<t} = frame_bytes m - {..<t}" "\<not> t < k" by auto
    then show ?thesis using 2(1) m False by simp
  qed
qed simp

lemma UpdateFrameArrivalMap_ok:
  assumes "sequencer_inv b0" "blocks_inv b" "frame_arrival_time_map b = frame_arrival_time_map b0"
    and "buffered b = buffered b0 - {..<total_bytes_read b}"
  shows "\<exists>m. UpdateFrameArrivalMap b (total_bytes_read b) = b\<lparr>frame_arrival_time_map := m\<rparr> \<and>
    sequencer_inv (b\<lparr>frame_arrival_time_map := m\<rparr>)"
proof -
  let ?m = "frame_arrival_time_map b0"
  have fr: "frames_from (total_bytes_read b0) ?m" "frame_bytes ?m = buffered b0" and core: "blocks_inv b0"
    using assms(1) by (auto simp: sequencer_inv_def)
  have "\<forall>i\<in>frame_bytes ?m. i < 2 ^ 62"
    using buffered_less [OF core] blocks_invD(7) [OF core] unfolding fr(2) by force
  then have "UpdateFrameArrivalMap b (total_bytes_read b) = b\<lparr>frame_arrival_time_map := drop_frames (total_bytes_read b) ?m\<rparr>"
    using UpdateFrameArrivalMap_eq [of "total_bytes_read b0" b] fr(1) assms(3) by simp
  moreover have "buffered (b\<lparr>frame_arrival_time_map := m\<rparr>) = buffered b" for m by (simp add: buffered_def)
  ultimately show ?thesis
    using drop_frames_ok [OF fr(1), of "total_bytes_read b"] assms(2,4) fr(2) by (auto simp: sequencer_inv_def)
qed

lemma spec_consume_consume: "spec_consume (spec_consume s m) n = spec_consume s (m + n)"
  by (auto simp: spec_consume_def fun_eq_iff)

lemma spec_data_append: "spec_data s (m + n) = spec_data s m @ spec_data (spec_consume s m) n"
proof -
  have "[0..<m + n] = [0..<m] @ [m..<n + m]" using upt_add_eq_append [of 0 m n] by (simp add: add.commute)
  then show ?thesis unfolding map_add_upt [symmetric] by (simp add: spec_data_def spec_consume_def add_ac)
qed

text \<open>A round of the read loop, and the loop.\<close>

lemma read_block_ok:
  assumes inv: "blocks_inv b" and pos: "0 < n" "0 < readable b"
  shows "\<exists>b' m. read_block b n = Some (b', QUIC_NO_ERROR, spec_data (stream_of b) m) \<and> 0 < m \<and> m \<le> n \<and> m \<le> readable b \<and>
     blocks_inv b' \<and> stream_of b' = spec_consume (stream_of b) m \<and>
     frame_arrival_time_map b' = frame_arrival_time_map b \<and> max_buffer_capacity_bytes b' = max_buffer_capacity_bytes b"
proof -
  let ?t = "total_bytes_read b"
  note D = blocks_invD [OF inv]
  define j p where "j = GetBlockIndex b ?t" and "p = GetInBlockOffset b ?t"
  define av where "av = min (readable b) (GetBlockCapacity b j - p)"
  define m where "m = min av n"
  have sp: "p < GetBlockCapacity b j" "GetBlockCapacity b j \<le> kBlockSizeBytes"
    using block_span(1) [OF D(1), of ?t] GetBlockCapacity_eq(2) [OF D(1) block_index_less [OF D(1)]]
    by (simp_all add: j_def p_def)
  have m: "0 < m" "m \<le> av" "m \<le> n" "m \<le> readable b" using pos sp(1) by (auto simp: m_def av_def)
  have sub: "sub64 (GetBlockCapacity b j) p = GetBlockCapacity b j - p"
    using sp by (intro sub64_id) (auto simp: kBlockSizeBytes_def)
  have "?t \<in> buffered b" using readable_buffered(1) [OF inv] pos by auto
  then have "allocated b j" using D(9) by (auto simp: j_def)
  then obtain bs blk where bs: "blocks b = Some bs" "j < length bs" "bs ! j = Some blk"
    by (auto simp: allocated_def block_pointer_def split: option.splits if_splits)
  define b1 where "b1 = b\<lparr>num_bytes_buffered := num_bytes_buffered b - m, total_bytes_read := ?t + m\<rparr>"
  have buf: "{?t..<?t + m} \<subseteq> buffered b" using readable_buffered(1) [OF inv] m(4) by auto
  have "m \<le> num_bytes_buffered b" using card_mono [OF _ buf] D(8) by simp
  moreover have "buffered b \<subseteq> {..<2 ^ 62}" using buffered_less [OF inv] D(7) by (auto intro: less_le_trans)
  then have "num_bytes_buffered b < 2 ^ 63" using card_mono [of "{..<2 ^ 62}" "buffered b"] D(8) by simp
  moreover have "?t + m < 2 ^ 64" using D(4,5,7) m(4) by (simp add: readable_def)
  ultimately have b1: "b\<lparr>num_bytes_buffered := sub64 (num_bytes_buffered b) m, total_bytes_read := add64 ?t m\<rparr> = b1"
    by (simp add: b1_def sub64_id add64_id)
  have data: "map blk [p..<p + m] = spec_data (stream_of b) m"
  proof (rule nth_equalityI)
    fix k assume "k < length (map blk [p..<p + m])"
    then have k: "k < m" by simp
    then have "GetBlockIndex b (?t + k) = j" "GetInBlockOffset b (?t + k) = p + k"
      using block_span(2) [OF D(1), of k ?t] m(2) by (auto simp: av_def j_def p_def)
    moreover have "?t + k \<in> buffered b" using buf k by auto
    ultimately show "map blk [p..<p + m] ! k = spec_data (stream_of b) m ! k"
      using k bs by (simp add: spec_data_def stream_of_def byte_at_def)
  qed (simp add: spec_data_def)
  have "\<not> kBlockSizeBytes < p + m" "\<not> length bs \<le> j" using m(2) sp bs(2) by (auto simp: av_def)
  then have eq: "read_block b n =
    (if m = av then do { (b2, retired) \<leftarrow> RetireBlockIfEmpty b1 j;
               Some (b2, if retired then QUIC_NO_ERROR else QUIC_STREAM_SEQUENCER_INVALID_STATE, spec_data (stream_of b) m) }
     else Some (b1, QUIC_NO_ERROR, spec_data (stream_of b) m))"
    using bs unfolding read_block_def ReadableBytes_eq [OF inv] NextBlockToRead_def ReadOffset_def
      j_def [symmetric] p_def [symmetric] Let_def sub bind.bind_lunit av_def [symmetric] m_def [symmetric] b1 data [symmetric]
    by simp
  have fields: "frame_arrival_time_map b1 = frame_arrival_time_map b" "max_buffer_capacity_bytes b1 = max_buffer_capacity_bytes b"
    by (simp_all add: b1_def)
  show ?thesis
  proof (cases "m = av")
    case True
    then obtain x where x: "RetireBlockIfEmpty b1 j = Some (b1\<lparr>blocks := x\<rparr>, True)" "blocks_inv (b1\<lparr>blocks := x\<rparr>)"
      "stream_of (b1\<lparr>blocks := x\<rparr>) = spec_consume (stream_of b) m"
      using advance_ok(2) [OF inv m(1,2) av_def [unfolded p_def] j_def b1_def] by blast
    show ?thesis using x True m fields
      by (intro exI [of _ "b1\<lparr>blocks := x\<rparr>"] exI [of _ m]) (simp add: eq)
  next
    case False
    then have "blocks_inv b1 \<and> stream_of b1 = spec_consume (stream_of b) m"
      using advance_ok(1) [OF inv m(1,2) av_def [unfolded p_def] j_def b1_def] m(2) by simp
    then show ?thesis using False m fields by (intro exI [of _ b1] exI [of _ m]) (simp add: eq)
  qed
qed

lemma readable_consume:
  assumes "blocks_inv b" "blocks_inv b'" "stream_of b' = spec_consume (stream_of b) m" "m \<le> readable b"
  shows "readable b' = readable b - m" "total_bytes_read b' = total_bytes_read b + m"
    "buffered b' = buffered b - {..<total_bytes_read b'}"
proof -
  have c: "consumed (stream_of b') = consumed (stream_of b) + m" "stored (stream_of b') =
    (\<lambda>i. if i < consumed (stream_of b) + m then None else stored (stream_of b) i)"
    using assms(3) by (simp_all add: spec_consume_def)
  show t: "total_bytes_read b' = total_bytes_read b + m" using c(1) by (simp add: stream_of_def)
  have "x \<in> buffered b' \<longleftrightarrow> x \<in> buffered b \<and> \<not> x < total_bytes_read b + m" for x
    using fun_cong [OF c(2), of x] by (auto simp: stream_of_def split: if_splits)
  then show buf: "buffered b' = buffered b - {..<total_bytes_read b'}" unfolding t by auto
  have lim: "n \<le> k" if "{a..<a + n} \<subseteq> S" "a + k \<notin> S" for a n k :: nat and S
    using that by (metis atLeastLessThan_iff le_add1 nat_add_left_cancel_less not_le subsetD)
  have "total_bytes_read b + m + (readable b - m) \<notin> buffered b'"
    using readable_buffered(2) [OF assms(1)] assms(4) unfolding buf by simp
  then have "readable b' \<le> readable b - m" by (rule lim [OF readable_buffered(1) [OF assms(2)], unfolded t])
  moreover have "total_bytes_read b + (m + readable b') \<notin> buffered b"
    using readable_buffered(2) [OF assms(2)] unfolding buf t by (simp add: add.assoc)
  then have "readable b \<le> m + readable b'" by (rule lim [OF readable_buffered(1) [OF assms(1)]])
  ultimately show "readable b' = readable b - m" by simp
qed

lemma read_blocks_ok:
  assumes "blocks_inv b"
  shows "\<exists>b'. read_blocks b n = Some (b', QUIC_NO_ERROR, spec_data (stream_of b) (min n (readable b))) \<and>
     blocks_inv b' \<and> stream_of b' = spec_consume (stream_of b) (min n (readable b)) \<and>
     frame_arrival_time_map b' = frame_arrival_time_map b \<and> max_buffer_capacity_bytes b' = max_buffer_capacity_bytes b"
  using assms
proof (induction n arbitrary: b rule: less_induct)
  case (less n)
  show ?case
  proof (cases "n = 0 \<or> readable b = 0")
    case True
    then show ?thesis using less.prems ReadableBytes_eq [OF less.prems]
      by (subst read_blocks.simps) (auto simp: spec_data_def spec_consume_def stream_of_def buffered_def)
  next
    case False
    then obtain b1 m where r: "read_block b n = Some (b1, QUIC_NO_ERROR, spec_data (stream_of b) m)"
      and m: "0 < m" "m \<le> n" "m \<le> readable b" and inv: "blocks_inv b1"
      and s: "stream_of b1 = spec_consume (stream_of b) m" "frame_arrival_time_map b1 = frame_arrival_time_map b"
        "max_buffer_capacity_bytes b1 = max_buffer_capacity_bytes b"
      using read_block_ok [OF less.prems, of n] by auto
    have len: "length (spec_data (stream_of b) m) = m" by (simp add: spec_data_def)
    obtain b2 where ih: "read_blocks b1 (n - m) = Some (b2, QUIC_NO_ERROR, spec_data (stream_of b1) (min (n - m) (readable b1)))"
      "blocks_inv b2" "stream_of b2 = spec_consume (stream_of b1) (min (n - m) (readable b1))"
      "frame_arrival_time_map b2 = frame_arrival_time_map b1" "max_buffer_capacity_bytes b2 = max_buffer_capacity_bytes b1"
      using less.IH [of "n - m" b1] inv m(1) False by auto
    have sum: "m + min (n - m) (readable b1) = min n (readable b)"
      using readable_consume(1) [OF less.prems inv s(1) m(3)] m by simp
    have "spec_data (stream_of b) m \<noteq> []" using m(1) by (simp add: spec_data_def)
    then have "read_blocks b n = Some (b2, QUIC_NO_ERROR, spec_data (stream_of b) m @ spec_data (stream_of b1) (min (n - m) (readable b1)))"
      using False len by (subst read_blocks.simps) (simp add: ReadableBytes_eq [OF less.prems] r ih(1))
    then show ?thesis using ih s unfolding s(1) spec_data_append [symmetric] spec_consume_consume sum
      by auto
  qed
qed

lemma read_iovecs_ok:
  "blocks_inv b \<Longrightarrow> \<exists>b' m. read_iovecs b lens = Some (b', QUIC_NO_ERROR, snd (spec_readv (stream_of b) lens)) \<and>
     blocks_inv b' \<and> stream_of b' = fst (spec_readv (stream_of b) lens) \<and> stream_of b' = spec_consume (stream_of b) m \<and> m \<le> readable b \<and>
     length (concat (snd (spec_readv (stream_of b) lens))) = m \<and>
     frame_arrival_time_map b' = frame_arrival_time_map b \<and> max_buffer_capacity_bytes b' = max_buffer_capacity_bytes b"
proof (induction lens arbitrary: b)
  case Nil
  then show ?case by (auto simp: spec_consume_def stream_of_def buffered_def fun_eq_iff intro!: exI [of _ b] exI [of _ 0])
next
  case (Cons n lens)
  show ?case
  proof (cases "readable b = 0")
    case True
    then show ?thesis using Cons.prems ReadableBytes_eq [OF Cons.prems] readable_bytes_stream_of [OF Cons.prems]
      by (auto simp: spec_consume_def stream_of_def buffered_def fun_eq_iff intro!: exI [of _ b] exI [of _ 0])
  next
    case False
    let ?m = "min n (readable b)"
    obtain b1 where b1: "read_blocks b n = Some (b1, QUIC_NO_ERROR, spec_data (stream_of b) ?m)"
      "blocks_inv b1" "stream_of b1 = spec_consume (stream_of b) ?m"
      "frame_arrival_time_map b1 = frame_arrival_time_map b" "max_buffer_capacity_bytes b1 = max_buffer_capacity_bytes b"
      using read_blocks_ok [OF Cons.prems, of n] by auto
    obtain b2 m where b2: "read_iovecs b1 lens = Some (b2, QUIC_NO_ERROR, snd (spec_readv (stream_of b1) lens))"
      "blocks_inv b2" "stream_of b2 = fst (spec_readv (stream_of b1) lens)" "stream_of b2 = spec_consume (stream_of b1) m"
      "m \<le> readable b1" "length (concat (snd (spec_readv (stream_of b1) lens))) = m"
      "frame_arrival_time_map b2 = frame_arrival_time_map b1" "max_buffer_capacity_bytes b2 = max_buffer_capacity_bytes b1"
      using Cons.IH [OF b1(2)] by auto
    have "?m + m \<le> readable b" using readable_consume(1) [OF Cons.prems b1(2,3)] b2(5) by simp
    then show ?thesis
      using b1 b2 False readable_bytes_stream_of [OF Cons.prems] ReadableBytes_eq [OF Cons.prems]
      by (intro exI [of _ b2] exI [of _ "?m + m"])
        (simp add: spec_consume_consume Let_def split_beta spec_data_def)
  qed
qed

theorem Readv_refines:
  assumes inv: "sequencer_inv b"
  shows "\<exists>b'. Readv b lens = Some (b', QUIC_NO_ERROR, snd (spec_readv (stream_of b) lens)) \<and> sequencer_inv b' \<and>
     stream_of b' = fst (spec_readv (stream_of b) lens) \<and> max_buffer_capacity_bytes b' = max_buffer_capacity_bytes b"
proof -
  have core: "blocks_inv b" using inv by (simp add: sequencer_inv_def)
  let ?d = "snd (spec_readv (stream_of b) lens)"
  obtain b1 m where b1: "read_iovecs b lens = Some (b1, QUIC_NO_ERROR, ?d)"
     "blocks_inv b1" "stream_of b1 = fst (spec_readv (stream_of b) lens)" "stream_of b1 = spec_consume (stream_of b) m"
     "m \<le> readable b" "length (concat ?d) = m"
     "frame_arrival_time_map b1 = frame_arrival_time_map b" "max_buffer_capacity_bytes b1 = max_buffer_capacity_bytes b"
    using read_iovecs_ok [OF core] by metis
  note rc = readable_consume [OF core b1(2,4,5)]
  show ?thesis
  proof (cases "m = 0")
    case True
    then have "concat ?d = []" "total_bytes_read b1 = total_bytes_read b" "buffered b1 = buffered b"
      using b1(6) rc(2,3) by (auto simp: buffered_def)
    then show ?thesis using b1 inv by (auto simp: Readv_def sequencer_inv_def)
  next
    case False
    then have "concat ?d \<noteq> []" using b1(6) by auto
    then show ?thesis using UpdateFrameArrivalMap_ok [OF inv b1(2,7) rc(3)] b1 by (auto simp: Readv_def)
  qed
qed

section \<open>The other operations refine\<close>

lemma consume_blocks_ok:
  assumes "blocks_inv b" "n \<le> readable b"
  shows "\<exists>b'. consume_blocks b n = Some b' \<and> blocks_inv b' \<and> stream_of b' = spec_consume (stream_of b) n \<and>
     frame_arrival_time_map b' = frame_arrival_time_map b \<and> max_buffer_capacity_bytes b' = max_buffer_capacity_bytes b"
  using assms
proof (induction n arbitrary: b rule: less_induct)
  case (less n)
  note inv = less.prems(1) and D = blocks_invD [OF less.prems(1)]
  show ?case
  proof (cases "n = 0")
    case True
    then show ?thesis using inv
      by (subst consume_blocks.simps) (auto simp: spec_consume_def stream_of_def buffered_def)
  next
    case False
    let ?t = "total_bytes_read b"
    define j p where "j = GetBlockIndex b ?t" and "p = GetInBlockOffset b ?t"
    define av where "av = min (readable b) (GetBlockCapacity b j - p)"
    define m where "m = min n av"
    have sp: "p < GetBlockCapacity b j" "GetBlockCapacity b j \<le> kBlockSizeBytes"
      using block_span(1) [OF D(1), of ?t] GetBlockCapacity_eq(2) [OF D(1) block_index_less [OF D(1)]]
      by (simp_all add: j_def p_def)
    have m: "0 < m" "m \<le> av" "m \<le> n" using False less.prems(2) sp(1) by (auto simp: m_def av_def)
    have sub: "sub64 (GetBlockCapacity b j) p = GetBlockCapacity b j - p"
      using sp by (intro sub64_id) (auto simp: kBlockSizeBytes_def)
    define b1 where "b1 = b\<lparr>num_bytes_buffered := num_bytes_buffered b - m, total_bytes_read := ?t + m\<rparr>"
    have "{?t..<?t + m} \<subseteq> buffered b" using readable_buffered(1) [OF inv] m(2) by (auto simp: av_def)
    then have "m \<le> num_bytes_buffered b" using card_mono [of "buffered b" "{?t..<?t + m}"] D(8) by simp
    moreover have "buffered b \<subseteq> {..<2 ^ 62}" using buffered_less [OF inv] D(7) by (auto intro: less_le_trans)
    then have "num_bytes_buffered b < 2 ^ 63" using card_mono [of "{..<2 ^ 62}" "buffered b"] D(8) by simp
    moreover have "?t + m < 2 ^ 64" using D(4,5,7) m(2) by (auto simp: readable_def av_def)
    ultimately have b1: "b\<lparr>total_bytes_read := add64 ?t m, num_bytes_buffered := sub64 (num_bytes_buffered b) m\<rparr> = b1"
      by (simp add: b1_def sub64_id add64_id)
    define step where "step = (if av = m then map_option fst (RetireBlockIfEmpty b1 j) else Some b1)"
    have eq: "consume_blocks b n = (case step of None \<Rightarrow> None | Some b \<Rightarrow> consume_blocks b (n - m))"
      using False m(1) by (subst consume_blocks.simps)
        (simp add: ReadableBytes_eq [OF inv] NextBlockToRead_def ReadOffset_def j_def [symmetric] p_def [symmetric]
          sub av_def [symmetric] m_def [symmetric] b1 step_def cong: option.case_cong)
    have "\<exists>b2. step = Some b2 \<and> blocks_inv b2 \<and> stream_of b2 = spec_consume (stream_of b) m \<and>
      frame_arrival_time_map b2 = frame_arrival_time_map b \<and> max_buffer_capacity_bytes b2 = max_buffer_capacity_bytes b"
      using advance_ok [OF inv m(1,2) av_def [unfolded p_def] j_def b1_def] m(2)
      by (cases "m = av") (auto simp: step_def b1_def)
    then obtain b2 where b2: "step = Some b2" "blocks_inv b2" "stream_of b2 = spec_consume (stream_of b) m"
      "frame_arrival_time_map b2 = frame_arrival_time_map b" "max_buffer_capacity_bytes b2 = max_buffer_capacity_bytes b" by blast
    have "n - m \<le> readable b2" using readable_consume(1) [OF inv b2(2,3)] less.prems(2) m(2) by (simp add: av_def)
    then show ?thesis using less.IH [of "n - m" b2] b2 m(1,3) False spec_consume_consume [of "stream_of b" m "n - m"]
      by (auto simp: eq)
  qed
qed

theorem MarkConsumed_refines:
  assumes inv: "sequencer_inv b"
  shows "\<exists>b'. MarkConsumed b n = Some (b', n \<le> readable_bytes (stream_of b)) \<and> sequencer_inv b' \<and>
     stream_of b' = (if n \<le> readable_bytes (stream_of b) then spec_consume (stream_of b) n else stream_of b) \<and>
     max_buffer_capacity_bytes b' = max_buffer_capacity_bytes b"
proof -
  have core: "blocks_inv b" using inv by (simp add: sequencer_inv_def)
  note r = ReadableBytes_eq [OF core] readable_bytes_stream_of [OF core]
  show ?thesis
  proof (cases "n \<le> readable b")
    case False
    then show ?thesis using inv by (simp add: MarkConsumed_def r)
  next
    case True
    obtain b1 where b1: "consume_blocks b n = Some b1" "blocks_inv b1" "stream_of b1 = spec_consume (stream_of b) n"
      "frame_arrival_time_map b1 = frame_arrival_time_map b" "max_buffer_capacity_bytes b1 = max_buffer_capacity_bytes b"
      using consume_blocks_ok [OF core True] by auto
    show ?thesis
    proof (cases "n = 0")
      case T: True
      then show ?thesis using inv b1 consume_blocks.simps [of b 0]
        by (auto simp: MarkConsumed_def r ReadableBytes_eq)
    next
      case F: False
      then show ?thesis
        using UpdateFrameArrivalMap_ok [OF inv b1(2,4) readable_consume(3) [OF core b1(2,3) True]] b1 True
        by (auto simp: MarkConsumed_def r)
    qed
  qed
qed

lemma retire_blocks_ok:
  "blocks b = Some bs \<Longrightarrow> \<forall>i\<in>set is. i < length bs \<Longrightarrow>
   retire_blocks b is = Some (b\<lparr>blocks := Some (map (\<lambda>i. if i \<in> set is then None else bs ! i) [0..<length bs])\<rparr>)"
proof (induction "is" arbitrary: b bs)
  case Nil
  then show ?case by (simp add: map_nth)
next
  case (Cons i "is")
  show ?case
  proof (cases "bs ! i")
    case None
    then have "(\<lambda>k. if k \<in> set (i # is) then None else bs ! k) = (\<lambda>k. if k \<in> set is then None else bs ! k)" by auto
    then show ?thesis using Cons None by simp
  next
    case (Some x)
    let ?b = "b\<lparr>blocks := Some (bs[i := None])\<rparr>"
    have "retire_blocks ?b is = Some (?b\<lparr>blocks := Some (map (\<lambda>k. if k \<in> set is then None else bs[i := None] ! k) [0..<length (bs[i := None])])\<rparr>)"
      using Cons.prems by (intro Cons.IH) auto
    moreover have "map (\<lambda>k. if k \<in> set is then None else bs[i := None] ! k) [0..<length (bs[i := None])] =
      map (\<lambda>k. if k \<in> set (i # is) then None else bs ! k) [0..<length bs]" using Cons.prems by (auto simp: nth_list_update)
    ultimately show ?thesis using Cons.prems Some by (simp add: RetireBlock_def)
  qed
qed

text \<open>Clearing forgets what is buffered and frees all blocks.\<close>

lemma Clear_ok:
  assumes "well_sized b" "total_bytes_read b \<le> 2 ^ 62"
  shows "\<exists>b'. Clear b = Some b' \<and> sequencer_inv b' \<and> stream_of b' = \<lparr>consumed = total_bytes_read b, stored = Map.empty\<rparr> \<and>
    max_buffer_capacity_bytes b' = max_buffer_capacity_bytes b \<and> (\<forall>i. \<not> allocated b' i)"
proof -
  let ?set = "\<lambda>x. b\<lparr>blocks := x, num_bytes_buffered := 0, gaps := [Gap (total_bytes_read b) kMaxOffset], frame_arrival_time_map := []\<rparr>"
  obtain x where x: "Clear b = Some (?set x)" "\<And>bs. x = Some bs \<Longrightarrow> length bs = blocks_count b \<and> (\<forall>i<length bs. bs ! i = None)"
  proof (cases "blocks b")
    case None
    then show ?thesis using that [of None] by (simp add: Clear_def)
  next
    case (Some bs)
    then have "length bs = blocks_count b" using assms(1) by (simp add: well_sized_def)
    then show ?thesis using that [of "Some (map (\<lambda>i. None) [0..<length bs])"] Some retire_blocks_ok [OF Some, of "[0..<blocks_count b]"]
      by (simp add: Clear_def cong: map_cong)
  qed
  have al: "\<not> allocated (?set x) i" for i
    using x(2) by (auto simp: allocated_def block_pointer_def split: option.splits)
  have buf: "buffered (?set x) = {}" by (auto simp: buffered_def in_gap_Cons)
  have "well_sized (?set x)" using assms(1) x(2) by (auto simp: well_sized_def)
  moreover have "total_bytes_read b < kMaxOffset" using assms(2) by (simp add: kMaxOffset_def)
  ultimately have "blocks_inv (?set x)" using assms(2) al
    by (simp add: blocks_inv_def buf kMaxNumGapsAllowed_def kMaxPacketGap_def)
  then have "sequencer_inv (?set x)" by (simp add: sequencer_inv_def buf)
  moreover have "stream_of (?set x) = \<lparr>consumed = total_bytes_read b, stored = Map.empty\<rparr>" by (simp add: stream_of_def buf)
  ultimately show ?thesis using x(1) al by (intro exI [of _ "?set x"]) simp
qed

lemma dom_stored: "dom (stored (stream_of b)) = buffered b"
  by (auto simp: stream_of_def dom_def)

lemma consumed_stream_of: "consumed (stream_of b) = total_bytes_read b"
  by (simp add: stream_of_def)

theorem Clear_refines:
  assumes "sequencer_inv b"
  shows "\<exists>b'. Clear b = Some b' \<and> sequencer_inv b' \<and> stream_of b' = spec_clear (stream_of b) \<and>
    max_buffer_capacity_bytes b' = max_buffer_capacity_bytes b"
proof -
  have core: "blocks_inv b" using assms by (simp add: sequencer_inv_def)
  have "total_bytes_read b \<le> 2 ^ 62" using blocks_invD(4,5,7) [OF core] by linarith
  then show ?thesis using Clear_ok [OF blocks_invD(1) [OF core]] by (auto simp: spec_clear_def stream_of_def)
qed

theorem ReleaseWholeBuffer_refines:
  assumes "sequencer_inv b"
  shows "\<exists>b'. ReleaseWholeBuffer b = Some b' \<and> sequencer_inv b' \<and> stream_of b' = spec_clear (stream_of b) \<and>
    max_buffer_capacity_bytes b' = max_buffer_capacity_bytes b \<and> blocks b' = None"
proof -
  have core: "blocks_inv b" using assms by (simp add: sequencer_inv_def)
  have "total_bytes_read b \<le> 2 ^ 62" using blocks_invD(4,5,7) [OF core] by linarith
  then obtain b' where b': "Clear b = Some b'" "sequencer_inv b'" "stream_of b' = spec_clear (stream_of b)"
    "max_buffer_capacity_bytes b' = max_buffer_capacity_bytes b" "\<forall>i. \<not> allocated b' i"
    using Clear_ok [OF blocks_invD(1) [OF core]] by (auto simp: spec_clear_def stream_of_def)
  have "buffered b' = {}" using dom_stored [of b'] b'(3) by (simp add: spec_clear_def)
  then have e: "buffered (b'\<lparr>blocks := None\<rparr>) = {}" by (simp add: buffered_def)
  have "\<not> allocated (b'\<lparr>blocks := None\<rparr>) i" for i by (simp add: allocated_def block_pointer_def)
  then have "sequencer_inv (b'\<lparr>blocks := None\<rparr>)"
    using b'(2) \<open>buffered b' = {}\<close> by (simp add: sequencer_inv_def blocks_inv_def well_sized_def e)
  moreover have "stream_of (b'\<lparr>blocks := None\<rparr>) = stream_of b'" using e \<open>buffered b' = {}\<close> by (simp add: stream_of_def)
  ultimately show ?thesis using b' by (simp add: ReleaseWholeBuffer_def)
qed

theorem FlushBufferedFrames_refines:
  assumes "sequencer_inv b"
  shows "\<exists>b'. FlushBufferedFrames b = Some (b', snd (spec_flush (stream_of b))) \<and> sequencer_inv b' \<and>
    stream_of b' = fst (spec_flush (stream_of b)) \<and> max_buffer_capacity_bytes b' = max_buffer_capacity_bytes b"
proof -
  let ?t = "total_bytes_read b" and ?L = "begin_offset (last (gaps b))"
  have core: "blocks_inv b" using assms by (simp add: sequencer_inv_def)
  note D = blocks_invD [OF core]
  have L: "(if buffered b = {} then ?t else Suc (Max (buffered b))) = ?L"
  proof (cases "?t < ?L")
    case True
    have "?L - 1 \<in> buffered b"
      using before_last_gap [OF D(2) True] gaps_from_last_begin [OF D(2)] True by (auto simp: buffered_def)
    moreover have "Max (buffered b) = ?L - 1"
      using calculation buffered_less [OF core] by (intro Max_eqI) force+
    ultimately show ?thesis using True by auto
  next
    case False
    then have "buffered b = {}" using buffered_less [OF core] by (force simp: buffered_def)
    then show ?thesis using False D(4,5) by simp
  qed
  have spec: "spec_flush (stream_of b) = (\<lparr>consumed = ?L, stored = Map.empty\<rparr>, ?L - ?t)"
    unfolding spec_flush_def dom_stored Let_def consumed_stream_of L ..
  have "well_sized (b\<lparr>total_bytes_read := ?L\<rparr>)" using D(1) by (simp add: well_sized_def)
  then obtain b' where b': "Clear (b\<lparr>total_bytes_read := ?L\<rparr>) = Some b'" "sequencer_inv b'"
    "stream_of b' = \<lparr>consumed = ?L, stored = Map.empty\<rparr>" "max_buffer_capacity_bytes b' = max_buffer_capacity_bytes b"
    using Clear_ok [of "b\<lparr>total_bytes_read := ?L\<rparr>"] D(7) by auto
  have "total_bytes_read b' = ?L" using b'(3) by (simp add: stream_of_def)
  then have "sub64 (total_bytes_read b') ?t = ?L - ?t" using D(4,5,7) by (simp add: sub64_id)
  then show ?thesis using b' D(3) by (simp add: FlushBufferedFrames_def gaps_back_def spec)
qed

lemma ceiling_div_nat: "0 < k \<Longrightarrow> nat \<lceil>of_nat n / (of_nat k :: rat)\<rceil> = (n + k - 1) div k"
proof -
  assume k: "0 < k"
  let ?q = "(n + k - 1) div k"
  have "?q * k \<le> n + k - 1" "n + k - 1 < ?q * k + k"
    using div_times_less_eq_dividend [of "n + k - 1" k] dividend_less_div_times [OF k, of "n + k - 1"] by simp_all
  then have "?q * k < n + k" "n \<le> ?q * k" using k by linarith+
  then have "of_nat ?q * of_nat k < (of_nat n + of_nat k :: rat)" "of_nat n \<le> (of_nat ?q * of_nat k :: rat)"
    by (simp_all only: of_nat_mult [symmetric] of_nat_add [symmetric] of_nat_less_iff of_nat_le_iff)
  then have "\<lceil>of_nat n / (of_nat k :: rat)\<rceil> = int ?q"
    using k by (intro ceiling_unique) (simp_all add: field_simps)
  then show ?thesis by simp
qed

text \<open>A new buffer; the division of the constructor is exact.\<close>

lemma QuicStreamSequencerBuffer_eq:
  assumes "kBlockSizeBytes < c" "c \<le> 2 ^ 32"
  shows "QuicStreamSequencerBuffer c =
    Some \<lparr>max_buffer_capacity_bytes = c, blocks_count = (c + kBlockSizeBytes - 1) div kBlockSizeBytes, total_bytes_read = 0,
          gaps = [Gap 0 kMaxOffset], blocks = None, num_bytes_buffered = 0, frame_arrival_time_map = []\<rparr>"
    and "1 < (c + kBlockSizeBytes - 1) div kBlockSizeBytes"
proof -
  have i: "double_round (of_nat c) = of_nat c"
    using fround_int [of "int c" 53] assms(2) by (simp add: double_round_def)
  have "of_nat c / of_nat kBlockSizeBytes = of_int (int c) * pow2 (-13)"
    by (simp add: kBlockSizeBytes_def pow2_def)
  then have "double_round (of_nat c / of_nat kBlockSizeBytes) = of_nat c / of_nat kBlockSizeBytes"
    using fround_int_scaled [of "int c" 53 "-13"] assms(2) by (simp add: double_round_def)
  then have n: "nat \<lceil>double_round (double_round (of_nat c) / of_nat kBlockSizeBytes)\<rceil> = (c + kBlockSizeBytes - 1) div kBlockSizeBytes"
    unfolding i using ceiling_div_nat [OF kBlockSizeBytes_pos, of c] by simp
  have "2 * kBlockSizeBytes \<le> c + kBlockSizeBytes - 1" using assms(1) by linarith
  then show m: "1 < (c + kBlockSizeBytes - 1) div kBlockSizeBytes"
    using less_eq_div_iff_mult_less_eq [OF kBlockSizeBytes_pos, of 2 "c + kBlockSizeBytes - 1"] by linarith
  then show "QuicStreamSequencerBuffer c =
    Some \<lparr>max_buffer_capacity_bytes = c, blocks_count = (c + kBlockSizeBytes - 1) div kBlockSizeBytes, total_bytes_read = 0,
          gaps = [Gap 0 kMaxOffset], blocks = None, num_bytes_buffered = 0, frame_arrival_time_map = []\<rparr>"
    by (simp add: QuicStreamSequencerBuffer_def n Clear_def)
qed

lemma QuicStreamSequencerBuffer_ok:
  assumes "kBlockSizeBytes < c" "c \<le> 2 ^ 32"
  shows "\<exists>b. QuicStreamSequencerBuffer c = Some b \<and> sequencer_inv b \<and> stream_of b = \<lparr>consumed = 0, stored = Map.empty\<rparr> \<and>
    max_buffer_capacity_bytes b = c"
proof -
  let ?b = "\<lparr>max_buffer_capacity_bytes = c, blocks_count = (c + kBlockSizeBytes - 1) div kBlockSizeBytes, total_bytes_read = 0,
          gaps = [Gap 0 kMaxOffset], blocks = None, num_bytes_buffered = 0, frame_arrival_time_map = []\<rparr>"
  have "well_sized ?b" using assms QuicStreamSequencerBuffer_eq(2) [OF assms] by (simp add: well_sized_def)
  moreover have "Clear ?b = Some ?b" by (simp add: Clear_def)
  ultimately show ?thesis using Clear_ok [of ?b] QuicStreamSequencerBuffer_eq(1) [OF assms] by auto
qed

section \<open>Runs of the buffer\<close>

datatype buffer_op =
    Receive nat "uint8 list" QuicTime
  | Read "nat list"
  | Consume nat
  | Flush
  | ClearAll
  | Release

datatype buffer_result =
    Received QuicErrorCode nat
  | Data QuicErrorCode "uint8 list list"
  | Consumed bool
  | Flushed nat
  | Cleared

primrec buffer_step :: "sequencer_buffer \<Rightarrow> buffer_op \<Rightarrow> (sequencer_buffer \<times> buffer_result) option" where
  "buffer_step b (Receive offset data now) = map_option (\<lambda>(b, e, n). (b, Received e n)) (OnStreamData b offset data now)"
| "buffer_step b (Read lens) = map_option (\<lambda>(b, e, data). (b, Data e data)) (Readv b lens)"
| "buffer_step b (Consume n) = map_option (\<lambda>(b, r). (b, Consumed r)) (MarkConsumed b n)"
| "buffer_step b Flush = map_option (\<lambda>(b, n). (b, Flushed n)) (FlushBufferedFrames b)"
| "buffer_step b ClearAll = map_option (\<lambda>b. (b, Cleared)) (Clear b)"
| "buffer_step b Release = map_option (\<lambda>b. (b, Cleared)) (ReleaseWholeBuffer b)"

primrec stream_step :: "nat \<Rightarrow> stream_spec \<Rightarrow> buffer_op \<Rightarrow> stream_spec \<times> buffer_result" where
  "stream_step c s (Receive offset data now) = (let (s', e, n) = spec_receive c s offset data in (s', Received e n))"
| "stream_step c s (Read lens) = (let (s', data) = spec_readv s lens in (s', Data QUIC_NO_ERROR data))"
| "stream_step c s (Consume n) =
     (if n \<le> readable_bytes s then (spec_consume s n, Consumed True) else (s, Consumed False))"
| "stream_step c s Flush = (let (s', n) = spec_flush s in (s', Flushed n))"
| "stream_step c s ClearAll = (spec_clear s, Cleared)"
| "stream_step c s Release = (spec_clear s, Cleared)"

text \<open>Frames whose end does not wrap.\<close>

primrec op_fits :: "buffer_op \<Rightarrow> bool" where
  "op_fits (Receive offset data now) = (offset + length data \<le> 2 ^ 62)"
| "op_fits (Read lens) = True"
| "op_fits (Consume n) = True"
| "op_fits Flush = True"
| "op_fits ClearAll = True"
| "op_fits Release = True"

interpretation sequencer_sim: simulation buffer_step "stream_step c"
  "\<lambda>b. sequencer_inv b \<and> max_buffer_capacity_bytes b = c" stream_of op_fits for c
proof
  fix b x assume b: "sequencer_inv b \<and> max_buffer_capacity_bytes b = c" and x: "op_fits x"
  have inv: "sequencer_inv b" using b by simp
  show "\<exists>b' out. buffer_step b x = Some (b', out) \<and> (sequencer_inv b' \<and> max_buffer_capacity_bytes b' = c) \<and>
      stream_step c (stream_of b) x = (stream_of b', out)"
  proof (cases x)
    case (Receive offset data now)
    then show ?thesis using OnStreamData_refines [OF inv, of offset data now] b x by auto
  next
    case (Read lens)
    then show ?thesis using Readv_refines [OF inv, of lens] b by (auto simp: split_beta)
  next
    case (Consume n)
    then show ?thesis using MarkConsumed_refines [OF inv, of n] b by (auto split: if_splits)
  next
    case Flush
    then show ?thesis using FlushBufferedFrames_refines [OF inv] b by (auto simp: split_beta)
  next
    case ClearAll
    then show ?thesis using Clear_refines [OF inv] b by auto
  next
    case Release
    then show ?thesis using ReleaseWholeBuffer_refines [OF inv] b by auto
  qed
qed

text \<open>C7: The reassembly buffer refines a stream of bytes: every sequence of frames (in any order,
  duplicated, overlapping, out of range, but ending at most at offset \<open>2 ^ 62\<close>), reads, skips, flushes, clears and
  releases on a new buffer of more than 8 KB and at most 4 GB succeeds, without a null or out-of-bounds access and without the internal state
  error, and returns the codes, counts and bytes that the stream of received bytes returns.\<close>

theorem sequencer_buffer_refines:
  assumes "kBlockSizeBytes < c" "c \<le> 2 ^ 32" "\<forall>x\<in>set ops. op_fits x"
  shows "\<exists>b b'. QuicStreamSequencerBuffer c = Some b \<and>
     op_run buffer_step b ops = Some (b', snd (spec_run (stream_step c) \<lparr>consumed = 0, stored = Map.empty\<rparr> ops)) \<and>
     stream_of b' = fst (spec_run (stream_step c) \<lparr>consumed = 0, stored = Map.empty\<rparr> ops)"
proof -
  obtain b where b: "QuicStreamSequencerBuffer c = Some b" "sequencer_inv b"
    "stream_of b = \<lparr>consumed = 0, stored = Map.empty\<rparr>" "max_buffer_capacity_bytes b = c"
    using QuicStreamSequencerBuffer_ok [OF assms(1,2)] by auto
  then show ?thesis using sequencer_sim.run_refines [of b c ops] assms(3) by auto
qed

theorem sequencer_buffer_refines_witness:
  "\<exists>b b'. QuicStreamSequencerBuffer 20000 = Some b \<and>
     op_run buffer_step b [Receive 8190 [1, 2, 3, 4] 5, Read [10], Receive 0 (replicate 8190 9) 6, Consume 8191, Read [2, 8]] =
       Some (b', snd (spec_run (stream_step 20000) \<lparr>consumed = 0, stored = Map.empty\<rparr>
         [Receive 8190 [1, 2, 3, 4] 5, Read [10], Receive 0 (replicate 8190 9) 6, Consume 8191, Read [2, 8]]))"
  using sequencer_buffer_refines [of 20000
      "[Receive 8190 [1, 2, 3, 4] 5, Read [10], Receive 0 (replicate 8190 9) 6, Consume 8191, Read [2, 8]]"]
  by (force simp: kBlockSizeBytes_def)

section \<open>Delivery\<close>

definition behind_empty :: "stream_spec \<Rightarrow> bool" where
  "behind_empty s \<longleftrightarrow> (\<forall>i<consumed s. stored s i = None)"

lemma behind_empty_consume [simp]: "behind_empty (spec_consume s n)"
  by (simp add: behind_empty_def spec_consume_def)

lemma spec_consume_0: "behind_empty s \<Longrightarrow> spec_consume s 0 = s"
  unfolding behind_empty_def spec_consume_def by (cases s) (auto simp: fun_eq_iff)

text \<open>A read hands out the next bytes of the stream.\<close>

lemma spec_readv_data:
  "behind_empty s \<Longrightarrow> \<exists>m. fst (spec_readv s lens) = spec_consume s m \<and> concat (snd (spec_readv s lens)) = spec_data s m \<and>
     (\<forall>i<m. stored s (consumed s + i) \<noteq> None)"
proof (induction lens arbitrary: s)
  case Nil
  then show ?case using spec_consume_0 by (auto simp: spec_data_def intro!: exI [of _ 0])
next
  case (Cons n lens)
  show ?case
  proof (cases "readable_bytes s = 0")
    case True
    then show ?thesis using spec_consume_0 [OF Cons.prems] by (auto simp: spec_data_def intro!: exI [of _ 0])
  next
    case False
    let ?k = "min n (readable_bytes s)" and ?s = "spec_consume s (min n (readable_bytes s))"
    obtain m where m: "fst (spec_readv ?s lens) = spec_consume ?s m" "concat (snd (spec_readv ?s lens)) = spec_data ?s m"
      "\<forall>i<m. stored ?s (consumed ?s + i) \<noteq> None" using Cons.IH [of ?s] by auto
    have "stored s (consumed s + i) \<noteq> None" if "i < ?k + m" for i
    proof (cases "i < ?k")
      case True
      then have "i < readable_bytes s" by simp
      then show ?thesis unfolding readable_bytes_def by (rule not_less_Least)
    next
      case F: False
      then have "consumed s + ?k + (i - ?k) = consumed s + i" "i - ?k < m" using that by linarith+
      then show ?thesis using m(3) [rule_format, of "i - ?k"] by (simp add: spec_consume_def split: if_splits)
    qed
    then show ?thesis using False m(1,2)
      by (intro exI [of _ "?k + m"]) (simp add: Let_def split_beta spec_consume_consume spec_data_append)
  qed
qed

primrec result_bytes :: "buffer_result \<Rightarrow> uint8 list" where
  "result_bytes (Received e n) = []"
| "result_bytes (Data e data) = concat data"
| "result_bytes (Consumed r) = []"
| "result_bytes (Flushed n) = []"
| "result_bytes Cleared = []"

text \<open>Frames of the stream \<open>S\<close> and reads; the bytes of a frame that was accepted.\<close>

primrec op_of_stream :: "(nat \<Rightarrow> uint8) \<Rightarrow> buffer_op \<Rightarrow> bool" where
  "op_of_stream S (Receive offset data now) = (data = map S [offset..<offset + length data])"
| "op_of_stream S (Read lens) = True"
| "op_of_stream S (Consume n) = False"
| "op_of_stream S Flush = False"
| "op_of_stream S ClearAll = False"
| "op_of_stream S Release = False"

fun accepts :: "buffer_op \<times> buffer_result \<Rightarrow> nat \<Rightarrow> bool" where
  "accepts (Receive offset data now, Received e n) i = (e = QUIC_NO_ERROR \<and> offset \<le> i \<and> i < offset + length data)"
| "accepts _ i = False"

definition accepted :: "(buffer_op \<times> buffer_result) list \<Rightarrow> nat \<Rightarrow> bool" where
  "accepted h i \<longleftrightarrow> (\<exists>p\<in>set h. accepts p i)"

definition stream_bytes :: "(nat \<Rightarrow> uint8) \<Rightarrow> stream_spec \<Rightarrow> bool" where
  "stream_bytes S s \<longleftrightarrow> behind_empty s \<and> (\<forall>i x. stored s i = Some x \<longrightarrow> x = S i)"

lemma spec_receive_delivers:
  assumes "stream_bytes S s" "data = map S [offset..<offset + length data]" "spec_receive c s offset data = (s', e, n)"
  shows "stream_bytes S s' \<and> consumed s' = consumed s \<and> (\<forall>i. received s i \<longrightarrow> received s' i) \<and>
    (e = QUIC_NO_ERROR \<longrightarrow> (\<forall>i\<in>{offset..<offset + length data}. received s' i))"
proof -
  consider (old) "s' = s" "e = QUIC_NO_ERROR \<longrightarrow> (\<forall>i\<in>{offset..<offset + length data}. received s i)"
    | (new) "\<forall>i\<in>{offset..<offset + length data}. \<not> received s i" "s' = s\<lparr>stored := store (stored s) offset data\<rparr>"
  proof -
    define A B where "A \<longleftrightarrow> (\<forall>i\<in>{offset..<offset + length data}. received s i)"
      and "B \<longleftrightarrow> (\<exists>i\<in>{offset..<offset + length data}. received s i)"
    have "s' = s \<and> (e = QUIC_NO_ERROR \<longrightarrow> A) \<or> \<not> B \<and> s' = s\<lparr>stored := store (stored s) offset data\<rparr>"
      using assms(3) unfolding spec_receive_def Let_def A_def [symmetric] B_def [symmetric]
      by (auto split: if_splits)
    then show thesis using that unfolding A_def B_def by blast
  qed
  then show ?thesis
  proof cases
    case old
    then show ?thesis using assms(1) by simp
  next
    case new
  have "data ! (i - offset) = S i" if "offset \<le> i" "i < offset + length data" for i
    using that by (subst assms(2)) simp
  moreover have "\<not> (offset \<le> i \<and> i < offset + length data)" if "i < consumed s" for i
    using new(1) that by (auto simp: received_def)
  ultimately show ?thesis using assms(1) new(2)
    by (auto simp: stream_bytes_def behind_empty_def store_def received_def)
  qed
qed

lemma spec_readv_delivers:
  assumes "stream_bytes S s" "spec_readv s lens = (s', data)"
  shows "stream_bytes S s' \<and> consumed s \<le> consumed s' \<and> (\<forall>i. received s i \<longrightarrow> received s' i) \<and>
    concat data = map S [consumed s..<consumed s']"
proof -
  obtain m where m: "s' = spec_consume s m" "concat data = spec_data s m" "\<forall>i<m. stored s (consumed s + i) \<noteq> None"
    using spec_readv_data [of s lens] assms by (auto simp: stream_bytes_def)
  have "the (stored s (consumed s + i)) = S (consumed s + i)" if "i < m" for i
    using m(3) assms(1) that by (auto simp: stream_bytes_def)
  then have "spec_data s m = map S [consumed s..<consumed s + m]"
    by (intro nth_equalityI) (simp_all add: spec_data_def)
  then show ?thesis using assms(1) m(1,2) by (auto simp: stream_bytes_def received_def spec_consume_def behind_empty_def)
qed

lemma stream_run_delivers:
  "stream_bytes S s \<Longrightarrow> \<forall>x\<in>set ops. op_of_stream S x \<Longrightarrow> spec_run (stream_step c) s ops = (s', outs) \<Longrightarrow>
   consumed s \<le> consumed s' \<and> (\<forall>i. received s i \<longrightarrow> received s' i) \<and>
   concat (map result_bytes outs) = map S [consumed s..<consumed s'] \<and> (\<forall>i. accepted (zip ops outs) i \<longrightarrow> received s' i)"
proof (induction ops arbitrary: s outs)
  case Nil
  then show ?case by (auto simp: accepted_def)
next
  case (Cons x xs)
  obtain s1 out where s1: "stream_step c s x = (s1, out)" by (cases "stream_step c s x")
  then obtain outs' where s2: "spec_run (stream_step c) s1 xs = (s', outs')" "outs = out # outs'"
    using Cons.prems(3) by (cases "spec_run (stream_step c) s1 xs") simp
  note s1 = s1 s2
  have x: "op_of_stream S x" using Cons.prems(2) by simp
  then consider offset data now where "x = Receive offset data now" | lens where "x = Read lens"
    by (cases x) (blast, blast, simp_all only: op_of_stream.simps)
  then have step: "stream_bytes S s1 \<and> consumed s \<le> consumed s1 \<and> (\<forall>i. received s i \<longrightarrow> received s1 i) \<and>
    result_bytes out = map S [consumed s..<consumed s1] \<and> (\<forall>i. accepted [(x, out)] i \<longrightarrow> received s1 i)"
  proof cases
    case 1
    obtain e n where r: "spec_receive c s offset data = (s1, e, n)" "out = Received e n"
      using s1(1) unfolding 1 by (cases "spec_receive c s offset data") auto
    have "data = map S [offset..<offset + length data]" using x unfolding 1 op_of_stream.simps .
    from spec_receive_delivers [OF Cons.prems(1) this r(1)] show ?thesis
      by (auto simp: accepted_def r(2) 1)
  next
    case 2
    then show ?thesis using s1(1) spec_readv_delivers [OF Cons.prems(1), of lens]
      by (auto simp: accepted_def split: prod.splits)
  qed
  have rec: "consumed s1 \<le> consumed s'" "\<forall>i. received s1 i \<longrightarrow> received s' i"
    "concat (map result_bytes outs') = map S [consumed s1..<consumed s']" "\<forall>i. accepted (zip xs outs') i \<longrightarrow> received s' i"
  proof -
    have "stream_bytes S s1" "\<forall>y\<in>set xs. op_of_stream S y" using step Cons.prems(2) by simp_all
    from Cons.IH [OF this s2(1)] show "consumed s1 \<le> consumed s'" "\<forall>i. received s1 i \<longrightarrow> received s' i"
      "concat (map result_bytes outs') = map S [consumed s1..<consumed s']" "\<forall>i. accepted (zip xs outs') i \<longrightarrow> received s' i"
      by blast+
  qed
  have a: "consumed s \<le> consumed s1" "\<forall>i. received s i \<longrightarrow> received s1 i"
    "result_bytes out = map S [consumed s..<consumed s1]" "\<forall>i. accepted [(x, out)] i \<longrightarrow> received s1 i"
    using step by blast+
  have "concat (map result_bytes outs) = map S [consumed s..<consumed s']"
    unfolding s1(3) upt_split [OF a(1) rec(1)] using a(3) rec(3) by simp
  moreover have "received s' i" if "accepted (zip (x # xs) outs) i" for i
  proof -
    have "accepted [(x, out)] i \<or> accepted (zip xs outs') i"
      using that unfolding s1(3) accepted_def zip_Cons_Cons list.set bex_simps by blast
    then show ?thesis using a(4) rec(2,4) by blast
  qed
  moreover have "consumed s \<le> consumed s'" using a(1) rec(1) by (rule le_trans)
  ultimately show ?case using a(2) rec(2) by blast
qed

lemma sequencer_run_delivers:
  assumes "kBlockSizeBytes < c" "c \<le> 2 ^ 32" "\<forall>x\<in>set ops. op_fits x \<and> op_of_stream S x"
  shows "\<exists>b b' outs r. QuicStreamSequencerBuffer c = Some b \<and> op_run buffer_step b ops = Some (b', outs) \<and>
     concat (map result_bytes outs) = map S [0..<BytesConsumed b'] \<and> ReadableBytes b' = Some r \<and>
     (\<forall>n. (\<forall>i<n. accepted (zip ops outs) i) \<longrightarrow> n \<le> BytesConsumed b' + r)"
proof -
  let ?s = "\<lparr>consumed = 0, stored = Map.empty\<rparr>"
  obtain b where b: "QuicStreamSequencerBuffer c = Some b" "sequencer_inv b" "stream_of b = ?s" "max_buffer_capacity_bytes b = c"
    using QuicStreamSequencerBuffer_ok [OF assms(1,2)] by auto
  obtain b' outs where b': "op_run buffer_step b ops = Some (b', outs)" "sequencer_inv b'"
    "spec_run (stream_step c) ?s ops = (stream_of b', outs)"
    using sequencer_sim.run_refines [of b c ops] assms(3) b by (auto simp: prod_eq_iff)
  have inv: "blocks_inv b'" using b'(2) by (simp add: sequencer_inv_def)
  have "stream_bytes S ?s" by (simp add: stream_bytes_def behind_empty_def)
  moreover have "\<forall>x\<in>set ops. op_of_stream S x" using assms(3) by blast
  ultimately have d: "concat (map result_bytes outs) = map S [0..<total_bytes_read b']"
    "\<forall>i. accepted (zip ops outs) i \<longrightarrow> received (stream_of b') i"
    using stream_run_delivers [OF _ _ b'(3)] by (auto simp: consumed_stream_of)
  have "\<not> received (stream_of b') (total_bytes_read b' + readable b')"
    using readable_buffered(2) [OF inv] by (simp add: received_def stream_of_def)
  then have "n \<le> total_bytes_read b' + readable b'" if "\<forall>i<n. accepted (zip ops outs) i" for n
    using that d(2) by (meson not_le)
  then show ?thesis using b(1) b'(1) d(1) ReadableBytes_eq [OF inv] by (auto simp: BytesConsumed_def)
qed

text \<open>C8: Frames of a stream of at most \<open>2 ^ 62\<close> bytes that arrive in any order, any number of times and cut in any
  way at a buffer of more than 8 KB and at most 4 GB are delivered in order: the bytes handed out by the reads are exactly the first bytes of the stream, as
  many as were consumed, and once every byte up to some offset has arrived in an accepted frame, all of
  them have been read or can be read.\<close>

theorem sequencer_buffer_delivers:
  assumes "kBlockSizeBytes < c" "c \<le> 2 ^ 32" "\<forall>x\<in>set ops. op_fits x \<and> op_of_stream S x"
  shows "\<exists>b b' outs r. QuicStreamSequencerBuffer c = Some b \<and> op_run buffer_step b ops = Some (b', outs) \<and>
     concat (map result_bytes outs) = map S [0..<BytesConsumed b'] \<and> ReadableBytes b' = Some r \<and>
     (\<forall>n. (\<forall>i<n. accepted (zip ops outs) i) \<longrightarrow> n \<le> BytesConsumed b' + r)"
  by (rule sequencer_run_delivers [OF assms])

theorem sequencer_buffer_delivers_witness:
  "\<exists>b b' outs r. QuicStreamSequencerBuffer 10000 = Some b \<and>
     op_run buffer_step b [Receive 2 [9, 16] 1, Read [5], Receive 0 [1, 4] 2, Read [3, 5]] = Some (b', outs) \<and>
     concat (map result_bytes outs) = map (\<lambda>i. of_nat ((i + 1) ^ 2)) [0..<BytesConsumed b'] \<and> ReadableBytes b' = Some r \<and>
     (\<forall>n. (\<forall>i<n. accepted (zip [Receive 2 [9, 16] 1, Read [5], Receive 0 [1, 4] 2, Read [3, 5]] outs) i) \<longrightarrow> n \<le> BytesConsumed b' + r)"
  by (rule sequencer_buffer_delivers) (simp_all add: kBlockSizeBytes_def upt_rec power2_eq_square)

text \<open>C29: In every state that a buffer of more than 8 KB and at most 4 GB reaches with frames that end at most at
  offset \<open>2 ^ 62\<close>, the memory it holds fits its contents: the count of buffered
  bytes is right and at most the capacity, a block of the circular array is allocated exactly if a
  buffered byte lies in it, and there are at most ten thousand gaps.\<close>

theorem sequencer_buffer_memory:
  assumes "kBlockSizeBytes < c" "c \<le> 2 ^ 32" "\<forall>x\<in>set ops. op_fits x" "QuicStreamSequencerBuffer c = Some b"
    and "op_run buffer_step b ops = Some (b', outs)"
    and "kept = dom (stored (fst (spec_run (stream_step c) \<lparr>consumed = 0, stored = Map.empty\<rparr> ops)))"
  shows "BytesBuffered b' = card kept \<and> BytesBuffered b' \<le> c \<and> length (gaps b') \<le> 10000 \<and>
    (\<forall>i. block_pointer b' i 0 \<noteq> None \<longleftrightarrow> i \<in> GetBlockIndex b' ` kept)"
proof -
  have b: "sequencer_inv b" "stream_of b = \<lparr>consumed = 0, stored = Map.empty\<rparr>" "max_buffer_capacity_bytes b = c"
    using QuicStreamSequencerBuffer_ok [OF assms(1,2)] assms(4) by auto
  then have b': "sequencer_inv b'" "max_buffer_capacity_bytes b' = c"
    "stream_of b' = fst (spec_run (stream_step c) \<lparr>consumed = 0, stored = Map.empty\<rparr> ops)"
    using sequencer_sim.run_refines [of b c ops] assms(3,5) by auto
  have kept: "kept = buffered b'" using dom_stored [of b'] unfolding b'(3) assms(6) .
  have inv: "blocks_inv b'" using b'(1) by (simp add: sequencer_inv_def)
  have "buffered b' \<subseteq> {total_bytes_read b'..<total_bytes_read b' + c}" using buffered_window [OF inv] b'(2) by auto
  then have "card (buffered b') \<le> c" using card_mono [of "{total_bytes_read b'..<total_bytes_read b' + c}" "buffered b'"] by simp
  then show ?thesis using inv unfolding kept
    by (simp add: blocks_inv_def BytesBuffered_def allocated_def kMaxNumGapsAllowed_def kMaxPacketGap_def)
qed

theorem sequencer_buffer_memory_witness:
  "\<exists>b b' outs kept. QuicStreamSequencerBuffer 10000 = Some b \<and>
     op_run buffer_step b [Receive 8190 [1, 2, 3, 4] 0] = Some (b', outs) \<and> BytesBuffered b' = card kept \<and>
     BytesBuffered b' \<le> 10000 \<and> length (gaps b') \<le> 10000 \<and>
     (\<forall>i. block_pointer b' i 0 \<noteq> None \<longleftrightarrow> i \<in> GetBlockIndex b' ` kept)"
proof -
  let ?ops = "[Receive 8190 [1, 2, 3, 4] 0]"
  have c: "kBlockSizeBytes < 10000" "(10000::nat) \<le> 2 ^ 32" by (simp_all add: kBlockSizeBytes_def)
  have ops: "\<forall>x\<in>set ?ops. op_fits x" by simp
  obtain b where b: "QuicStreamSequencerBuffer 10000 = Some b" "sequencer_inv b" "max_buffer_capacity_bytes b = 10000"
    using QuicStreamSequencerBuffer_ok [OF c] by auto
  then obtain b' outs where b': "op_run buffer_step b ?ops = Some (b', outs)"
    using sequencer_sim.run_refines [of b 10000 ?ops] ops by blast
  show ?thesis using sequencer_buffer_memory [OF c ops b(1) b' refl] b(1) b' by blast
qed

section \<open>Frames at the end of the offset space\<close>

text \<open>The checks of a frame's end are done modulo \<open>2 ^ 64\<close>: with three bytes buffered at the start of
  the stream, a frame of three bytes at offset \<open>2 ^ 64 - 2\<close> is accepted as new data, and the next read
  hands out its last byte in place of the first byte of the stream.\<close>

lemma OnStreamData_end_wraps:
  "\<exists>b b1 b2 b3. QuicStreamSequencerBuffer (16 * 1024 * 1024) = Some b \<and>
     OnStreamData b 0 [1, 2, 3] now = Some (b1, QUIC_NO_ERROR, 3) \<and>
     OnStreamData b1 (2 ^ 64 - 2) [7, 8, 9] now = Some (b2, QUIC_NO_ERROR, 3) \<and>
     Readv b2 [3] = Some (b3, QUIC_NO_ERROR, [[9, 2, 3]])"
proof -
  define bs0 bs1 where "bs0 = (replicate 2048 None)[0 := Some (memcpy (\<lambda>_. 0) 0 [1, 2, 3 :: uint8])]"
    and "bs1 = (bs0[2047 := Some (memcpy (\<lambda>_. 0) 8190 [7, 8])])[0 := Some (memcpy (memcpy (\<lambda>_. 0) 0 [1, 2, 3]) 0 [9 :: uint8])]"
  let ?b = "\<lparr>max_buffer_capacity_bytes = 16777216, blocks_count = 2048, total_bytes_read = 0,
          gaps = [Gap 0 kMaxOffset], blocks = None, num_bytes_buffered = 0, frame_arrival_time_map = []\<rparr>"
  let ?b1 = "?b\<lparr>gaps := [Gap 3 kMaxOffset], blocks := Some bs0, num_bytes_buffered := 3, frame_arrival_time_map := [(0, FrameInfo 3 now)]\<rparr>"
  let ?b2 = "?b1\<lparr>gaps := [Gap 3 (2 ^ 64 - 2), Gap 1 kMaxOffset], blocks := Some bs1, num_bytes_buffered := 6,
    frame_arrival_time_map := [(0, FrameInfo 3 now), (2 ^ 64 - 2, FrameInfo 3 now)]\<rparr>"
  have b: "QuicStreamSequencerBuffer (16 * 1024 * 1024) = Some ?b"
    using QuicStreamSequencerBuffer_eq(1) [of 16777216] by (simp add: kBlockSizeBytes_def)
  note simps = write_blocks.simps write_block_def GetBlockIndex_def GetInBlockOffset_def GetBlockCapacity_def
    add64_def sub64_def kBlockSizeBytes_def kMaxOffset_def kMaxNumGapsAllowed_def kMaxPacketGap_def UpdateGapList_def Let_def
  have b1: "OnStreamData ?b 0 [1, 2, 3] now = Some (?b1, QUIC_NO_ERROR, 3)"
    unfolding OnStreamData_def by (simp add: simps bs0_def)
  have n: "length bs0 = 2048" "bs0 ! 2047 = None" "bs0 ! 0 = Some (memcpy (\<lambda>_. 0) 0 [1, 2, 3])" "length bs1 = 2048"
    "bs1 ! 0 = Some (memcpy (memcpy (\<lambda>_. 0) 0 [1, 2, 3]) 0 [9])"
    by (simp_all add: bs0_def bs1_def)
  have b2: "OnStreamData ?b1 (2 ^ 64 - 2) [7, 8, 9] now = Some (?b2, QUIC_NO_ERROR, 3)"
    unfolding OnStreamData_def by (simp add: simps bs1_def n)
  have "\<exists>b3. Readv ?b2 [3] = Some (b3, QUIC_NO_ERROR, [[9, 2, 3]])"
    unfolding Readv_def by (simp add: read_blocks.simps read_block_def ReadableBytes_def gaps_front_def gaps_back_def
      NextBlockToRead_def ReadOffset_def RetireBlockIfEmpty_def buffer_Empty_def n simps memcpy_def upt_rec)
  then show ?thesis using b b1 b2 by blast
qed

end
