(* ===== verification/Data_Codec.thy ===== *)
theory Data_Codec
  imports Quic_Prelude
begin

text \<open>
  The wire codec: \<^verbatim>\<open>QuicDataWriter\<close> and \<^verbatim>\<open>QuicDataReader\<close> of
  \<^verbatim>\<open>src/model/net/quic/core/\<close>, with the byte swaps of \<^verbatim>\<open>src/model/base/sys_byteorder.h\<close> on a
  little-endian host.  A buffer is the list of its bytes, an object in memory the list of its
  bytes from the least significant one, a string piece the list of its bytes.
\<close>

unbundle bit_operations_syntax

section \<open>Bytes of a word\<close>

fun le_bytes :: "nat \<Rightarrow> 'a::len word \<Rightarrow> uint8 list" where
  "le_bytes 0 w = []"
| "le_bytes (Suc n) w = ucast w # le_bytes n (drop_bit 8 w)"

fun of_le_bytes :: "uint8 list \<Rightarrow> 'a::len word" where
  "of_le_bytes [] = 0"
| "of_le_bytes (b # bs) = ucast b OR push_bit 8 (of_le_bytes bs)"

definition ByteSwap16 :: "uint16 \<Rightarrow> uint16" where
  "ByteSwap16 x = of_le_bytes (rev (le_bytes 2 x))"

definition ByteSwap32 :: "uint32 \<Rightarrow> uint32" where
  "ByteSwap32 x = of_le_bytes (rev (le_bytes 4 x))"

definition ByteSwap64 :: "uint64 \<Rightarrow> uint64" where
  "ByteSwap64 x = of_le_bytes (rev (le_bytes 8 x))"

definition HostToNet16 :: "uint16 \<Rightarrow> uint16" where "HostToNet16 x = ByteSwap16 x"
definition HostToNet32 :: "uint32 \<Rightarrow> uint32" where "HostToNet32 x = ByteSwap32 x"
definition HostToNet64 :: "uint64 \<Rightarrow> uint64" where "HostToNet64 x = ByteSwap64 x"
definition NetToHost16 :: "uint16 \<Rightarrow> uint16" where "NetToHost16 x = ByteSwap16 x"
definition NetToHost32 :: "uint32 \<Rightarrow> uint32" where "NetToHost32 x = ByteSwap32 x"
definition NetToHost64 :: "uint64 \<Rightarrow> uint64" where "NetToHost64 x = ByteSwap64 x"

datatype endianness = NETWORK_BYTE_ORDER | HOST_BYTE_ORDER

section \<open>The writer\<close>

record data_writer =
  buffer :: "uint8 list"
  capacity :: nat
  written :: nat
  w_endianness :: endianness

definition QuicDataWriter :: "nat \<Rightarrow> uint8 list \<Rightarrow> endianness \<Rightarrow> data_writer" where
  "QuicDataWriter n buf endian =
     \<lparr>buffer = buf, capacity = n, written = 0, w_endianness = endian\<rparr>"

definition BeginWrite :: "data_writer \<Rightarrow> nat \<Rightarrow> nat option" where
  "BeginWrite w len =
     (if written w > capacity w then None
      else if capacity w - written w < len then None
      else Some (written w))"

definition WriteBytes :: "data_writer \<Rightarrow> uint8 list \<Rightarrow> data_writer \<times> bool" where
  "WriteBytes w bytes =
     (case BeginWrite w (length bytes) of
        None \<Rightarrow> (w, False)
      | Some dest \<Rightarrow>
          (w\<lparr>buffer := take dest (buffer w) @ bytes @ drop (dest + length bytes) (buffer w),
             written := written w + length bytes\<rparr>, True))"

definition WriteUInt8 :: "data_writer \<Rightarrow> uint8 \<Rightarrow> data_writer \<times> bool" where
  "WriteUInt8 w v = WriteBytes w (le_bytes 1 v)"

definition WriteUInt16 :: "data_writer \<Rightarrow> uint16 \<Rightarrow> data_writer \<times> bool" where
  "WriteUInt16 w v =
     (let v = (if w_endianness w = NETWORK_BYTE_ORDER then HostToNet16 v else v)
      in WriteBytes w (le_bytes 2 v))"

definition WriteUInt32 :: "data_writer \<Rightarrow> uint32 \<Rightarrow> data_writer \<times> bool" where
  "WriteUInt32 w v =
     (let v = (if w_endianness w = NETWORK_BYTE_ORDER then HostToNet32 v else v)
      in WriteBytes w (le_bytes 4 v))"

definition WriteUInt64 :: "data_writer \<Rightarrow> uint64 \<Rightarrow> data_writer \<times> bool" where
  "WriteUInt64 w v =
     (let v = (if w_endianness w = NETWORK_BYTE_ORDER then HostToNet64 v else v)
      in WriteBytes w (le_bytes 8 v))"

definition WriteUInt8AtOffset :: "data_writer \<Rightarrow> uint8 \<Rightarrow> nat \<Rightarrow> data_writer \<times> bool" where
  "WriteUInt8AtOffset w v offset =
     (if offset > written w then (w, False)
      else let old_length = written w;
               (w, result) = WriteBytes (w\<lparr>written := offset\<rparr>) (le_bytes 1 v)
           in (w\<lparr>written := old_length\<rparr>, result))"

definition WriteBytesToUInt64 :: "data_writer \<Rightarrow> nat \<Rightarrow> uint64 \<Rightarrow> data_writer \<times> bool" where
  "WriteBytesToUInt64 w num_bytes v =
     (if num_bytes > 8 then (w, False)
      else if w_endianness w = HOST_BYTE_ORDER then WriteBytes w (take num_bytes (le_bytes 8 v))
      else let v = HostToNet64 v in WriteBytes w (drop (8 - num_bytes) (le_bytes 8 v)))"

definition kUFloat16MantissaBits :: nat where "kUFloat16MantissaBits = 11"
definition kUFloat16MantissaEffectiveBits :: nat where
  "kUFloat16MantissaEffectiveBits = kUFloat16MantissaBits + 1"
definition kUFloat16MaxExponent :: nat where "kUFloat16MaxExponent = 30"
definition kUFloat16MaxValue :: uint64 where
  "kUFloat16MaxValue = push_bit kUFloat16MaxExponent (push_bit kUFloat16MantissaEffectiveBits 1 - 1)"

text \<open>The binary search for the exponent: \<open>offset\<close> runs through 16, 8, 4, 2, 1.\<close>

fun ufloat16_search :: "nat \<Rightarrow> uint16 \<Rightarrow> uint64 \<Rightarrow> uint16 \<times> uint64" where
  "ufloat16_search offset exponent v =
     (if offset = 0 then (exponent, v)
      else if v \<ge> push_bit (kUFloat16MantissaBits + offset) 1
      then ufloat16_search (offset div 2) (exponent + word_of_nat offset) (drop_bit offset v)
      else ufloat16_search (offset div 2) exponent v)"

declare ufloat16_search.simps [simp del]

definition ufloat16_encode :: "uint64 \<Rightarrow> uint16" where
  "ufloat16_encode v =
     (if v < push_bit kUFloat16MantissaEffectiveBits 1 then ucast v
      else if v \<ge> kUFloat16MaxValue then - 1
      else let (exponent, v) = ufloat16_search 16 0 v
           in ucast (v + push_bit kUFloat16MantissaBits (ucast exponent)))"

definition WriteUFloat16 :: "data_writer \<Rightarrow> uint64 \<Rightarrow> data_writer \<times> bool" where
  "WriteUFloat16 w v =
     (let result = ufloat16_encode v;
          result = (if w_endianness w = NETWORK_BYTE_ORDER then HostToNet16 result else result)
      in WriteBytes w (le_bytes 2 result))"

definition WriteStringPiece16 :: "data_writer \<Rightarrow> uint8 list \<Rightarrow> data_writer \<times> bool" where
  "WriteStringPiece16 w val =
     (if length val > 65535 then (w, False)
      else let (w, ok) = WriteUInt16 w (word_of_nat (length val))
           in if \<not> ok then (w, False) else WriteBytes w val)"

definition WriteRepeatedByte :: "data_writer \<Rightarrow> uint8 \<Rightarrow> nat \<Rightarrow> data_writer \<times> bool" where
  "WriteRepeatedByte w byte count =
     (case BeginWrite w count of
        None \<Rightarrow> (w, False)
      | Some dest \<Rightarrow>
          (w\<lparr>buffer := take dest (buffer w) @ replicate count byte @ drop (dest + count) (buffer w),
             written := written w + count\<rparr>, True))"

definition WritePadding :: "data_writer \<Rightarrow> data_writer" where
  "WritePadding w =
     (if written w > capacity w then w
      else w\<lparr>buffer := take (written w) (buffer w) @ replicate (capacity w - written w) 0 @
               drop (capacity w) (buffer w),
             written := capacity w\<rparr>)"

definition WritePaddingBytes :: "data_writer \<Rightarrow> nat \<Rightarrow> data_writer \<times> bool" where
  "WritePaddingBytes w count = WriteRepeatedByte w 0 count"

definition WriteConnectionId :: "data_writer \<Rightarrow> uint64 \<Rightarrow> data_writer \<times> bool" where
  "WriteConnectionId w connection_id = WriteBytes w (le_bytes 8 (HostToNet64 connection_id))"

definition WriteTag :: "data_writer \<Rightarrow> uint32 \<Rightarrow> data_writer \<times> bool" where
  "WriteTag w tag = WriteBytes w (le_bytes 4 tag)"

section \<open>The reader\<close>

text \<open>A read returns the reader and the result, \<open>None\<close> when it fails.\<close>

record data_reader =
  r_data :: "uint8 list"
  r_len :: nat
  r_pos :: nat
  r_endianness :: endianness

definition QuicDataReader :: "uint8 list \<Rightarrow> endianness \<Rightarrow> data_reader" where
  "QuicDataReader bytes endian =
     \<lparr>r_data = bytes, r_len = length bytes, r_pos = 0, r_endianness = endian\<rparr>"

definition CanRead :: "data_reader \<Rightarrow> nat \<Rightarrow> bool" where
  "CanRead r bytes \<longleftrightarrow> bytes \<le> r_len r - r_pos r"

definition OnFailure :: "data_reader \<Rightarrow> data_reader" where
  "OnFailure r = r\<lparr>r_pos := r_len r\<rparr>"

definition ReadBytes :: "data_reader \<Rightarrow> nat \<Rightarrow> data_reader \<times> uint8 list option" where
  "ReadBytes r n =
     (if \<not> CanRead r n then (OnFailure r, None)
      else (r\<lparr>r_pos := r_pos r + n\<rparr>, Some (take n (drop (r_pos r) (r_data r)))))"

definition ReadUInt8 :: "data_reader \<Rightarrow> data_reader \<times> uint8 option" where
  "ReadUInt8 r = (let (r, bs) = ReadBytes r 1 in (r, map_option of_le_bytes bs))"

definition ReadUInt16 :: "data_reader \<Rightarrow> data_reader \<times> uint16 option" where
  "ReadUInt16 r =
     (let (r', bs) = ReadBytes r 2
      in (r', map_option (\<lambda>bs. if r_endianness r = NETWORK_BYTE_ORDER
                          then NetToHost16 (of_le_bytes bs) else of_le_bytes bs) bs))"

definition ReadUInt32 :: "data_reader \<Rightarrow> data_reader \<times> uint32 option" where
  "ReadUInt32 r =
     (let (r', bs) = ReadBytes r 4
      in (r', map_option (\<lambda>bs. if r_endianness r = NETWORK_BYTE_ORDER
                          then NetToHost32 (of_le_bytes bs) else of_le_bytes bs) bs))"

definition ReadUInt64 :: "data_reader \<Rightarrow> data_reader \<times> uint64 option" where
  "ReadUInt64 r =
     (let (r', bs) = ReadBytes r 8
      in (r', map_option (\<lambda>bs. if r_endianness r = NETWORK_BYTE_ORDER
                          then NetToHost64 (of_le_bytes bs) else of_le_bytes bs) bs))"

text \<open>\<open>ReadBytesToUInt64\<close> overwrites some of the bytes of the result, which had the value \<open>old\<close>.\<close>

definition ReadBytesToUInt64 :: "data_reader \<Rightarrow> nat \<Rightarrow> uint64 \<Rightarrow> data_reader \<times> uint64 option" where
  "ReadBytesToUInt64 r num_bytes old =
     (if num_bytes > 8 then (r, None)
      else if r_endianness r = HOST_BYTE_ORDER then
        let (r, bs) = ReadBytes r num_bytes
        in (r, map_option (\<lambda>bs. of_le_bytes (bs @ drop num_bytes (le_bytes 8 old))) bs)
      else
        let (r, bs) = ReadBytes r num_bytes
        in (r, map_option (\<lambda>bs. NetToHost64 (of_le_bytes (take (8 - num_bytes) (le_bytes 8 old) @ bs))) bs))"

definition ufloat16_decode :: "uint16 \<Rightarrow> uint64" where
  "ufloat16_decode v =
     (let result = ucast v
      in if result < push_bit kUFloat16MantissaEffectiveBits 1 then result
         else let exponent = drop_bit kUFloat16MantissaBits v - 1;
                  result = result - push_bit kUFloat16MantissaBits (ucast exponent)
              in push_bit (unat exponent) result)"

definition ReadUFloat16 :: "data_reader \<Rightarrow> data_reader \<times> uint64 option" where
  "ReadUFloat16 r = (let (r, v) = ReadUInt16 r in (r, map_option ufloat16_decode v))"

definition ReadStringPiece :: "data_reader \<Rightarrow> nat \<Rightarrow> data_reader \<times> uint8 list option" where
  "ReadStringPiece r n =
     (if \<not> CanRead r n then (OnFailure r, None)
      else (r\<lparr>r_pos := r_pos r + n\<rparr>, Some (take n (drop (r_pos r) (r_data r)))))"

definition ReadStringPiece16 :: "data_reader \<Rightarrow> data_reader \<times> uint8 list option" where
  "ReadStringPiece16 r =
     (case ReadUInt16 r of
        (r, None) \<Rightarrow> (r, None)
      | (r, Some result_len) \<Rightarrow> ReadStringPiece r (unat result_len))"

definition ReadConnectionId :: "data_reader \<Rightarrow> data_reader \<times> uint64 option" where
  "ReadConnectionId r =
     (let (r, bs) = ReadBytes r 8 in (r, map_option (\<lambda>bs. NetToHost64 (of_le_bytes bs)) bs))"

definition ReadTag :: "data_reader \<Rightarrow> data_reader \<times> uint32 option" where
  "ReadTag r = (let (r, bs) = ReadBytes r 4 in (r, map_option of_le_bytes bs))"

definition PeekRemainingPayload :: "data_reader \<Rightarrow> uint8 list" where
  "PeekRemainingPayload r = take (r_len r - r_pos r) (drop (r_pos r) (r_data r))"

definition ReadRemainingPayload :: "data_reader \<Rightarrow> data_reader \<times> uint8 list" where
  "ReadRemainingPayload r = (r\<lparr>r_pos := r_len r\<rparr>, PeekRemainingPayload r)"

definition IsDoneReading :: "data_reader \<Rightarrow> bool" where
  "IsDoneReading r \<longleftrightarrow> r_len r = r_pos r"

definition BytesRemaining :: "data_reader \<Rightarrow> nat" where
  "BytesRemaining r = r_len r - r_pos r"

definition PeekByte :: "data_reader \<Rightarrow> uint8" where
  "PeekByte r = (if r_pos r \<ge> r_len r then 0 else r_data r ! r_pos r)"

section \<open>Bytes and words\<close>

lemma length_le_bytes [simp]: "length (le_bytes n w) = n"
  by (induction n arbitrary: w) auto

lemma of_le_bytes_le_bytes: "of_le_bytes (le_bytes n w) = take_bit (8 * n) w"
proof (induction n arbitrary: w)
  case (Suc n)
  have "ucast (ucast w :: uint8) OR push_bit 8 (take_bit (8 * n) (drop_bit 8 w)) = take_bit (8 * Suc n) w"
    by (rule bit_word_eqI) (auto simp: bit_simps)
  then show ?case
    using Suc by simp
qed simp

lemma le_bytes_cong:
  "(\<And>i. i < 8 * n \<Longrightarrow> bit v i = bit w i) \<Longrightarrow> le_bytes n v = le_bytes n w" for v w :: "'a::len word"
proof (induction n arbitrary: v w)
  case (Suc n)
  have "(ucast v :: uint8) = ucast w"
    by (rule bit_word_eqI) (use Suc.prems in \<open>auto simp: bit_simps\<close>)
  moreover have "le_bytes n (drop_bit 8 v) = le_bytes n (drop_bit 8 w)"
    by (rule Suc.IH) (use Suc.prems in \<open>auto simp: bit_simps\<close>)
  ultimately show ?case
    by simp
qed simp

lemma le_bytes_of_le_bytes:
  assumes "8 * length bs \<le> LENGTH('a::len)"
  shows "le_bytes (length bs) (of_le_bytes bs :: 'a word) = bs"
  using assms
proof (induction bs)
  case (Cons b bs)
  have "ucast (ucast b OR push_bit 8 (of_le_bytes bs :: 'a word)) = b"
    using Cons.prems by (intro bit_word_eqI) (auto simp: bit_simps)
  moreover have "le_bytes (length bs) (drop_bit 8 (ucast b OR push_bit 8 (of_le_bytes bs :: 'a word))) = bs"
  proof -
    have "le_bytes (length bs) (drop_bit 8 (ucast b OR push_bit 8 (of_le_bytes bs :: 'a word))) =
        le_bytes (length bs) (of_le_bytes bs :: 'a word)"
      by (rule le_bytes_cong) (use Cons.prems in \<open>auto simp: bit_simps dest: bit_imp_le_length\<close>)
    then show ?thesis
      using Cons by simp
  qed
  ultimately show ?case
    by simp
qed simp

lemma le_bytes_take: "k \<le> n \<Longrightarrow> take k (le_bytes n w) = le_bytes k w"
proof (induction n arbitrary: k w)
  case (Suc n)
  then show ?case
    by (cases k) auto
qed simp

text \<open>A swap reverses the bytes in memory, and swaps back.\<close>

lemma le_bytes_swap:
  "le_bytes 2 (ByteSwap16 x) = rev (le_bytes 2 x)"
  "le_bytes 4 (ByteSwap32 y) = rev (le_bytes 4 y)"
  "le_bytes 8 (ByteSwap64 z) = rev (le_bytes 8 z)"
  using le_bytes_of_le_bytes [of "rev (le_bytes 2 x)", where 'a = 16]
    le_bytes_of_le_bytes [of "rev (le_bytes 4 y)", where 'a = 32]
    le_bytes_of_le_bytes [of "rev (le_bytes 8 z)", where 'a = 64]
  by (simp_all add: ByteSwap16_def ByteSwap32_def ByteSwap64_def)

lemma ByteSwap_ByteSwap [simp]:
  "ByteSwap16 (ByteSwap16 x) = x" "ByteSwap32 (ByteSwap32 y) = y" "ByteSwap64 (ByteSwap64 z) = z"
proof -
  have "ByteSwap16 (ByteSwap16 x) = of_le_bytes (rev (le_bytes 2 (ByteSwap16 x)))"
    by (simp only: ByteSwap16_def)
  then show "ByteSwap16 (ByteSwap16 x) = x"
    unfolding le_bytes_swap by (simp add: of_le_bytes_le_bytes take_bit_word_eq_self)
  have "ByteSwap32 (ByteSwap32 y) = of_le_bytes (rev (le_bytes 4 (ByteSwap32 y)))"
    by (simp only: ByteSwap32_def)
  then show "ByteSwap32 (ByteSwap32 y) = y"
    unfolding le_bytes_swap by (simp add: of_le_bytes_le_bytes take_bit_word_eq_self)
  have "ByteSwap64 (ByteSwap64 z) = of_le_bytes (rev (le_bytes 8 (ByteSwap64 z)))"
    by (simp only: ByteSwap64_def)
  then show "ByteSwap64 (ByteSwap64 z) = z"
    unfolding le_bytes_swap by (simp add: of_le_bytes_le_bytes take_bit_word_eq_self)
qed

lemmas endian_defs = HostToNet16_def HostToNet32_def HostToNet64_def
  NetToHost16_def NetToHost32_def NetToHost64_def

section \<open>The short floating point format\<close>

text \<open>
  The search shifts a value of at most \<open>11 + 2 * offset\<close> bits by the number of places that brings
  its highest bit to position 11, when it starts with a power of two as the offset.
\<close>

lemma ufloat16_search_correct:
  assumes "k \<le> 5" "2 ^ 11 \<le> unat v" "unat v < 2 ^ (11 + 2 ^ k)"
  shows "\<exists>s. ufloat16_search (2 ^ k div 2) e v = (e + word_of_nat s, drop_bit s v) \<and> s < 2 ^ k \<and>
    2 ^ 11 \<le> unat v div 2 ^ s \<and> unat v div 2 ^ s < 2 ^ 12"
  using assms
proof (induction k arbitrary: e v)
  case 0
  then show ?case
    by (auto simp: ufloat16_search.simps intro!: exI [of _ 0])
next
  case (Suc k)
  have k: "(2::nat) ^ k \<le> 16"
    using Suc.prems(1) power_increasing [of k 4 "2::nat"] by simp
  have "unat (push_bit (11 + 2 ^ k) 1 :: uint64) = 2 ^ (11 + 2 ^ k)"
    by (rule unat_push_bit_1) (use k in simp)
  then have c: "v \<ge> push_bit (kUFloat16MantissaBits + 2 ^ k) 1 \<longleftrightarrow> 2 ^ (11 + 2 ^ k) \<le> unat v"
    by (simp add: word_le_nat_alt kUFloat16MantissaBits_def)
  show ?case
  proof (cases "2 ^ (11 + 2 ^ k) \<le> unat v")
    case False
    then have "ufloat16_search (2 ^ Suc k div 2) e v = ufloat16_search (2 ^ k div 2) e v"
      using c by (subst ufloat16_search.simps) simp
    then show ?thesis
      using Suc.IH [of v e] Suc.prems False by fastforce
  next
    case True
    let ?v = "drop_bit (2 ^ k) v"
    have v: "unat ?v = unat v div 2 ^ 2 ^ k"
      by (rule unat_drop_bit_div)
    have "ufloat16_search (2 ^ Suc k div 2) e v = ufloat16_search (2 ^ k div 2) (e + word_of_nat (2 ^ k)) ?v"
      using c True by (subst ufloat16_search.simps) simp
    moreover have "2 ^ 11 \<le> unat ?v" "unat ?v < 2 ^ (11 + 2 ^ k)"
    proof -
      show "2 ^ 11 \<le> unat ?v"
        using div_le_mono [OF True, of "2 ^ 2 ^ k"] unfolding v power_add by simp
      have "(11 + 2 ^ Suc k) = (11 + 2 ^ k) + (2 ^ k :: nat)"
        by simp
      then have "unat v < 2 ^ (11 + 2 ^ k) * 2 ^ 2 ^ k"
        using Suc.prems(3) by (metis power_add)
      then show "unat ?v < 2 ^ (11 + 2 ^ k)"
        unfolding v by (rule less_mult_imp_div_less)
    qed
    then obtain s where "ufloat16_search (2 ^ k div 2) (e + word_of_nat (2 ^ k)) ?v =
        (e + word_of_nat (2 ^ k) + word_of_nat s, drop_bit s ?v)" "s < 2 ^ k"
      "2 ^ 11 \<le> unat ?v div 2 ^ s" "unat ?v div 2 ^ s < 2 ^ 12"
      using Suc.IH [of ?v "e + word_of_nat (2 ^ k)"] Suc.prems(1) by auto
    ultimately show ?thesis
      unfolding v by (intro exI [of _ "2 ^ k + s"])
        (simp add: add.assoc power_add div_mult2_eq [symmetric] add.commute mult.commute)
  qed
qed

lemma ufloat16_constants:
  "unat (push_bit kUFloat16MantissaEffectiveBits 1 :: uint64) = 2 ^ 12"
  "unat (2 ^ kUFloat16MantissaEffectiveBits :: uint64) = 2 ^ 12"
  "unat kUFloat16MaxValue = (2 ^ 12 - 1) * 2 ^ 30"
  by (simp_all add: kUFloat16MantissaEffectiveBits_def kUFloat16MantissaBits_def
      kUFloat16MaxValue_def kUFloat16MaxExponent_def push_bit_eq_mult)

text \<open>The code of a value in the normal range: exponent and mantissa with the hidden bit.\<close>

lemma ufloat16_encode_normal:
  assumes "2 ^ 12 \<le> unat v" "unat v < (2 ^ 12 - 1) * 2 ^ 30"
  shows "\<exists>s. 1 \<le> s \<and> s \<le> 30 \<and> 2 ^ 11 \<le> unat v div 2 ^ s \<and> unat v div 2 ^ s < 2 ^ 12 \<and>
    unat (ufloat16_encode v) = unat v div 2 ^ s + s * 2 ^ 11"
proof -
  have "unat v < 2 ^ 43" "2 ^ 11 \<le> unat v"
    using assms by simp_all
  then obtain s where s: "ufloat16_search 16 0 v = (word_of_nat s, drop_bit s v)" "s < 32"
    "2 ^ 11 \<le> unat v div 2 ^ s" "unat v div 2 ^ s < 2 ^ 12"
    using ufloat16_search_correct [of 5 v 0] by auto
  have "s \<noteq> 0"
    using s(4) assms(1) by (intro notI) simp
  moreover have "s \<noteq> 31"
    using s(3) assms(2) by (intro notI) simp
  ultimately have range: "1 \<le> s" "s \<le> 30"
    using s(2) by simp_all
  have e: "unat (ucast (word_of_nat s :: uint16) :: uint64) = s"
    using range by (simp add: unsigned_ucast_eq unat_of_nat take_bit_eq_mod)
  have p: "unat (push_bit kUFloat16MantissaBits (ucast (word_of_nat s :: uint16) :: uint64)) = s * 2 ^ 11"
    using range by (subst unat_push_bit_mult) (simp_all add: e kUFloat16MantissaBits_def)
  have "unat (drop_bit s v + push_bit kUFloat16MantissaBits (ucast (word_of_nat s :: uint16) :: uint64)) =
      unat v div 2 ^ s + s * 2 ^ 11"
    using s(4) range unfolding unat_plus_if' unat_drop_bit_div p by simp
  then have "unat (ucast (drop_bit s v + push_bit kUFloat16MantissaBits (ucast (word_of_nat s :: uint16) :: uint64)) :: uint16) =
      unat v div 2 ^ s + s * 2 ^ 11"
    using s(4) range by (simp add: unsigned_ucast_eq take_bit_eq_mod)
  moreover have "\<not> v < push_bit kUFloat16MantissaEffectiveBits 1" "\<not> kUFloat16MaxValue \<le> v"
    using assms by (simp_all add: word_less_nat_alt word_le_nat_alt ufloat16_constants)
  ultimately show ?thesis
    using s range by (intro exI [of _ s]) (simp add: ufloat16_encode_def)
qed

text \<open>The value of a code: the mantissa, with the hidden bit, shifted by the exponent.\<close>

lemma ufloat16_decode_normal:
  assumes "unat c = m + s * 2 ^ 11" "2 ^ 11 \<le> m" "m < 2 ^ 12" "1 \<le> s"
  shows "unat (ufloat16_decode c) = m * 2 ^ s"
proof -
  have "unat c < 2 ^ 16"
    using unsigned_less [of c, where 'a = nat] by simp
  then have s: "s \<le> 30"
    using assms(1,2) by simp
  have uc: "unat (ucast c :: uint64) = unat c"
    using \<open>unat c < 2 ^ 16\<close> by (simp add: unsigned_ucast_eq take_bit_eq_mod)
  have "unat (drop_bit kUFloat16MantissaBits c) = s + 1"
    using assms(1-3) unfolding unat_drop_bit_div kUFloat16MantissaBits_def
    by (simp add: div_nat_eqI)
  then have e: "unat (drop_bit kUFloat16MantissaBits c - 1) = s"
    by (subst unat_minus_one) (auto simp: unat_eq_0 [symmetric] simp del: unat_eq_0)
  then have ue: "unat (ucast (drop_bit kUFloat16MantissaBits c - 1) :: uint64) = s"
    using s by (simp add: unsigned_ucast_eq take_bit_eq_mod)
  have "unat (push_bit kUFloat16MantissaBits (ucast (drop_bit kUFloat16MantissaBits c - 1) :: uint64)) = s * 2 ^ 11"
    using s by (subst unat_push_bit_mult)
      (simp_all add: ue [unfolded kUFloat16MantissaBits_def] kUFloat16MantissaBits_def)
  then have m: "unat (ucast c - push_bit kUFloat16MantissaBits (ucast (drop_bit kUFloat16MantissaBits c - 1)) :: uint64) = m"
    using assms(1) by (subst unat_sub) (simp_all add: word_le_nat_alt uc)
  have "m * 2 ^ s < 2 ^ 12 * 2 ^ s"
    using assms(3) by simp
  also have "\<dots> \<le> 2 ^ 12 * 2 ^ 30"
    using s by (intro mult_left_mono power_increasing) simp_all
  finally have "m * 2 ^ s < 2 ^ 64"
    by simp
  moreover have "\<not> ucast c < (push_bit kUFloat16MantissaEffectiveBits 1 :: uint64)"
    using assms by (simp add: word_less_nat_alt uc ufloat16_constants)
  ultimately show ?thesis
    by (simp add: ufloat16_decode_def Let_def e unat_push_bit_mult m)
qed

lemma ufloat16_small:
  assumes "unat v < 2 ^ 12"
  shows "unat (ufloat16_encode v) = unat v" "ufloat16_decode (ufloat16_encode v) = v"
proof -
  have "v < push_bit kUFloat16MantissaEffectiveBits 1"
    using assms by (simp add: word_less_nat_alt ufloat16_constants)
  then have c: "ufloat16_encode v = ucast v"
    by (simp add: ufloat16_encode_def)
  have "unat (ucast v :: uint16) = unat v"
    using assms by (simp add: unsigned_ucast_eq take_bit_eq_mod)
  moreover from this have "ucast (ucast v :: uint16) = v"
    using assms by (simp add: word_unat_eq_iff unsigned_ucast_eq take_bit_eq_mod unat_mod)
  ultimately show "unat (ufloat16_encode v) = unat v" "ufloat16_decode (ufloat16_encode v) = v"
    using \<open>v < push_bit kUFloat16MantissaEffectiveBits 1\<close> by (simp_all add: c ufloat16_decode_def)
qed

text \<open>What the pair of codings does to a value: the low bits are cut off, or it is clamped.\<close>

lemma ufloat16_round:
  "\<exists>s. s \<le> 30 \<and> unat (ufloat16_decode (ufloat16_encode v)) =
     (if unat v < (2 ^ 12 - 1) * 2 ^ 30 then unat v div 2 ^ s * 2 ^ s else (2 ^ 12 - 1) * 2 ^ 30) \<and>
   (unat v < (2 ^ 12 - 1) * 2 ^ 30 \<longrightarrow> s = 0 \<or> 2 ^ 11 \<le> unat v div 2 ^ s)"
proof -
  consider "unat v < 2 ^ 12" | "2 ^ 12 \<le> unat v" "unat v < (2 ^ 12 - 1) * 2 ^ 30"
    | "(2 ^ 12 - 1) * 2 ^ 30 \<le> unat v"
    by linarith
  then show ?thesis
  proof cases
    case 1
    then show ?thesis
      using ufloat16_small(2) [OF 1] by (intro exI [of _ 0]) simp
  next
    case 2
    then obtain s where "1 \<le> s" "s \<le> 30" "2 ^ 11 \<le> unat v div 2 ^ s" "unat v div 2 ^ s < 2 ^ 12"
      "unat (ufloat16_encode v) = unat v div 2 ^ s + s * 2 ^ 11"
      using ufloat16_encode_normal by blast
    then show ?thesis
      using ufloat16_decode_normal [of "ufloat16_encode v" "unat v div 2 ^ s" s] 2(2)
      by (intro exI [of _ s]) simp
  next
    case 3
    then have "ufloat16_encode v = - 1"
      by (simp add: ufloat16_encode_def word_less_nat_alt word_le_nat_alt ufloat16_constants)
    moreover have "unat (- 1 :: uint16) = 4095 + 30 * 2 ^ 11"
      by (simp add: unsigned_minus_1_eq_mask mask_eq_exp_minus_1)
    ultimately have "unat (ufloat16_decode (ufloat16_encode v)) = 4095 * 2 ^ 30"
      using ufloat16_decode_normal [of "- 1" 4095 30] by simp
    then show ?thesis
      using 3 by (intro exI [of _ 0]) simp
  qed
qed

section \<open>Fields on the wire\<close>

text \<open>
  A field is one write with its argument; \<open>field_bytes\<close> is what it puts on the wire and
  \<open>wire_value\<close> the field that the matching read gives back.
\<close>

datatype field = F8 uint8 | F16 uint16 | F32 uint32 | F64 uint64 | FBytes nat uint64
  | FUFloat16 uint64 | FString "uint8 list" | FConnectionId uint64 | FTag uint32

fun write_field :: "data_writer \<Rightarrow> field \<Rightarrow> data_writer \<times> bool" where
  "write_field w (F8 v) = WriteUInt8 w v"
| "write_field w (F16 v) = WriteUInt16 w v"
| "write_field w (F32 v) = WriteUInt32 w v"
| "write_field w (F64 v) = WriteUInt64 w v"
| "write_field w (FBytes n v) = WriteBytesToUInt64 w n v"
| "write_field w (FUFloat16 v) = WriteUFloat16 w v"
| "write_field w (FString s) = WriteStringPiece16 w s"
| "write_field w (FConnectionId v) = WriteConnectionId w v"
| "write_field w (FTag v) = WriteTag w v"

fun read_field :: "field \<Rightarrow> data_reader \<Rightarrow> data_reader \<times> field option" where
  "read_field (F8 _) r = (let (r, v) = ReadUInt8 r in (r, map_option F8 v))"
| "read_field (F16 _) r = (let (r, v) = ReadUInt16 r in (r, map_option F16 v))"
| "read_field (F32 _) r = (let (r, v) = ReadUInt32 r in (r, map_option F32 v))"
| "read_field (F64 _) r = (let (r, v) = ReadUInt64 r in (r, map_option F64 v))"
| "read_field (FBytes n _) r = (let (r, v) = ReadBytesToUInt64 r n 0 in (r, map_option (FBytes n) v))"
| "read_field (FUFloat16 _) r = (let (r, v) = ReadUFloat16 r in (r, map_option FUFloat16 v))"
| "read_field (FString _) r = (let (r, v) = ReadStringPiece16 r in (r, map_option FString v))"
| "read_field (FConnectionId _) r = (let (r, v) = ReadConnectionId r in (r, map_option FConnectionId v))"
| "read_field (FTag _) r = (let (r, v) = ReadTag r in (r, map_option FTag v))"

definition ordered :: "endianness \<Rightarrow> uint8 list \<Rightarrow> uint8 list" where
  "ordered e bs = (if e = NETWORK_BYTE_ORDER then rev bs else bs)"

lemma length_ordered [simp]: "length (ordered e bs) = length bs"
  by (simp add: ordered_def)

fun field_bytes :: "endianness \<Rightarrow> field \<Rightarrow> uint8 list" where
  "field_bytes e (F8 v) = le_bytes 1 v"
| "field_bytes e (F16 v) = ordered e (le_bytes 2 v)"
| "field_bytes e (F32 v) = ordered e (le_bytes 4 v)"
| "field_bytes e (F64 v) = ordered e (le_bytes 8 v)"
| "field_bytes e (FBytes n v) = ordered e (le_bytes n v)"
| "field_bytes e (FUFloat16 v) = ordered e (le_bytes 2 (ufloat16_encode v))"
| "field_bytes e (FString s) = ordered e (le_bytes 2 (word_of_nat (length s) :: uint16)) @ s"
| "field_bytes e (FConnectionId v) = rev (le_bytes 8 v)"
| "field_bytes e (FTag v) = le_bytes 4 v"

fun field_ok :: "field \<Rightarrow> bool" where
  "field_ok (FBytes n _) \<longleftrightarrow> n \<le> 8"
| "field_ok (FString s) \<longleftrightarrow> length s \<le> 65535"
| "field_ok _ \<longleftrightarrow> True"

fun wire_value :: "field \<Rightarrow> field" where
  "wire_value (FBytes n v) = FBytes n (take_bit (8 * n) v)"
| "wire_value (FUFloat16 v) = FUFloat16 (ufloat16_decode (ufloat16_encode v))"
| "wire_value f = f"

definition writer_inv :: "data_writer \<Rightarrow> bool" where
  "writer_inv w \<longleftrightarrow> length (buffer w) = capacity w \<and> written w \<le> capacity w"

definition payload :: "data_writer \<Rightarrow> uint8 list" where
  "payload w = take (written w) (buffer w)"

lemma WriteBytes_put:
  assumes "writer_inv w" "length bs \<le> capacity w - written w"
  shows "\<exists>w'. WriteBytes w bs = (w', True) \<and> writer_inv w' \<and> payload w' = payload w @ bs \<and>
    w_endianness w' = w_endianness w \<and> capacity w' = capacity w \<and> written w' = written w + length bs"
  using assms by (auto simp: WriteBytes_def BeginWrite_def writer_inv_def payload_def)

lemma WriteBytes_full:
  "capacity w - written w < length bs \<Longrightarrow> WriteBytes w bs = (w, False)"
  by (auto simp: WriteBytes_def BeginWrite_def)

lemma write_field_WriteBytes:
  assumes "field_ok f" "\<forall>s. f \<noteq> FString s"
  shows "write_field w f = WriteBytes w (field_bytes (w_endianness w) f)"
proof (cases f)
  case (FBytes n v)
  then show ?thesis
    using assms(1)
    by (cases "w_endianness w")
      (auto simp: WriteBytesToUInt64_def ordered_def endian_defs le_bytes_swap drop_rev le_bytes_take)
qed (use assms(2) in \<open>auto simp: ordered_def WriteUInt8_def WriteUInt16_def WriteUInt32_def WriteUInt64_def
    WriteUFloat16_def WriteConnectionId_def WriteTag_def endian_defs le_bytes_swap\<close>)

lemma write_field_bytes:
  assumes "writer_inv w" "field_ok f" "length (field_bytes (w_endianness w) f) \<le> capacity w - written w"
  shows "\<exists>w'. write_field w f = (w', True) \<and> writer_inv w' \<and>
    payload w' = payload w @ field_bytes (w_endianness w) f \<and>
    w_endianness w' = w_endianness w \<and> capacity w' = capacity w \<and>
    written w' = written w + length (field_bytes (w_endianness w) f)"
proof (cases "\<exists>s. f = FString s")
  case True
  then obtain s where s: "f = FString s"
    by blast
  let ?bs = "ordered (w_endianness w) (le_bytes 2 (word_of_nat (length s) :: uint16))"
  have l: "length ?bs = 2"
    by (simp add: ordered_def)
  obtain w1 where w1: "WriteUInt16 w (word_of_nat (length s)) = (w1, True)" "writer_inv w1"
    "payload w1 = payload w @ ?bs" "w_endianness w1 = w_endianness w" "capacity w1 = capacity w"
    "written w1 = written w + 2"
    using WriteBytes_put [OF assms(1), of ?bs] write_field_WriteBytes [of "F16 (word_of_nat (length s))" w]
      assms(3) l by (auto simp: s)
  have "length s \<le> capacity w1 - written w1"
    using assms(3) w1 l by (simp add: s)
  then obtain w2 where "WriteBytes w1 s = (w2, True)" "writer_inv w2" "payload w2 = payload w1 @ s"
    "w_endianness w2 = w_endianness w1" "capacity w2 = capacity w1" "written w2 = written w1 + length s"
    using WriteBytes_put [OF w1(2), of s] by blast
  then show ?thesis
    using assms(2) w1 l by (auto simp: s WriteStringPiece16_def)
next
  case False
  then show ?thesis
    using WriteBytes_put [OF assms(1,3)] write_field_WriteBytes [OF assms(2)] by auto
qed

lemma ReadBytes_take:
  assumes "r_data r = pre @ bs @ post" "r_pos r = length pre" "r_len r = length (r_data r)" "n = length bs"
  shows "ReadBytes r n = (r\<lparr>r_pos := r_pos r + n\<rparr>, Some bs)"
  using assms by (simp add: ReadBytes_def CanRead_def)

lemma le_bytes_0: "le_bytes n 0 = replicate n 0"
  by (induction n) auto

lemma of_le_bytes_zeros: "of_le_bytes (bs @ replicate k 0) = of_le_bytes bs"
proof (induction bs)
  case Nil
  show ?case
    by (induction k) auto
qed simp

lemma of_le_bytes_prefix: "of_le_bytes (le_bytes n v @ replicate k 0) = take_bit (8 * n) v"
  by (simp add: of_le_bytes_zeros of_le_bytes_le_bytes)

lemma of_le_bytes_full:
  "of_le_bytes (le_bytes 1 a) = (a :: uint8)" "of_le_bytes (le_bytes 2 b) = (b :: uint16)"
  "of_le_bytes (le_bytes 4 c) = (c :: uint32)" "of_le_bytes (le_bytes 8 d) = (d :: uint64)"
  by (simp_all add: of_le_bytes_le_bytes take_bit_word_eq_self del: le_bytes.simps)

lemma swapped_back:
  "ByteSwap16 (of_le_bytes (rev (le_bytes 2 b))) = b" "ByteSwap32 (of_le_bytes (rev (le_bytes 4 c))) = c"
  "ByteSwap64 (of_le_bytes (rev (le_bytes 8 d))) = d"
  by (simp_all add: ByteSwap16_def [symmetric] ByteSwap32_def [symmetric] ByteSwap64_def [symmetric])

lemma ReadUInt16_ordered:
  assumes "r_data r = pre @ ordered (r_endianness r) (le_bytes 2 v) @ post" "r_pos r = length pre"
    "r_len r = length (r_data r)"
  shows "ReadUInt16 r = (r\<lparr>r_pos := r_pos r + 2\<rparr>, Some v)"
  using ReadBytes_take [OF assms, of 2]
  by (simp add: ReadUInt16_def ordered_def endian_defs swapped_back of_le_bytes_full)

lemma swapped_prefix:
  assumes "n \<le> 8"
  shows "ByteSwap64 (of_le_bytes (replicate (8 - n) 0 @ rev (le_bytes n v))) = take_bit (8 * n) v"
proof -
  let ?bs = "replicate (8 - n) 0 @ rev (le_bytes n v)"
  have "le_bytes 8 (of_le_bytes ?bs :: uint64) = ?bs"
    using le_bytes_of_le_bytes [of ?bs, where 'a = 64] assms by simp
  then have "ByteSwap64 (of_le_bytes ?bs) = of_le_bytes (rev ?bs)"
    by (simp only: ByteSwap64_def)
  then show ?thesis
    by (simp add: of_le_bytes_prefix)
qed

lemma read_field_bytes:
  assumes "field_ok f" "r_data r = pre @ field_bytes (r_endianness r) f @ post" "r_pos r = length pre"
    "r_len r = length (r_data r)"
  shows "read_field f r = (r\<lparr>r_pos := r_pos r + length (field_bytes (r_endianness r) f)\<rparr>, Some (wire_value f))"
proof (cases f)
  case (FString s)
  let ?n = "word_of_nat (length s) :: uint16"
  have "ReadUInt16 r = (r\<lparr>r_pos := r_pos r + 2\<rparr>, Some ?n)"
    using assms(2-) by (intro ReadUInt16_ordered [of r pre _ "s @ post"]) (simp_all add: FString)
  moreover have "unat ?n = length s"
    using assms(1) by (simp add: FString unat_of_nat take_bit_eq_mod)
  ultimately show ?thesis
    using assms(2-) by (simp add: FString ReadStringPiece16_def ReadStringPiece_def CanRead_def ordered_def)
next
  case (FBytes n v)
  then have "n \<le> 8"
    using assms(1) by simp
  then show ?thesis
    using ReadBytes_take [OF assms(2-), of n] FBytes
    by (cases "r_endianness r")
      (simp_all add: ReadBytesToUInt64_def ordered_def endian_defs le_bytes_0 swapped_prefix of_le_bytes_prefix)
next
  case (FUFloat16 v)
  then show ?thesis
    using ReadUInt16_ordered [of r pre _ post] assms(2-) by (simp add: ReadUFloat16_def ordered_def)
qed (use ReadBytes_take [OF assms(2-)] in
    \<open>auto simp: ordered_def ReadUInt8_def ReadUInt16_def ReadUInt32_def ReadUInt64_def ReadConnectionId_def
      ReadTag_def endian_defs swapped_back of_le_bytes_full\<close>)

section \<open>Sequences of fields\<close>

text \<open>
  What a caller of the codec relies on, whatever the fields are: a write of a field that fits
  appends its bytes, a read at its bytes gives it back and moves past them.
\<close>

fun write_all :: "('w \<Rightarrow> 'f \<Rightarrow> 'w \<times> bool) \<Rightarrow> 'w \<Rightarrow> 'f list \<Rightarrow> 'w \<times> bool" where
  "write_all write w [] = (w, True)"
| "write_all write w (f # fs) =
     (case write w f of (w, ok) \<Rightarrow> if ok then write_all write w fs else (w, False))"

fun read_all :: "('f \<Rightarrow> 'r \<Rightarrow> 'r \<times> 'f option) \<Rightarrow> 'f list \<Rightarrow> 'r \<Rightarrow> 'r \<times> 'f list option" where
  "read_all read [] r = (r, Some [])"
| "read_all read (f # fs) r =
     (case read f r of
        (r, None) \<Rightarrow> (r, None)
      | (r, Some f) \<Rightarrow> (case read_all read fs r of (r, gs) \<Rightarrow> (r, map_option (Cons f) gs)))"

locale wire_format =
  fixes put :: "'w \<Rightarrow> 'f \<Rightarrow> 'w \<times> bool" and get :: "'f \<Rightarrow> 'r \<Rightarrow> 'r \<times> 'f option"
    and bytes :: "'f \<Rightarrow> uint8 list" and ok :: "'f \<Rightarrow> bool" and recovered :: "'f \<Rightarrow> 'f"
    and winv :: "'w \<Rightarrow> bool" and room :: "'w \<Rightarrow> nat" and out :: "'w \<Rightarrow> uint8 list"
    and positioned :: "'r \<Rightarrow> uint8 list \<Rightarrow> bool"
  assumes write_law: "winv w \<Longrightarrow> ok f \<Longrightarrow> length (bytes f) \<le> room w \<Longrightarrow>
      \<exists>w'. put w f = (w', True) \<and> winv w' \<and> out w' = out w @ bytes f \<and>
        room w' = room w - length (bytes f)"
    and read_law: "ok f \<Longrightarrow> positioned r (bytes f @ rest) \<Longrightarrow>
      \<exists>r'. get f r = (r', Some (recovered f)) \<and> positioned r' rest"
begin

lemma write_list:
  assumes "winv w" "list_all ok fs" "length (concat (map bytes fs)) \<le> room w"
  shows "\<exists>w'. write_all put w fs = (w', True) \<and> winv w' \<and> out w' = out w @ concat (map bytes fs)"
  using assms
proof (induction fs arbitrary: w)
  case (Cons f fs)
  then obtain w' where w': "put w f = (w', True)" "winv w'" "out w' = out w @ bytes f"
    "room w' = room w - length (bytes f)"
    using write_law [of w f] by auto
  then show ?case
    using Cons.IH [of w'] Cons.prems by auto
qed simp

lemma read_list:
  assumes "list_all ok fs" "positioned r (concat (map bytes fs) @ rest)"
  shows "\<exists>r'. read_all get fs r = (r', Some (map recovered fs)) \<and> positioned r' rest"
  using assms
proof (induction fs arbitrary: r)
  case (Cons f fs)
  then obtain r' where "get f r = (r', Some (recovered f))" "positioned r' (concat (map bytes fs) @ rest)"
    using read_law [of f r "concat (map bytes fs) @ rest"] by auto
  then show ?case
    using Cons.IH [of r'] Cons.prems by auto
qed simp

end

definition reader_at :: "endianness \<Rightarrow> data_reader \<Rightarrow> uint8 list \<Rightarrow> bool" where
  "reader_at e r rest \<longleftrightarrow> r_endianness r = e \<and> r_len r = length (r_data r) \<and> r_pos r \<le> r_len r \<and>
     drop (r_pos r) (r_data r) = rest"

interpretation quic_wire: wire_format write_field read_field "field_bytes e" field_ok wire_value
  "\<lambda>w. writer_inv w \<and> w_endianness w = e" "\<lambda>w. capacity w - written w" payload "reader_at e" for e
proof
  show "\<exists>w'. write_field w f = (w', True) \<and> (writer_inv w' \<and> w_endianness w' = e) \<and>
      payload w' = payload w @ field_bytes e f \<and>
      capacity w' - written w' = capacity w - written w - length (field_bytes e f)"
    if "writer_inv w \<and> w_endianness w = e" "field_ok f" "length (field_bytes e f) \<le> capacity w - written w"
    for w f
    using write_field_bytes [of w f] that by auto
  show "\<exists>r'. read_field f r = (r', Some (wire_value f)) \<and> reader_at e r' rest"
    if "field_ok f" "reader_at e r (field_bytes e f @ rest)" for f r rest
  proof -
    have r: "r_data r = take (r_pos r) (r_data r) @ field_bytes (r_endianness r) f @ rest"
      "r_pos r = length (take (r_pos r) (r_data r))" "r_len r = length (r_data r)"
      using that(2) by (auto simp: reader_at_def) (metis append_take_drop_id)
    have "length (r_data r) = r_pos r + length (field_bytes e f @ rest)"
      using that(2) by (auto simp: reader_at_def dest!: arg_cong [of _ _ length])
    moreover have "drop (r_pos r + length (field_bytes e f)) (r_data r) = rest"
      using that(2) unfolding reader_at_def by (metis add.commute append_eq_conv_conj drop_drop)
    ultimately show ?thesis
      using read_field_bytes [OF that(1) r] that(2) by (auto simp: reader_at_def)
  qed
qed

section \<open>Failures\<close>

text \<open>The bytes that a write of a field leaves behind when it fails.\<close>

definition left_behind :: "data_writer \<Rightarrow> field \<Rightarrow> uint8 list" where
  "left_behind w f =
     (case f of
        FString s \<Rightarrow> if length s \<le> 65535 \<and> 2 \<le> capacity w - written w
                     then ordered (w_endianness w) (le_bytes 2 (word_of_nat (length s) :: uint16)) else []
      | _ \<Rightarrow> [])"

lemma write_field_fails:
  assumes "writer_inv w" "\<not> (field_ok f \<and> length (field_bytes (w_endianness w) f) \<le> capacity w - written w)"
  shows "\<exists>w'. write_field w f = (w', False) \<and> writer_inv w' \<and> payload w' = payload w @ left_behind w f \<and>
    (left_behind w f = [] \<longrightarrow> w' = w)"
proof (cases "\<exists>s. f = FString s \<and> length s \<le> 65535 \<and> 2 \<le> capacity w - written w")
  case True
  then obtain s where s: "f = FString s" "length s \<le> 65535" "2 \<le> capacity w - written w"
    by blast
  then obtain w' where w': "WriteUInt16 w (word_of_nat (length s)) = (w', True)" "writer_inv w'" "capacity w' = capacity w"
    "written w' = written w + 2" "payload w' = payload w @ left_behind w f"
    using write_field_bytes [OF assms(1), of "F16 (word_of_nat (length s))"] by (auto simp: left_behind_def)
  moreover have "capacity w' - written w' < length s"
    using assms(2) s w'(3,4) by simp
  moreover have "length (left_behind w f) = 2"
    using s by (simp add: left_behind_def)
  ultimately show ?thesis
    using s WriteBytes_full [of w' s] by (auto simp: WriteStringPiece16_def)
next
  case False
  then have "left_behind w f = []"
    by (auto simp: left_behind_def split: field.splits)
  moreover have "write_field w f = (w, False)"
  proof (cases "\<exists>s. f = FString s")
    case True
    then obtain s where "f = FString s"
      by blast
    then show ?thesis
      using False WriteBytes_full [of w "field_bytes (w_endianness w) (F16 (word_of_nat (length s)))"]
        write_field_WriteBytes [of "F16 (word_of_nat (length s))" w]
      by (auto simp: WriteStringPiece16_def not_le)
  next
    case no_string: False
    show ?thesis
    proof (cases "field_ok f")
      case True
      then show ?thesis
        using no_string assms(2) WriteBytes_full [of w "field_bytes (w_endianness w) f"] by (simp add: write_field_WriteBytes)
    qed (use no_string in \<open>cases f; auto simp: WriteBytesToUInt64_def\<close>)
  qed
  ultimately show ?thesis
    using assms(1) by simp
qed

text \<open>Fields of no bytes, and those \<open>ReadBytesToUInt64\<close> refuses.\<close>

definition empty_field :: "field \<Rightarrow> bool" where "empty_field f \<longleftrightarrow> (case f of FBytes n _ \<Rightarrow> n = 0 | _ \<Rightarrow> False)"
definition too_wide :: "field \<Rightarrow> bool" where "too_wide f \<longleftrightarrow> (case f of FBytes n _ \<Rightarrow> 8 < n | _ \<Rightarrow> False)"

lemmas read_defs = ReadUInt8_def ReadUInt16_def ReadUInt32_def ReadUInt64_def ReadBytesToUInt64_def ReadUFloat16_def
  ReadStringPiece16_def ReadStringPiece_def ReadConnectionId_def ReadTag_def ReadBytes_def

lemma read_field_fails:
  assumes "read_field f r = (r', None)"
  shows "if too_wide f then r' = r else IsDoneReading r'"
  using assms by (cases f) (auto simp: read_defs too_wide_def OnFailure_def IsDoneReading_def split: if_splits option.splits prod.splits)

lemma read_field_done:
  assumes "IsDoneReading r" "\<not> empty_field f"
  shows "read_field f r = (r, None)"
proof -
  have "OnFailure r = r" "CanRead r n \<longleftrightarrow> n = 0" for n
    using assms(1) by (simp_all add: OnFailure_def IsDoneReading_def CanRead_def)
  then show ?thesis
    using assms(2) by (cases f) (auto simp: read_defs empty_field_def)
qed

section \<open>Properties\<close>

text \<open>
  C15: Round trip of the wire codec: fields written one after the other into a buffer with room for
  them are all read back, in either byte order; the value of a field is kept, except that
  \<open>WriteBytesToUInt64\<close> keeps the bytes it was asked to write and \<open>WriteUFloat16\<close> rounds.
\<close>

theorem codec_roundtrip:
  assumes "list_all field_ok fs" "length buf = n" "length (concat (map (field_bytes e) fs)) \<le> n"
  shows "\<exists>w r. write_all write_field (QuicDataWriter n buf e) fs = (w, True) \<and>
    read_all read_field fs (QuicDataReader (payload w) e) = (r, Some (map wire_value fs)) \<and> IsDoneReading r"
proof -
  have init: "writer_inv (QuicDataWriter n buf e)" "w_endianness (QuicDataWriter n buf e) = e"
    "capacity (QuicDataWriter n buf e) - written (QuicDataWriter n buf e) = n" "payload (QuicDataWriter n buf e) = []"
    using assms(2) by (simp_all add: writer_inv_def QuicDataWriter_def payload_def)
  then obtain w where w: "write_all write_field (QuicDataWriter n buf e) fs = (w, True)"
    "payload w = concat (map (field_bytes e) fs)"
    using quic_wire.write_list [of "QuicDataWriter n buf e" e fs] assms by auto
  have "reader_at e (QuicDataReader (payload w) e) (concat (map (field_bytes e) fs) @ [])"
    by (simp add: reader_at_def QuicDataReader_def w(2))
  from quic_wire.read_list [OF assms(1) this] w show ?thesis
    by (auto simp: reader_at_def IsDoneReading_def)
qed

theorem codec_roundtrip_witness:
  "\<exists>w r. write_all write_field (QuicDataWriter 8 (replicate 8 0) NETWORK_BYTE_ORDER)
      [F16 258, FBytes 3 66051, FString [7]] = (w, True) \<and>
    read_all read_field [F16 258, FBytes 3 66051, FString [7]] (QuicDataReader (payload w) NETWORK_BYTE_ORDER) =
      (r, Some [F16 258, FBytes 3 66051, FString [7]]) \<and> IsDoneReading r"
proof -
  have "map wire_value [F16 258, FBytes 3 66051, FString [7]] = [F16 258, FBytes 3 66051, FString [7]]"
    by simp
  moreover have "length (concat (map (field_bytes NETWORK_BYTE_ORDER) [F16 258, FBytes 3 66051, FString [7]])) \<le> 8"
    by (simp add: ordered_def)
  ultimately show ?thesis
    using codec_roundtrip [of "[F16 258, FBytes 3 66051, FString [7]]" "replicate 8 0" 8 NETWORK_BYTE_ORDER] by simp
qed

text \<open>
  C26: The 16-bit floating point format: values below \<open>2^12\<close> are exact, any other value below the
  maximum is rounded down by at most one part in \<open>2^11\<close>, and larger values are clamped to the
  maximum.
\<close>

theorem ufloat16_rounding:
  "unat (ufloat16_decode (ufloat16_encode v)) \<le> unat v \<and>
   (unat v < 2 ^ 12 \<longrightarrow> ufloat16_decode (ufloat16_encode v) = v) \<and>
   (v < kUFloat16MaxValue \<longrightarrow> (unat v - unat (ufloat16_decode (ufloat16_encode v))) * 2 ^ 11 \<le> unat v) \<and>
   (v \<ge> kUFloat16MaxValue \<longrightarrow> ufloat16_decode (ufloat16_encode v) = kUFloat16MaxValue)"
proof -
  let ?d = "unat (ufloat16_decode (ufloat16_encode v))"
  obtain s where s: "?d = (if unat v < (2 ^ 12 - 1) * 2 ^ 30 then unat v div 2 ^ s * 2 ^ s else (2 ^ 12 - 1) * 2 ^ 30)"
    "unat v < (2 ^ 12 - 1) * 2 ^ 30 \<longrightarrow> s = 0 \<or> 2 ^ 11 \<le> unat v div 2 ^ s"
    using ufloat16_round by blast
  have "(unat v - ?d) * 2 ^ 11 \<le> unat v" if "unat v < (2 ^ 12 - 1) * 2 ^ 30"
  proof (cases "s = 0")
    case False
    have "unat v - ?d = unat v mod 2 ^ s"
      using s(1) that by (simp add: minus_div_mult_eq_mod)
    then have "(unat v - ?d) * 2 ^ 11 \<le> 2 ^ s * 2 ^ 11"
      by (simp add: less_imp_le)
    also have "\<dots> \<le> 2 ^ s * (unat v div 2 ^ s)"
      using s(2) that False by simp
    also have "\<dots> \<le> unat v"
      by simp
    finally show ?thesis .
  qed (use s(1) that in simp)
  moreover have "?d \<le> unat v"
    using s(1) by simp
  moreover have "v < kUFloat16MaxValue \<longleftrightarrow> unat v < (2 ^ 12 - 1) * 2 ^ 30"
    by (simp add: word_less_nat_alt ufloat16_constants)
  ultimately show ?thesis
    using s(1) ufloat16_small(2) [of v]
    by (simp add: word_less_nat_alt word_le_nat_alt word_unat_eq_iff ufloat16_constants)
qed

theorem ufloat16_rounding_witness:
  "ufloat16_decode (ufloat16_encode 4097) \<le> 4097 \<and> ufloat16_decode (ufloat16_encode 77) = 77"
  using ufloat16_rounding [of 4097] ufloat16_rounding [of 77] by (simp add: word_le_nat_alt)

text \<open>
  C37: Failures of the codec, for every kind of field.  A write succeeds exactly if the field is one the format
  can hold and its bytes fit into the rest of the buffer.  A write that fails changes nothing, with one
  exception: a string for whose length there is room, but not for its bytes, leaves its two bytes of length
  written.  A read that fails moves the reader to the end, and from then on every read of a field of at least one
  byte fails and leaves the reader there; the only failure that does not is a \<open>ReadBytesToUInt64\<close> of more than eight
  bytes, which is refused without touching the reader.
\<close>

theorem codec_failures:
  assumes "writer_inv w" "write_field w f = (w', done)" "read_field g r = (r', None)"
  shows "(done \<longleftrightarrow> field_ok f \<and> length (field_bytes (w_endianness w) f) \<le> capacity w - written w) \<and>
    (\<not> done \<longrightarrow> writer_inv w' \<and> payload w' = payload w @ left_behind w f \<and> (left_behind w f = [] \<longrightarrow> w' = w)) \<and>
    (if too_wide g then r' = r
     else IsDoneReading r' \<and> (\<forall>h. \<not> empty_field h \<longrightarrow> read_field h r' = (r', None)))"
  using write_field_fails [OF assms(1), of f] write_field_bytes [OF assms(1), of f] assms(2)
    read_field_fails [OF assms(3)] read_field_done [of r']
  by (cases "field_ok f \<and> length (field_bytes (w_endianness w) f) \<le> capacity w - written w") auto

theorem codec_failures_witness:
  "\<exists>r' w'. read_field (F16 0) (QuicDataReader [1] HOST_BYTE_ORDER) = (r', None) \<and> read_field (F8 0) r' = (r', None) \<and>
    write_field (QuicDataWriter 3 [0, 0, 0] HOST_BYTE_ORDER) (FString [5, 6]) = (w', False) \<and> payload w' = [2, 0]"
proof -
  let ?r = "QuicDataReader [1] HOST_BYTE_ORDER" and ?w = "QuicDataWriter 3 [0, 0, 0] HOST_BYTE_ORDER"
  have w: "writer_inv ?w" "payload ?w = []"
    by (simp_all add: QuicDataWriter_def writer_inv_def payload_def)
  have "le_bytes 2 (2 :: uint16) = [2, 0]"
    by code_simp
  then have l: "left_behind ?w (FString [5, 6]) = [2, 0]"
    by (simp add: QuicDataWriter_def left_behind_def ordered_def)
  have "length (field_bytes (w_endianness ?w) (FString [5, 6])) > capacity ?w - written ?w"
    by (simp add: QuicDataWriter_def ordered_def)
  moreover have "read_field (F16 0) ?r = (OnFailure ?r, None)"
    by (simp add: ReadUInt16_def ReadBytes_def CanRead_def QuicDataReader_def)
  ultimately show ?thesis
    using codec_failures [OF w(1), of "FString [5, 6]" _ _ "F16 0" ?r "OnFailure ?r"] w(2) l
    by (cases "write_field ?w (FString [5, 6])")
      (auto simp: too_wide_def empty_field_def simp del: write_field.simps read_field.simps field_bytes.simps)
qed

end
