(* ===== verification/Stream_Send_Buffer.thy ===== *)
theory Stream_Send_Buffer
  imports Data_Codec "HOL-Library.Monad_Syntax"
begin

text \<open>
  The send buffer of a stream, \<^verbatim>\<open>src/model/net/quic/core/quic_stream_send_buffer.{h,cc}\<close>, with the copy
  out of the caller's buffers of \<^verbatim>\<open>quic_utils.cc\<close>: the data of the stream in slices, kept until all bytes
  of a slice were acknowledged, and written into packets with the data writer.

  Offsets and lengths are naturals with the wrap-around of 64-bit operations written out.  An
  \<^verbatim>\<open>iovec\<close> is the list of its bytes.  A slice that would contain memory that was never written, because
  the caller's buffers are too short, has the value \<open>None\<close>, as has a loop that makes no progress.

  The theory shows that data is available for retransmission until it is acknowledged, and that a
  slice is freed when all of it was acknowledged and nothing before it is waiting.
\<close>

section \<open>The buffers of the caller\<close>

fun skip_iovs :: "uint8 list list \<Rightarrow> nat \<Rightarrow> uint8 list list \<times> nat" where
  "skip_iovs [] iov_offset = ([], iov_offset)"
| "skip_iovs (v # iov) iov_offset =
     (if iov_offset \<ge> length v then skip_iovs iov (iov_offset - length v) else (v # iov, iov_offset))"

fun copy_iovs :: "uint8 list list \<Rightarrow> nat \<Rightarrow> uint8 list" where
  "copy_iovs [] len = []"
| "copy_iovs (v # iov) len =
     (let copy_len = min len (length v) in
      take copy_len v @ (if len - copy_len = 0 then [] else copy_iovs iov (len - copy_len)))"

definition CopyToBuffer :: "uint8 list list \<Rightarrow> nat \<Rightarrow> nat \<Rightarrow> uint8 list" where
  "CopyToBuffer iov iov_offset len =
     (case skip_iovs iov iov_offset of
        ([], _) \<Rightarrow> []
      | (v # vs, iov_offset) \<Rightarrow>
          if len = 0 then []
          else
            let copy_len = min len (length v - iov_offset) in
            take copy_len (drop iov_offset v) @
              (if len - copy_len = 0 then [] else copy_iovs vs (len - copy_len)))"

section \<open>The buffer\<close>

record data_slice =
  slice_data :: "uint8 list"
  slice_offset :: nat
  data_length :: nat
  outstanding_data_length :: nat

definition QuicStreamDataSlice :: "uint8 list \<Rightarrow> nat \<Rightarrow> nat \<Rightarrow> data_slice" where
  "QuicStreamDataSlice data offset len =
     \<lparr>slice_data = data, slice_offset = offset, data_length = len, outstanding_data_length = len\<rparr>"

record send_buffer =
  slices :: "data_slice list"
  stream_offset :: nat

definition QuicStreamSendBuffer :: send_buffer where
  "QuicStreamSendBuffer = \<lparr>slices = [], stream_offset = 0\<rparr>"

definition SaveStreamDataOneSlice :: "send_buffer \<Rightarrow> uint8 list list \<Rightarrow> nat \<Rightarrow> nat \<Rightarrow> send_buffer option" where
  "SaveStreamDataOneSlice b iov iov_offset len =
     (let data = CopyToBuffer iov iov_offset len in
      if length data < len then None
      else Some (b\<lparr>slices := slices b @ [QuicStreamDataSlice data (stream_offset b) len],
                   stream_offset := add64 (stream_offset b) len\<rparr>))"

function save_slices :: "nat \<Rightarrow> send_buffer \<Rightarrow> uint8 list list \<Rightarrow> nat \<Rightarrow> nat \<Rightarrow> send_buffer option" where
  "save_slices max_data_slice_size b iov iov_offset len =
     (if len = 0 then Some b
      else
        let slice_len = min len max_data_slice_size in
        case SaveStreamDataOneSlice b iov iov_offset slice_len of
          None \<Rightarrow> None
        | Some b \<Rightarrow>
            if slice_len = 0 then None
            else save_slices max_data_slice_size b iov (add64 iov_offset slice_len) (len - slice_len))"
  by pat_completeness auto
termination by (relation "measure (\<lambda>(k, b, iov, off, len). len)") auto

declare save_slices.simps [simp del]

text \<open>The flag \<^verbatim>\<open>quic_send_buffer_max_data_slice_size\<close> is an argument.\<close>

definition SaveStreamData :: "nat \<Rightarrow> send_buffer \<Rightarrow> uint8 list list \<Rightarrow> nat \<Rightarrow> nat \<Rightarrow> send_buffer option" where
  "SaveStreamData max_data_slice_size b iov iov_offset len = save_slices max_data_slice_size b iov iov_offset len"

primrec write_slices :: "data_slice list \<Rightarrow> nat \<Rightarrow> nat \<Rightarrow> data_writer \<Rightarrow> data_writer \<times> bool" where
  "write_slices [] offset len writer = (writer, len = 0)"
| "write_slices (s # ss) offset len writer =
     (if offset < slice_offset s then (writer, len = 0)
      else if offset \<ge> add64 (slice_offset s) (data_length s) then write_slices ss offset len writer
      else
        let in_slice = offset - slice_offset s;
            copy_length = min len (data_length s - in_slice);
            (writer, ok) = WriteBytes writer (take copy_length (drop in_slice (slice_data s))) in
        if \<not> ok then (writer, False)
        else write_slices ss (add64 offset copy_length) (len - copy_length) writer)"

definition WriteStreamData :: "send_buffer \<Rightarrow> nat \<Rightarrow> nat \<Rightarrow> data_writer \<Rightarrow> data_writer \<times> bool" where
  "WriteStreamData b offset len writer = write_slices (slices b) offset len writer"

primrec remove_range :: "data_slice list \<Rightarrow> nat \<Rightarrow> nat \<Rightarrow> data_slice list" where
  "remove_range [] offset len = []"
| "remove_range (s # ss) offset len =
     (if offset < slice_offset s then s # ss
      else if offset \<ge> add64 (slice_offset s) (data_length s) then s # remove_range ss offset len
      else
        let in_slice = offset - slice_offset s;
            removing_length = min len (data_length s - in_slice) in
        s\<lparr>outstanding_data_length := sub64 (outstanding_data_length s) removing_length\<rparr> #
          remove_range ss (add64 offset removing_length) (len - removing_length))"

definition RemoveStreamFrame :: "send_buffer \<Rightarrow> nat \<Rightarrow> nat \<Rightarrow> send_buffer" where
  "RemoveStreamFrame b offset len =
     b\<lparr>slices := dropWhile (\<lambda>s. outstanding_data_length s = 0) (remove_range (slices b) offset len)\<rparr>"

definition send_buffer_size :: "send_buffer \<Rightarrow> nat" where
  "send_buffer_size b = length (slices b)"

section \<open>Copying\<close>

lemma copy_iovs_take: "copy_iovs iov len = take len (concat iov)"
  by (induction iov arbitrary: len) (auto simp: Let_def min_def)

lemma skip_iovs_drop:
  "skip_iovs iov off = (vs, o') \<Longrightarrow> drop off (concat iov) = drop o' (concat vs) \<and> (vs \<noteq> [] \<longrightarrow> o' < length (hd vs))"
  by (induction iov off rule: skip_iovs.induct) (auto split: if_splits)

text \<open>The copy loop computes the slice of the concatenated buffers.\<close>

lemma CopyToBuffer_eq: "CopyToBuffer iov off len = take len (drop off (concat iov))"
proof -
  obtain vs o' where s: "skip_iovs iov off = (vs, o')" by (cases "skip_iovs iov off")
  then have d: "drop off (concat iov) = drop o' (concat vs)" "vs \<noteq> [] \<longrightarrow> o' < length (hd vs)"
    using skip_iovs_drop by blast+
  show ?thesis
  proof (cases vs)
    case Nil
    then show ?thesis using s d by (simp add: CopyToBuffer_def)
  next
    case (Cons v ws)
    then show ?thesis using s d by (auto simp: CopyToBuffer_def Let_def copy_iovs_take min_def)
  qed
qed

section \<open>The invariant\<close>

text \<open>The slices hold the bytes \<open>S\<close> of the stream from \<open>lo\<close> on; a slice waits for as many bytes as were
  not acknowledged, where \<open>R\<close> is the set of offsets that were.\<close>

fun slices_ok :: "uint8 list \<Rightarrow> nat set \<Rightarrow> nat \<Rightarrow> data_slice list \<Rightarrow> bool" where
  "slices_ok S R lo [] \<longleftrightarrow> lo = length S"
| "slices_ok S R lo (s # ss) \<longleftrightarrow> slice_offset s = lo \<and> 0 < data_length s \<and> lo + data_length s \<le> length S \<and>
     slice_data s = take (data_length s) (drop lo S) \<and>
     outstanding_data_length s = card ({lo..<lo + data_length s} - R) \<and> slices_ok S R (lo + data_length s) ss"

definition send_buffer_inv :: "uint8 list \<Rightarrow> nat set \<Rightarrow> send_buffer \<Rightarrow> bool" where
  "send_buffer_inv S R b \<longleftrightarrow> stream_offset b = length S \<and> length S \<le> 2 ^ 62 \<and> R \<subseteq> {..<length S} \<and>
     (\<exists>lo. slices_ok S R lo (slices b) \<and> {..<lo} \<subseteq> R) \<and>
     (slices b \<noteq> [] \<longrightarrow> outstanding_data_length (hd (slices b)) \<noteq> 0)"

lemma slices_ok_append:
  "slices_ok S R lo ss \<Longrightarrow> data \<noteq> [] \<Longrightarrow> R \<subseteq> {..<length S} \<Longrightarrow>
   slices_ok (S @ data) R lo (ss @ [QuicStreamDataSlice data (length S) (length data)])"
proof (induction S R lo ss rule: slices_ok.induct)
  case (1 S R lo)
  then have "{length S..<length S + length data} - R = {length S..<length S + length data}" by auto
  then show ?case using 1 by (simp add: QuicStreamDataSlice_def)
qed auto

lemma slices_ok_le: "slices_ok S R lo ss \<Longrightarrow> lo \<le> length S"
  by (cases ss) auto

lemma WriteBytes_Nil: "writer_inv w \<Longrightarrow> WriteBytes w [] = (w, True)"
  by (simp add: WriteBytes_def BeginWrite_def writer_inv_def)

lemma write_slices_0: "writer_inv w \<Longrightarrow> write_slices ss offset 0 w = (w, True)"
  by (induction ss arbitrary: offset) (auto simp: WriteBytes_Nil)

text \<open>Writing a range of the stream that is still held.\<close>

lemma write_slices_ok:
  "slices_ok S R lo ss \<Longrightarrow> length S \<le> 2 ^ 62 \<Longrightarrow> lo \<le> offset \<Longrightarrow> offset + n \<le> length S \<Longrightarrow>
   writer_inv w \<Longrightarrow> n \<le> capacity w - written w \<Longrightarrow>
   \<exists>w'. write_slices ss offset n w = (w', True) \<and> writer_inv w' \<and> payload w' = payload w @ take n (drop offset S) \<and>
     capacity w' = capacity w \<and> written w' = written w + n"
proof (induction ss arbitrary: lo offset n w)
  case Nil
  then show ?case by simp
next
  case (Cons s ss)
  let ?d = "data_length s"
  have s: "slice_offset s = lo" "lo + ?d \<le> length S" "slice_data s = take ?d (drop lo S)" "slices_ok S R (lo + ?d) ss"
    using Cons.prems(1) by auto
  have a: "add64 lo ?d = lo + ?d" using s(2) Cons.prems(2) by (intro add64_id) simp
  show ?case
  proof (cases "lo + ?d \<le> offset")
    case True
    then show ?thesis using Cons.IH [OF s(4) Cons.prems(2) True Cons.prems(4-6)] Cons.prems(3) s(1) a by simp
  next
    case False
    define m where "m = min n (?d - (offset - lo))"
    have m: "m \<le> n" "offset + m \<le> length S" "m < n \<Longrightarrow> offset + m = lo + ?d"
      using False Cons.prems(3,4) by (auto simp: m_def)
    have "take m (drop (offset - lo) (slice_data s)) = take m (drop offset S)"
      using False Cons.prems(3) by (simp add: s(3) m_def drop_take)
    moreover obtain w1 where w1: "WriteBytes w (take m (drop offset S)) = (w1, True)" "writer_inv w1"
      "payload w1 = payload w @ take m (drop offset S)" "capacity w1 = capacity w" "written w1 = written w + m"
      using WriteBytes_put [OF Cons.prems(5), of "take m (drop offset S)"] m Cons.prems(6) by auto
    moreover have "add64 offset m = offset + m" using Cons.prems(2) m(2) by (intro add64_id) simp
    ultimately have step: "write_slices (s # ss) offset n w = write_slices ss (offset + m) (n - m) w1"
      using False Cons.prems(3) unfolding write_slices.simps s(1) a Let_def m_def [symmetric] by simp
    show ?thesis
    proof (cases "n = m")
      case True
      then show ?thesis using w1 step write_slices_0 [OF w1(2)] by simp
    next
      case F: False
      then have "lo + ?d \<le> offset + m" "m + (n - m) = n" using m by auto
      moreover have "n - m \<le> capacity w1 - written w1" using w1(4,5) Cons.prems(6) by simp
      ultimately obtain w2 where w2: "write_slices ss (offset + m) (n - m) w1 = (w2, True)" "writer_inv w2"
        "payload w2 = payload w1 @ take (n - m) (drop (offset + m) S)" "capacity w2 = capacity w1" "written w2 = written w1 + (n - m)"
        using Cons.IH [OF s(4) Cons.prems(2), of "offset + m" "n - m" w1] Cons.prems(4) w1(2) by auto
      have "take n (drop offset S) = take m (drop offset S) @ take (n - m) (drop (offset + m) S)"
        using take_add [of m "n - m" "drop offset S"] \<open>m + (n - m) = n\<close> by (simp add: add.commute)
      then show ?thesis using step w1 w2 \<open>m + (n - m) = n\<close> by simp
    qed
  qed
qed

section \<open>Acknowledging\<close>

lemma slices_ok_cong:
  "slices_ok S R lo ss \<Longrightarrow> (\<forall>i. lo \<le> i \<and> i < length S \<longrightarrow> (i \<in> R \<longleftrightarrow> i \<in> R')) \<Longrightarrow> slices_ok S R' lo ss"
proof (induction ss arbitrary: lo)
  case (Cons s ss)
  have "{lo..<lo + data_length s} - R = {lo..<lo + data_length s} - R'" using Cons.prems by auto
  then show ?case using Cons by auto
qed simp

lemma outstanding_less: "slices_ok S R lo (s # ss) \<Longrightarrow> outstanding_data_length s \<le> data_length s"
  using card_mono [of "{lo..<lo + data_length s}" "{lo..<lo + data_length s} - R"] by simp

lemma remove_range_0: "slices_ok S R lo ss \<Longrightarrow> length S \<le> 2 ^ 62 \<Longrightarrow> remove_range ss offset 0 = ss"
proof (induction ss arbitrary: lo offset)
  case (Cons s ss)
  have "outstanding_data_length s < 2 ^ 64" using outstanding_less [OF Cons.prems(1)] Cons.prems by simp
  then show ?case using Cons by (auto simp: sub64_id)
qed simp

lemma remove_range_ok:
  "slices_ok S R lo ss \<Longrightarrow> length S \<le> 2 ^ 62 \<Longrightarrow> lo \<le> offset \<Longrightarrow> offset + n \<le> length S \<Longrightarrow>
   {offset..<offset + n} \<inter> R = {} \<Longrightarrow> slices_ok S (R \<union> {offset..<offset + n}) lo (remove_range ss offset n)"
proof (induction ss arbitrary: lo offset n)
  case (Cons s ss)
  let ?d = "data_length s" and ?r = "{offset..<offset + n}"
  have s: "slice_offset s = lo" "lo + ?d \<le> length S" "slices_ok S R (lo + ?d) ss"
    "outstanding_data_length s = card ({lo..<lo + ?d} - R)" using Cons.prems(1) by auto
  have a: "add64 lo ?d = lo + ?d" using s(2) Cons.prems(2) by (intro add64_id) simp
  show ?case
  proof (cases "lo + ?d \<le> offset")
    case True
    have "{lo..<lo + ?d} - (R \<union> ?r) = {lo..<lo + ?d} - R" using True by auto
    then show ?thesis using Cons.IH [OF s(3) Cons.prems(2) True Cons.prems(4,5)] Cons.prems(1,3) True a by simp
  next
    case False
    define m where "m = min n (?d - (offset - lo))"
    have m: "m \<le> n" "offset + m \<le> lo + ?d" "m < n \<Longrightarrow> offset + m = lo + ?d" "offset + m + (n - m) = offset + n"
      using False Cons.prems(3,4) by (auto simp: m_def)
    have "{lo..<lo + ?d} - (R \<union> ?r) = ({lo..<lo + ?d} - R) - {offset..<offset + m}"
      using False Cons.prems(3) m by (cases "m < n") auto
    moreover have "{offset..<offset + m} \<subseteq> {lo..<lo + ?d} - R"
      using Cons.prems(3,5) m(1,2) by (auto simp: disjoint_iff)
    ultimately have out: "card ({lo..<lo + ?d} - (R \<union> ?r)) = card ({lo..<lo + ?d} - R) - m"
      "m \<le> card ({lo..<lo + ?d} - R)"
      using card_Diff_subset [of "{offset..<offset + m}" "{lo..<lo + ?d} - R"]
        card_mono [of "{lo..<lo + ?d} - R" "{offset..<offset + m}"] by auto
    have "sub64 (outstanding_data_length s) m = card ({lo..<lo + ?d} - (R \<union> ?r))"
      using outstanding_less [OF Cons.prems(1)] s(2,4) Cons.prems(2) out by (simp add: sub64_id)
    moreover have "add64 offset m = offset + m" using Cons.prems(2) m(2) s(2) by (intro add64_id) simp
    ultimately have step: "remove_range (s # ss) offset n =
      s\<lparr>outstanding_data_length := card ({lo..<lo + ?d} - (R \<union> ?r))\<rparr> # remove_range ss (offset + m) (n - m)"
      using False Cons.prems(3) unfolding remove_range.simps s(1) a Let_def m_def [symmetric] by simp
    have "slices_ok S (R \<union> ?r) (lo + ?d) (remove_range ss (offset + m) (n - m))"
    proof (cases "m < n")
      case True
      have "slices_ok S (R \<union> {offset + m..<offset + n}) (lo + ?d) (remove_range ss (offset + m) (n - m))"
        using Cons.IH [OF s(3) Cons.prems(2), of "offset + m" "n - m", unfolded m(4)] m(3) [OF True] Cons.prems(4,5)
        by (auto simp: disjoint_iff)
      then show ?thesis using m(3) [OF True] by (elim slices_ok_cong) auto
    next
      case F: False
      then have "remove_range ss (offset + m) (n - m) = ss" using remove_range_0 [OF s(3) Cons.prems(2)] m(1) by simp
      then show ?thesis using slices_ok_cong [OF s(3), of "R \<union> ?r"] F m by auto
    qed
    then show ?thesis using step Cons.prems(1) by simp
  qed
qed simp

lemma drop_acked:
  "slices_ok S R lo ss \<Longrightarrow> {..<lo} \<subseteq> R \<Longrightarrow>
   \<exists>lo'. slices_ok S R lo' (dropWhile (\<lambda>s. outstanding_data_length s = 0) ss) \<and> {..<lo'} \<subseteq> R"
proof (induction ss arbitrary: lo)
  case (Cons s ss)
  show ?case
  proof (cases "outstanding_data_length s = 0")
    case True
    then have "{lo..<lo + data_length s} - R = {}" using Cons.prems(1) by simp
    then have "{..<lo + data_length s} \<subseteq> R" using Cons.prems(2) by (auto simp: subset_iff) (metis not_less)
    then show ?thesis using Cons.IH [of "lo + data_length s"] Cons.prems(1) True by simp
  next
    case False
    then have "dropWhile (\<lambda>s. outstanding_data_length s = 0) (s # ss) = s # ss" by simp
    then show ?thesis using Cons.prems by metis
  qed
qed auto

lemma RemoveStreamFrame_ok:
  assumes "send_buffer_inv S R b" "offset + n \<le> length S" "{offset..<offset + n} \<inter> R = {}"
  shows "send_buffer_inv S (R \<union> {offset..<offset + n}) (RemoveStreamFrame b offset n)"
proof -
  obtain lo where lo: "slices_ok S R lo (slices b)" "{..<lo} \<subseteq> R" and S: "length S \<le> 2 ^ 62" "R \<subseteq> {..<length S}"
    using assms(1) by (auto simp: send_buffer_inv_def)
  have "slices_ok S (R \<union> {offset..<offset + n}) lo (remove_range (slices b) offset n)"
  proof (cases "n = 0")
    case True
    then show ?thesis using remove_range_0 [OF lo(1) S(1)] lo(1) by simp
  next
    case False
    then have "offset \<notin> R" using assms(3) by (auto simp: disjoint_iff)
    then have "lo \<le> offset" using lo(2) by (auto simp: subset_iff not_less)
    then show ?thesis using remove_range_ok [OF lo(1) S(1) _ assms(2,3)] by simp
  qed
  moreover have "{..<lo} \<subseteq> R \<union> {offset..<offset + n}" using lo(2) by auto
  ultimately obtain lo' where
    "slices_ok S (R \<union> {offset..<offset + n}) lo' (slices (RemoveStreamFrame b offset n)) \<and> {..<lo'} \<subseteq> R \<union> {offset..<offset + n}"
    using drop_acked by (fastforce simp: RemoveStreamFrame_def)
  moreover have "slices (RemoveStreamFrame b offset n) \<noteq> [] \<Longrightarrow>
      outstanding_data_length (hd (slices (RemoveStreamFrame b offset n))) \<noteq> 0"
    using hd_dropWhile [of "\<lambda>s. outstanding_data_length s = 0"] by (auto simp: RemoveStreamFrame_def)
  ultimately show ?thesis using assms S by (auto simp: send_buffer_inv_def RemoveStreamFrame_def)
qed

lemma save_slices_ok:
  assumes "0 < k" "send_buffer_inv S R b" "off + n \<le> length (concat iov)" "length S + n \<le> 2 ^ 62" "length (concat iov) \<le> 2 ^ 62"
  shows "\<exists>b'. save_slices k b iov off n = Some b' \<and> send_buffer_inv (S @ take n (drop off (concat iov))) R b'"
  using assms
proof (induction n arbitrary: S b off rule: less_induct)
  case (less n)
  show ?case
  proof (cases "n = 0")
    case True
    then show ?thesis using less.prems by (simp add: save_slices.simps)
  next
    case False
    define m where "m = min n k"
    define data where "data = take m (drop off (concat iov))"
    have m: "0 < m" "m \<le> n" using False less.prems(1) by (auto simp: m_def)
    have len: "length data = m" using m(2) less.prems(3) by (simp add: data_def)
    have so: "stream_offset b = length S" using less.prems(2) by (simp add: send_buffer_inv_def)
    define b1 where "b1 = b\<lparr>slices := slices b @ [QuicStreamDataSlice data (length S) m], stream_offset := length S + m\<rparr>"
    have "add64 (length S) m = length S + m" using less.prems(4) m(2) by (intro add64_id) simp
    then have one: "SaveStreamDataOneSlice b iov off m = Some b1"
      using len by (simp add: SaveStreamDataOneSlice_def CopyToBuffer_eq data_def [symmetric] so b1_def)
    have "send_buffer_inv (S @ data) R b1"
    proof -
      obtain lo where lo: "slices_ok S R lo (slices b)" "{..<lo} \<subseteq> R" and R: "R \<subseteq> {..<length S}"
        using less.prems(2) by (auto simp: send_buffer_inv_def)
      have "slices_ok (S @ data) R lo (slices b1)"
        using slices_ok_append [OF lo(1) _ R, of data] m(1) len by (auto simp: b1_def)
      moreover have "R \<subseteq> {..<length (S @ data)}" using R by auto
      moreover have "outstanding_data_length (hd (slices b1)) \<noteq> 0"
      proof -
        have "slices b \<noteq> [] \<longrightarrow> outstanding_data_length (hd (slices b)) \<noteq> 0"
          using less.prems(2) unfolding send_buffer_inv_def by blast
        then show ?thesis using m(1) by (cases "slices b") (simp_all add: b1_def QuicStreamDataSlice_def)
      qed
      ultimately show ?thesis using lo(2) len less.prems(4) m(2) by (auto simp: send_buffer_inv_def b1_def)
    qed
    moreover have "add64 off m = off + m" using less.prems(3,5) m(2) by (intro add64_id) simp
    moreover have "save_slices k b iov off n = save_slices k b1 iov (add64 off m) (n - m)"
      using False m(1) one by (subst save_slices.simps) (simp add: m_def [symmetric] Let_def)
    moreover have "take n (drop off (concat iov)) = data @ take (n - m) (drop (off + m) (concat iov))"
      using take_add [of m "n - m" "drop off (concat iov)"] m(2) by (simp add: data_def add.commute)
    ultimately show ?thesis using less.IH [of "n - m" "S @ data" b1 "off + m"] m less.prems(1,3,4,5) len by auto
  qed
qed

section \<open>Runs\<close>

datatype send_buffer_op =
    Save "uint8 list list" nat nat
  | Acked nat nat

primrec send_buffer_run :: "nat \<Rightarrow> send_buffer \<Rightarrow> send_buffer_op list \<Rightarrow> send_buffer option" where
  "send_buffer_run k b [] = Some b"
| "send_buffer_run k b (x # xs) =
     (case x of
        Save iov off n \<Rightarrow> do { b \<leftarrow> SaveStreamData k b iov off n; send_buffer_run k b xs }
      | Acked off n \<Rightarrow> send_buffer_run k (RemoveStreamFrame b off n) xs)"

text \<open>The stream that was saved and the offsets that were acknowledged.\<close>

primrec op_bytes :: "send_buffer_op \<Rightarrow> uint8 list" where
  "op_bytes (Save iov off n) = take n (drop off (concat iov))"
| "op_bytes (Acked off n) = []"

primrec op_acked :: "send_buffer_op \<Rightarrow> nat set" where
  "op_acked (Save iov off n) = {}"
| "op_acked (Acked off n) = {off..<off + n}"

definition saved_stream :: "send_buffer_op list \<Rightarrow> uint8 list" where
  "saved_stream xs = concat (map op_bytes xs)"

definition acked_offsets :: "send_buffer_op list \<Rightarrow> nat set" where
  "acked_offsets xs = (\<Union>x\<in>set xs. op_acked x)"

text \<open>Data is saved from buffers that are long enough; what is acknowledged was saved, and only once.\<close>

primrec history_ok :: "nat \<Rightarrow> nat set \<Rightarrow> send_buffer_op list \<Rightarrow> bool" where
  "history_ok n R [] \<longleftrightarrow> n \<le> 2 ^ 62"
| "history_ok n R (x # xs) \<longleftrightarrow>
     (case x of
        Save iov off len \<Rightarrow> off + len \<le> length (concat iov) \<and> length (concat iov) \<le> 2 ^ 62 \<and> n + len \<le> 2 ^ 62 \<and>
          history_ok (n + len) R xs
      | Acked off len \<Rightarrow> off + len \<le> n \<and> {off..<off + len} \<inter> R = {} \<and> history_ok n (R \<union> {off..<off + len}) xs)"

lemma history_ok_length: "history_ok n R xs \<Longrightarrow> n \<le> 2 ^ 62"
  by (induction xs arbitrary: n R) (fastforce split: send_buffer_op.splits)+

lemma history_ok_prefix: "history_ok n R (ys @ zs) \<Longrightarrow> history_ok n R ys"
  by (induction ys arbitrary: n R) (auto split: send_buffer_op.splits dest: history_ok_length)

lemma send_buffer_run_inv:
  "0 < k \<Longrightarrow> send_buffer_inv S R b \<Longrightarrow> history_ok (length S) R xs \<Longrightarrow>
   \<exists>b'. send_buffer_run k b xs = Some b' \<and> send_buffer_inv (S @ saved_stream xs) (R \<union> acked_offsets xs) b'"
proof (induction xs arbitrary: S R b)
  case Nil
  then show ?case by (simp add: saved_stream_def acked_offsets_def)
next
  case (Cons x xs)
  show ?case
  proof (cases x)
    case (Save iov off n)
    then obtain b1 where b1: "SaveStreamData k b iov off n = Some b1" "send_buffer_inv (S @ take n (drop off (concat iov))) R b1"
      using save_slices_ok [OF Cons.prems(1,2), of off n iov] Cons.prems(3) by (auto simp: SaveStreamData_def)
    then show ?thesis using Cons.IH [OF Cons.prems(1) b1(2)] Cons.prems(3) Save
      by (auto simp: saved_stream_def acked_offsets_def)
  next
    case (Acked off n)
    then have "send_buffer_inv S (R \<union> {off..<off + n}) (RemoveStreamFrame b off n)"
      using Cons.prems by (intro RemoveStreamFrame_ok) auto
    then show ?thesis using Cons.IH [OF Cons.prems(1)] Cons.prems(3) Acked
      by (fastforce simp: saved_stream_def acked_offsets_def Un_assoc)
  qed
qed

lemma send_buffer_inv_empty: "send_buffer_inv [] {} QuicStreamSendBuffer"
  by (simp add: send_buffer_inv_def QuicStreamSendBuffer_def)

lemma send_buffer_inv_writes:
  assumes "send_buffer_inv S R b" "{offset..<offset + n} \<inter> R = {}" "offset + n \<le> length S" "0 < n" "writer_inv w" "n \<le> capacity w - written w"
  shows "\<exists>w'. WriteStreamData b offset n w = (w', True) \<and> payload w' = payload w @ take n (drop offset S)"
proof -
  obtain lo where lo: "slices_ok S R lo (slices b)" "{..<lo} \<subseteq> R" and S: "length S \<le> 2 ^ 62"
    using assms(1) by (auto simp: send_buffer_inv_def)
  have "offset \<notin> R" using assms(2,4) by (auto simp: disjoint_iff)
  then have "lo \<le> offset" using lo(2) by (auto simp: subset_iff not_less)
  then show ?thesis using write_slices_ok [OF lo(1) S _ assms(3,5,6)] by (auto simp: WriteStreamData_def)
qed

lemma send_buffer_inv_all_acked: "send_buffer_inv S {..<length S} b \<Longrightarrow> slices b = []"
proof (rule ccontr)
  assume inv: "send_buffer_inv S {..<length S} b" and ne: "slices b \<noteq> []"
  then obtain s ss lo where s: "slices b = s # ss" "slices_ok S {..<length S} lo (s # ss)"
    by (auto simp: send_buffer_inv_def neq_Nil_conv)
  then have "{lo..<lo + data_length s} - {..<length S} = {}" by auto
  then have "outstanding_data_length s = 0" using s(2) by simp
  then show False using inv s(1) by (simp add: send_buffer_inv_def)
qed

text \<open>C22: Data given to the send buffer can be written, and written again, until it is acknowledged:
  after any sequence of saves of up to \<open>2 ^ 62\<close> bytes, cut into slices of any positive size, and of acknowledgements
  of saved bytes, each byte once, in any order, each
  range of the stream of which no byte was acknowledged is written out exactly as it was saved, and once
  all bytes are acknowledged the buffer is empty.\<close>

theorem send_buffer_keeps_data:
  assumes "0 < k" "history_ok 0 {} xs"
  shows "\<exists>b. send_buffer_run k QuicStreamSendBuffer xs = Some b \<and> stream_offset b = length (saved_stream xs) \<and>
     (\<forall>offset n w. 0 < n \<and> offset + n \<le> length (saved_stream xs) \<and> {offset..<offset + n} \<inter> acked_offsets xs = {} \<and>
        writer_inv w \<and> n \<le> capacity w - written w \<longrightarrow>
        (\<exists>w'. WriteStreamData b offset n w = (w', True) \<and> payload w' = payload w @ take n (drop offset (saved_stream xs)))) \<and>
     (acked_offsets xs = {..<length (saved_stream xs)} \<longrightarrow> send_buffer_size b = 0)"
proof -
  obtain b where b: "send_buffer_run k QuicStreamSendBuffer xs = Some b" "send_buffer_inv (saved_stream xs) (acked_offsets xs) b"
    using send_buffer_run_inv [OF assms(1) send_buffer_inv_empty, of xs] assms(2) by auto
  have "stream_offset b = length (saved_stream xs)" using b(2) unfolding send_buffer_inv_def by blast
  moreover have "acked_offsets xs = {..<length (saved_stream xs)} \<longrightarrow> send_buffer_size b = 0"
  proof
    assume "acked_offsets xs = {..<length (saved_stream xs)}"
    then have "slices b = []" using b(2) send_buffer_inv_all_acked [of "saved_stream xs" b] by metis
    then show "send_buffer_size b = 0" by (simp add: send_buffer_size_def)
  qed
  moreover have "\<forall>offset n w. 0 < n \<and> offset + n \<le> length (saved_stream xs) \<and> {offset..<offset + n} \<inter> acked_offsets xs = {} \<and>
        writer_inv w \<and> n \<le> capacity w - written w \<longrightarrow>
        (\<exists>w'. WriteStreamData b offset n w = (w', True) \<and> payload w' = payload w @ take n (drop offset (saved_stream xs)))"
    by (intro allI impI, elim conjE) (rule send_buffer_inv_writes [OF b(2)])
  ultimately show ?thesis using b(1) by (intro exI [of _ b] conjI)
qed

theorem send_buffer_keeps_data_witness:
  "\<exists>b. send_buffer_run 4 QuicStreamSendBuffer [Save [[1, 2, 3], [4, 5, 6]] 1 5, Acked 2 3] = Some b \<and>
     (\<exists>w'. WriteStreamData b 0 2 (QuicDataWriter 2 [0, 0] NETWORK_BYTE_ORDER) = (w', True) \<and> payload w' = [2, 3])"
proof -
  let ?xs = "[Save [[1, 2, 3], [4, 5, 6]] 1 5, Acked 2 3]" and ?w = "QuicDataWriter 2 [0, 0] NETWORK_BYTE_ORDER"
  have "history_ok 0 {} ?xs" by simp
  then obtain b where b: "send_buffer_run 4 QuicStreamSendBuffer ?xs = Some b"
    "\<forall>offset n w. 0 < n \<and> offset + n \<le> length (saved_stream ?xs) \<and> {offset..<offset + n} \<inter> acked_offsets ?xs = {} \<and>
        writer_inv w \<and> n \<le> capacity w - written w \<longrightarrow>
        (\<exists>w'. WriteStreamData b offset n w = (w', True) \<and> payload w' = payload w @ take n (drop offset (saved_stream ?xs)))"
    using send_buffer_keeps_data [of 4 ?xs] by auto
  have "saved_stream ?xs = [2, 3, 4, 5, 6]" "acked_offsets ?xs = {2..<5}" "writer_inv ?w" "payload ?w = []" "capacity ?w - written ?w = 2"
    by (simp_all add: saved_stream_def acked_offsets_def writer_inv_def payload_def QuicDataWriter_def)
  then show ?thesis using b(1) spec [OF spec [OF spec [OF b(2), of 0], of 2], of ?w] by auto
qed

end
