(* ===== verification/Quic_Time.thy ===== *)
theory Quic_Time
  imports Quic_Prelude Float_Model
begin

text \<open>
  Times and bandwidths: \<^verbatim>\<open>QuicTime::Delta\<close> of \<^verbatim>\<open>quic_time.h\<close> and \<^verbatim>\<open>QuicBandwidth\<close> of
  \<^verbatim>\<open>quic_bandwidth.h\<close>.  A time is its number of microseconds.  Arithmetic on byte counts is done on
  64-bit words as in the code, so that products wrap; \<^const>\<open>None\<close> stands for a division by zero.
\<close>

section \<open>Constants\<close>

definition kNumMicrosPerMilli :: int where "kNumMicrosPerMilli = 1000"
definition kNumMicrosPerSecond :: uint64 where "kNumMicrosPerSecond = 1000 * 1000"
definition kDefaultTCPMSS :: QuicByteCount where "kDefaultTCPMSS = 1460"
definition kMaxResumptionCongestionWindow :: uint64 where "kMaxResumptionCongestionWindow = 200"

definition DeltaInfinite :: QuicTimeDelta where "DeltaInfinite = 2 ^ 63 - 1"
definition FromMilliseconds :: "int \<Rightarrow> QuicTimeDelta" where "FromMilliseconds ms = ms * 1000"

section \<open>Time intervals\<close>

text \<open>\<^verbatim>\<open>llround\<close> rounds to the nearest integer, halves away from zero.\<close>

definition llround :: "rat \<Rightarrow> int" where
  "llround x = (if x \<ge> 0 then \<lfloor>x + 1 / 2\<rfloor> else - \<lfloor>1 / 2 - x\<rfloor>)"

definition delta_times_double :: "QuicTimeDelta \<Rightarrow> rat \<Rightarrow> QuicTimeDelta" where
  "delta_times_double lhs rhs = llround (double_round (double_round (of_int lhs) * rhs))"

section \<open>Bandwidths\<close>

record QuicBandwidth = bits_per_second :: int

definition mk_QuicBandwidth :: "int \<Rightarrow> QuicBandwidth" where
  "mk_QuicBandwidth b = \<lparr>bits_per_second = (if b \<ge> 0 then b else 0)\<rparr>"

definition bw_Zero :: QuicBandwidth where "bw_Zero = mk_QuicBandwidth 0"
definition bw_IsZero :: "QuicBandwidth \<Rightarrow> bool" where "bw_IsZero b \<longleftrightarrow> bits_per_second b = 0"

definition FromBitsPerSecond :: "int \<Rightarrow> QuicBandwidth" where
  "FromBitsPerSecond n = mk_QuicBandwidth n"
definition FromKBitsPerSecond :: "int \<Rightarrow> QuicBandwidth" where
  "FromKBitsPerSecond n = mk_QuicBandwidth (n * 1000)"
definition FromBytesPerSecond :: "int \<Rightarrow> QuicBandwidth" where
  "FromBytesPerSecond n = mk_QuicBandwidth (n * 8)"
definition FromKBytesPerSecond :: "int \<Rightarrow> QuicBandwidth" where
  "FromKBytesPerSecond n = mk_QuicBandwidth (n * 8000)"

definition FromBytesAndTimeDelta :: "QuicByteCount \<Rightarrow> QuicTimeDelta \<Rightarrow> QuicBandwidth option" where
  "FromBytesAndTimeDelta bytes delta =
     (if (word_of_int delta :: uint64) = 0 then None
      else Some (mk_QuicBandwidth (sint ((bytes * kNumMicrosPerSecond) div word_of_int delta * 8))))"

definition ToKBitsPerSecond :: "QuicBandwidth \<Rightarrow> int" where
  "ToKBitsPerSecond b = bits_per_second b div 1000"
definition ToBytesPerSecond :: "QuicBandwidth \<Rightarrow> int" where
  "ToBytesPerSecond b = bits_per_second b div 8"
definition ToKBytesPerSecond :: "QuicBandwidth \<Rightarrow> int" where
  "ToKBytesPerSecond b = bits_per_second b div 8000"

definition ToBytesPerPeriod :: "QuicBandwidth \<Rightarrow> QuicTimeDelta \<Rightarrow> QuicByteCount" where
  "ToBytesPerPeriod b time_period = word_of_int (ToBytesPerSecond b * time_period) div kNumMicrosPerSecond"

definition ToKBytesPerPeriod :: "QuicBandwidth \<Rightarrow> QuicTimeDelta \<Rightarrow> int" where
  "ToKBytesPerPeriod b time_period =
     sint (word_of_int (ToKBytesPerSecond b * time_period) div kNumMicrosPerSecond)"

definition TransferTime :: "QuicBandwidth \<Rightarrow> QuicByteCount \<Rightarrow> QuicTimeDelta" where
  "TransferTime b bytes =
     (if bits_per_second b = 0 then 0
      else sint ((bytes * 8 * kNumMicrosPerSecond) div word_of_int (bits_per_second b)))"

definition bw_times_float :: "QuicBandwidth \<Rightarrow> rat \<Rightarrow> QuicBandwidth" where
  "bw_times_float b rhs =
     mk_QuicBandwidth (llround (float_round (float_round (of_int (bits_per_second b)) * rhs)))"

section \<open>Rounding\<close>

lemma llround_error: "\<bar>of_int (llround x) - x\<bar> \<le> 1 / 2"
proof (cases "x \<ge> 0")
  case True
  then show ?thesis
    using of_int_floor_le [of "x + 1 / 2"] floor_correct [of "x + 1 / 2"] unfolding llround_def abs_le_iff by (auto simp del: of_int_floor_le)
next
  case False
  then show ?thesis
    using of_int_floor_le [of "1 / 2 - x"] floor_correct [of "1 / 2 - x"] unfolding llround_def abs_le_iff by (auto simp del: of_int_floor_le)
qed

lemma llround_nonneg: "0 \<le> x \<Longrightarrow> 0 \<le> llround x"
  by (simp add: llround_def)

text \<open>A product with few significant bits is computed exactly.\<close>

lemma delta_times_double_eighth:
  assumes "\<bar>c * x\<bar> < 2 ^ 53" "\<bar>x\<bar> < 2 ^ 53" "0 \<le> c * x"
  shows "delta_times_double x (of_int c / 8) = (c * x + 4) div 8"
proof -
  have "double_round (of_int x) = of_int x"
    unfolding double_round_def by (rule fround_int) (use assms(2) in simp)
  moreover have "double_round (of_int (c * x) / 8) = of_int (c * x) / 8"
  proof -
    have "pow2 (- 3) = 1 / 8"
      by (simp add: pow2_def power_int_def power3_eq_cube)
    then have eq: "of_int (c * x) / 8 = of_int (c * x) * pow2 (- 3)"
      by simp
    show ?thesis
      unfolding eq double_round_def by (rule fround_int_scaled [OF assms(1)])
  qed
  moreover have "of_int x * (of_int c / 8) = (of_int (c * x) / 8 :: rat)"
    by simp
  ultimately have "delta_times_double x (of_int c / 8) = llround (of_int (c * x) / 8)"
    by (simp only: delta_times_double_def)
  also have "\<dots> = \<lfloor>of_int (c * x + 4) / (of_int 8 :: rat)\<rfloor>"
    using assms(3) by (simp add: llround_def add_divide_distrib del: of_int_mult)
  also have "\<dots> = (c * x + 4) div 8"
    by (rule floor_divide_of_int_eq)
  finally show ?thesis .
qed

end
