(* ===== verification/Unacked_Packet_Map.thy ===== *)
theory Unacked_Packet_Map
  imports Quic_Time "HOL-Library.Monad_Syntax"
begin

text \<open>
  The packets that were sent and are still of interest, \<^verbatim>\<open>src/model/net/quic/core/quic_unacked_packet_map.{h,cc}\<close>,
  with \<^verbatim>\<open>quic_transmission_info.{h,cc}\<close> and the frame lists of \<^verbatim>\<open>frames/quic_frame.{h,cc}\<close>: a deque of
  transmissions indexed by packet number, in which the transmissions of the same frames are linked.

  Packet numbers and byte counts are naturals with the wrap-around of 64-bit operations written out.
  The pointers of a frame union and of an ack listener are naturals; of a stream frame the fields are
  kept and its data is not.  The calls of the stream notifier and of the listeners are the outputs of an
  operation.  An access outside of the deque has the value \<open>None\<close>.

  The theory shows by induction on the reachable states that the bytes in flight are those of the packets
  in flight, that no packet is forgotten while it is in flight, that following the links ends inside the
  deque, and that a retransmission moves the frames and an acknowledgement of any transmission frees them.
\<close>

section \<open>Frames\<close>

record stream_frame =
  stream_id :: QuicStreamId
  fin :: bool
  frame_data_length :: uint16
  frame_offset :: QuicStreamOffset

datatype QuicFrame =
    PADDING_FRAME int
  | RST_STREAM_FRAME nat
  | CONNECTION_CLOSE_FRAME nat
  | GOAWAY_FRAME nat
  | WINDOW_UPDATE_FRAME nat
  | BLOCKED_FRAME nat
  | STOP_WAITING_FRAME nat
  | PING_FRAME
  | STREAM_FRAME stream_frame
  | ACK_FRAME nat
  | MTU_DISCOVERY_FRAME

type_synonym QuicFrames = "QuicFrame list"

definition DeleteFrames :: "QuicFrames \<Rightarrow> QuicFrames" where
  "DeleteFrames frames = []"

fun RemoveFramesForStream :: "QuicFrames \<Rightarrow> QuicStreamId \<Rightarrow> QuicFrames" where
  "RemoveFramesForStream [] sid = []"
| "RemoveFramesForStream (STREAM_FRAME f # frames) sid =
     (if stream_id f \<noteq> sid then STREAM_FRAME f # RemoveFramesForStream frames sid
      else RemoveFramesForStream frames sid)"
| "RemoveFramesForStream (frame # frames) sid = frame # RemoveFramesForStream frames sid"

section \<open>Transmissions\<close>

datatype TransmissionType =
    NOT_RETRANSMISSION
  | HANDSHAKE_RETRANSMISSION
  | ALL_UNACKED_RETRANSMISSION
  | ALL_INITIAL_RETRANSMISSION
  | LOSS_RETRANSMISSION
  | RTO_RETRANSMISSION
  | TLP_RETRANSMISSION

datatype EncryptionLevel = ENCRYPTION_NONE | ENCRYPTION_INITIAL | ENCRYPTION_FORWARD_SECURE

datatype QuicPacketNumberLength =
    PACKET_1BYTE_PACKET_NUMBER
  | PACKET_2BYTE_PACKET_NUMBER
  | PACKET_4BYTE_PACKET_NUMBER
  | PACKET_6BYTE_PACKET_NUMBER
  | PACKET_8BYTE_PACKET_NUMBER

text \<open>A listener and the length it is told.\<close>

type_synonym AckListenerWrapper = "nat \<times> nat"

record transmission_info =
  retransmittable_frames :: QuicFrames
  encryption_level :: EncryptionLevel
  packet_number_length :: QuicPacketNumberLength
  bytes_sent :: nat
  sent_time :: QuicTime
  transmission_type :: TransmissionType
  in_flight :: bool
  is_unackable :: bool
  has_crypto_handshake :: bool
  num_padding_bytes :: int
  retransmission :: nat
  ack_listeners :: "AckListenerWrapper list"
  largest_acked :: nat

definition empty_QuicTransmissionInfo :: transmission_info where
  "empty_QuicTransmissionInfo =
     \<lparr>retransmittable_frames = [], encryption_level = ENCRYPTION_NONE, packet_number_length = PACKET_1BYTE_PACKET_NUMBER,
      bytes_sent = 0, sent_time = 0, transmission_type = NOT_RETRANSMISSION, in_flight = False, is_unackable = False,
      has_crypto_handshake = False, num_padding_bytes = 0, retransmission = 0, ack_listeners = [], largest_acked = 0\<rparr>"

definition QuicTransmissionInfo ::
  "EncryptionLevel \<Rightarrow> QuicPacketNumberLength \<Rightarrow> TransmissionType \<Rightarrow> QuicTime \<Rightarrow> nat \<Rightarrow> bool \<Rightarrow> int \<Rightarrow> transmission_info" where
  "QuicTransmissionInfo level pn_length ttype time bytes crypto padding =
     \<lparr>retransmittable_frames = [], encryption_level = level, packet_number_length = pn_length,
      bytes_sent = bytes, sent_time = time, transmission_type = ttype, in_flight = False, is_unackable = False,
      has_crypto_handshake = crypto, num_padding_bytes = padding, retransmission = 0, ack_listeners = [], largest_acked = 0\<rparr>"

record serialized_packet =
  packet_frames :: QuicFrames
  packet_has_crypto_handshake :: bool
  packet_num_padding_bytes :: int
  packet_number :: nat
  packet_packet_number_length :: QuicPacketNumberLength
  packet_encryption_level :: EncryptionLevel
  encrypted_length :: nat
  packet_largest_acked :: nat
  listeners :: "AckListenerWrapper list"

section \<open>The map\<close>

record unacked_packet_map =
  largest_sent_packet :: nat
  largest_sent_retransmittable_packet :: nat
  largest_observed :: nat
  unacked_packets :: "transmission_info list"
  least_unacked :: nat
  bytes_in_flight :: nat
  pending_crypto_packet_count :: nat
  stream_notifier :: "nat option"

definition QuicUnackedPacketMap :: unacked_packet_map where
  "QuicUnackedPacketMap =
     \<lparr>largest_sent_packet = 0, largest_sent_retransmittable_packet = 0, largest_observed = 0, unacked_packets = [],
      least_unacked = 1, bytes_in_flight = 0, pending_crypto_packet_count = 0, stream_notifier = None\<rparr>"

datatype notification =
    OnStreamFrameAcked stream_frame QuicTimeDelta
  | OnStreamFrameRetransmitted stream_frame
  | OnStreamFrameDiscarded stream_frame
  | ListenerPacketAcked nat nat QuicTimeDelta
  | ListenerPacketRetransmitted nat nat

definition IsPacketUsefulForMeasuringRtt :: "unacked_packet_map \<Rightarrow> nat \<Rightarrow> transmission_info \<Rightarrow> bool" where
  "IsPacketUsefulForMeasuringRtt m n info \<longleftrightarrow> \<not> is_unackable info \<and> n > largest_observed m"

definition IsPacketUsefulForCongestionControl :: "transmission_info \<Rightarrow> bool" where
  "IsPacketUsefulForCongestionControl info \<longleftrightarrow> in_flight info"

definition IsPacketUsefulForRetransmittableData :: "unacked_packet_map \<Rightarrow> transmission_info \<Rightarrow> bool" where
  "IsPacketUsefulForRetransmittableData m info \<longleftrightarrow>
     retransmittable_frames info \<noteq> [] \<or> retransmission info > largest_observed m"

definition IsPacketUseless :: "unacked_packet_map \<Rightarrow> nat \<Rightarrow> transmission_info \<Rightarrow> bool" where
  "IsPacketUseless m n info \<longleftrightarrow>
     \<not> IsPacketUsefulForMeasuringRtt m n info \<and> \<not> IsPacketUsefulForCongestionControl info \<and>
     \<not> IsPacketUsefulForRetransmittableData m info"

function RemoveObsoletePackets :: "unacked_packet_map \<Rightarrow> unacked_packet_map" where
  "RemoveObsoletePackets m =
     (case unacked_packets m of
        [] \<Rightarrow> m
      | info # infos \<Rightarrow>
          if \<not> IsPacketUseless m (least_unacked m) info then m
          else RemoveObsoletePackets (m\<lparr>unacked_packets := infos, least_unacked := add64 (least_unacked m) 1\<rparr>))"
  by pat_completeness auto
termination by (relation "measure (\<lambda>m. length (unacked_packets m))") auto

declare RemoveObsoletePackets.simps [simp del]

definition packet_index :: "unacked_packet_map \<Rightarrow> nat \<Rightarrow> nat" where
  "packet_index m n = sub64 n (least_unacked m)"

definition GetTransmissionInfo :: "unacked_packet_map \<Rightarrow> nat \<Rightarrow> transmission_info option" where
  "GetTransmissionInfo m n =
     (if packet_index m n < length (unacked_packets m) then Some (unacked_packets m ! packet_index m n) else None)"

text \<open>An assignment through the pointer that \<^verbatim>\<open>GetMutableTransmissionInfo\<close> returns.\<close>

definition set_info :: "unacked_packet_map \<Rightarrow> nat \<Rightarrow> transmission_info \<Rightarrow> unacked_packet_map" where
  "set_info m n info = m\<lparr>unacked_packets := (unacked_packets m)[packet_index m n := info]\<rparr>"

text \<open>The calls of a notifier for the stream frames of a list, if there is a notifier.\<close>

fun notify_frames :: "unacked_packet_map \<Rightarrow> (stream_frame \<Rightarrow> notification) \<Rightarrow> QuicFrames \<Rightarrow> notification list" where
  "notify_frames m call frames =
     (if stream_notifier m = None then []
      else concat (map (\<lambda>frame. case frame of STREAM_FRAME f \<Rightarrow> [call f] | _ \<Rightarrow> []) frames))"

definition TransferRetransmissionInfo ::
  "unacked_packet_map \<Rightarrow> nat \<Rightarrow> nat \<Rightarrow> TransmissionType \<Rightarrow> transmission_info \<Rightarrow>
   (unacked_packet_map \<times> transmission_info \<times> notification list) option" where
  "TransferRetransmissionInfo m old_packet_number new_packet_number ttype info =
     (if old_packet_number < least_unacked m then Some (m, info, [])
      else if old_packet_number > largest_sent_packet m then Some (m, info, [])
      else do {
        old \<leftarrow> GetTransmissionInfo m old_packet_number;
        let calls = notify_frames m OnStreamFrameRetransmitted (retransmittable_frames old) @
              map (\<lambda>(l, n). ListenerPacketRetransmitted l n) (ack_listeners old);
            info' = info\<lparr>retransmittable_frames := retransmittable_frames old,
                         has_crypto_handshake := has_crypto_handshake old,
                         num_padding_bytes := num_padding_bytes old,
                         ack_listeners := ack_listeners old\<rparr>;
            old = old\<lparr>retransmittable_frames := retransmittable_frames info,
                      has_crypto_handshake := False,
                      ack_listeners := ack_listeners info\<rparr>;
            old = (if ttype = ALL_INITIAL_RETRANSMISSION \<or> ttype = ALL_UNACKED_RETRANSMISSION
                   then old\<lparr>is_unackable := True\<rparr>
                   else old\<lparr>retransmission := new_packet_number\<rparr>);
            m = RemoveObsoletePackets (set_info m old_packet_number old)
        in Some (m, info', calls)
      })"

text \<open>The numbers that were skipped get entries that can not be acknowledged.  A number of more than 64 bits
  has no value.\<close>

function skip_packets :: "unacked_packet_map \<Rightarrow> nat \<Rightarrow> unacked_packet_map option" where
  "skip_packets m n =
     (if n \<ge> 2 ^ 64 then None
      else if add64 (least_unacked m) (length (unacked_packets m)) < n
      then skip_packets (m\<lparr>unacked_packets := unacked_packets m @ [empty_QuicTransmissionInfo\<lparr>is_unackable := True\<rparr>]\<rparr>) n
      else Some m)"
  by pat_completeness auto
termination
proof (relation "measure (\<lambda>(m, n). n - add64 (least_unacked m) (length (unacked_packets m)))", goal_cases)
  case (2 m n)
  define a where "a = add64 (least_unacked m) (length (unacked_packets m))"
  have "Suc (least_unacked m + length (unacked_packets m)) mod 2 ^ 64 = Suc a mod 2 ^ 64"
    by (simp add: a_def add64_def mod_Suc_eq)
  also have "Suc a mod 2 ^ 64 = Suc a" using 2 by (simp add: a_def)
  finally show ?case using 2 by (simp add: a_def add64_def)
qed simp

declare skip_packets.simps [simp del]

definition AddSentPacket ::
  "unacked_packet_map \<Rightarrow> serialized_packet \<Rightarrow> nat \<Rightarrow> TransmissionType \<Rightarrow> QuicTime \<Rightarrow> bool \<Rightarrow>
   (unacked_packet_map \<times> serialized_packet \<times> notification list) option" where
  "AddSentPacket m packet old_packet_number ttype time set_in_flight = do {
     m \<leftarrow> skip_packets m (packet_number packet);
     let crypto = packet_has_crypto_handshake packet;
     let info = QuicTransmissionInfo (packet_encryption_level packet) (packet_packet_number_length packet) ttype time
                  (encrypted_length packet) crypto (packet_num_padding_bytes packet);
     let info = info\<lparr>largest_acked := packet_largest_acked packet\<rparr>;
     (m, info, calls) \<leftarrow>
       (if old_packet_number > 0 then TransferRetransmissionInfo m old_packet_number (packet_number packet) ttype info
        else Some (m, info, []));
     let m = m\<lparr>largest_sent_packet := packet_number packet\<rparr>;
     let (m, info) =
           (if set_in_flight
            then (m\<lparr>bytes_in_flight := add64 (bytes_in_flight m) (encrypted_length packet),
                     largest_sent_retransmittable_packet := packet_number packet\<rparr>,
                  info\<lparr>in_flight := True\<rparr>)
            else (m, info));
     (if old_packet_number = 0
      then Some (m\<lparr>pending_crypto_packet_count :=
                     (if crypto then add64 (pending_crypto_packet_count m) 1 else pending_crypto_packet_count m),
                   unacked_packets := unacked_packets m @
                     [info\<lparr>retransmittable_frames := packet_frames packet, ack_listeners := listeners packet\<rparr>]\<rparr>,
                 packet\<lparr>packet_frames := retransmittable_frames info, listeners := ack_listeners info\<rparr>,
                 calls)
      else Some (m\<lparr>unacked_packets := unacked_packets m @ [info]\<rparr>, packet, calls))
   }"

definition HasRetransmittableFrames :: "unacked_packet_map \<Rightarrow> nat \<Rightarrow> bool option" where
  "HasRetransmittableFrames m n = map_option (\<lambda>info. retransmittable_frames info \<noteq> []) (GetTransmissionInfo m n)"

lemma filter_update_less:
  "i < length xs \<Longrightarrow> P (xs ! i) \<Longrightarrow> \<not> P x \<Longrightarrow> length (filter P (xs[i := x])) < length (filter P xs)"
proof (induction xs arbitrary: i)
  case (Cons y ys)
  then show ?case by (cases i) auto
qed simp

text \<open>\<^verbatim>\<open>RemoveRetransmittability\<close> of the info of a packet number; the links are followed and cut.\<close>

function RemoveRetransmittability :: "unacked_packet_map \<Rightarrow> nat \<Rightarrow> unacked_packet_map option" where
  "RemoveRetransmittability m n =
     (case GetTransmissionInfo m n of
        None \<Rightarrow> None
      | Some info \<Rightarrow>
          if retransmission info \<noteq> 0
          then RemoveRetransmittability (set_info m n (info\<lparr>retransmission := 0\<rparr>)) (retransmission info)
          else
            let m = (if has_crypto_handshake info
                     then m\<lparr>pending_crypto_packet_count := sub64 (pending_crypto_packet_count m) 1\<rparr> else m)
            in Some (set_info m n (info\<lparr>has_crypto_handshake := False,
                                        retransmittable_frames := DeleteFrames (retransmittable_frames info)\<rparr>)))"
  by pat_completeness auto
termination
  by (relation "measure (\<lambda>(m, n). length (filter (\<lambda>i. retransmission i \<noteq> 0) (unacked_packets m)))")
     (auto simp: GetTransmissionInfo_def set_info_def split: if_splits intro!: filter_update_less)

declare RemoveRetransmittability.simps [simp del]

definition IncreaseLargestObserved :: "unacked_packet_map \<Rightarrow> nat \<Rightarrow> unacked_packet_map" where
  "IncreaseLargestObserved m n = m\<lparr>largest_observed := n\<rparr>"

definition IsUnacked :: "unacked_packet_map \<Rightarrow> nat \<Rightarrow> bool option" where
  "IsUnacked m n =
     (if n < least_unacked m \<or> n \<ge> add64 (least_unacked m) (length (unacked_packets m)) then Some False
      else map_option (\<lambda>info. \<not> IsPacketUseless m n info) (GetTransmissionInfo m n))"

definition NotifyAndClearListeners ::
  "unacked_packet_map \<Rightarrow> nat \<Rightarrow> QuicTimeDelta \<Rightarrow> (unacked_packet_map \<times> notification list) option" where
  "NotifyAndClearListeners m n delay = do {
     info \<leftarrow> GetTransmissionInfo m n;
     Some (set_info m n (info\<lparr>ack_listeners := []\<rparr>), map (\<lambda>(l, len). ListenerPacketAcked l len delay) (ack_listeners info))
   }"

definition RemoveFromInFlight :: "unacked_packet_map \<Rightarrow> nat \<Rightarrow> unacked_packet_map option" where
  "RemoveFromInFlight m n = do {
     info \<leftarrow> GetTransmissionInfo m n;
     Some (if in_flight info
           then set_info (m\<lparr>bytes_in_flight := sub64 (bytes_in_flight m) (bytes_sent info)\<rparr>) n (info\<lparr>in_flight := False\<rparr>)
           else m)
   }"

definition RestoreToInFlight :: "unacked_packet_map \<Rightarrow> nat \<Rightarrow> unacked_packet_map option" where
  "RestoreToInFlight m n = do {
     info \<leftarrow> GetTransmissionInfo m n;
     Some (set_info (m\<lparr>bytes_in_flight := add64 (bytes_in_flight m) (bytes_sent info)\<rparr>) n (info\<lparr>in_flight := True\<rparr>))
   }"

text \<open>The last assignment of \<^verbatim>\<open>QuicSentPacketManager::MarkPacketHandled\<close>, to the info of the acknowledged packet.\<close>

definition MarkPacketUnackable :: "unacked_packet_map \<Rightarrow> nat \<Rightarrow> unacked_packet_map option" where
  "MarkPacketUnackable m n = do {
     info \<leftarrow> GetTransmissionInfo m n;
     Some (set_info m n (info\<lparr>is_unackable := True\<rparr>))
   }"

text \<open>A round of the loop over the packets, and the loop; \<open>k\<close> packets are left.\<close>

definition cancel_packet :: "unacked_packet_map \<Rightarrow> QuicStreamId \<Rightarrow> nat \<Rightarrow> (unacked_packet_map \<times> notification list) option" where
  "cancel_packet m sid n = do {
     info \<leftarrow> GetTransmissionInfo m n;
     (if retransmittable_frames info = [] then Some (m, [])
      else do {
        let calls = notify_frames m OnStreamFrameDiscarded
              (filter (\<lambda>frame. case frame of STREAM_FRAME f \<Rightarrow> stream_id f = sid | _ \<Rightarrow> False) (retransmittable_frames info));
        let frames = RemoveFramesForStream (retransmittable_frames info) sid;
        let m = set_info m n (info\<lparr>retransmittable_frames := frames\<rparr>);
        m \<leftarrow> (if frames = [] then RemoveRetransmittability m n else Some m);
        Some (m, calls)
      })
   }"

primrec cancel_packets ::
  "nat \<Rightarrow> unacked_packet_map \<Rightarrow> QuicStreamId \<Rightarrow> nat \<Rightarrow> (unacked_packet_map \<times> notification list) option" where
  "cancel_packets 0 m sid n = Some (m, [])"
| "cancel_packets (Suc k) m sid n = do {
     (m, calls) \<leftarrow> cancel_packet m sid n;
     (m, calls') \<leftarrow> cancel_packets k m sid (add64 n 1);
     Some (m, calls @ calls')
   }"

definition CancelRetransmissionsForStream ::
  "unacked_packet_map \<Rightarrow> QuicStreamId \<Rightarrow> (unacked_packet_map \<times> notification list) option" where
  "CancelRetransmissionsForStream m sid = cancel_packets (length (unacked_packets m)) m sid (least_unacked m)"

definition HasUnackedPackets :: "unacked_packet_map \<Rightarrow> bool" where
  "HasUnackedPackets m \<longleftrightarrow> unacked_packets m \<noteq> []"

definition HasInFlightPackets :: "unacked_packet_map \<Rightarrow> bool" where
  "HasInFlightPackets m \<longleftrightarrow> bytes_in_flight m > 0"

fun last_sent_time :: "transmission_info list \<Rightarrow> QuicTime" where
  "last_sent_time [] = 0"
| "last_sent_time (info # infos) = (if in_flight info then sent_time info else last_sent_time infos)"

definition GetLastPacketSentTime :: "unacked_packet_map \<Rightarrow> QuicTime" where
  "GetLastPacketSentTime m = last_sent_time (rev (unacked_packets m))"

fun more_in_flight :: "nat \<Rightarrow> transmission_info list \<Rightarrow> bool" where
  "more_in_flight num [] = False"
| "more_in_flight num (info # infos) =
     (let num = (if in_flight info then num + 1 else num) in if num > 1 then True else more_in_flight num infos)"

definition HasMultipleInFlightPackets :: "unacked_packet_map \<Rightarrow> bool" where
  "HasMultipleInFlightPackets m \<longleftrightarrow>
     (if bytes_in_flight m > unat kDefaultTCPMSS then True else more_in_flight 0 (rev (unacked_packets m)))"

definition GetNumUnackedPacketsDebugOnly :: "unacked_packet_map \<Rightarrow> nat" where
  "GetNumUnackedPacketsDebugOnly m =
     length (filter (\<lambda>(n, info). \<not> IsPacketUseless m n info) (enumerate (least_unacked m) (unacked_packets m)))"

definition HasPendingCryptoPackets :: "unacked_packet_map \<Rightarrow> bool" where
  "HasPendingCryptoPackets m \<longleftrightarrow> pending_crypto_packet_count m > 0"

definition HasUnackedRetransmittableFrames :: "unacked_packet_map \<Rightarrow> bool" where
  "HasUnackedRetransmittableFrames m \<longleftrightarrow>
     list_ex (\<lambda>info. in_flight info \<and> retransmittable_frames info \<noteq> []) (rev (unacked_packets m))"

definition SetStreamNotifier :: "unacked_packet_map \<Rightarrow> nat option \<Rightarrow> unacked_packet_map" where
  "SetStreamNotifier m notifier = m\<lparr>stream_notifier := notifier\<rparr>"

definition NotifyStreamFramesAcked :: "unacked_packet_map \<Rightarrow> transmission_info \<Rightarrow> QuicTimeDelta \<Rightarrow> notification list" where
  "NotifyStreamFramesAcked m info delay = notify_frames m (\<lambda>f. OnStreamFrameAcked f delay) (retransmittable_frames info)"

section \<open>Sums over the packets\<close>

text \<open>The packets as a partial function of the packet number, and the sum of a weight over them.\<close>

definition info_at :: "unacked_packet_map \<Rightarrow> nat \<rightharpoonup> transmission_info" where
  "info_at m n =
     (if least_unacked m \<le> n \<and> n < least_unacked m + length (unacked_packets m)
      then Some (unacked_packets m ! (n - least_unacked m)) else None)"

definition weight_sum :: "('a \<Rightarrow> nat) \<Rightarrow> (nat \<rightharpoonup> 'a) \<Rightarrow> nat" where
  "weight_sum w f = (\<Sum>n\<in>dom f. w (the (f n)))"

definition weight_of :: "('a \<Rightarrow> nat) \<Rightarrow> 'a option \<Rightarrow> nat" where
  "weight_of w x = (case x of None \<Rightarrow> 0 | Some y \<Rightarrow> w y)"

lemma weight_sum_empty [simp]: "weight_sum w Map.empty = 0"
  by (simp add: weight_sum_def)

lemma weight_sum_delete:
  assumes "finite (dom f)"
  shows "weight_sum w (f(n := None)) + weight_of w (f n) = weight_sum w f"
proof (cases "f n")
  case None
  then show ?thesis by (simp add: weight_of_def fun_upd_idem)
next
  case (Some x)
  then have "weight_sum w f = w (the (f n)) + (\<Sum>k\<in>dom f - {n}. w (the (f k)))"
    unfolding weight_sum_def using assms by (intro sum.remove) auto
  moreover have "(\<Sum>k\<in>dom f - {n}. w (the ((f(n := None)) k))) = (\<Sum>k\<in>dom f - {n}. w (the (f k)))"
    by (intro sum.cong) auto
  ultimately show ?thesis using Some by (simp add: weight_sum_def weight_of_def)
qed

lemma weight_sum_update:
  assumes "finite (dom f)"
  shows "weight_sum w (f(n \<mapsto> x)) + weight_of w (f n) = weight_sum w f + w x"
proof -
  have f: "finite (dom (f(n \<mapsto> x)))" using assms by simp
  show ?thesis using weight_sum_delete [OF f, of w n] weight_sum_delete [OF assms, of w n] by (simp add: weight_of_def)
qed

lemma weight_sum_bound:
  assumes "\<forall>n x. f n = Some x \<longrightarrow> w x \<le> k" "dom f \<subseteq> {..<l}"
  shows "weight_sum w f \<le> l * k"
proof -
  have "weight_sum w f \<le> of_nat (card (dom f)) * k"
    unfolding weight_sum_def using assms(1) by (intro sum_bounded_above) auto
  also have "\<dots> \<le> l * k" using card_mono [OF _ assms(2)] by simp
  finally show ?thesis .
qed

definition flight_weight :: "transmission_info \<Rightarrow> nat" where
  "flight_weight x = (if in_flight x then bytes_sent x else 0)"

definition crypto_weight :: "transmission_info \<Rightarrow> nat" where
  "crypto_weight x = of_bool (has_crypto_handshake x)"

section \<open>The invariant\<close>

text \<open>A link leads to a later packet that was sent, and the frames are at the end of the links.\<close>

definition info_ok :: "nat \<Rightarrow> nat \<Rightarrow> transmission_info \<Rightarrow> bool" where
  "info_ok u n x \<longleftrightarrow> bytes_sent x < 2 ^ 16 \<and>
     (retransmission x \<noteq> 0 \<longrightarrow> n < retransmission x \<and> retransmission x \<le> u \<and> retransmittable_frames x = []) \<and>
     (has_crypto_handshake x \<longrightarrow> retransmittable_frames x \<noteq> [])"

text \<open>The deque holds the packets below \<open>hi\<close>, packets up to \<open>u\<close> are sent, and \<open>e\<close> handshake packets are
  counted that are not in the deque.\<close>

definition map_inv :: "nat \<Rightarrow> nat \<Rightarrow> nat \<Rightarrow> unacked_packet_map \<Rightarrow> bool" where
  "map_inv hi u e m \<longleftrightarrow> 1 \<le> least_unacked m \<and> least_unacked m + length (unacked_packets m) = hi \<and> hi \<le> Suc u \<and> u < 2 ^ 48 \<and>
     (\<forall>n x. info_at m n = Some x \<longrightarrow> info_ok u n x) \<and>
     bytes_in_flight m = weight_sum flight_weight (info_at m) \<and>
     pending_crypto_packet_count m = weight_sum crypto_weight (info_at m) + e"

lemma info_at_range: "map_inv hi u e m \<Longrightarrow> dom (info_at m) = {least_unacked m..<hi}"
  by (auto simp: map_inv_def info_at_def split: if_splits)

lemma map_inv_finite: "map_inv hi u e m \<Longrightarrow> finite (dom (info_at m))"
  by (simp add: info_at_range)

lemma map_inv_index:
  assumes "map_inv hi u e m" "least_unacked m \<le> n" "n < hi"
  shows "packet_index m n = n - least_unacked m" "n - least_unacked m < length (unacked_packets m)"
  using assms by (auto simp: packet_index_def map_inv_def intro!: sub64_id)

lemma GetTransmissionInfo_eq:
  assumes "map_inv hi u e m" "least_unacked m \<le> n" "n < hi"
  shows "GetTransmissionInfo m n = info_at m n"
  using map_inv_index [OF assms] assms(2) by (auto simp: GetTransmissionInfo_def info_at_def)

lemma info_at_Some:
  assumes "map_inv hi u e m" "least_unacked m \<le> n" "n < hi"
  obtains x where "info_at m n = Some x" "GetTransmissionInfo m n = Some x" "info_ok u n x"
proof -
  obtain x where "info_at m n = Some x" using info_at_range [OF assms(1)] assms(2,3) by (auto simp: set_eq_iff)
  then show thesis using that GetTransmissionInfo_eq [OF assms] assms(1) by (auto simp: map_inv_def)
qed

text \<open>The part of the map that the packets, the sums and the bounds do not depend on.\<close>

lemma info_at_cong:
  "least_unacked m' = least_unacked m \<Longrightarrow> unacked_packets m' = unacked_packets m \<Longrightarrow> info_at m' = info_at m"
  by (auto simp: info_at_def)

lemma info_at_set_info:
  assumes "map_inv hi u e m" "least_unacked m \<le> n" "n < hi"
    and "least_unacked m' = least_unacked m" "unacked_packets m' = unacked_packets m"
  shows "info_at (set_info m' n x) = (info_at m)(n \<mapsto> x)"
proof
  note i = map_inv_index [OF assms(1,2,3)]
  have "packet_index m' n = n - least_unacked m" using i(1) by (simp add: packet_index_def assms(4))
  then have s: "least_unacked (set_info m' n x) = least_unacked m"
    "unacked_packets (set_info m' n x) = (unacked_packets m)[n - least_unacked m := x]"
    by (simp_all add: set_info_def assms(4,5))
  fix k
  show "info_at (set_info m' n x) k = ((info_at m)(n \<mapsto> x)) k"
    unfolding info_at_def s using i(2) assms(2) by (cases "k = n") (auto simp: nth_list_update)
qed

lemma map_inv_set_info:
  assumes "map_inv hi u e m" "least_unacked m \<le> n" "n < hi" "info_at m n = Some x" "info_ok u n y"
    and "least_unacked m' = least_unacked m" "unacked_packets m' = unacked_packets m"
    and "bytes_in_flight m' + flight_weight x = bytes_in_flight m + flight_weight y"
    and "pending_crypto_packet_count m' + crypto_weight x + e = pending_crypto_packet_count m + crypto_weight y + e'"
  shows "map_inv hi u e' (set_info m' n y)"
proof -
  note i = info_at_set_info [OF assms(1,2,3,6,7), of y]
  have "weight_sum w (info_at (set_info m' n y)) + w x = weight_sum w (info_at m) + w y" for w
    using weight_sum_update [OF map_inv_finite [OF assms(1)], of w n y] assms(4) by (simp add: i weight_of_def)
  note t = this [of flight_weight] this [of crypto_weight]
  have "bytes_in_flight m = weight_sum flight_weight (info_at m)"
    "pending_crypto_packet_count m = weight_sum crypto_weight (info_at m) + e" using assms(1) unfolding map_inv_def by blast+
  then have "bytes_in_flight m' = weight_sum flight_weight (info_at (set_info m' n y))"
    "pending_crypto_packet_count m' = weight_sum crypto_weight (info_at (set_info m' n y)) + e'"
    using assms(8,9) t by linarith+
  moreover have "\<forall>k z. info_at (set_info m' n y) k = Some z \<longrightarrow> info_ok u k z"
    using assms(1,5) by (auto simp: i map_inv_def)
  ultimately show ?thesis using assms(1,6,7) unfolding map_inv_def by (simp add: set_info_def)
qed

lemma map_inv_bytes: "map_inv hi u e m \<Longrightarrow> bytes_in_flight m \<le> hi * (2 ^ 16 - 1)"
proof -
  assume inv: "map_inv hi u e m"
  have "\<forall>n x. info_at m n = Some x \<longrightarrow> flight_weight x \<le> 2 ^ 16 - 1"
    using inv by (fastforce simp: map_inv_def info_ok_def flight_weight_def)
  moreover have "dom (info_at m) \<subseteq> {..<hi}" unfolding info_at_range [OF inv] by auto
  ultimately have "weight_sum flight_weight (info_at m) \<le> hi * (2 ^ 16 - 1)" by (rule weight_sum_bound)
  moreover have "bytes_in_flight m = weight_sum flight_weight (info_at m)" using inv unfolding map_inv_def by blast
  ultimately show ?thesis by (rule ord_eq_le_trans [rotated])
qed

lemma map_inv_pending: "map_inv hi u e m \<Longrightarrow> pending_crypto_packet_count m \<le> hi + e"
proof -
  assume inv: "map_inv hi u e m"
  have "\<forall>n x. info_at m n = Some x \<longrightarrow> crypto_weight x \<le> 1" by (simp add: crypto_weight_def)
  moreover have "dom (info_at m) \<subseteq> {..<hi}" unfolding info_at_range [OF inv] by auto
  ultimately show ?thesis using inv weight_sum_bound [of "info_at m" crypto_weight 1 hi] unfolding map_inv_def by simp
qed

lemma weight_le_sum: "finite (dom f) \<Longrightarrow> f n = Some x \<Longrightarrow> w x \<le> weight_sum w f"
  using weight_sum_delete [of f w n] by (simp add: weight_of_def)

section \<open>Trimming\<close>

text \<open>Only packets without purpose are removed.\<close>

definition observed_same :: "unacked_packet_map \<Rightarrow> unacked_packet_map \<Rightarrow> bool" where
  "observed_same m m' \<longleftrightarrow> largest_sent_packet m' = largest_sent_packet m \<and> stream_notifier m' = stream_notifier m \<and>
     largest_observed m' = largest_observed m \<and>
     largest_sent_retransmittable_packet m' = largest_sent_retransmittable_packet m"

definition trimmed :: "unacked_packet_map \<Rightarrow> unacked_packet_map \<Rightarrow> bool" where
  "trimmed m m' \<longleftrightarrow> least_unacked m \<le> least_unacked m' \<and>
     (\<forall>n. info_at m' n = info_at m n \<or> (info_at m' n = None \<and> n < least_unacked m' \<and> (\<exists>x. info_at m n = Some x \<and> IsPacketUseless m n x)))"

lemma map_inv_pop:
  assumes "map_inv hi u e m" "unacked_packets m = x # xs" "IsPacketUseless m (least_unacked m) x"
  defines "m' \<equiv> m\<lparr>unacked_packets := xs, least_unacked := add64 (least_unacked m) 1\<rparr>"
  shows "map_inv hi u e m'" "info_at m' = (info_at m)(least_unacked m := None)" "least_unacked m' = Suc (least_unacked m)"
proof -
  have l: "add64 (least_unacked m) 1 = Suc (least_unacked m)"
    using assms(1,2) by (subst add64_id) (auto simp: map_inv_def)
  have m': "least_unacked m' = Suc (least_unacked m)" "unacked_packets m' = xs" "bytes_in_flight m' = bytes_in_flight m"
    "pending_crypto_packet_count m' = pending_crypto_packet_count m" unfolding m'_def l by simp_all
  then show "least_unacked m' = Suc (least_unacked m)" by simp
  show i: "info_at m' = (info_at m)(least_unacked m := None)"
  proof
    fix n
    show "info_at m' n = ((info_at m)(least_unacked m := None)) n"
      unfolding info_at_def m' assms(2) by (auto simp: nth_Cons')
  qed
  have x: "info_at m (least_unacked m) = Some x" by (simp add: info_at_def assms(2))
  have "info_ok u (least_unacked m) x" using assms(1) x by (simp add: map_inv_def)
  then have "flight_weight x = 0" "crypto_weight x = 0"
    using assms(3) by (auto simp: IsPacketUseless_def IsPacketUsefulForCongestionControl_def
      IsPacketUsefulForRetransmittableData_def flight_weight_def crypto_weight_def info_ok_def)
  moreover have "weight_sum w (info_at m') + w x = weight_sum w (info_at m)" for w
    using weight_sum_delete [OF map_inv_finite [OF assms(1)], of w "least_unacked m"] x by (simp add: i weight_of_def)
  ultimately have "weight_sum flight_weight (info_at m') = weight_sum flight_weight (info_at m)"
    "weight_sum crypto_weight (info_at m') = weight_sum crypto_weight (info_at m)" by (metis add_0_right)+
  moreover have "\<forall>n y. info_at m' n = Some y \<longrightarrow> info_ok u n y" using assms(1) by (auto simp: i map_inv_def)
  ultimately show "map_inv hi u e m'" using assms(1,2) unfolding map_inv_def m' by simp
qed

lemma RemoveObsoletePackets_ok:
  "map_inv hi u e m \<Longrightarrow> map_inv hi u e (RemoveObsoletePackets m) \<and> observed_same m (RemoveObsoletePackets m) \<and> trimmed m (RemoveObsoletePackets m)"
proof (induction m rule: RemoveObsoletePackets.induct)
  case (1 m)
  show ?case
  proof (cases "\<exists>x xs. unacked_packets m = x # xs \<and> IsPacketUseless m (least_unacked m) x")
    case True
    then obtain x xs where x: "unacked_packets m = x # xs" "IsPacketUseless m (least_unacked m) x" by blast
    let ?m = "m\<lparr>unacked_packets := xs, least_unacked := add64 (least_unacked m) 1\<rparr>"
    note p = map_inv_pop [OF 1(2) x]
    have r: "RemoveObsoletePackets m = RemoveObsoletePackets ?m"
      using x by (subst RemoveObsoletePackets.simps) simp
    have ih: "map_inv hi u e (RemoveObsoletePackets ?m)" "observed_same ?m (RemoveObsoletePackets ?m)" "trimmed ?m (RemoveObsoletePackets ?m)"
      using 1(1) [OF x(1) _ p(1)] x(2) by auto
    have u: "IsPacketUseless ?m n y = IsPacketUseless m n y" for n y
      by (simp add: IsPacketUseless_def IsPacketUsefulForMeasuringRtt_def IsPacketUsefulForRetransmittableData_def)
    have atl: "info_at m (least_unacked m) = Some x" by (simp add: info_at_def x(1))
    have t: "Suc (least_unacked m) \<le> least_unacked (RemoveObsoletePackets ?m)"
      "info_at (RemoveObsoletePackets ?m) n = info_at ?m n \<or>
       (info_at (RemoveObsoletePackets ?m) n = None \<and> n < least_unacked (RemoveObsoletePackets ?m) \<and>
        (\<exists>x. info_at ?m n = Some x \<and> IsPacketUseless m n x))" for n
      using ih(3) unfolding trimmed_def u p(3) by blast+
    have "trimmed m (RemoveObsoletePackets ?m)"
      unfolding trimmed_def
    proof (intro conjI allI)
      show "least_unacked m \<le> least_unacked (RemoveObsoletePackets ?m)" using t(1) by simp
      fix n
      show "info_at (RemoveObsoletePackets ?m) n = info_at m n \<or>
        (info_at (RemoveObsoletePackets ?m) n = None \<and> n < least_unacked (RemoveObsoletePackets ?m) \<and>
         (\<exists>x. info_at m n = Some x \<and> IsPacketUseless m n x))"
        using t(1) t(2) [of n] x(2) atl unfolding p(2) by (cases "n = least_unacked m") auto
    qed
    then show ?thesis using ih(1,2) by (simp add: r observed_same_def)
  next
    case False
    then have "RemoveObsoletePackets m = m"
      by (subst RemoveObsoletePackets.simps) (auto split: list.splits)
    then show ?thesis using 1(2) by (simp add: observed_same_def trimmed_def)
  qed
qed


section \<open>Sending\<close>

lemma map_inv_mono: "map_inv hi u e m \<Longrightarrow> u \<le> u' \<Longrightarrow> u' < 2 ^ 48 \<Longrightarrow> map_inv hi u' e m"
  unfolding map_inv_def info_ok_def by (meson le_trans Suc_le_mono)

lemma map_inv_frame:
  assumes "map_inv hi u e m" "least_unacked m' = least_unacked m" "unacked_packets m' = unacked_packets m"
    and "bytes_in_flight m' = bytes_in_flight m" "pending_crypto_packet_count m' = pending_crypto_packet_count m"
  shows "map_inv hi u e m'"
  using assms(1) unfolding map_inv_def info_at_cong [OF assms(2,3)] assms(2-5) .

lemma map_inv_push:
  assumes "map_inv hi u e m" "hi \<le> u" "info_ok u hi x"
    and "least_unacked m' = least_unacked m" "unacked_packets m' = unacked_packets m @ [x]"
    and "bytes_in_flight m' = bytes_in_flight m + flight_weight x"
    and "pending_crypto_packet_count m' + e = pending_crypto_packet_count m + crypto_weight x + e'"
  shows "map_inv (Suc hi) u e' m'" "info_at m' = (info_at m)(hi \<mapsto> x)"
proof -
  have hi: "least_unacked m + length (unacked_packets m) = hi" using assms(1) unfolding map_inv_def by blast
  show i: "info_at m' = (info_at m)(hi \<mapsto> x)"
  proof
    fix k
    show "info_at m' k = ((info_at m)(hi \<mapsto> x)) k"
      unfolding info_at_def assms(4,5) using hi by (auto simp: nth_append)
  qed
  have "info_at m hi = None" using hi by (simp add: info_at_def)
  then have t: "weight_sum w (info_at m') = weight_sum w (info_at m) + w x" for w
    using weight_sum_update [OF map_inv_finite [OF assms(1)], of w hi x] by (simp add: i weight_of_def)
  have "\<forall>n y. info_at m' n = Some y \<longrightarrow> info_ok u n y" using assms(1,3) by (auto simp: i map_inv_def)
  then show "map_inv (Suc hi) u e' m'"
    using assms(1,2,6,7) hi t [of flight_weight] t [of crypto_weight] unfolding map_inv_def assms(4,5) by simp
qed

definition skip_info :: transmission_info where
  "skip_info = empty_QuicTransmissionInfo\<lparr>is_unackable := True\<rparr>"

lemma skip_info_simps [simp]:
  "bytes_sent skip_info = 0" "retransmission skip_info = 0" "retransmittable_frames skip_info = []"
  "\<not> has_crypto_handshake skip_info" "\<not> in_flight skip_info" "is_unackable skip_info"
  by (simp_all add: skip_info_def empty_QuicTransmissionInfo_def)

lemma skip_packets_ok:
  assumes "map_inv hi u e m" "hi \<le> n" "u \<le> n" "n < 2 ^ 48"
  shows "\<exists>m'. skip_packets m n = Some m' \<and> map_inv n n e m' \<and> observed_same m m' \<and> least_unacked m' = least_unacked m \<and>
     info_at m' = (\<lambda>k. if hi \<le> k \<and> k < n then Some skip_info else info_at m k)"
  using assms
proof (induction "n - hi" arbitrary: hi m u)
  case 0
  then have "hi = n" by simp
  moreover have "least_unacked m + length (unacked_packets m) = hi" using 0 unfolding map_inv_def by blast
  ultimately have "skip_packets m n = Some m" using 0(5) by (subst skip_packets.simps) (simp add: add64_id)
  then show ?case using map_inv_mono [OF 0(2,4,5)] \<open>hi = n\<close> by (auto simp: observed_same_def fun_eq_iff)
next
  case (Suc k)
  let ?m = "m\<lparr>unacked_packets := unacked_packets m @ [skip_info]\<rparr>"
  have hi: "least_unacked m + length (unacked_packets m) = hi" using Suc(3) unfolding map_inv_def by blast
  have inv: "map_inv hi n e m" by (rule map_inv_mono [OF Suc(3,5,6)])
  have ok: "info_ok n hi skip_info" by (simp add: info_ok_def)
  have p: "map_inv (Suc hi) n e ?m" "info_at ?m = (info_at m)(hi \<mapsto> skip_info)"
    by (rule map_inv_push [OF inv Suc(4) ok]; simp add: flight_weight_def crypto_weight_def)+
  have less: "hi < n" using Suc(2) by simp
  have s: "skip_packets m n = skip_packets ?m n"
    using Suc(2,6) hi less by (subst skip_packets.simps) (simp add: add64_id skip_info_def)
  have "k = n - Suc hi" "Suc hi \<le> n" using Suc(2) by simp_all
  then obtain m' where "skip_packets ?m n = Some m'" "map_inv n n e m'" "observed_same ?m m'" "least_unacked m' = least_unacked ?m"
    "info_at m' = (\<lambda>k. if Suc hi \<le> k \<and> k < n then Some skip_info else info_at ?m k)"
    using Suc(1) [OF _ p(1) _ le_refl Suc(6)] by blast
  then show ?case using Suc(2) by (intro exI [of _ m']) (auto simp: s p(2) observed_same_def fun_eq_iff)
qed


text \<open>What an operation keeps of the packets: their size, and those in flight.\<close>

definition keeps :: "(nat \<rightharpoonup> transmission_info) \<Rightarrow> (nat \<rightharpoonup> transmission_info) \<Rightarrow> bool" where
  "keeps f g \<longleftrightarrow>
     (\<forall>k y. g k = Some y \<longrightarrow> (\<exists>x. f k = Some x \<and> bytes_sent y = bytes_sent x \<and> in_flight y = in_flight x \<and> (is_unackable x \<longrightarrow> is_unackable y))) \<and>
     (\<forall>k x. f k = Some x \<and> in_flight x \<longrightarrow> g k \<noteq> None)"

lemma keeps_refl [simp]: "keeps f f"
  by (simp add: keeps_def)

lemma keeps_trans: "keeps f g \<Longrightarrow> keeps g h \<Longrightarrow> keeps f h"
proof -
  assume f: "keeps f g" and g: "keeps g h"
  show ?thesis unfolding keeps_def
  proof (intro conjI allI impI, goal_cases)
    case (1 k z)
    then obtain y where y: "g k = Some y" "bytes_sent z = bytes_sent y" "in_flight z = in_flight y" "is_unackable y \<longrightarrow> is_unackable z"
      using g unfolding keeps_def by blast
    then obtain x where "f k = Some x" "bytes_sent y = bytes_sent x" "in_flight y = in_flight x" "is_unackable x \<longrightarrow> is_unackable y"
      using f unfolding keeps_def by blast
    then show ?case using y by auto
  next
    case (2 k x)
    then obtain y where y: "g k = Some y" using f unfolding keeps_def by blast
    then have "in_flight y" using f 2 unfolding keeps_def by fastforce
    then show ?case using g y unfolding keeps_def by blast
  qed
qed

lemma keeps_update:
  "f k = Some x \<Longrightarrow> bytes_sent y = bytes_sent x \<Longrightarrow> in_flight y = in_flight x \<Longrightarrow> (is_unackable x \<longrightarrow> is_unackable y) \<Longrightarrow>
   keeps f (f(k \<mapsto> y))"
  by (auto simp: keeps_def)

definition frames_at :: "(nat \<rightharpoonup> transmission_info) \<Rightarrow> nat \<Rightarrow> QuicFrames" where
  "frames_at f n = (case f n of None \<Rightarrow> [] | Some x \<Rightarrow> retransmittable_frames x)"

lemma frames_at_update: "frames_at (f(n \<mapsto> x)) = (frames_at f)(n := retransmittable_frames x)"
  by (auto simp: frames_at_def)

lemma useless_simps:
  "IsPacketUseless m n x \<Longrightarrow> \<not> in_flight x" "IsPacketUseless m n x \<Longrightarrow> retransmittable_frames x = []"
  by (auto simp: IsPacketUseless_def IsPacketUsefulForCongestionControl_def IsPacketUsefulForRetransmittableData_def)

lemma trimmed_keeps: "trimmed m m' \<Longrightarrow> keeps (info_at m) (info_at m')"
proof -
  assume "trimmed m m'"
  then have t: "info_at m' k = info_at m k \<or> (info_at m' k = None \<and> (\<exists>x. info_at m k = Some x \<and> \<not> in_flight x))" for k
    unfolding trimmed_def using useless_simps(1) by blast
  show ?thesis unfolding keeps_def
  proof (intro conjI allI impI, goal_cases)
    case (1 k y)
    then show ?case using t [of k] by (intro exI [of _ y]) auto
  next
    case (2 k x)
    then show ?case using t [of k] by auto
  qed
qed

lemma trimmed_frames: "trimmed m m' \<Longrightarrow> frames_at (info_at m') = frames_at (info_at m)"
proof
  fix k
  assume "trimmed m m'"
  then have "info_at m' k = info_at m k \<or> (info_at m' k = None \<and> (\<exists>x. info_at m k = Some x \<and> IsPacketUseless m k x))"
    unfolding trimmed_def by blast
  then show "frames_at (info_at m') k = frames_at (info_at m) k" by (auto simp: frames_at_def dest: useless_simps(2))
qed

text \<open>A retransmission takes the frames over.\<close>

definition fresh_info :: "nat \<Rightarrow> transmission_info \<Rightarrow> bool" where
  "fresh_info len x \<longleftrightarrow> bytes_sent x = len \<and> retransmission x = 0 \<and> \<not> in_flight x \<and> \<not> is_unackable x"

text \<open>The packet numbers of the deque; a packet keeps a link to its retransmission unless the encryption changed.\<close>

definition tracked :: "unacked_packet_map \<Rightarrow> nat \<Rightarrow> bool" where
  "tracked m n \<longleftrightarrow> least_unacked m \<le> n \<and> n \<le> largest_sent_packet m"

definition links :: "unacked_packet_map \<Rightarrow> nat \<Rightarrow> nat \<Rightarrow> TransmissionType \<Rightarrow> bool" where
  "links m old n t \<longleftrightarrow> tracked m old \<and> largest_observed m < n \<and> t \<noteq> ALL_INITIAL_RETRANSMISSION \<and> t \<noteq> ALL_UNACKED_RETRANSMISSION"

lemma TransferRetransmissionInfo_ok:
  assumes "map_inv n n 0 m" "largest_sent_packet m < n" "fresh_info len info" "len < 2 ^ 16" "retransmittable_frames info = []"
    and "ack_listeners info = []" "has_crypto_handshake info \<longrightarrow> least_unacked m \<le> old \<and> old \<le> largest_sent_packet m"
  shows "\<exists>m' info' calls. TransferRetransmissionInfo m old n t info = Some (m', info', calls) \<and>
     map_inv n n (crypto_weight info') m' \<and> observed_same m m' \<and> least_unacked m \<le> least_unacked m' \<and> fresh_info len info' \<and> info_ok n n info' \<and>
     keeps (info_at m) (info_at m') \<and>
     (links m old n t \<longrightarrow> (\<exists>y. info_at m' old = Some y \<and> retransmission y = n)) \<and>
     (if least_unacked m \<le> old \<and> old \<le> largest_sent_packet m
      then retransmittable_frames info' = frames_at (info_at m) old \<and> frames_at (info_at m') = (frames_at (info_at m))(old := [])
      else retransmittable_frames info' = [] \<and> frames_at (info_at m') = frames_at (info_at m))"
proof (cases "least_unacked m \<le> old \<and> old \<le> largest_sent_packet m")
  case False
  then have "TransferRetransmissionInfo m old n t info = Some (m, info, [])" "\<not> has_crypto_handshake info"
    using assms(7) by (auto simp: TransferRetransmissionInfo_def)
  then show ?thesis using False assms by (auto simp: crypto_weight_def observed_same_def info_ok_def fresh_info_def links_def tracked_def)
next
  case True
  then have old: "least_unacked m \<le> old" "old < n" using assms(2) by auto
  obtain x where x: "info_at m old = Some x" "GetTransmissionInfo m old = Some x" "info_ok n old x"
    by (rule info_at_Some [OF assms(1) old])
  define y where "y = (let y = x\<lparr>retransmittable_frames := [], has_crypto_handshake := False, ack_listeners := []\<rparr> in
    if t = ALL_INITIAL_RETRANSMISSION \<or> t = ALL_UNACKED_RETRANSMISSION then y\<lparr>is_unackable := True\<rparr> else y\<lparr>retransmission := n\<rparr>)"
  define info' where "info' = info\<lparr>retransmittable_frames := retransmittable_frames x, has_crypto_handshake := has_crypto_handshake x,
    num_padding_bytes := num_padding_bytes x, ack_listeners := ack_listeners x\<rparr>"
  let ?m = "set_info m old y"
  have y: "bytes_sent y = bytes_sent x" "in_flight y = in_flight x" "\<not> has_crypto_handshake y" "retransmittable_frames y = []"
    "is_unackable x \<longrightarrow> is_unackable y" "retransmission y = n \<or> retransmission y = retransmission x"
    by (simp_all add: y_def Let_def)
  have w: "flight_weight y = flight_weight x" "crypto_weight y = 0" "crypto_weight info' = crypto_weight x"
    using y by (simp_all add: flight_weight_def crypto_weight_def info'_def)
  have "info_ok n old y" using x(3) y(1,3,4,6) old(2) by (auto simp: info_ok_def)
  then have inv: "map_inv n n (crypto_weight info') ?m"
    by (rule map_inv_set_info [OF assms(1) old x(1)]) (simp_all add: w)
  have i: "info_at ?m = (info_at m)(old \<mapsto> y)" by (rule info_at_set_info [OF assms(1) old]) simp_all
  note ro = RemoveObsoletePackets_ok [OF inv]
  have tr: "\<exists>calls. TransferRetransmissionInfo m old n t info = Some (RemoveObsoletePackets ?m, info', calls)"
    using True x(2) assms(5,6) by (auto simp: TransferRetransmissionInfo_def Let_def y_def info'_def)
  have "keeps (info_at m) (info_at (RemoveObsoletePackets ?m))"
    using keeps_update [of "info_at m" old x y, OF x(1) y(1,2,5)] trimmed_keeps [of ?m] ro keeps_trans unfolding i by blast
  moreover have "frames_at (info_at (RemoveObsoletePackets ?m)) = (frames_at (info_at m))(old := [])"
    using trimmed_frames [of ?m] ro unfolding i frames_at_update y(4) by blast
  moreover have "retransmittable_frames info' = frames_at (info_at m) old" using x(1) by (simp add: info'_def frames_at_def)
  moreover have "fresh_info len info'" using assms(3) by (simp add: fresh_info_def info'_def)
  moreover have "info_ok n n info'" using x(3) assms(3,4) by (simp add: info_ok_def info'_def fresh_info_def)
  moreover have "observed_same m (RemoveObsoletePackets ?m)" "least_unacked m \<le> least_unacked (RemoveObsoletePackets ?m)"
    using ro by (auto simp: observed_same_def trimmed_def set_info_def)
  moreover have "info_at (RemoveObsoletePackets ?m) old = Some y \<and> retransmission y = n" if "links m old n t"
  proof -
    have "retransmission y = n" "largest_observed ?m < n" using that by (simp_all add: links_def y_def Let_def set_info_def)
    then have "\<not> IsPacketUseless ?m old y" by (simp add: IsPacketUseless_def IsPacketUsefulForRetransmittableData_def)
    moreover have "info_at (RemoveObsoletePackets ?m) old = info_at ?m old \<or> (\<exists>z. info_at ?m old = Some z \<and> IsPacketUseless ?m old z)"
      using ro unfolding trimmed_def by blast
    ultimately show ?thesis using \<open>retransmission y = n\<close> by (auto simp: i)
  qed
  ultimately show ?thesis using tr ro True by auto
qed


definition unacked_inv :: "unacked_packet_map \<Rightarrow> bool" where
  "unacked_inv m \<longleftrightarrow> map_inv (Suc (largest_sent_packet m)) (largest_sent_packet m) 0 m"

lemma untracked_info: "unacked_inv m \<Longrightarrow> largest_sent_packet m < k \<Longrightarrow> info_at m k = None"
  by (auto simp: unacked_inv_def map_inv_def info_at_def)

text \<open>The frames after sending a packet.\<close>

definition frames_sent :: "unacked_packet_map \<Rightarrow> serialized_packet \<Rightarrow> nat \<Rightarrow> nat \<Rightarrow> QuicFrames" where
  "frames_sent m p old =
     (let F = frames_at (info_at m); n = packet_number p in
      if old = 0 then F(n := packet_frames p)
      else if least_unacked m \<le> old \<and> old \<le> largest_sent_packet m then F(old := [], n := F old)
      else F(n := []))"

definition packet_ok :: "unacked_packet_map \<Rightarrow> serialized_packet \<Rightarrow> nat \<Rightarrow> bool" where
  "packet_ok m p old \<longleftrightarrow> largest_sent_packet m < packet_number p \<and> packet_number p < 2 ^ 48 \<and> encrypted_length p < 2 ^ 16 \<and>
     (packet_has_crypto_handshake p \<longrightarrow>
        (if old = 0 then packet_frames p \<noteq> [] else least_unacked m \<le> old \<and> old \<le> largest_sent_packet m))"

lemma push_bytes:
  assumes "map_inv n n e m" "len < 2 ^ 16"
  shows "add64 (bytes_in_flight m) len = bytes_in_flight m + len"
proof (rule add64_id)
  have "n < 2 ^ 48" using assms(1) unfolding map_inv_def by blast
  then have "n * (2 ^ 16 - 1) + len < 2 ^ 64" using assms(2) by simp
  then show "bytes_in_flight m + len < 2 ^ 64" using map_inv_bytes [OF assms(1)] by linarith
qed

text \<open>The entry of the new packet, from the frames of the packet or from those of the one it retransmits.\<close>

lemma sent_info:
  assumes "map_inv n n 0 m" "largest_sent_packet m < n" "packet_ok m p old" "n = packet_number p"
    and "fresh_info (encrypted_length p) info" "retransmittable_frames info = []" "ack_listeners info = []"
    and "has_crypto_handshake info = packet_has_crypto_handshake p"
  shows "\<exists>m' info' calls x.
     (if old > 0 then TransferRetransmissionInfo m old n t info else Some (m, info, [])) = Some (m', info', calls) \<and>
     map_inv n n (if old = 0 then 0 else crypto_weight info') m' \<and> observed_same m m' \<and> keeps (info_at m) (info_at m') \<and>
     fresh_info (encrypted_length p) info' \<and>
     x = (if old = 0 then info'\<lparr>in_flight := fly, retransmittable_frames := packet_frames p, ack_listeners := listeners p\<rparr>
          else info'\<lparr>in_flight := fly\<rparr>) \<and>
     info_ok n n x \<and> (frames_at (info_at m'))(n := retransmittable_frames x) = frames_sent m p old \<and>
     (old = 0 \<longrightarrow> has_crypto_handshake x = packet_has_crypto_handshake p) \<and>
     (old > 0 \<and> links m old n t \<longrightarrow> (\<exists>y. info_at m' old = Some y \<and> retransmission y = n))"
proof (cases "old = 0")
  case True
  then show ?thesis using assms by (auto simp: info_ok_def fresh_info_def frames_sent_def packet_ok_def observed_same_def)
next
  case False
  have "encrypted_length p < 2 ^ 16" "has_crypto_handshake info \<longrightarrow> least_unacked m \<le> old \<and> old \<le> largest_sent_packet m"
    using assms(3,8) False by (auto simp: packet_ok_def)
  then obtain m' info' calls where m': "TransferRetransmissionInfo m old n t info = Some (m', info', calls)"
    "map_inv n n (crypto_weight info') m'" "observed_same m m'" "fresh_info (encrypted_length p) info'" "info_ok n n info'"
    "keeps (info_at m) (info_at m')" "links m old n t \<longrightarrow> (\<exists>y. info_at m' old = Some y \<and> retransmission y = n)"
    "if least_unacked m \<le> old \<and> old \<le> largest_sent_packet m
     then retransmittable_frames info' = frames_at (info_at m) old \<and> frames_at (info_at m') = (frames_at (info_at m))(old := [])
     else retransmittable_frames info' = [] \<and> frames_at (info_at m') = frames_at (info_at m)"
    using TransferRetransmissionInfo_ok [OF assms(1,2,5) _ assms(6,7), of old t] by blast
  have "(frames_at (info_at m'))(n := retransmittable_frames info') = frames_sent m p old"
    using m'(8) False unfolding frames_sent_def assms(4) by (auto simp: Let_def)
  moreover have "info_ok n n (info'\<lparr>in_flight := fly\<rparr>)" using m'(5) by (simp add: info_ok_def)
  ultimately show ?thesis using False m'(1-4,6,7) by simp
qed

lemma AddSentPacket_ok:
  assumes "unacked_inv m" "packet_ok m p old"
  shows "\<exists>m' p' calls f x. AddSentPacket m p old t time fly = Some (m', p', calls) \<and> unacked_inv m' \<and>
     info_at m' = f(packet_number p \<mapsto> x) \<and> bytes_sent x = encrypted_length p \<and> in_flight x = fly \<and> retransmission x = 0 \<and>
     keeps (\<lambda>k. if largest_sent_packet m < k \<and> k < packet_number p then Some skip_info else info_at m k) f \<and>
     frames_at (info_at m') = frames_sent m p old \<and>
     (old > 0 \<and> links m old (packet_number p) t \<longrightarrow> (\<exists>y. f old = Some y \<and> retransmission y = packet_number p))"
proof -
  let ?n = "packet_number p" and ?len = "encrypted_length p" and ?u = "largest_sent_packet m"
  let ?g = "\<lambda>k. if ?u < k \<and> k < ?n then Some skip_info else info_at m k"
  note p = assms(2) [unfolded packet_ok_def]
  obtain m1 where m1: "skip_packets m ?n = Some m1" "map_inv ?n ?n 0 m1" "observed_same m m1" "least_unacked m1 = least_unacked m"
    "info_at m1 = ?g"
    using skip_packets_ok [of "Suc ?u" ?u 0 m ?n] assms(1) p by (auto simp: unacked_inv_def Suc_le_eq)
  have "frames_at (info_at m1) = frames_at (info_at m)"
    using untracked_info [OF assms(1)] by (auto simp: m1(5) frames_at_def fun_eq_iff)
  then have s: "largest_sent_packet m1 < ?n" "packet_ok m1 p old" "frames_sent m1 p old = frames_sent m p old"
    "links m1 old ?n t = links m old ?n t"
    using m1(3,4) p by (simp_all add: observed_same_def packet_ok_def frames_sent_def links_def tracked_def Let_def)
  define info where "info = QuicTransmissionInfo (packet_encryption_level p) (packet_packet_number_length p) t time ?len
    (packet_has_crypto_handshake p) (packet_num_padding_bytes p)\<lparr>largest_acked := packet_largest_acked p\<rparr>"
  have info: "fresh_info ?len info" "retransmittable_frames info = []" "ack_listeners info = []"
    "has_crypto_handshake info = packet_has_crypto_handshake p"
    by (simp_all add: info_def QuicTransmissionInfo_def fresh_info_def)
  obtain m2 info2 calls x where m2:
      "(if old > 0 then TransferRetransmissionInfo m1 old ?n t info else Some (m1, info, [])) = Some (m2, info2, calls)"
      "map_inv ?n ?n (if old = 0 then 0 else crypto_weight info2) m2" "observed_same m1 m2" "keeps ?g (info_at m2)" "fresh_info ?len info2"
    and x: "x = (if old = 0 then info2\<lparr>in_flight := fly, retransmittable_frames := packet_frames p, ack_listeners := listeners p\<rparr>
                 else info2\<lparr>in_flight := fly\<rparr>)" "info_ok ?n ?n x"
      "(frames_at (info_at m2))(?n := retransmittable_frames x) = frames_sent m p old"
      "old = 0 \<longrightarrow> has_crypto_handshake x = packet_has_crypto_handshake p"
      "old > 0 \<and> links m old ?n t \<longrightarrow> (\<exists>y. info_at m2 old = Some y \<and> retransmission y = ?n)"
    using sent_info [OF m1(2) s(1,2) refl info, of t fly] unfolding s(3,4) m1(5) by blast
  define m' where "m' = m2\<lparr>largest_sent_packet := ?n, bytes_in_flight := bytes_in_flight m2 + flight_weight x,
    largest_sent_retransmittable_packet := (if fly then ?n else largest_sent_retransmittable_packet m2),
    pending_crypto_packet_count := pending_crypto_packet_count m2 + (if old = 0 then crypto_weight x else 0),
    unacked_packets := unacked_packets m2 @ [x]\<rparr>"
  have b: "add64 (bytes_in_flight m2) ?len = bytes_in_flight m2 + ?len" using push_bytes [OF m2(2)] p by blast
  have c: "old = 0 \<longrightarrow> add64 (pending_crypto_packet_count m2) 1 = pending_crypto_packet_count m2 + 1"
    using map_inv_pending [OF m2(2)] p by (intro impI add64_id) simp
  have w: "flight_weight x = (if fly then ?len else 0)" "crypto_weight info2 = crypto_weight x \<or> old = 0"
    "old = 0 \<longrightarrow> crypto_weight x = of_bool (packet_has_crypto_handshake p)"
    using m2(5) x(1,4) by (auto simp: flight_weight_def crypto_weight_def fresh_info_def)
  have e: "\<exists>p'. AddSentPacket m p old t time fly = Some (m', p', calls)"
  proof (cases "old = 0")
    case True
    then have "m2 = m1" "info2 = info" "calls = []" using m2(1) by simp_all
    then show ?thesis using True m1(1) b c w(1,3) info(4) unfolding AddSentPacket_def m'_def x(1)
      by (cases fly; cases "packet_has_crypto_handshake p") (simp_all add: info_def Let_def QuicTransmissionInfo_def)
  next
    case False
    then have "TransferRetransmissionInfo m1 old ?n t info = Some (m2, info2, calls)" using m2(1) by simp
    then show ?thesis using False m1(1) b w(1) m2(5) unfolding AddSentPacket_def m'_def x(1)
      by (cases fly) (simp_all add: info_def Let_def fresh_info_def)
  qed
  have f: "map_inv (Suc ?n) ?n 0 m'" "info_at m' = (info_at m2)(?n \<mapsto> x)"
    by (rule map_inv_push [OF m2(2) le_refl x(2), where e' = 0]; use w(2) in \<open>auto simp: m'_def\<close>)+
  have "unacked_inv m'" using f(1) by (simp add: unacked_inv_def m'_def)
  moreover have "bytes_sent x = ?len" "in_flight x = fly" "retransmission x = 0" using m2(5) x(1) by (auto simp: fresh_info_def)
  moreover have "frames_at (info_at m') = frames_sent m p old" using x(3) unfolding f(2) frames_at_update .
  ultimately show ?thesis using e f(2) m2(4) x(5) by blast
qed

section \<open>Acknowledgements and losses\<close>

text \<open>The last transmission of the frames of a packet.\<close>

function newest :: "unacked_packet_map \<Rightarrow> nat \<Rightarrow> nat" where
  "newest m n =
     (case info_at m n of
        None \<Rightarrow> n
      | Some x \<Rightarrow> if n < retransmission x then newest m (retransmission x) else n)"
  by pat_completeness auto
termination
  by (relation "measure (\<lambda>(m, n). least_unacked m + length (unacked_packets m) - n)") (auto simp: info_at_def split: if_splits)

declare newest.simps [simp del]

lemma newest_cong: "(\<And>k. n \<le> k \<Longrightarrow> info_at m' k = info_at m k) \<Longrightarrow> newest m' n = newest m n"
proof (induction m n rule: newest.induct)
  case (1 m n)
  show ?case
  proof (cases "\<exists>x. info_at m n = Some x \<and> n < retransmission x")
    case True
    then obtain x where x: "info_at m n = Some x" "n < retransmission x" by blast
    have "newest m' (retransmission x) = newest m (retransmission x)"
      using 1(1) [OF x] 1(2) x(2) by simp
    then show ?thesis using x 1(2) [of n] by (subst (1 2) newest.simps) simp
  next
    case False
    then show ?thesis using 1(2) [of n] by (subst (1 2) newest.simps) (auto split: option.splits)
  qed
qed

lemma RemoveRetransmittability_end:
  assumes "map_inv hi u 0 m" "least_unacked m \<le> n" "n < hi" "info_at m n = Some x" "retransmission x = 0"
  shows "\<exists>m'. RemoveRetransmittability m n = Some m' \<and> map_inv hi u 0 m' \<and> observed_same m m' \<and> least_unacked m' = least_unacked m \<and>
     info_at m' = (info_at m)(n \<mapsto> x\<lparr>has_crypto_handshake := False, retransmittable_frames := []\<rparr>)"
proof -
  let ?y = "x\<lparr>has_crypto_handshake := False, retransmittable_frames := []\<rparr>"
  define m1 where "m1 = (if has_crypto_handshake x
    then m\<lparr>pending_crypto_packet_count := sub64 (pending_crypto_packet_count m) 1\<rparr> else m)"
  have x: "GetTransmissionInfo m n = Some x" "info_ok u n x" using info_at_Some [OF assms(1-3)] assms(4) by auto
  have "pending_crypto_packet_count m = weight_sum crypto_weight (info_at m)" using assms(1) by (simp add: map_inv_def)
  then have "crypto_weight x \<le> pending_crypto_packet_count m" "pending_crypto_packet_count m < 2 ^ 64"
    using weight_le_sum [OF map_inv_finite [OF assms(1)] assms(4), of crypto_weight] map_inv_pending [OF assms(1)] assms(1)
    by (auto simp: map_inv_def)
  then have p: "pending_crypto_packet_count m1 + crypto_weight x = pending_crypto_packet_count m"
    by (auto simp: m1_def crypto_weight_def sub64_id)
  have ok: "info_ok u n ?y" using x(2) assms(5) by (simp add: info_ok_def)
  have "map_inv hi u 0 (set_info m1 n ?y)"
    by (rule map_inv_set_info [OF assms(1-4) ok]) (use p in \<open>simp_all add: m1_def flight_weight_def crypto_weight_def\<close>)
  moreover have "info_at (set_info m1 n ?y) = (info_at m)(n \<mapsto> ?y)"
    by (rule info_at_set_info [OF assms(1-3)]) (simp_all add: m1_def)
  moreover have "RemoveRetransmittability m n = Some (set_info m1 n ?y)"
    using x(1) assms(5) by (subst RemoveRetransmittability.simps) (simp add: m1_def DeleteFrames_def)
  ultimately show ?thesis by (simp add: observed_same_def set_info_def m1_def)
qed

lemma RemoveRetransmittability_ok:
  "map_inv (Suc u) u 0 m \<Longrightarrow> least_unacked m \<le> n \<Longrightarrow> n \<le> u \<Longrightarrow>
   \<exists>m'. RemoveRetransmittability m n = Some m' \<and> map_inv (Suc u) u 0 m' \<and> observed_same m m' \<and> least_unacked m' = least_unacked m \<and>
     keeps (info_at m) (info_at m') \<and> frames_at (info_at m') = (frames_at (info_at m))(newest m n := [])"
proof (induction "u - n" arbitrary: m n rule: less_induct)
  case less
  have n: "n < Suc u" using less.prems(3) by simp
  obtain x where x: "info_at m n = Some x" "GetTransmissionInfo m n = Some x" "info_ok u n x"
    by (rule info_at_Some [OF less.prems(1,2) n])
  show ?case
  proof (cases "retransmission x = 0")
    case True
    then have "newest m n = n" using x(1) by (subst newest.simps) simp
    then show ?thesis using RemoveRetransmittability_end [OF less.prems(1,2) n x(1) True] keeps_update [of "info_at m" n x, OF x(1)]
      by (auto simp: frames_at_update)
  next
    case False
    then have r: "n < retransmission x" "retransmission x \<le> u" using x(3) by (auto simp: info_ok_def)
    let ?y = "x\<lparr>retransmission := 0\<rparr>"
    let ?m = "set_info m n ?y"
    have "info_ok u n ?y" using x(3) by (simp add: info_ok_def)
    then have inv: "map_inv (Suc u) u 0 ?m"
      by (rule map_inv_set_info [OF less.prems(1,2) n x(1)]) (simp_all add: flight_weight_def crypto_weight_def)
    have i: "info_at ?m = (info_at m)(n \<mapsto> ?y)" by (rule info_at_set_info [OF less.prems(1,2) n]) simp_all
    have "newest ?m (retransmission x) = newest m (retransmission x)" using r(1) by (intro newest_cong) (simp add: i)
    moreover have "newest m n = newest m (retransmission x)" using x(1) r(1) by (subst newest.simps) simp
    moreover have "keeps (info_at m) (info_at ?m)" using keeps_update [of "info_at m" n x ?y] x(1) by (simp add: i)
    moreover have "frames_at (info_at ?m) = frames_at (info_at m)" using x(1) by (auto simp: i frames_at_def)
    moreover have "RemoveRetransmittability m n = RemoveRetransmittability ?m (retransmission x)"
      using x(2) False by (subst RemoveRetransmittability.simps) simp
    moreover have "observed_same m ?m" "least_unacked ?m = least_unacked m" by (simp_all add: observed_same_def set_info_def)
    ultimately show ?thesis
      using less.hyps [of "retransmission x" ?m, OF _ inv] r less.prems(2) keeps_trans [of "info_at m" "info_at ?m"]
      by (fastforce simp: observed_same_def)
  qed
qed

lemma cancel_packet_ok:
  assumes "map_inv (Suc u) u 0 m" "least_unacked m \<le> n" "n \<le> u"
  shows "\<exists>m' calls. cancel_packet m sid n = Some (m', calls) \<and> map_inv (Suc u) u 0 m' \<and> observed_same m m' \<and>
     least_unacked m' = least_unacked m \<and> keeps (info_at m) (info_at m') \<and>
     frames_at (info_at m') = (frames_at (info_at m))(n := RemoveFramesForStream (frames_at (info_at m) n) sid)"
proof -
  have n: "n < Suc u" using assms(3) by simp
  obtain x where x: "info_at m n = Some x" "GetTransmissionInfo m n = Some x" "info_ok u n x"
    by (rule info_at_Some [OF assms(1,2) n])
  let ?F = "RemoveFramesForStream (retransmittable_frames x) sid"
  let ?y = "x\<lparr>retransmittable_frames := ?F\<rparr>"
  consider "retransmittable_frames x = []" | "retransmittable_frames x \<noteq> []" "?F \<noteq> []" | "retransmittable_frames x \<noteq> []" "?F = []" by blast
  then show ?thesis
  proof cases
    case 1
    then show ?thesis using x assms(1) by (auto simp: cancel_packet_def observed_same_def frames_at_def)
  next
    case 2
    then have "info_ok u n ?y" using x(3) by (auto simp: info_ok_def)
    then have "map_inv (Suc u) u 0 (set_info m n ?y)"
      by (rule map_inv_set_info [OF assms(1,2) n x(1)]) (simp_all add: flight_weight_def crypto_weight_def)
    moreover have i: "info_at (set_info m n ?y) = (info_at m)(n \<mapsto> ?y)" by (rule info_at_set_info [OF assms(1,2) n]) simp_all
    moreover have "keeps (info_at m) (info_at (set_info m n ?y))" using keeps_update [of "info_at m" n x ?y] x(1) by (simp add: i)
    ultimately show ?thesis using 2 x by (auto simp: cancel_packet_def observed_same_def frames_at_update frames_at_def set_info_def)
  next
    case 3
    have r: "retransmission x = 0" using 3(1) x(3) by (auto simp: info_ok_def)
    obtain m' where m': "RemoveRetransmittability m n = Some m'" "map_inv (Suc u) u 0 m'" "observed_same m m'" "least_unacked m' = least_unacked m"
      "info_at m' = (info_at m)(n \<mapsto> x\<lparr>has_crypto_handshake := False, retransmittable_frames := []\<rparr>)"
      using RemoveRetransmittability_end [OF assms(1,2) n x(1) r] by blast
    have i: "packet_index m n < length (unacked_packets m)" using x(2) by (simp add: GetTransmissionInfo_def split: if_splits)
    have "GetTransmissionInfo (set_info m n ?y) n = Some ?y"
      using i by (simp add: GetTransmissionInfo_def set_info_def packet_index_def)
    then have "RemoveRetransmittability (set_info m n ?y) n = RemoveRetransmittability m n"
      using x(2) r 3(2) by (subst (1 2) RemoveRetransmittability.simps) (simp add: set_info_def packet_index_def Let_def DeleteFrames_def)
    then have "\<exists>calls. cancel_packet m sid n = Some (m', calls)" using x(2) 3 m'(1) by (simp add: cancel_packet_def)
    moreover have "keeps (info_at m) (info_at m')" unfolding m'(5) by (rule keeps_update [of "info_at m", OF x(1)]) simp_all
    moreover have "frames_at (info_at m') = (frames_at (info_at m))(n := [])" unfolding m'(5) frames_at_update by simp
    ultimately show ?thesis using m'(2-4) 3(2) x(1) by (auto simp: frames_at_def)
  qed
qed

lemma cancel_packets_ok:
  "map_inv (Suc u) u 0 m \<Longrightarrow> least_unacked m \<le> n \<Longrightarrow> n + k = Suc u \<Longrightarrow>
   \<exists>m' calls. cancel_packets k m sid n = Some (m', calls) \<and> map_inv (Suc u) u 0 m' \<and> observed_same m m' \<and>
     least_unacked m' = least_unacked m \<and> keeps (info_at m) (info_at m') \<and>
     (\<forall>i. frames_at (info_at m') i = (if n \<le> i then RemoveFramesForStream (frames_at (info_at m) i) sid else frames_at (info_at m) i))"
proof (induction k arbitrary: m n)
  case 0
  have "info_at m i = None" if "n \<le> i" for i
    using that 0 info_at_range [OF 0(1)] domIff [of i "info_at m"] by simp
  then show ?case using 0 by (auto simp: observed_same_def frames_at_def)
next
  case (Suc k)
  have n: "n \<le> u" "add64 n 1 = Suc n" using Suc.prems(1,3) by (auto simp: map_inv_def intro!: trans [OF add64_id])
  obtain m1 calls where m1: "cancel_packet m sid n = Some (m1, calls)" "map_inv (Suc u) u 0 m1" "observed_same m m1"
    "least_unacked m1 = least_unacked m" "keeps (info_at m) (info_at m1)"
    "frames_at (info_at m1) = (frames_at (info_at m))(n := RemoveFramesForStream (frames_at (info_at m) n) sid)"
    using cancel_packet_ok [OF Suc.prems(1,2) n(1)] by blast
  obtain m2 calls' where m2: "cancel_packets k m1 sid (Suc n) = Some (m2, calls')" "map_inv (Suc u) u 0 m2" "observed_same m1 m2"
    "least_unacked m2 = least_unacked m1" "keeps (info_at m1) (info_at m2)"
    "\<forall>i. frames_at (info_at m2) i = (if Suc n \<le> i then RemoveFramesForStream (frames_at (info_at m1) i) sid else frames_at (info_at m1) i)"
    using Suc.IH [OF m1(2), of "Suc n"] Suc.prems(2,3) m1(4) by auto
  have "observed_same m m2" using m1(3) m2(3) by (simp add: observed_same_def)
  moreover have "frames_at (info_at m2) i = (if n \<le> i then RemoveFramesForStream (frames_at (info_at m) i) sid else frames_at (info_at m) i)" for i
    using m1(6) m2(6) by (cases "i = n") auto
  ultimately show ?case using m1(1,4) m2(1,2,4) n(2) keeps_trans [OF m1(5) m2(5)] by simp
qed

lemma CancelRetransmissionsForStream_ok:
  assumes "unacked_inv m"
  shows "\<exists>m' calls. CancelRetransmissionsForStream m sid = Some (m', calls) \<and> unacked_inv m' \<and> observed_same m m' \<and>
     least_unacked m' = least_unacked m \<and> keeps (info_at m) (info_at m') \<and>
     (\<forall>i. frames_at (info_at m') i = RemoveFramesForStream (frames_at (info_at m) i) sid)"
proof -
  let ?u = "largest_sent_packet m"
  have inv: "map_inv (Suc ?u) ?u 0 m" using assms by (simp add: unacked_inv_def)
  then have "least_unacked m + length (unacked_packets m) = Suc ?u" unfolding map_inv_def by blast
  then obtain m' calls where m': "CancelRetransmissionsForStream m sid = Some (m', calls)" "map_inv (Suc ?u) ?u 0 m'" "observed_same m m'"
    "least_unacked m' = least_unacked m" "keeps (info_at m) (info_at m')"
    "\<forall>i. frames_at (info_at m') i = (if least_unacked m \<le> i then RemoveFramesForStream (frames_at (info_at m) i) sid else frames_at (info_at m) i)"
    using cancel_packets_ok [OF inv le_refl, of "length (unacked_packets m)" sid] unfolding CancelRetransmissionsForStream_def by blast
  have "frames_at (info_at m) i = []" if "i < least_unacked m" for i using that by (simp add: frames_at_def info_at_def)
  then have "\<forall>i. frames_at (info_at m') i = RemoveFramesForStream (frames_at (info_at m) i) sid"
    using m'(6) by (metis RemoveFramesForStream.simps(1) not_le)
  moreover have "unacked_inv m'" using m'(2,3) by (simp add: unacked_inv_def observed_same_def)
  ultimately show ?thesis using m'(1,3,4,5) by blast
qed

section \<open>Reachable states\<close>

datatype unacked_op =
    SendPacket serialized_packet nat TransmissionType QuicTime bool
  | Observe nat
  | DropFromFlight nat
  | RestoreFlight nat
  | Retire nat
  | NotifyListeners nat QuicTimeDelta
  | CancelStream QuicStreamId
  | Trim
  | SetNotifier "nat option"
  | MarkUnackable nat

primrec unacked_step :: "unacked_packet_map \<Rightarrow> unacked_op \<Rightarrow> unacked_packet_map option" where
  "unacked_step m (SendPacket p old t time fly) = map_option fst (AddSentPacket m p old t time fly)"
| "unacked_step m (Observe n) = Some (IncreaseLargestObserved m n)"
| "unacked_step m (DropFromFlight n) = RemoveFromInFlight m n"
| "unacked_step m (RestoreFlight n) = RestoreToInFlight m n"
| "unacked_step m (Retire n) = RemoveRetransmittability m n"
| "unacked_step m (NotifyListeners n delay) = map_option fst (NotifyAndClearListeners m n delay)"
| "unacked_step m (CancelStream sid) = map_option fst (CancelRetransmissionsForStream m sid)"
| "unacked_step m Trim = Some (RemoveObsoletePackets m)"
| "unacked_step m (SetNotifier s) = Some (SetStreamNotifier m s)"
| "unacked_step m (MarkUnackable n) = MarkPacketUnackable m n"

text \<open>What the callers of the operations ensure: packet numbers increase and stay below \<open>2 ^ 48\<close>, the bound
  of 48-bit packet numbers; a handshake packet has frames, its own or those of the packet it
  retransmits; other operations get the number of a packet in the deque, and only a packet out of flight
  that can be acknowledged is put back into flight.\<close>

primrec allowed :: "unacked_packet_map \<Rightarrow> unacked_op \<Rightarrow> bool" where
  "allowed m (SendPacket p old t time fly) \<longleftrightarrow> packet_ok m p old"
| "allowed m (Observe n) \<longleftrightarrow> largest_observed m \<le> n"
| "allowed m (DropFromFlight n) \<longleftrightarrow> tracked m n"
| "allowed m (RestoreFlight n) \<longleftrightarrow> tracked m n \<and>
     (case GetTransmissionInfo m n of None \<Rightarrow> False | Some x \<Rightarrow> \<not> in_flight x \<and> \<not> is_unackable x)"
| "allowed m (Retire n) \<longleftrightarrow> tracked m n"
| "allowed m (NotifyListeners n delay) \<longleftrightarrow> tracked m n"
| "allowed m (CancelStream sid) \<longleftrightarrow> True"
| "allowed m Trim \<longleftrightarrow> True"
| "allowed m (SetNotifier s) \<longleftrightarrow> True"
| "allowed m (MarkUnackable n) \<longleftrightarrow> tracked m n"

text \<open>The sizes of the packets sent, and the packets in flight, by the history alone.\<close>

fun sizes_after :: "(nat \<rightharpoonup> nat) \<Rightarrow> unacked_op \<Rightarrow> (nat \<rightharpoonup> nat)" where
  "sizes_after sizes (SendPacket p old t time fly) = sizes(packet_number p \<mapsto> encrypted_length p)"
| "sizes_after sizes _ = sizes"

fun flight_after :: "nat set \<Rightarrow> unacked_op \<Rightarrow> nat set" where
  "flight_after flight (SendPacket p old t time fly) = (if fly then insert (packet_number p) flight else flight)"
| "flight_after flight (DropFromFlight n) = flight - {n}"
| "flight_after flight (RestoreFlight n) = insert n flight"
| "flight_after flight _ = flight"

inductive reachable :: "unacked_packet_map \<Rightarrow> (nat \<rightharpoonup> nat) \<Rightarrow> nat set \<Rightarrow> bool" where
  start: "reachable QuicUnackedPacketMap Map.empty {}"
| step: "reachable m sizes flight \<Longrightarrow> allowed m x \<Longrightarrow> unacked_step m x = Some m' \<Longrightarrow>
    reachable m' (sizes_after sizes x) (flight_after flight x)"

definition flight_inv :: "(nat \<rightharpoonup> transmission_info) \<Rightarrow> (nat \<rightharpoonup> nat) \<Rightarrow> nat set \<Rightarrow> bool" where
  "flight_inv f sizes flight \<longleftrightarrow> flight = {k. \<exists>x. f k = Some x \<and> in_flight x} \<and>
     (\<forall>k x. f k = Some x \<and> (in_flight x \<or> \<not> is_unackable x) \<longrightarrow> sizes k = Some (bytes_sent x))"

lemma flight_inv_keeps:
  assumes "flight_inv f sizes flight" "keeps f g"
  shows "flight_inv g sizes flight"
proof -
  have k: "\<exists>x. f k = Some x \<and> bytes_sent y = bytes_sent x \<and> in_flight y = in_flight x \<and> (is_unackable x \<longrightarrow> is_unackable y)"
    if "g k = Some y" for k y using that assms(2) unfolding keeps_def by blast
  have "\<exists>y. g k = Some y \<and> in_flight y" if x: "f k = Some x" "in_flight x" for k x
  proof -
    obtain y where y: "g k = Some y" using x assms(2) unfolding keeps_def by blast
    then show ?thesis using k [OF y] x by auto
  qed
  then have "{k. \<exists>x. f k = Some x \<and> in_flight x} = {k. \<exists>y. g k = Some y \<and> in_flight y}" using k by blast
  moreover have "sizes k = Some (bytes_sent y)" if "g k = Some y" "in_flight y \<or> \<not> is_unackable y" for k y
    using k [OF that(1)] that(2) assms(1) unfolding flight_inv_def by auto
  ultimately show ?thesis using assms(1) by (simp add: flight_inv_def)
qed

lemma flight_inv_update:
  assumes "flight_inv f sizes flight" "in_flight x \<or> \<not> is_unackable x \<longrightarrow> sizes k = Some (bytes_sent x)"
  shows "flight_inv (f(k \<mapsto> x)) sizes (if in_flight x then insert k flight else flight - {k})"
  using assms by (auto simp: flight_inv_def)


lemma tracked_info:
  assumes "unacked_inv m" "tracked m n"
  obtains x where "info_at m n = Some x" "GetTransmissionInfo m n = Some x" "info_ok (largest_sent_packet m) n x"
  using assms by (auto simp: unacked_inv_def tracked_def elim: info_at_Some)

lemma unacked_inv_set_info:
  assumes "unacked_inv m" "tracked m n" "info_at m n = Some x" "info_ok (largest_sent_packet m) n y" "crypto_weight y = crypto_weight x"
    and "m' = m\<lparr>bytes_in_flight := b\<rparr>" "b + flight_weight x = bytes_in_flight m + flight_weight y"
  shows "unacked_inv (set_info m' n y)" "info_at (set_info m' n y) = (info_at m)(n \<mapsto> y)"
proof -
  note inv = assms(1) [unfolded unacked_inv_def]
  have n: "least_unacked m \<le> n" "n < Suc (largest_sent_packet m)" using assms(2) by (auto simp: tracked_def)
  show "info_at (set_info m' n y) = (info_at m)(n \<mapsto> y)" by (rule info_at_set_info [OF inv n]) (simp_all add: assms(6))
  have "map_inv (Suc (largest_sent_packet m)) (largest_sent_packet m) 0 (set_info m' n y)"
    by (rule map_inv_set_info [OF inv n assms(3,4)]) (use assms(5,6,7) in simp_all)
  then show "unacked_inv (set_info m' n y)" by (simp add: unacked_inv_def set_info_def assms(6))
qed

lemma RemoveFromInFlight_ok:
  assumes "unacked_inv m" "tracked m n" "info_at m n = Some x"
  shows "\<exists>m'. RemoveFromInFlight m n = Some m' \<and> unacked_inv m' \<and> info_at m' = (info_at m)(n \<mapsto> x\<lparr>in_flight := False\<rparr>)"
proof (cases "in_flight x")
  case False
  then have "(info_at m)(n \<mapsto> x\<lparr>in_flight := False\<rparr>) = info_at m" using assms(3) by (simp add: fun_upd_idem)
  moreover have "GetTransmissionInfo m n = Some x" using tracked_info [OF assms(1,2)] assms(3) by auto
  then have "RemoveFromInFlight m n = Some m" using False by (simp add: RemoveFromInFlight_def)
  ultimately show ?thesis using assms(1) by simp
next
  case True
  have x: "GetTransmissionInfo m n = Some x" "info_ok (largest_sent_packet m) n x" using tracked_info [OF assms(1,2)] assms(3) by auto
  note inv = assms(1) [unfolded unacked_inv_def]
  have b: "bytes_in_flight m = weight_sum flight_weight (info_at m)" "Suc (largest_sent_packet m) \<le> 2 ^ 48"
    using inv unfolding map_inv_def by auto
  have "bytes_sent x \<le> bytes_in_flight m"
    using weight_le_sum [OF map_inv_finite [OF inv] assms(3), of flight_weight] True b by (simp add: flight_weight_def)
  moreover have "bytes_in_flight m < 2 ^ 64"
    using map_inv_bytes [OF inv] mult_le_mono1 [OF b(2), of "2 ^ 16 - 1"] by simp
  ultimately have s: "sub64 (bytes_in_flight m) (bytes_sent x) + bytes_sent x = bytes_in_flight m" by (simp add: sub64_id)
  have ok: "info_ok (largest_sent_packet m) n (x\<lparr>in_flight := False\<rparr>)" using x(2) by (simp add: info_ok_def)
  have "RemoveFromInFlight m n =
      Some (set_info (m\<lparr>bytes_in_flight := sub64 (bytes_in_flight m) (bytes_sent x)\<rparr>) n (x\<lparr>in_flight := False\<rparr>))"
    using x(1) True by (simp add: RemoveFromInFlight_def)
  then show ?thesis using unacked_inv_set_info [OF assms(1-3) ok _ refl] s True by (auto simp: flight_weight_def crypto_weight_def)
qed

lemma RestoreToInFlight_ok:
  assumes "unacked_inv m" "tracked m n" "info_at m n = Some x" "\<not> in_flight x"
  shows "\<exists>m'. RestoreToInFlight m n = Some m' \<and> unacked_inv m' \<and> info_at m' = (info_at m)(n \<mapsto> x\<lparr>in_flight := True\<rparr>)"
proof -
  have x: "GetTransmissionInfo m n = Some x" "info_ok (largest_sent_packet m) n x" using tracked_info [OF assms(1,2)] assms(3) by auto
  note inv = assms(1) [unfolded unacked_inv_def]
  have "Suc (largest_sent_packet m) \<le> 2 ^ 48" using inv unfolding map_inv_def by simp
  then have "bytes_in_flight m + bytes_sent x < 2 ^ 64"
    using map_inv_bytes [OF inv] mult_le_mono1 [of "Suc (largest_sent_packet m)" "2 ^ 48" "2 ^ 16 - 1"] x(2) by (simp add: info_ok_def)
  then have s: "add64 (bytes_in_flight m) (bytes_sent x) = bytes_in_flight m + bytes_sent x" by (rule add64_id)
  have ok: "info_ok (largest_sent_packet m) n (x\<lparr>in_flight := True\<rparr>)" using x(2) by (simp add: info_ok_def)
  have "RestoreToInFlight m n =
      Some (set_info (m\<lparr>bytes_in_flight := add64 (bytes_in_flight m) (bytes_sent x)\<rparr>) n (x\<lparr>in_flight := True\<rparr>))"
    using x(1) by (simp add: RestoreToInFlight_def)
  then show ?thesis using unacked_inv_set_info [OF assms(1-3) ok _ refl] s assms(4) by (auto simp: flight_weight_def crypto_weight_def)
qed

text \<open>Assignments to the listeners and to \<open>is_unackable\<close> change nothing else.\<close>

lemma set_info_minor:
  assumes "unacked_inv m" "tracked m n" "info_at m n = Some x"
    and "y = x\<lparr>ack_listeners := ls\<rparr> \<or> y = x\<lparr>is_unackable := True\<rparr>"
  shows "unacked_inv (set_info m n y)" "keeps (info_at m) (info_at (set_info m n y))"
    "frames_at (info_at (set_info m n y)) = frames_at (info_at m)"
proof -
  have "info_ok (largest_sent_packet m) n x" using tracked_info [OF assms(1,2)] assms(3) by auto
  then have "info_ok (largest_sent_packet m) n y" using assms(4) by (auto simp: info_ok_def)
  note s = unacked_inv_set_info [OF assms(1-3) this, of m "bytes_in_flight m"]
  have "crypto_weight y = crypto_weight x" "flight_weight y = flight_weight x"
    using assms(4) by (auto simp: flight_weight_def crypto_weight_def)
  then have i: "unacked_inv (set_info m n y)" "info_at (set_info m n y) = (info_at m)(n \<mapsto> y)" using s by simp_all
  show "unacked_inv (set_info m n y)" by (rule i(1))
  show "keeps (info_at m) (info_at (set_info m n y))"
    unfolding i(2) using assms(4) by (intro keeps_update [of "info_at m", OF assms(3)]) auto
  show "frames_at (info_at (set_info m n y)) = frames_at (info_at m)"
    unfolding i(2) using assms(3,4) by (auto simp: frames_at_def)
qed

lemma NotifyAndClearListeners_ok:
  assumes "unacked_inv m" "tracked m n"
  shows "\<exists>m' calls. NotifyAndClearListeners m n delay = Some (m', calls) \<and> unacked_inv m' \<and> keeps (info_at m) (info_at m') \<and>
    frames_at (info_at m') = frames_at (info_at m)"
proof -
  obtain x where x: "info_at m n = Some x" "GetTransmissionInfo m n = Some x" by (rule tracked_info [OF assms])
  then show ?thesis using set_info_minor [OF assms x(1), of "x\<lparr>ack_listeners := []\<rparr>" "[]"] by (simp add: NotifyAndClearListeners_def)
qed

lemma MarkPacketUnackable_ok:
  assumes "unacked_inv m" "tracked m n"
  shows "\<exists>m'. MarkPacketUnackable m n = Some m' \<and> unacked_inv m' \<and> keeps (info_at m) (info_at m') \<and>
    frames_at (info_at m') = frames_at (info_at m)"
proof -
  obtain x where x: "info_at m n = Some x" "GetTransmissionInfo m n = Some x" by (rule tracked_info [OF assms])
  then show ?thesis using set_info_minor [OF assms x(1), of "x\<lparr>is_unackable := True\<rparr>"] by (simp add: MarkPacketUnackable_def)
qed

lemma send_flight:
  assumes "unacked_inv m" "packet_ok m p old" "flight_inv (info_at m) sizes flight"
  shows "\<exists>m'. unacked_step m (SendPacket p old t time fly) = Some m' \<and> unacked_inv m' \<and>
    flight_inv (info_at m') (sizes_after sizes (SendPacket p old t time fly)) (flight_after flight (SendPacket p old t time fly))"
proof -
  let ?n = "packet_number p" and ?u = "largest_sent_packet m"
  let ?g = "\<lambda>k. if ?u < k \<and> k < ?n then Some skip_info else info_at m k"
  obtain m' p' calls f x where a: "AddSentPacket m p old t time fly = Some (m', p', calls)" "unacked_inv m'"
    "info_at m' = f(?n \<mapsto> x)" "bytes_sent x = encrypted_length p" "in_flight x = fly" "keeps ?g f"
    using AddSentPacket_ok [OF assms(1,2), of t time fly] by blast
  note out = untracked_info [OF assms(1)]
  have n: "?u < ?n" using assms(2) by (simp add: packet_ok_def)
  have "?g ?n = None" using n out by simp
  then have fn: "f ?n = None" using a(6) unfolding keeps_def by (metis option.distinct(1) option.exhaust)
  have "flight_inv ?g sizes flight"
    unfolding flight_inv_def
  proof (intro conjI set_eqI allI impI, goal_cases)
    case (1 k)
    show ?case using assms(3) out [of k] by (auto simp: flight_inv_def)
  next
    case (2 k y)
    then show ?case using assms(3) by (auto simp: flight_inv_def split: if_splits)
  qed
  then have "flight_inv f sizes flight" by (rule flight_inv_keeps [OF _ a(6)])
  then have "flight_inv f (sizes(?n \<mapsto> encrypted_length p)) flight" "?n \<notin> flight" using fn by (auto simp: flight_inv_def)
  then have "flight_inv (info_at m') (sizes(?n \<mapsto> encrypted_length p)) (if fly then insert ?n flight else flight)"
    using flight_inv_update [of f "sizes(?n \<mapsto> encrypted_length p)" flight x ?n] a(3-5) by (auto split: if_splits)
  then show ?thesis using a(1,2) by simp
qed

lemma unacked_step_ok:
  assumes "unacked_inv m" "flight_inv (info_at m) sizes flight" "allowed m x"
  shows "\<exists>m'. unacked_step m x = Some m' \<and> unacked_inv m' \<and> flight_inv (info_at m') (sizes_after sizes x) (flight_after flight x)"
proof (cases x)
  case (SendPacket p old t time fly)
  then show ?thesis using send_flight [OF assms(1) _ assms(2)] assms(3) by (simp del: unacked_step.simps)
next
  case (DropFromFlight n)
  then obtain y where y: "info_at m n = Some y" using tracked_info [OF assms(1), of n] assms(3) by auto
  have "\<not> is_unackable y \<longrightarrow> sizes n = Some (bytes_sent y)" using assms(2) y by (simp add: flight_inv_def)
  then have "flight_inv ((info_at m)(n \<mapsto> y\<lparr>in_flight := False\<rparr>)) sizes (flight - {n})"
    using flight_inv_update [OF assms(2), of "y\<lparr>in_flight := False\<rparr>" n] by simp
  then show ?thesis using RemoveFromInFlight_ok [OF assms(1) _ y] assms(3) DropFromFlight by auto
next
  case (RestoreFlight n)
  then obtain y where y: "info_at m n = Some y" "GetTransmissionInfo m n = Some y" using tracked_info [OF assms(1), of n] assms(3) by auto
  then have f: "\<not> in_flight y" "\<not> is_unackable y" using assms(3) RestoreFlight by auto
  then have "sizes n = Some (bytes_sent y)" using assms(2) y by (simp add: flight_inv_def)
  then have "flight_inv ((info_at m)(n \<mapsto> y\<lparr>in_flight := True\<rparr>)) sizes (insert n flight)"
    using flight_inv_update [OF assms(2), of "y\<lparr>in_flight := True\<rparr>" n] by simp
  then show ?thesis using RestoreToInFlight_ok [OF assms(1) _ y(1) f(1)] assms(3) RestoreFlight by auto
next
  case (Retire n)
  then show ?thesis
    using RemoveRetransmittability_ok [OF assms(1) [unfolded unacked_inv_def], of n] assms(3) flight_inv_keeps [OF assms(2)]
    by (auto simp: tracked_def unacked_inv_def observed_same_def)
next
  case (NotifyListeners n delay)
  then show ?thesis using NotifyAndClearListeners_ok [OF assms(1), of n delay] assms(3) flight_inv_keeps [OF assms(2)] by auto
next
  case (MarkUnackable n)
  then show ?thesis using MarkPacketUnackable_ok [OF assms(1), of n] assms(3) flight_inv_keeps [OF assms(2)] by auto
next
  case (CancelStream sid)
  then show ?thesis using CancelRetransmissionsForStream_ok [OF assms(1), of sid] flight_inv_keeps [OF assms(2)] by auto
next
  case Trim
  then show ?thesis using RemoveObsoletePackets_ok [OF assms(1) [unfolded unacked_inv_def]] trimmed_keeps flight_inv_keeps [OF assms(2)]
    by (auto simp: unacked_inv_def observed_same_def)
next
  case (Observe n)
  have "info_at (IncreaseLargestObserved m n) = info_at m" by (rule info_at_cong) (simp_all add: IncreaseLargestObserved_def)
  moreover have "unacked_inv (IncreaseLargestObserved m n)"
    using map_inv_frame [OF assms(1) [unfolded unacked_inv_def], of "IncreaseLargestObserved m n"]
    by (simp add: unacked_inv_def IncreaseLargestObserved_def)
  ultimately show ?thesis using Observe assms(2) by simp
next
  case (SetNotifier s)
  have "info_at (SetStreamNotifier m s) = info_at m" by (rule info_at_cong) (simp_all add: SetStreamNotifier_def)
  moreover have "unacked_inv (SetStreamNotifier m s)"
    using map_inv_frame [OF assms(1) [unfolded unacked_inv_def], of "SetStreamNotifier m s"]
    by (simp add: unacked_inv_def SetStreamNotifier_def)
  ultimately show ?thesis using SetNotifier assms(2) by simp
qed

lemma reachable_inv: "reachable m sizes flight \<Longrightarrow> unacked_inv m \<and> flight_inv (info_at m) sizes flight"
proof (induction rule: reachable.induct)
  case start
  have "info_at QuicUnackedPacketMap = Map.empty" by (auto simp: info_at_def QuicUnackedPacketMap_def)
  moreover have "unacked_inv QuicUnackedPacketMap"
    unfolding unacked_inv_def map_inv_def calculation by (simp add: QuicUnackedPacketMap_def)
  ultimately show ?case by (simp add: flight_inv_def)
next
  case (step m sizes flight x m')
  then show ?case using unacked_step_ok [of m sizes flight x] by auto
qed


section \<open>Properties\<close>

lemma flight_bytes:
  assumes "unacked_inv m" "flight_inv (info_at m) sizes flight"
  shows "bytes_in_flight m = (\<Sum>n\<in>flight. the (sizes n))"
proof -
  have fin: "finite (dom (info_at m))" using assms(1) by (auto simp: unacked_inv_def dest: map_inv_finite)
  have fl: "flight = {n \<in> dom (info_at m). in_flight (the (info_at m n))}" using assms(2) by (auto simp: flight_inv_def)
  have "bytes_in_flight m = (\<Sum>n\<in>dom (info_at m). flight_weight (the (info_at m n)))"
    using assms(1) by (simp add: unacked_inv_def map_inv_def weight_sum_def)
  also have "\<dots> = (\<Sum>n\<in>flight. bytes_sent (the (info_at m n)))"
    unfolding fl flight_weight_def using fin by (simp add: sum.If_cases Int_def)
  also have "\<dots> = (\<Sum>n\<in>flight. the (sizes n))" using assms(2) by (intro sum.cong) (fastforce simp: flight_inv_def)+
  finally show ?thesis .
qed

text \<open>A handshake packet and its retransmission.\<close>

definition example_packet :: "nat \<Rightarrow> QuicFrames \<Rightarrow> serialized_packet" where
  "example_packet n frames =
     \<lparr>packet_frames = frames, packet_has_crypto_handshake = True, packet_num_padding_bytes = 0, packet_number = n,
      packet_packet_number_length = PACKET_1BYTE_PACKET_NUMBER, packet_encryption_level = ENCRYPTION_NONE,
      encrypted_length = 1350, packet_largest_acked = 0, listeners = []\<rparr>"

definition example_map :: unacked_packet_map where
  "example_map = the (unacked_step QuicUnackedPacketMap (SendPacket (example_packet 2 [PING_FRAME]) 0 NOT_RETRANSMISSION 1 True))"

lemma example_step:
  "unacked_step QuicUnackedPacketMap (SendPacket (example_packet 2 [PING_FRAME]) 0 NOT_RETRANSMISSION 1 True) = Some example_map"
  "least_unacked example_map = 1" "largest_sent_packet example_map = 2" "largest_observed example_map = 0"
  "frames_at (info_at example_map) 2 = [PING_FRAME]"
  by (simp_all add: example_map_def example_packet_def AddSentPacket_def QuicUnackedPacketMap_def QuicTransmissionInfo_def
      empty_QuicTransmissionInfo_def skip_packets.simps add64_def Let_def info_at_def frames_at_def)

lemma example_reachable: "reachable example_map [2 \<mapsto> 1350] {2}"
proof -
  have "reachable example_map (sizes_after Map.empty (SendPacket (example_packet 2 [PING_FRAME]) 0 NOT_RETRANSMISSION 1 True))
    (flight_after {} (SendPacket (example_packet 2 [PING_FRAME]) 0 NOT_RETRANSMISSION 1 True))"
    by (rule reachable.step [OF reachable.start _ example_step(1)]) (simp add: packet_ok_def example_packet_def QuicUnackedPacketMap_def)
  then show ?thesis by (simp add: example_packet_def)
qed

text \<open>C10: After any history of sending, retransmitting, acknowledging, losing, cancelling and trimming, the
  bytes in flight are the sizes of the packets that are in flight by the history, none of these has been
  dropped from the deque, and every operation on a tracked packet succeeds, inside the bounds of the deque.\<close>

theorem unacked_map_in_flight:
  assumes "reachable m sizes flight"
  shows "bytes_in_flight m = (\<Sum>n\<in>flight. the (sizes n)) \<and> (\<forall>n\<in>flight. tracked m n) \<and>
    (\<forall>n. tracked m n \<longrightarrow> (\<exists>x. GetTransmissionInfo m n = Some x \<and> (in_flight x \<longleftrightarrow> n \<in> flight))) \<and>
    (\<forall>x. allowed m x \<longrightarrow> (\<exists>m'. unacked_step m x = Some m'))"
proof -
  have inv: "unacked_inv m" "flight_inv (info_at m) sizes flight" using reachable_inv [OF assms] by auto
  note range = info_at_range [OF inv(1) [unfolded unacked_inv_def]]
  have "\<forall>n\<in>flight. tracked m n" using inv(2) range by (auto simp: flight_inv_def tracked_def dom_def set_eq_iff less_Suc_eq_le)
  moreover have "\<exists>x. GetTransmissionInfo m n = Some x \<and> (in_flight x \<longleftrightarrow> n \<in> flight)" if "tracked m n" for n
    using tracked_info [OF inv(1) that] inv(2) by (fastforce simp: flight_inv_def)
  ultimately show ?thesis using flight_bytes [OF inv] unacked_step_ok [OF inv] by blast
qed

theorem unacked_map_in_flight_witness: "bytes_in_flight example_map = 1350 \<and> tracked example_map 2"
  using unacked_map_in_flight [OF example_reachable] by simp

text \<open>C11: A retransmission moves the frames of the packet it repeats to the new packet number and adds and
  loses no other frame; unless the encryption changed the old packet is linked to the new one, so that an
  acknowledgement of the old packet finds the frames.\<close>

theorem retransmission_moves_frames:
  assumes "reachable m sizes flight" "packet_ok m p old" "0 < old" "tracked m old"
  shows "\<exists>m' p' calls. AddSentPacket m p old t time fly = Some (m', p', calls) \<and>
    frames_at (info_at m') = (frames_at (info_at m))(old := [], packet_number p := frames_at (info_at m) old) \<and>
    (links m old (packet_number p) t \<longrightarrow> newest m' old = packet_number p)"
proof -
  have lt: "old < packet_number p" using assms(2,4) by (auto simp: packet_ok_def tracked_def)
  obtain m' p' calls f x where a: "AddSentPacket m p old t time fly = Some (m', p', calls)" "frames_at (info_at m') = frames_sent m p old"
    "info_at m' = f(packet_number p \<mapsto> x)" "retransmission x = 0"
    "links m old (packet_number p) t \<longrightarrow> (\<exists>y. f old = Some y \<and> retransmission y = packet_number p)"
    using AddSentPacket_ok [OF _ assms(2), of t time fly] reachable_inv [OF assms(1)] assms(3) by blast
  have "newest m' (packet_number p) = packet_number p" using a(3,4) by (subst newest.simps) simp
  then have "links m old (packet_number p) t \<longrightarrow> newest m' old = packet_number p"
    using a(3,5) lt by (subst newest.simps) auto
  then show ?thesis using a(1,2) assms(3,4) by (auto simp: frames_sent_def tracked_def Let_def)
qed

theorem retransmission_moves_frames_witness:
  "\<exists>m' p' calls. AddSentPacket example_map (example_packet 3 []) 2 TLP_RETRANSMISSION 5 True = Some (m', p', calls) \<and>
    frames_at (info_at m') 2 = [] \<and> frames_at (info_at m') 3 = [PING_FRAME] \<and> newest m' 2 = 3"
  using retransmission_moves_frames [OF example_reachable, of "example_packet 3 []" 2 TLP_RETRANSMISSION 5 True]
  by (auto simp: packet_ok_def tracked_def links_def example_packet_def example_step(2-5))

text \<open>C12: An acknowledgement of any transmission of some frames frees them: the links from a tracked packet
  are followed to its last transmission, whose frames are deleted, and the frames of all other packets and
  the bytes in flight stay.\<close>

theorem RemoveRetransmittability_frees:
  assumes "reachable m sizes flight" "tracked m n"
  shows "\<exists>m'. RemoveRetransmittability m n = Some m' \<and>
    frames_at (info_at m') = (frames_at (info_at m))(newest m n := []) \<and> bytes_in_flight m' = bytes_in_flight m"
proof -
  have inv: "unacked_inv m" "flight_inv (info_at m) sizes flight" using reachable_inv [OF assms(1)] by auto
  obtain m' where m': "RemoveRetransmittability m n = Some m'" "unacked_inv m'" "keeps (info_at m) (info_at m')"
    "frames_at (info_at m') = (frames_at (info_at m))(newest m n := [])"
    using RemoveRetransmittability_ok [OF inv(1) [unfolded unacked_inv_def], of n] assms(2)
    by (auto simp: tracked_def unacked_inv_def observed_same_def)
  then show ?thesis using flight_bytes [OF inv] flight_bytes [OF m'(2) flight_inv_keeps [OF inv(2) m'(3)]] by auto
qed

theorem RemoveRetransmittability_frees_witness:
  "\<exists>m'. RemoveRetransmittability example_map 2 = Some m' \<and> frames_at (info_at m') (newest example_map 2) = [] \<and>
    bytes_in_flight m' = bytes_in_flight example_map"
  using RemoveRetransmittability_frees [OF example_reachable, of 2] by (auto simp: tracked_def example_step(2,3))

text \<open>The count of handshake packets underflows if a handshake packet is acknowledged while its
  retransmission waits to be sent: the retransmission keeps the handshake flag of the serialized packet
  although it is not counted.\<close>

theorem pending_crypto_underflow:
  "\<exists>m. do {
     m \<leftarrow> unacked_step QuicUnackedPacketMap (SendPacket (example_packet 1 [PING_FRAME]) 0 NOT_RETRANSMISSION 1 True);
     m \<leftarrow> unacked_step m (DropFromFlight 1);
     m \<leftarrow> unacked_step m (Retire 1);
     m \<leftarrow> unacked_step m (MarkUnackable 1);
     m \<leftarrow> unacked_step m Trim;
     m \<leftarrow> unacked_step m (SendPacket (example_packet 2 []) 1 HANDSHAKE_RETRANSMISSION 2 True);
     unacked_step m (Retire 2)
   } = Some m \<and> pending_crypto_packet_count m = 2 ^ 64 - 1 \<and> HasPendingCryptoPackets m"
  by (simp add: example_packet_def AddSentPacket_def QuicUnackedPacketMap_def QuicTransmissionInfo_def
      skip_packets.simps add64_def sub64_def Let_def RemoveFromInFlight_def GetTransmissionInfo_def packet_index_def set_info_def
      RemoveRetransmittability.simps DeleteFrames_def MarkPacketUnackable_def RemoveObsoletePackets.simps IsPacketUseless_def
      IsPacketUsefulForMeasuringRtt_def IsPacketUsefulForCongestionControl_def IsPacketUsefulForRetransmittableData_def
      TransferRetransmissionInfo_def HasPendingCryptoPackets_def)

end
