(* ===== verification/Rtt_Stats.thy ===== *)
theory Rtt_Stats
  imports Quic_Time
begin

text \<open>
  The round trip time estimator, \<^verbatim>\<open>RttStats\<close> of
  \<^verbatim>\<open>src/model/net/quic/core/congestion_control/rtt_stats.cc\<close>: the exponentially weighted moving
  averages with the rounding of the code's \<^verbatim>\<open>float\<close> and \<^verbatim>\<open>double\<close> arithmetic.
\<close>

section \<open>Operations\<close>

definition kInitialRttMs :: int where "kInitialRttMs = 100"
definition kAlpha :: rat where "kAlpha = 1 / 8"
definition kOneMinusAlpha :: rat where "kOneMinusAlpha = 7 / 8"
definition kBeta :: rat where "kBeta = 1 / 4"
definition kOneMinusBeta :: rat where "kOneMinusBeta = 3 / 4"

record rtt_stats =
  latest_rtt :: QuicTimeDelta
  min_rtt :: QuicTimeDelta
  smoothed_rtt :: QuicTimeDelta
  previous_srtt :: QuicTimeDelta
  mean_deviation :: QuicTimeDelta
  initial_rtt_us :: int

definition RttStats :: rtt_stats where
  "RttStats = \<lparr>latest_rtt = 0, min_rtt = 0, smoothed_rtt = 0, previous_srtt = 0, mean_deviation = 0,
               initial_rtt_us = kInitialRttMs * kNumMicrosPerMilli\<rparr>"

definition ExpireSmoothedMetrics :: "rtt_stats \<Rightarrow> rtt_stats" where
  "ExpireSmoothedMetrics r =
     r\<lparr>mean_deviation := max (mean_deviation r) \<bar>smoothed_rtt r - latest_rtt r\<bar>,
       smoothed_rtt := max (smoothed_rtt r) (latest_rtt r)\<rparr>"

definition updated_mean_deviation :: "rtt_stats \<Rightarrow> QuicTimeDelta \<Rightarrow> QuicTimeDelta" where
  "updated_mean_deviation r rtt_sample =
     to_integer (float_round
       (float_round (kOneMinusBeta * float_round (of_int (mean_deviation r))) +
        float_round (kBeta * float_round (of_int \<bar>smoothed_rtt r - rtt_sample\<bar>))))"

definition UpdateRtt :: "rtt_stats \<Rightarrow> QuicTimeDelta \<Rightarrow> QuicTimeDelta \<Rightarrow> QuicTime \<Rightarrow> rtt_stats" where
  "UpdateRtt r send_delta ack_delay now =
     (if send_delta = DeltaInfinite \<or> send_delta \<le> 0 then r
      else
        let r = (if min_rtt r = 0 \<or> min_rtt r > send_delta then r\<lparr>min_rtt := send_delta\<rparr> else r);
            rtt_sample = send_delta;
            r = r\<lparr>previous_srtt := smoothed_rtt r\<rparr>;
            rtt_sample = (if rtt_sample > ack_delay then rtt_sample - ack_delay else rtt_sample);
            r = r\<lparr>latest_rtt := rtt_sample\<rparr>
        in if smoothed_rtt r = 0 then
             r\<lparr>smoothed_rtt := rtt_sample, mean_deviation := rtt_sample div 2\<rparr>
           else
             let r = r\<lparr>mean_deviation := updated_mean_deviation r rtt_sample\<rparr>
             in r\<lparr>smoothed_rtt := delta_times_double (smoothed_rtt r) kOneMinusAlpha +
                                 delta_times_double rtt_sample kAlpha\<rparr>)"

definition rtt_OnConnectionMigration :: "rtt_stats \<Rightarrow> rtt_stats" where
  "rtt_OnConnectionMigration r =
     r\<lparr>latest_rtt := 0, min_rtt := 0, smoothed_rtt := 0, mean_deviation := 0,
       initial_rtt_us := kInitialRttMs * kNumMicrosPerMilli\<rparr>"

definition set_initial_srtt_us :: "rtt_stats \<Rightarrow> int \<Rightarrow> rtt_stats" where
  "set_initial_srtt_us r us = (if us \<le> 0 then r else r\<lparr>smoothed_rtt := us\<rparr>)"

definition set_initial_min_rtt_us :: "rtt_stats \<Rightarrow> int \<Rightarrow> rtt_stats" where
  "set_initial_min_rtt_us r us = (if us \<le> 0 then r else r\<lparr>min_rtt := us\<rparr>)"

definition set_initial_rtt_us :: "rtt_stats \<Rightarrow> int \<Rightarrow> rtt_stats" where
  "set_initial_rtt_us r us = (if us \<le> 0 then r else r\<lparr>initial_rtt_us := us\<rparr>)"

section \<open>The arithmetic of one update\<close>

text \<open>The smoothed value is the average of weight one eighth, rounded in two halves.\<close>

lemma smoothed_update_eq:
  assumes "0 \<le> s" "s < 2 ^ 50" "0 \<le> x" "x < 2 ^ 50"
  shows "delta_times_double s kOneMinusAlpha + delta_times_double x kAlpha = (7 * s + 4) div 8 + (x + 4) div 8"
  using assms delta_times_double_eighth [of 7 s] delta_times_double_eighth [of 1 x]
  by (simp add: kOneMinusAlpha_def kAlpha_def)

text \<open>
  It stays within the range of the samples up to one microsecond; the two roundings can add that
  microsecond even when all samples are equal.
\<close>

lemma smoothed_update_range:
  fixes a b s x :: int
  assumes "a \<le> s" "s \<le> b + 1" "a \<le> x" "x \<le> b"
  shows "a \<le> (7 * s + 4) div 8 + (x + 4) div 8 \<and> (7 * s + 4) div 8 + (x + 4) div 8 \<le> b + 1"
proof
  have "a \<le> (7 * a + 4) div 8 + (a + 4) div 8"
    by presburger
  also have "\<dots> \<le> (7 * s + 4) div 8 + (x + 4) div 8"
    using assms by (intro add_mono zdiv_mono1) auto
  finally show "a \<le> (7 * s + 4) div 8 + (x + 4) div 8" .
  have "(7 * s + 4) div 8 + (x + 4) div 8 \<le> (7 * (b + 1) + 4) div 8 + (b + 4) div 8"
    using assms by (intro add_mono zdiv_mono1) auto
  also have "\<dots> \<le> b + 1"
    by presburger
  finally show "(7 * s + 4) div 8 + (x + 4) div 8 \<le> b + 1" .
qed

lemma float_quarter: "\<bar>n\<bar> < 2 ^ 24 \<Longrightarrow> float_round (of_int n / 4) = of_int n / 4"
proof -
  assume n: "\<bar>n\<bar> < 2 ^ 24"
  have "pow2 (- 2) = 1 / 4"
    by (simp add: pow2_def power_int_def power2_eq_square)
  then have eq: "of_int n / 4 = of_int n * pow2 (- 2)"
    by simp
  show ?thesis
    unfolding eq float_round_def by (rule fround_int_scaled [OF n])
qed

lemma updated_mean_deviation_eq:
  assumes "0 \<le> mean_deviation r" "3 * mean_deviation r + \<bar>smoothed_rtt r - x\<bar> < 2 ^ 24"
  shows "updated_mean_deviation r x = (3 * mean_deviation r + \<bar>smoothed_rtt r - x\<bar>) div 4"
proof -
  define m where "m = mean_deviation r"
  define d where "d = \<bar>smoothed_rtt r - x\<bar>"
  have md: "0 \<le> m" "0 \<le> d" "3 * m + d < 2 ^ 24"
    using assms by (simp_all add: m_def d_def)
  have int: "float_round (of_int m) = of_int m" "float_round (of_int d) = of_int d"
    unfolding float_round_def by (rule fround_int; use md in simp)+
  have "float_round (kOneMinusBeta * of_int m) = of_int (3 * m) / 4" "float_round (kBeta * of_int d) = of_int d / 4"
    using float_quarter [of "3 * m"] float_quarter [of d] md by (simp_all add: kOneMinusBeta_def kBeta_def)
  moreover have "of_int (3 * m) / 4 + of_int d / 4 = (of_int (3 * m + d) / 4 :: rat)"
    by (simp add: add_divide_distrib)
  ultimately have "updated_mean_deviation r x = to_integer (float_round (of_int (3 * m + d) / 4))"
    by (simp only: updated_mean_deviation_def m_def [symmetric] d_def [symmetric] int)
  also have "\<dots> = to_integer (of_int (3 * m + d) / of_int 4)"
    by (subst float_quarter) (use md in simp_all)
  also have "\<dots> = (3 * m + d) div 4"
    using md floor_divide_of_int_eq [of "3 * m + d" 4, where 'a = rat] unfolding to_integer_def by simp
  finally show ?thesis
    by (simp add: m_def d_def)
qed

section \<open>Sequences of updates\<close>

text \<open>An acknowledgement: the time since the packet was sent, the delay the peer reports, the time.\<close>

type_synonym rtt_measurement = "QuicTimeDelta \<times> QuicTimeDelta \<times> QuicTime"

definition valid_measurement :: "rtt_measurement \<Rightarrow> bool" where
  "valid_measurement m \<longleftrightarrow> fst m \<noteq> DeltaInfinite \<and> fst m > 0"

definition corrected_sample :: "rtt_measurement \<Rightarrow> QuicTimeDelta" where
  "corrected_sample m = (if fst m > fst (snd m) then fst m - fst (snd m) else fst m)"

definition rtt_run :: "rtt_stats \<Rightarrow> rtt_measurement list \<Rightarrow> rtt_stats" where
  "rtt_run r ms = fold (\<lambda>(send_delta, ack_delay, now) r. UpdateRtt r send_delta ack_delay now) ms r"

definition rtt_inv :: "int \<Rightarrow> int \<Rightarrow> rtt_measurement list \<Rightarrow> rtt_stats \<Rightarrow> bool" where
  "rtt_inv lo hi vs r \<longleftrightarrow>
     min_rtt r = Min (fst ` set vs) \<and> latest_rtt r = corrected_sample (last vs) \<and>
     lo \<le> smoothed_rtt r \<and> smoothed_rtt r \<le> hi + 1 \<and> 0 \<le> mean_deviation r \<and> mean_deviation r \<le> hi"

lemma UpdateRtt_invalid: "\<not> valid_measurement (s, a, n) \<Longrightarrow> UpdateRtt r s a n = r"
  by (auto simp: UpdateRtt_def valid_measurement_def)

lemma UpdateRtt_min_latest:
  assumes "valid_measurement (s, a, n)"
  shows "min_rtt (UpdateRtt r s a n) = (if min_rtt r = 0 \<or> min_rtt r > s then s else min_rtt r)"
    and "latest_rtt (UpdateRtt r s a n) = corrected_sample (s, a, n)"
  using assms by (auto simp: UpdateRtt_def valid_measurement_def Let_def corrected_sample_def)

lemma UpdateRtt_first:
  assumes "valid_measurement (s, a, n)" "smoothed_rtt r = 0"
  shows "smoothed_rtt (UpdateRtt r s a n) = corrected_sample (s, a, n)"
    and "mean_deviation (UpdateRtt r s a n) = corrected_sample (s, a, n) div 2"
  using assms by (auto simp: UpdateRtt_def valid_measurement_def Let_def corrected_sample_def)

lemma UpdateRtt_next:
  assumes "valid_measurement (s, a, n)" "smoothed_rtt r \<noteq> 0"
  shows "smoothed_rtt (UpdateRtt r s a n) =
           delta_times_double (smoothed_rtt r) kOneMinusAlpha + delta_times_double (corrected_sample (s, a, n)) kAlpha"
    and "mean_deviation (UpdateRtt r s a n) = updated_mean_deviation r (corrected_sample (s, a, n))"
  using assms
  by (auto simp: UpdateRtt_def valid_measurement_def Let_def corrected_sample_def updated_mean_deviation_def)

lemma rtt_inv_first:
  assumes "valid_measurement m" "0 < lo" "lo \<le> corrected_sample m" "corrected_sample m \<le> hi"
  shows "rtt_inv lo hi [m] (UpdateRtt RttStats (fst m) (fst (snd m)) (snd (snd m)))"
proof -
  obtain s a n where m: "m = (s, a, n)"
    by (metis surj_pair)
  show ?thesis
    using assms UpdateRtt_min_latest [of s a n RttStats] UpdateRtt_first [of s a n RttStats]
    unfolding m by (auto simp: rtt_inv_def RttStats_def)
qed

lemma rtt_inv_next:
  assumes inv: "rtt_inv lo hi vs r" and vs: "vs \<noteq> []" "\<forall>v\<in>set vs. valid_measurement v"
    and m: "valid_measurement m" "lo \<le> corrected_sample m" "corrected_sample m \<le> hi"
    and b: "0 < lo" "hi < 2 ^ 22"
  shows "rtt_inv lo hi (vs @ [m]) (UpdateRtt r (fst m) (fst (snd m)) (snd (snd m)))"
proof -
  obtain s a n where eq: "m = (s, a, n)"
    by (metis surj_pair)
  define x where "x = corrected_sample m"
  have r: "lo \<le> smoothed_rtt r" "smoothed_rtt r \<le> hi + 1" "0 \<le> mean_deviation r" "mean_deviation r \<le> hi"
    using inv by (simp_all add: rtt_inv_def)
  have nz: "smoothed_rtt r \<noteq> 0"
    using r b by simp
  have "min_rtt r > 0"
    using inv vs by (auto simp: rtt_inv_def valid_measurement_def)
  moreover have "Min (fst ` set (vs @ [m])) = min s (min_rtt r)"
    using inv vs(1) by (simp add: rtt_inv_def eq del: Min_gr_iff Min_ge_iff)
  ultimately have mn: "min_rtt (UpdateRtt r s a n) = Min (fst ` set (vs @ [m]))"
    using UpdateRtt_min_latest(1) [of s a n r] m(1) by (simp add: eq min_def)
  have d: "\<bar>smoothed_rtt r - x\<bar> \<le> hi"
    using r m b by (auto simp: x_def abs_le_iff)
  have "updated_mean_deviation r x = (3 * mean_deviation r + \<bar>smoothed_rtt r - x\<bar>) div 4"
    using r d b by (intro updated_mean_deviation_eq) auto
  then have md: "0 \<le> updated_mean_deviation r x \<and> updated_mean_deviation r x \<le> hi"
    using r d by auto
  have "delta_times_double (smoothed_rtt r) kOneMinusAlpha + delta_times_double x kAlpha =
        (7 * smoothed_rtt r + 4) div 8 + (x + 4) div 8"
    using r m b by (intro smoothed_update_eq) (auto simp: x_def)
  with smoothed_update_range [of lo "smoothed_rtt r" hi x] r m show ?thesis
    using UpdateRtt_next [of s a n r] nz m(1) mn md UpdateRtt_min_latest(2) [of s a n r]
    unfolding rtt_inv_def x_def [symmetric] eq by (simp add: x_def eq)
qed

lemma rtt_run_inv:
  assumes "0 < lo" "hi < 2 ^ 22"
    and "\<forall>m\<in>set ms. valid_measurement m \<longrightarrow> lo \<le> corrected_sample m \<and> corrected_sample m \<le> hi"
  shows "if filter valid_measurement ms = [] then rtt_run RttStats ms = RttStats
         else rtt_inv lo hi (filter valid_measurement ms) (rtt_run RttStats ms)"
  using assms(3)
proof (induction ms rule: rev_induct)
  case (snoc m ms)
  have run: "rtt_run RttStats (ms @ [m]) = UpdateRtt (rtt_run RttStats ms) (fst m) (fst (snd m)) (snd (snd m))"
    by (simp add: rtt_run_def split_beta)
  show ?case
  proof (cases "valid_measurement m")
    case True
    then have x: "lo \<le> corrected_sample m" "corrected_sample m \<le> hi"
      using snoc.prems by auto
    show ?thesis
    proof (cases "filter valid_measurement ms = []")
      case empty: True
      then have "rtt_run RttStats ms = RttStats"
        using snoc.IH snoc.prems by simp
      with empty show ?thesis
        using rtt_inv_first [OF True assms(1) x] True by (simp only: run filter_append) simp
    next
      case False
      then have "rtt_inv lo hi (filter valid_measurement ms) (rtt_run RttStats ms)"
        using snoc.IH snoc.prems by simp
      from rtt_inv_next [OF this False _ True x assms(1,2)] show ?thesis
        using True by (simp add: run)
    qed
  next
    case False
    then have "UpdateRtt (rtt_run RttStats ms) (fst m) (fst (snd m)) (snd (snd m)) = rtt_run RttStats ms"
      by (simp add: UpdateRtt_invalid)
    then show ?thesis
      using snoc.IH snoc.prems False by (simp only: run filter_append) simp
  qed
qed (simp add: rtt_run_def)

section \<open>Properties\<close>

text \<open>
  C32: After any sequence of measurements of which at least one is usable and whose usable samples, corrected, are
  below \<open>2 ^ 22\<close> microseconds (4.19 seconds; up to there the arithmetic in \<open>float\<close> is exact enough), the minimum is the least
  usable time between sending and acknowledgement, the latest sample is the last usable one corrected
  by the peer's delay, the smoothed round trip time lies within the range of the corrected samples up
  to one microsecond of rounding, and the mean deviation does not exceed the largest sample.
\<close>

theorem RttStats_estimates:
  assumes "0 < lo" "hi < 2 ^ 22"
    and "\<forall>m\<in>set ms. valid_measurement m \<longrightarrow> lo \<le> corrected_sample m \<and> corrected_sample m \<le> hi"
    and "filter valid_measurement ms \<noteq> []"
  shows "min_rtt (rtt_run RttStats ms) = Min (fst ` set (filter valid_measurement ms)) \<and>
         latest_rtt (rtt_run RttStats ms) = corrected_sample (last (filter valid_measurement ms)) \<and>
         lo \<le> smoothed_rtt (rtt_run RttStats ms) \<and> smoothed_rtt (rtt_run RttStats ms) \<le> hi + 1 \<and>
         0 \<le> mean_deviation (rtt_run RttStats ms) \<and> mean_deviation (rtt_run RttStats ms) \<le> hi"
  using rtt_run_inv [OF assms(1-3)] assms(4) by (simp add: rtt_inv_def)

theorem RttStats_estimates_witness:
  "min_rtt (rtt_run RttStats [(60000, 10000, 1), (0, 0, 2), (40000, 50000, 3)]) = 40000 \<and>
   40000 \<le> smoothed_rtt (rtt_run RttStats [(60000, 10000, 1), (0, 0, 2), (40000, 50000, 3)]) \<and>
   smoothed_rtt (rtt_run RttStats [(60000, 10000, 1), (0, 0, 2), (40000, 50000, 3)]) \<le> 50001"
  using RttStats_estimates [of 40000 50000 "[(60000, 10000, 1), (0, 0, 2), (40000, 50000, 3)]"]
  by (simp add: valid_measurement_def corrected_sample_def DeltaInfinite_def)

end
