(* ===== verification/Loss_Detection.thy ===== *)
theory Loss_Detection
  imports Unacked_Packet_Map Rtt_Stats
begin

text \<open>
  Loss detection, \<^verbatim>\<open>src/model/net/quic/core/congestion_control/general_loss_algorithm.{h,cc}\<close>: which packets in
  flight count as lost when a packet was acknowledged, by the distance of the packet numbers or by time, and
  the adaption of the time after a spurious retransmission.

  Packet numbers are naturals and times integers, as in the map of unacked packets that the algorithm
  iterates over.  The shift \<^verbatim>\<open>reordering_shift_\<close> is a natural: it is decremented only where it is positive.
  The reading of a packet outside of the map has the value \<open>None\<close>.

  The theory shows which packets are reported, that the timer is set for a packet that has to wait, that
  taking the reported packets out of flight accounts for exactly the reported bytes, and that the time after
  a spurious retransmission would have been long enough.
\<close>

section \<open>The algorithm\<close>

datatype LossDetectionType = kNack | kTime | kAdaptiveTime | kLazyFack

definition kNumberOfNacksBeforeRetransmission :: nat where "kNumberOfNacksBeforeRetransmission = 3"
definition kMinLossDelayMs :: int where "kMinLossDelayMs = 5"
definition kDefaultLossDelayShift :: nat where "kDefaultLossDelayShift = 2"
definition kDefaultAdaptiveLossDelayShift :: nat where "kDefaultAdaptiveLossDelayShift = 4"

record loss_algorithm =
  loss_detection_timeout :: QuicTime
  largest_sent_on_spurious_retransmit :: nat
  loss_type :: LossDetectionType
  reordering_shift :: nat
  largest_previously_acked :: nat

definition GeneralLossAlgorithm :: "LossDetectionType \<Rightarrow> loss_algorithm" where
  "GeneralLossAlgorithm t =
     \<lparr>loss_detection_timeout = 0, largest_sent_on_spurious_retransmit = 0, loss_type = t,
      reordering_shift = (if t = kAdaptiveTime then kDefaultAdaptiveLossDelayShift else kDefaultLossDelayShift),
      largest_previously_acked = 0\<rparr>"

definition SetLossDetectionType :: "loss_algorithm \<Rightarrow> LossDetectionType \<Rightarrow> loss_algorithm" where
  "SetLossDetectionType la t =
     la\<lparr>loss_detection_timeout := 0, largest_sent_on_spurious_retransmit := 0, loss_type := t,
        reordering_shift := (if t = kAdaptiveTime then kDefaultAdaptiveLossDelayShift else kDefaultLossDelayShift),
        largest_previously_acked := 0\<rparr>"

definition max_rtt :: "rtt_stats \<Rightarrow> QuicTimeDelta" where
  "max_rtt rtt = max (previous_srtt rtt) (latest_rtt rtt)"

definition loss_delay :: "loss_algorithm \<Rightarrow> rtt_stats \<Rightarrow> QuicTimeDelta" where
  "loss_delay la rtt = max (FromMilliseconds kMinLossDelayMs) (max_rtt rtt + max_rtt rtt div 2 ^ reordering_shift la)"

text \<open>The conditions of the loop: enough later packets were acknowledged, and a timer decides.\<close>

definition nack_lost :: "loss_algorithm \<Rightarrow> nat \<Rightarrow> nat \<Rightarrow> bool" where
  "nack_lost la largest n \<longleftrightarrow>
     (if loss_type la = kNack then largest - n \<ge> kNumberOfNacksBeforeRetransmission
      else if loss_type la = kLazyFack
      then largest > largest_previously_acked la \<and> largest_previously_acked la > n \<and>
           largest_previously_acked la - n \<ge> kNumberOfNacksBeforeRetransmission - 1
      else False)"

definition timer_decides :: "loss_algorithm \<Rightarrow> unacked_packet_map \<Rightarrow> nat \<Rightarrow> transmission_info \<Rightarrow> bool" where
  "timer_decides la m largest it \<longleftrightarrow>
     retransmittable_frames it \<noteq> [] \<and> largest_sent_retransmittable_packet m \<le> largest \<or>
     (loss_type la = kTime \<or> loss_type la = kAdaptiveTime)"

text \<open>The loop over the packets; the results are the timeout and the packets reported.\<close>

primrec detect_losses ::
  "loss_algorithm \<Rightarrow> unacked_packet_map \<Rightarrow> QuicTime \<Rightarrow> rtt_stats \<Rightarrow> nat \<Rightarrow> transmission_info list \<Rightarrow> nat \<Rightarrow>
   (QuicTime \<times> (nat \<times> nat) list) option" where
  "detect_losses la m time rtt largest [] n = Some (0, [])"
| "detect_losses la m time rtt largest (it # its) n =
     (let continue_loop = detect_losses la m time rtt largest its (add64 n 1);
          report = map_option (\<lambda>(timeout, lost). (timeout, (n, bytes_sent it) # lost)) continue_loop in
      if n > largest then Some (0, [])
      else if \<not> in_flight it then continue_loop
      else if nack_lost la largest n then report
      else if timer_decides la m largest it
      then let when_lost = sent_time it + loss_delay la rtt in
           if time < when_lost then Some (when_lost, []) else report
      else do {
        acked \<leftarrow> GetTransmissionInfo m largest;
        if sent_time it + smoothed_rtt rtt < sent_time acked then report else continue_loop
      })"

definition DetectLosses ::
  "loss_algorithm \<Rightarrow> unacked_packet_map \<Rightarrow> QuicTime \<Rightarrow> rtt_stats \<Rightarrow> nat \<Rightarrow> (nat \<times> nat) list \<Rightarrow>
   (loss_algorithm \<times> (nat \<times> nat) list) option" where
  "DetectLosses la m time rtt largest_newly_acked packets_lost = do {
     (timeout, lost) \<leftarrow> detect_losses la m time rtt largest_newly_acked (unacked_packets m) (least_unacked m);
     Some (la\<lparr>loss_detection_timeout := timeout, largest_previously_acked := largest_newly_acked\<rparr>, packets_lost @ lost)
   }"

definition GetLossTimeout :: "loss_algorithm \<Rightarrow> QuicTime" where
  "GetLossTimeout la = loss_detection_timeout la"

text \<open>The loops of \<^verbatim>\<open>SpuriousRetransmitDetected\<close>, with and without the fix.\<close>

primrec lower_shift :: "QuicTimeDelta \<Rightarrow> QuicTimeDelta \<Rightarrow> nat \<Rightarrow> nat" where
  "lower_shift rtt extra_time_needed 0 = 0"
| "lower_shift rtt extra_time_needed (Suc k) =
     (if rtt div 2 ^ Suc k \<le> extra_time_needed then lower_shift rtt extra_time_needed k else Suc k)"

primrec propose_shift :: "QuicTimeDelta \<Rightarrow> QuicTimeDelta \<Rightarrow> nat \<Rightarrow> nat" where
  "propose_shift rtt extra_time_needed 0 = 0"
| "propose_shift rtt extra_time_needed (Suc k) =
     (let proposed_extra_time = rtt div 2 ^ Suc k in
      if proposed_extra_time < extra_time_needed \<and> k > 0 then propose_shift rtt extra_time_needed k else k)"

text \<open>The flag \<^verbatim>\<open>quic_fix_adaptive_time_loss\<close> is an argument.\<close>

definition SpuriousRetransmitDetected ::
  "bool \<Rightarrow> loss_algorithm \<Rightarrow> unacked_packet_map \<Rightarrow> QuicTime \<Rightarrow> rtt_stats \<Rightarrow> nat \<Rightarrow> loss_algorithm option" where
  "SpuriousRetransmitDetected fix_adaptive la m time rtt spurious_retransmission =
     (if loss_type la \<noteq> kAdaptiveTime \<or> reordering_shift la = 0 then Some la
      else do {
        info \<leftarrow> GetTransmissionInfo m spurious_retransmission;
        let extra_time_needed = time - sent_time info;
        (if fix_adaptive
         then Some (la\<lparr>reordering_shift := lower_shift (max_rtt rtt) extra_time_needed (reordering_shift la)\<rparr>)
         else if spurious_retransmission \<le> largest_sent_on_spurious_retransmit la then Some la
         else Some (la\<lparr>largest_sent_on_spurious_retransmit := largest_sent_packet m,
                       reordering_shift := propose_shift (max_rtt rtt) extra_time_needed (reordering_shift la)\<rparr>))
      })"

section \<open>The packets reported\<close>

text \<open>A packet in flight has to wait for the timer, or is to be reported.\<close>

definition waits :: "loss_algorithm \<Rightarrow> unacked_packet_map \<Rightarrow> QuicTime \<Rightarrow> rtt_stats \<Rightarrow> nat \<Rightarrow> nat \<Rightarrow> bool" where
  "waits la m time rtt largest n \<longleftrightarrow>
     (\<exists>x. info_at m n = Some x \<and> in_flight x \<and> \<not> nack_lost la largest n \<and> timer_decides la m largest x \<and>
          time < sent_time x + loss_delay la rtt)"

definition deemed_lost :: "loss_algorithm \<Rightarrow> unacked_packet_map \<Rightarrow> QuicTime \<Rightarrow> rtt_stats \<Rightarrow> nat \<Rightarrow> nat \<Rightarrow> bool" where
  "deemed_lost la m time rtt largest n \<longleftrightarrow>
     (\<exists>x. info_at m n = Some x \<and> in_flight x \<and>
          (nack_lost la largest n \<or>
           (if timer_decides la m largest x then sent_time x + loss_delay la rtt \<le> time
            else \<exists>y. info_at m largest = Some y \<and> sent_time x + smoothed_rtt rtt < sent_time y)))"

lemma detect_losses_Cons:
  assumes "map_inv hi u e m" "info_at m n = Some it" "n \<le> largest" "largest < hi"
  shows "detect_losses la m time rtt largest (it # its) n =
    (if waits la m time rtt largest n then Some (sent_time it + loss_delay la rtt, [])
     else if deemed_lost la m time rtt largest n
     then map_option (\<lambda>(timeout, lost). (timeout, (n, bytes_sent it) # lost)) (detect_losses la m time rtt largest its (Suc n))
     else detect_losses la m time rtt largest its (Suc n))"
proof -
  have n: "least_unacked m \<le> n" "n < hi" "hi \<le> 2 ^ 48"
    using assms(1,2) by (auto simp: map_inv_def info_at_def split: if_splits)
  have a: "add64 n 1 = Suc n" using n(2,3) by (subst add64_id) simp_all
  have "least_unacked m \<le> largest" using n(1) assms(3) by simp
  then obtain y where y: "info_at m largest = Some y" "GetTransmissionInfo m largest = Some y"
    using info_at_Some [OF assms(1) _ assms(4)] by blast
  show ?thesis using assms(2,3) y unfolding detect_losses.simps a waits_def deemed_lost_def by (auto simp: Let_def)
qed

text \<open>The loop reports the packets to be reported below the first packet that has to wait.\<close>

definition detected ::
  "loss_algorithm \<Rightarrow> unacked_packet_map \<Rightarrow> QuicTime \<Rightarrow> rtt_stats \<Rightarrow> nat \<Rightarrow> nat \<Rightarrow> nat \<Rightarrow> QuicTime \<Rightarrow> (nat \<times> nat) list \<Rightarrow> bool" where
  "detected la m time rtt largest n stop timeout lost \<longleftrightarrow>
    n \<le> stop \<and> stop \<le> max n (Suc largest) \<and>
    map fst lost = filter (deemed_lost la m time rtt largest) [n..<stop] \<and>
    (\<forall>(k, b)\<in>set lost. \<exists>x. info_at m k = Some x \<and> b = bytes_sent x) \<and>
    (\<forall>k. n \<le> k \<and> k < stop \<longrightarrow> \<not> waits la m time rtt largest k) \<and>
    (if stop \<le> largest
     then waits la m time rtt largest stop \<and> (\<exists>x. info_at m stop = Some x \<and> timeout = sent_time x + loss_delay la rtt)
     else timeout = 0)"

lemma detected_step:
  assumes "detected la m time rtt largest (Suc n) stop timeout lost" "n \<le> largest" "\<not> waits la m time rtt largest n" "info_at m n = Some x"
  shows "detected la m time rtt largest n stop timeout
    (if deemed_lost la m time rtt largest n then (n, bytes_sent x) # lost else lost)"
proof -
  have "[n..<stop] = n # [Suc n..<stop]" using assms(1) by (simp add: detected_def upt_conv_Cons)
  moreover have "\<forall>k. n \<le> k \<and> k < stop \<longrightarrow> \<not> waits la m time rtt largest k"
    using assms(1,3) unfolding detected_def by (metis Suc_leI le_neq_implies_less)
  ultimately show ?thesis using assms(1,2,4) unfolding detected_def by auto
qed

lemma detect_losses_ok:
  assumes "map_inv hi u e m" "least_unacked m \<le> n" "its = drop (n - least_unacked m) (unacked_packets m)" "largest < hi"
  shows "\<exists>timeout lost stop. detect_losses la m time rtt largest its n = Some (timeout, lost) \<and>
    detected la m time rtt largest n stop timeout lost"
  using assms(2,3)
proof (induction its arbitrary: n)
  case Nil
  have "n \<ge> hi" using Nil assms(1) by (auto simp: map_inv_def)
  then show ?case using assms(4) by (intro exI [of _ 0] exI [of _ "[]"] exI [of _ n]) (auto simp: detected_def)
next
  case (Cons it its)
  have d: "unacked_packets m ! (n - least_unacked m) = it" "n - least_unacked m < length (unacked_packets m)"
    "its = drop (Suc (n - least_unacked m)) (unacked_packets m)"
    using Cons.prems(2) by (metis nth_via_drop, metis drop_all leI list.distinct(1), metis drop_Suc list.sel(3) tl_drop)
  then have it: "info_at m n = Some it" using Cons.prems(1) by (auto simp: info_at_def)
  show ?case
  proof (cases "n \<le> largest")
    case False
    then show ?thesis by (intro exI [of _ 0] exI [of _ "[]"] exI [of _ n]) (auto simp: detected_def)
  next
    case True
    note step = detect_losses_Cons [OF assms(1) it True assms(4), of la time rtt its]
    show ?thesis
    proof (cases "waits la m time rtt largest n")
      case w: True
      then show ?thesis using True it unfolding step
        by (intro exI [of _ "sent_time it + loss_delay la rtt"] exI [of _ "[]"] exI [of _ n]) (auto simp: detected_def)
    next
      case False
      have "its = drop (Suc n - least_unacked m) (unacked_packets m)" using d(3) Cons.prems(1) by (simp add: Suc_diff_le)
      then obtain timeout lost stop where ih: "detect_losses la m time rtt largest its (Suc n) = Some (timeout, lost)"
        "detected la m time rtt largest (Suc n) stop timeout lost" using Cons.IH [of "Suc n"] Cons.prems(1) by auto
      show ?thesis using detected_step [OF ih(2) True False it] ih(1) False unfolding step by auto
    qed
  qed
qed


lemma DetectLosses_detected:
  assumes "unacked_inv m" "largest \<le> largest_sent_packet m"
  shows "\<exists>la' lost stop. DetectLosses la m time rtt largest [] = Some (la', lost) \<and>
    detected la m time rtt largest (least_unacked m) stop (GetLossTimeout la') lost"
  using detect_losses_ok [OF assms(1) [unfolded unacked_inv_def] le_refl, of "unacked_packets m" largest la time rtt] assms(2)
  by (auto simp: DetectLosses_def GetLossTimeout_def)

lemma detected_timeout:
  assumes "detected la m time rtt largest (least_unacked m) stop timeout lost" "0 \<le> time"
  shows "timeout \<noteq> 0 \<longleftrightarrow> (\<exists>n\<le>largest. waits la m time rtt largest n)" "timeout \<noteq> 0 \<longrightarrow> time < timeout"
proof -
  have below: "\<not> waits la m time rtt largest n" if "n < stop" for n
  proof (cases "least_unacked m \<le> n")
    case False
    then show ?thesis by (simp add: waits_def info_at_def)
  qed (use that assms(1) in \<open>simp add: detected_def\<close>)
  have "waits la m time rtt largest stop \<and> time < timeout" if "stop \<le> largest"
    using that assms(1) by (auto simp: detected_def waits_def)
  moreover have "timeout = 0 \<and> (\<forall>n\<le>largest. \<not> waits la m time rtt largest n)" if "\<not> stop \<le> largest"
    using that assms(1) below by (auto simp: detected_def)
  ultimately show "timeout \<noteq> 0 \<longleftrightarrow> (\<exists>n\<le>largest. waits la m time rtt largest n)" "timeout \<noteq> 0 \<longrightarrow> time < timeout"
    using assms(2) by (cases "stop \<le> largest"; auto)+
qed

lemma detected_set:
  assumes "detected la m time rtt largest (least_unacked m) stop timeout lost"
  shows "fst ` set lost = {n. n < stop \<and> deemed_lost la m time rtt largest n}" "sorted_wrt (<) (map fst lost)"
proof -
  have l: "map fst lost = filter (deemed_lost la m time rtt largest) [least_unacked m..<stop]" using assms by (simp add: detected_def)
  have "set (map fst lost) = {n. n < stop \<and> deemed_lost la m time rtt largest n}"
    unfolding l by (auto simp: deemed_lost_def info_at_def split: if_splits)
  then show "fst ` set lost = {n. n < stop \<and> deemed_lost la m time rtt largest n}" by simp
  show "sorted_wrt (<) (map fst lost)" unfolding l by (intro sorted_wrt_filter) simp
qed

text \<open>C17: Loss detection reports, in ascending order, packets in flight with their sizes that are not above the
  acknowledged one.  With nack counting every packet in flight that is at least three below it is reported.
  The loss timer is set exactly if some packet has to wait, to a time in the future, and if none has to wait
  all packets that are deemed lost are reported.\<close>

theorem DetectLosses_reports:
  assumes "reachable m sizes flight" "largest \<le> largest_sent_packet m" "0 \<le> time"
  shows "\<exists>la' lost. DetectLosses la m time rtt largest [] = Some (la', lost) \<and> sorted_wrt (<) (map fst lost) \<and>
    (\<forall>(n, b)\<in>set lost. n \<in> flight \<and> n \<le> largest \<and> sizes n = Some b) \<and>
    (loss_type la = kNack \<longrightarrow> (\<forall>n\<in>flight. n + 3 \<le> largest \<longrightarrow> n \<in> fst ` set lost)) \<and>
    (GetLossTimeout la' \<noteq> 0 \<longleftrightarrow> (\<exists>n\<le>largest. waits la m time rtt largest n)) \<and>
    (GetLossTimeout la' \<noteq> 0 \<longrightarrow> time < GetLossTimeout la') \<and>
    (GetLossTimeout la' = 0 \<longrightarrow> fst ` set lost = {n. n \<le> largest \<and> deemed_lost la m time rtt largest n})"
proof -
  have inv: "unacked_inv m" "flight_inv (info_at m) sizes flight" using reachable_inv [OF assms(1)] by auto
  obtain la' lost stop where d: "DetectLosses la m time rtt largest [] = Some (la', lost)"
    "detected la m time rtt largest (least_unacked m) stop (GetLossTimeout la') lost"
    using DetectLosses_detected [OF inv(1) assms(2)] by blast
  note set = detected_set [OF d(2)] and timeout = detected_timeout [OF d(2) assms(3)]
  have stop: "stop \<le> max (least_unacked m) (Suc largest)" "stop \<le> largest \<longrightarrow> waits la m time rtt largest stop"
    using d(2) by (auto simp: detected_def)
  have range: "n \<le> largest" if "n < stop" "least_unacked m \<le> n" for n using that stop(1) by auto
  have "n \<in> flight \<and> n \<le> largest \<and> sizes n = Some b" if "(n, b) \<in> set lost" for n b
  proof -
    have n: "n < stop" "deemed_lost la m time rtt largest n" using that set(1) by force+
    then obtain x where x: "info_at m n = Some x" "in_flight x" by (auto simp: deemed_lost_def)
    have "b = bytes_sent x" using that d(2) x(1) by (fastforce simp: detected_def)
    moreover have "least_unacked m \<le> n" using x(1) by (simp add: info_at_def split: if_splits)
    ultimately show ?thesis using x inv(2) range [OF n(1)] by (auto simp: flight_inv_def)
  qed
  then have "\<forall>(n, b)\<in>set lost. n \<in> flight \<and> n \<le> largest \<and> sizes n = Some b" by blast
  moreover have "n \<in> fst ` set lost" if "loss_type la = kNack" "n \<in> flight" "n + 3 \<le> largest" for n
  proof -
    have "deemed_lost la m time rtt largest n"
      using that inv(2) by (auto simp: deemed_lost_def nack_lost_def flight_inv_def kNumberOfNacksBeforeRetransmission_def)
    moreover have "n < stop" using stop(2) that(1,3) by (auto simp: waits_def nack_lost_def kNumberOfNacksBeforeRetransmission_def)
    ultimately show ?thesis using set(1) by blast
  qed
  moreover have "fst ` set lost = {n. n \<le> largest \<and> deemed_lost la m time rtt largest n}" if "GetLossTimeout la' = 0"
  proof -
    have "largest < stop" using that stop(2) timeout(1) by (meson not_le)
    moreover have "n \<le> largest" if "n < stop" "deemed_lost la m time rtt largest n" for n
      using that range [OF that(1)] by (auto simp: deemed_lost_def info_at_def split: if_splits)
    ultimately show ?thesis unfolding set(1) by auto
  qed
  ultimately show ?thesis using d(1) set(2) timeout by (intro exI [of _ la'] exI [of _ lost] conjI) simp_all
qed

theorem DetectLosses_reports_witness:
  "\<exists>la' lost. DetectLosses (GeneralLossAlgorithm kNack) example_map 7 RttStats 2 [] = Some (la', lost) \<and>
    (\<forall>(n, b)\<in>set lost. n = 2 \<and> b = 1350)"
proof -
  obtain la' lost where l: "DetectLosses (GeneralLossAlgorithm kNack) example_map 7 RttStats 2 [] = Some (la', lost)"
    "\<forall>(n, b)\<in>set lost. n \<in> {2} \<and> n \<le> 2 \<and> [2 \<mapsto> 1350] n = Some b"
    using DetectLosses_reports [OF example_reachable, of 2 7 "GeneralLossAlgorithm kNack" RttStats] example_step(3) by auto
  have "\<forall>(n, b)\<in>set lost. n = 2 \<and> b = 1350" using l(2) by (auto split: if_splits)
  then show ?thesis using l(1) by blast
qed

section \<open>Spurious retransmissions\<close>

lemma lower_shift_ok: "lower_shift r e k \<le> k \<and> (lower_shift r e k \<noteq> 0 \<longrightarrow> e < r div 2 ^ lower_shift r e k)"
  by (induction k) auto

lemma propose_shift_ok:
  assumes "0 \<le> r"
  shows "propose_shift r e k \<le> k \<and> (propose_shift r e k \<noteq> 0 \<longrightarrow> e \<le> r div 2 ^ propose_shift r e k)"
proof (induction k)
  case (Suc k)
  have "r div 2 ^ Suc k \<le> r div 2 ^ k" using assms by (intro zdiv_mono2) simp_all
  then show ?case using Suc by (auto simp: Let_def)
qed simp

text \<open>After a spurious retransmission the adaptive algorithm allows more time: the shift never grows, and
  unless it has reached zero the new delay, with the same round trip times, exceeds the round trip time by at
  least the time since the retransmission was sent.\<close>

theorem SpuriousRetransmitDetected_allows:
  assumes "reachable m sizes flight" "tracked m n" "0 \<le> max_rtt rtt" "loss_type la = kAdaptiveTime"
    and "fix_adaptive \<or> largest_sent_on_spurious_retransmit la < n"
  shows "\<exists>la' info. SpuriousRetransmitDetected fix_adaptive la m time rtt n = Some la' \<and> GetTransmissionInfo m n = Some info \<and>
    reordering_shift la' \<le> reordering_shift la \<and>
    (reordering_shift la' \<noteq> 0 \<longrightarrow> max_rtt rtt + (time - sent_time info) \<le> loss_delay la' rtt)"
proof -
  obtain x where x: "GetTransmissionInfo m n = Some x" using tracked_info [OF _ assms(2)] reachable_inv [OF assms(1)] by blast
  define k where "k = (if fix_adaptive then lower_shift (max_rtt rtt) (time - sent_time x) (reordering_shift la)
    else propose_shift (max_rtt rtt) (time - sent_time x) (reordering_shift la))"
  have k: "k \<le> reordering_shift la" "k \<noteq> 0 \<longrightarrow> time - sent_time x \<le> max_rtt rtt div 2 ^ k"
    using lower_shift_ok [of "max_rtt rtt" "time - sent_time x" "reordering_shift la"]
      propose_shift_ok [OF assms(3), of "time - sent_time x" "reordering_shift la"] by (auto simp: k_def)
  have "\<exists>la'. SpuriousRetransmitDetected fix_adaptive la m time rtt n = Some la' \<and> reordering_shift la' = k"
    using x assms(4,5) by (auto simp: SpuriousRetransmitDetected_def k_def)
  then show ?thesis using k x by (auto simp: loss_delay_def)
qed

theorem SpuriousRetransmitDetected_allows_witness:
  "\<exists>la'. SpuriousRetransmitDetected True (GeneralLossAlgorithm kAdaptiveTime) example_map 9 RttStats 2 = Some la' \<and>
    reordering_shift la' \<le> 4"
  using SpuriousRetransmitDetected_allows [OF example_reachable, of 2 RttStats "GeneralLossAlgorithm kAdaptiveTime" True 9]
  by (auto simp: tracked_def example_step(2,3) max_rtt_def RttStats_def GeneralLossAlgorithm_def kDefaultAdaptiveLossDelayShift_def)

end
