(* ===== verification/Hybrid_Slow_Start.thy ===== *)
theory Hybrid_Slow_Start
  imports Quic_Time
begin

text \<open>
  The delay based exit from slow start, \<^verbatim>\<open>HybridSlowStart\<close> of
  \<^verbatim>\<open>src/model/net/quic/core/congestion_control/hybrid_slow_start.cc\<close>.
\<close>

section \<open>Operations\<close>

definition kHybridStartLowWindow :: uint64 where "kHybridStartLowWindow = 16"
definition kHybridStartMinSamples :: uint32 where "kHybridStartMinSamples = 8"
definition kHybridStartDelayFactorExp :: nat where "kHybridStartDelayFactorExp = 3"
definition kHybridStartDelayMinThresholdUs :: int where "kHybridStartDelayMinThresholdUs = 4000"
definition kHybridStartDelayMaxThresholdUs :: int where "kHybridStartDelayMaxThresholdUs = 16000"

datatype HystartState = NOT_FOUND | DELAY

record hybrid_slow_start =
  started :: bool
  hystart_found :: HystartState
  last_sent_packet_number :: QuicPacketNumber
  end_packet_number :: QuicPacketNumber
  rtt_sample_count :: uint32
  current_min_rtt :: QuicTimeDelta

definition HybridSlowStart :: hybrid_slow_start where
  "HybridSlowStart = \<lparr>started = False, hystart_found = NOT_FOUND, last_sent_packet_number = 0,
                      end_packet_number = 0, rtt_sample_count = 0, current_min_rtt = 0\<rparr>"

definition IsEndOfRound :: "hybrid_slow_start \<Rightarrow> QuicPacketNumber \<Rightarrow> bool" where
  "IsEndOfRound h ack \<longleftrightarrow> end_packet_number h \<le> ack"

definition hss_OnPacketAcked :: "hybrid_slow_start \<Rightarrow> QuicPacketNumber \<Rightarrow> hybrid_slow_start" where
  "hss_OnPacketAcked h acked_packet_number =
     (if IsEndOfRound h acked_packet_number then h\<lparr>started := False\<rparr> else h)"

definition hss_OnPacketSent :: "hybrid_slow_start \<Rightarrow> QuicPacketNumber \<Rightarrow> hybrid_slow_start" where
  "hss_OnPacketSent h packet_number = h\<lparr>last_sent_packet_number := packet_number\<rparr>"

definition Restart :: "hybrid_slow_start \<Rightarrow> hybrid_slow_start" where
  "Restart h = h\<lparr>started := False, hystart_found := NOT_FOUND\<rparr>"

definition StartReceiveRound :: "hybrid_slow_start \<Rightarrow> QuicPacketNumber \<Rightarrow> hybrid_slow_start" where
  "StartReceiveRound h last_sent =
     h\<lparr>end_packet_number := last_sent, current_min_rtt := 0, rtt_sample_count := 0, started := True\<rparr>"

definition min_rtt_increase_threshold :: "QuicTimeDelta \<Rightarrow> QuicTimeDelta" where
  "min_rtt_increase_threshold min_rtt =
     max (min (drop_bit kHybridStartDelayFactorExp min_rtt) kHybridStartDelayMaxThresholdUs)
       kHybridStartDelayMinThresholdUs"

definition ShouldExitSlowStart ::
  "hybrid_slow_start \<Rightarrow> QuicTimeDelta \<Rightarrow> QuicTimeDelta \<Rightarrow> uint64 \<Rightarrow> hybrid_slow_start \<times> bool" where
  "ShouldExitSlowStart h latest_rtt min_rtt congestion_window =
     (let h = (if \<not> started h then StartReceiveRound h (last_sent_packet_number h) else h)
      in if hystart_found h \<noteq> NOT_FOUND then (h, True)
         else
           let h = h\<lparr>rtt_sample_count := rtt_sample_count h + 1\<rparr>;
               h = (if rtt_sample_count h \<le> kHybridStartMinSamples \<and>
                       (current_min_rtt h = 0 \<or> current_min_rtt h > latest_rtt)
                    then h\<lparr>current_min_rtt := latest_rtt\<rparr> else h);
               h = (if rtt_sample_count h = kHybridStartMinSamples \<and>
                       current_min_rtt h > min_rtt + min_rtt_increase_threshold min_rtt
                    then h\<lparr>hystart_found := DELAY\<rparr> else h)
           in (h, congestion_window \<ge> kHybridStartLowWindow \<and> hystart_found h \<noteq> NOT_FOUND))"

section \<open>Rounds\<close>

text \<open>The samples of a round, with the congestion window at each of them, and the answers.\<close>

fun hss_round ::
  "QuicTimeDelta \<Rightarrow> hybrid_slow_start \<Rightarrow> (QuicTimeDelta \<times> uint64) list \<Rightarrow> hybrid_slow_start \<times> bool list" where
  "hss_round min_rtt h [] = (h, [])"
| "hss_round min_rtt h (s # samples) =
     (let (h, b) = ShouldExitSlowStart h (fst s) min_rtt (snd s); (h, bs) = hss_round min_rtt h samples
      in (h, b # bs))"

lemma hss_round_snoc:
  "hss_round m h (xs @ [x]) =
     (let (h1, bs) = hss_round m h xs; (h2, b) = ShouldExitSlowStart h1 (fst x) m (snd x) in (h2, bs @ [b]))"
  by (induction xs arbitrary: h) (simp_all add: split_beta Let_def)

definition round_min :: "(QuicTimeDelta \<times> uint64) list \<Rightarrow> QuicTimeDelta" where
  "round_min xs = Min (fst ` set (take 8 xs))"

lemma round_min_snoc:
  "round_min (xs @ [x]) =
     (if xs = [] then fst x else if length xs < 8 then min (fst x) (round_min xs) else round_min xs)"
  by (cases "xs = []"; cases "length xs < 8") (simp_all add: round_min_def)

lemma round_min_pos: "\<forall>x\<in>set xs. 0 < fst x \<Longrightarrow> xs \<noteq> [] \<Longrightarrow> 0 < round_min xs"
  by (auto simp: round_min_def dest: in_set_takeD)

definition delayed_round :: "QuicTimeDelta \<Rightarrow> (QuicTimeDelta \<times> uint64) list \<Rightarrow> bool" where
  "delayed_round m xs \<longleftrightarrow>
     8 \<le> length xs \<and> round_min xs > m + min_rtt_increase_threshold m"

definition in_round :: "(QuicTimeDelta \<times> uint64) list \<Rightarrow> hybrid_slow_start \<Rightarrow> bool" where
  "in_round xs h \<longleftrightarrow>
     started h \<and> hystart_found h = NOT_FOUND \<and> rtt_sample_count h = of_nat (length xs) \<and>
     current_min_rtt h = (if xs = [] then 0 else round_min xs)"

lemma min_rtt_increase_threshold_range:
  "4000 \<le> min_rtt_increase_threshold m \<and> min_rtt_increase_threshold m \<le> 16000"
  by (simp add: min_rtt_increase_threshold_def kHybridStartDelayMinThresholdUs_def
      kHybridStartDelayMaxThresholdUs_def)

lemma exit_found:
  assumes "hystart_found h = DELAY"
  shows "hystart_found (fst (ShouldExitSlowStart h r m c)) = DELAY \<and> snd (ShouldExitSlowStart h r m c)"
  using assms by (simp add: ShouldExitSlowStart_def StartReceiveRound_def)

lemma exit_starts_round:
  "\<not> started h \<Longrightarrow> ShouldExitSlowStart h r m c = ShouldExitSlowStart (StartReceiveRound h (last_sent_packet_number h)) r m c"
  by (simp add: ShouldExitSlowStart_def StartReceiveRound_def)

lemma sample_count:
  assumes "n < 2 ^ 32 - 1"
  shows "(of_nat n + 1 :: uint32) \<le> kHybridStartMinSamples \<longleftrightarrow> n < 8"
    and "(of_nat n + 1 :: uint32) = kHybridStartMinSamples \<longleftrightarrow> n = 7"
proof -
  have "unat (of_nat (Suc n) :: uint32) = Suc n"
    using assms unfolding unat_of_nat by (intro mod_less) simp
  then have u: "unat (of_nat n + 1 :: uint32) = Suc n"
    by (simp add: add.commute)
  show "(of_nat n + 1 :: uint32) \<le> kHybridStartMinSamples \<longleftrightarrow> n < 8"
    unfolding word_le_nat_alt u by (simp add: kHybridStartMinSamples_def less_Suc_eq_le [symmetric])
  show "(of_nat n + 1 :: uint32) = kHybridStartMinSamples \<longleftrightarrow> n = 7"
    using u by (auto simp: kHybridStartMinSamples_def word_unat_eq_iff simp del: unat_of_nat)
qed

text \<open>One more sample of a round in which no delay has been found.\<close>

lemma in_round_step:
  assumes "in_round xs h" "\<forall>x\<in>set (xs @ [x]). 0 < fst x" "length xs < 2 ^ 32 - 1" "\<not> delayed_round m xs"
  shows "(if delayed_round m (xs @ [x]) then hystart_found (fst (ShouldExitSlowStart h (fst x) m (snd x))) = DELAY
          else in_round (xs @ [x]) (fst (ShouldExitSlowStart h (fst x) m (snd x)))) \<and>
         snd (ShouldExitSlowStart h (fst x) m (snd x)) = (delayed_round m (xs @ [x]) \<and> 16 \<le> snd x)"
proof -
  define mn where "mn = round_min (xs @ [x])"
  have mn: "(if length xs < 8 \<and> (current_min_rtt h = 0 \<or> current_min_rtt h > fst x) then fst x else current_min_rtt h)
            = mn"
    using assms(1) round_min_pos [of xs] assms(2) unfolding mn_def round_min_snoc
    by (cases "xs = []") (auto simp: in_round_def)
  have d: "delayed_round m (xs @ [x]) \<longleftrightarrow> length xs = 7 \<and> mn > m + min_rtt_increase_threshold m"
    using assms(4) by (auto simp: delayed_round_def mn_def round_min_snoc)
  define k where "k = (of_nat (length xs) + 1 :: uint32)"
  have c: "k \<le> kHybridStartMinSamples \<longleftrightarrow> length xs < 8" "k = kHybridStartMinSamples \<longleftrightarrow> length xs = 7"
    using sample_count [OF assms(3)] by (simp_all only: k_def)
  have h: "started h" "hystart_found h = NOT_FOUND" "rtt_sample_count h + 1 = k"
    using assms(1) by (auto simp: in_round_def k_def)
  define h1 where "h1 = h\<lparr>rtt_sample_count := k, current_min_rtt := mn\<rparr>"
  define h2 where "h2 = (if delayed_round m (xs @ [x]) then h1\<lparr>hystart_found := DELAY\<rparr> else h1)"
  have "ShouldExitSlowStart h (fst x) m (snd x) = (h2, 16 \<le> snd x \<and> hystart_found h2 \<noteq> NOT_FOUND)"
  proof (cases "length xs < 8 \<and> (current_min_rtt h = 0 \<or> current_min_rtt h > fst x)")
    case True
    then show ?thesis
      using mn unfolding h2_def h1_def d
      by (auto simp add: ShouldExitSlowStart_def kHybridStartLowWindow_def Let_def h c)
  next
    case False
    then have "current_min_rtt h = mn"
      using mn by auto
    then have "h\<lparr>current_min_rtt := mn\<rparr> = h"
      by auto
    then have h1: "h1 = h\<lparr>rtt_sample_count := k\<rparr>"
      unfolding h1_def by (cases h) auto
    show ?thesis
      using False \<open>current_min_rtt h = mn\<close> unfolding h2_def h1 d
      by (auto simp add: ShouldExitSlowStart_def kHybridStartLowWindow_def Let_def h c)
  qed
  then show ?thesis
    using h by (auto simp: h2_def h1_def in_round_def add.commute mn_def k_def)
qed

lemma hss_round_answers:
  assumes "\<not> started h" "hystart_found h = NOT_FOUND" "\<forall>x\<in>set xs. 0 < fst x" "length xs < 2 ^ 32"
  shows "(if delayed_round m xs then hystart_found (fst (hss_round m h xs)) = DELAY
          else xs \<noteq> [] \<longrightarrow> in_round xs (fst (hss_round m h xs))) \<and>
         snd (hss_round m h xs) =
           map (\<lambda>i. delayed_round m xs \<and> 7 \<le> i \<and> (i = 7 \<longrightarrow> 16 \<le> snd (xs ! 7))) [0..<length xs]"
  using assms(3,4)
proof (induction xs rule: rev_induct)
  case Nil
  then show ?case by (simp add: delayed_round_def)
next
  case (snoc x xs)
  let ?h = "fst (hss_round m h xs)"
  let ?s = "ShouldExitSlowStart ?h (fst x) m (snd x)"
  have IH: "if delayed_round m xs then hystart_found ?h = DELAY else xs \<noteq> [] \<longrightarrow> in_round xs ?h"
    "snd (hss_round m h xs) =
       map (\<lambda>i. delayed_round m xs \<and> 7 \<le> i \<and> (i = 7 \<longrightarrow> 16 \<le> snd (xs ! 7))) [0..<length xs]"
    using snoc by auto
  have run: "hss_round m h (xs @ [x]) = (fst ?s, snd (hss_round m h xs) @ [snd ?s])"
    by (simp add: hss_round_snoc split_beta Let_def)
  show ?case
  proof (cases "delayed_round m xs")
    case True
    then have l: "8 \<le> length xs" and d: "delayed_round m (xs @ [x])"
      by (auto simp: delayed_round_def round_min_snoc)
    show ?thesis
      using exit_found [of ?h "fst x" m "snd x"] IH True l d
      by (auto simp: run nth_append)
  next
    case False
    define h' where "h' = (if xs = [] then StartReceiveRound h (last_sent_packet_number h) else ?h)"
    have "in_round xs h'"
      using IH False assms(2) by (auto simp: h'_def in_round_def StartReceiveRound_def)
    from in_round_step [OF this, of x m] False snoc.prems
    have step: "(if delayed_round m (xs @ [x]) then hystart_found (fst (ShouldExitSlowStart h' (fst x) m (snd x))) = DELAY
          else in_round (xs @ [x]) (fst (ShouldExitSlowStart h' (fst x) m (snd x)))) \<and>
         snd (ShouldExitSlowStart h' (fst x) m (snd x)) = (delayed_round m (xs @ [x]) \<and> 16 \<le> snd x)"
      by simp
    have s: "?s = ShouldExitSlowStart h' (fst x) m (snd x)"
      using exit_starts_round [OF assms(1)] by (simp add: h'_def)
    have "length xs = 7" if "delayed_round m (xs @ [x])"
      using that False by (auto simp: delayed_round_def round_min_snoc split: if_splits)
    then show ?thesis
      using step IH False unfolding run s by (auto simp: nth_append)
  qed
qed

section \<open>Properties\<close>

text \<open>
  C33: In a round of slow start, the first seven samples never end slow start.  The eighth ends it
  exactly if the smallest of the eight exceeds the session's minimum by more than an eighth of it,
  clamped to between 4 and 16 milliseconds, and the window has at least 16 packets; the samples after
  the eighth end it whenever that delay was found, whatever the window.
\<close>

theorem ShouldExitSlowStart_round:
  assumes "\<not> started h" "hystart_found h = NOT_FOUND" "\<forall>x\<in>set xs. 0 < fst x" "length xs < 2 ^ 32"
    and "i < length xs"
  shows "snd (hss_round m h xs) ! i \<longleftrightarrow>
           7 \<le> i \<and> Min (fst ` set (take 8 xs)) > m + max 4000 (min 16000 (m div 8)) \<and>
           (i = 7 \<longrightarrow> 16 \<le> snd (xs ! 7))"
proof -
  have "min_rtt_increase_threshold m = max 4000 (min 16000 (m div 8))"
    by (simp add: min_rtt_increase_threshold_def kHybridStartDelayMinThresholdUs_def
        kHybridStartDelayMaxThresholdUs_def kHybridStartDelayFactorExp_def drop_bit_eq_div max.commute min.commute)
  then show ?thesis
    using hss_round_answers [OF assms(1-4), of m] assms(5) by (auto simp: delayed_round_def round_min_def)
qed

theorem ShouldExitSlowStart_round_witness:
  "snd (hss_round 40000 HybridSlowStart (replicate 9 (50000, 10))) ! 8 \<and>
   \<not> snd (hss_round 40000 HybridSlowStart (replicate 9 (50000, 10))) ! 7"
  using ShouldExitSlowStart_round [of HybridSlowStart "replicate 9 (50000, 10)" 8 40000]
    ShouldExitSlowStart_round [of HybridSlowStart "replicate 9 (50000, 10)" 7 40000]
  by (simp add: HybridSlowStart_def)

end
