(* ===== verification/Prr_Sender.thy ===== *)
theory Prr_Sender
  imports Quic_Time
begin

text \<open>
  Proportional rate reduction during recovery, \<^verbatim>\<open>PrrSender\<close> of
  \<^verbatim>\<open>src/model/net/quic/core/congestion_control/prr_sender.cc\<close>.
\<close>

section \<open>Operations\<close>

definition kMaxSegmentSize :: QuicByteCount where "kMaxSegmentSize = kDefaultTCPMSS"

record prr_sender =
  bytes_sent_since_loss :: QuicByteCount
  bytes_delivered_since_loss :: QuicByteCount
  ack_count_since_loss :: uint64
  bytes_in_flight_before_loss :: QuicByteCount

definition PrrSender :: prr_sender where
  "PrrSender = \<lparr>bytes_sent_since_loss = 0, bytes_delivered_since_loss = 0, ack_count_since_loss = 0,
                bytes_in_flight_before_loss = 0\<rparr>"

definition prr_OnPacketSent :: "prr_sender \<Rightarrow> QuicByteCount \<Rightarrow> prr_sender" where
  "prr_OnPacketSent p sent_bytes = p\<lparr>bytes_sent_since_loss := bytes_sent_since_loss p + sent_bytes\<rparr>"

definition prr_OnPacketLost :: "prr_sender \<Rightarrow> QuicByteCount \<Rightarrow> prr_sender" where
  "prr_OnPacketLost p prior_in_flight =
     p\<lparr>bytes_sent_since_loss := 0, bytes_in_flight_before_loss := prior_in_flight,
       bytes_delivered_since_loss := 0, ack_count_since_loss := 0\<rparr>"

definition prr_OnPacketAcked :: "prr_sender \<Rightarrow> QuicByteCount \<Rightarrow> prr_sender" where
  "prr_OnPacketAcked p acked_bytes =
     p\<lparr>bytes_delivered_since_loss := bytes_delivered_since_loss p + acked_bytes,
       ack_count_since_loss := ack_count_since_loss p + 1\<rparr>"

definition prr_TimeUntilSend ::
  "prr_sender \<Rightarrow> QuicByteCount \<Rightarrow> QuicByteCount \<Rightarrow> QuicByteCount \<Rightarrow> QuicTimeDelta" where
  "prr_TimeUntilSend p congestion_window bytes_in_flight slowstart_threshold =
     (if bytes_sent_since_loss p = 0 \<or> bytes_in_flight < kMaxSegmentSize then 0
      else if congestion_window > bytes_in_flight then
        (if bytes_delivered_since_loss p + ack_count_since_loss p * kMaxSegmentSize \<le> bytes_sent_since_loss p
         then DeltaInfinite else 0)
      else if bytes_delivered_since_loss p * slowstart_threshold >
              bytes_sent_since_loss p * bytes_in_flight_before_loss p then 0
      else DeltaInfinite)"

section \<open>A recovery period\<close>

text \<open>
  What happens after the loss: packets the peer acknowledges, and packets that are ready to be sent,
  with their size and with the window and the bytes in flight at that time; they go out exactly if
  \<^const>\<open>prr_TimeUntilSend\<close> does not hold them back.
\<close>

datatype prr_event =
    Acked QuicByteCount
  | Ready QuicByteCount QuicByteCount QuicByteCount

fun prr_step :: "QuicByteCount \<Rightarrow> prr_sender \<Rightarrow> prr_event \<Rightarrow> prr_sender" where
  "prr_step ssthresh p (Acked n) = prr_OnPacketAcked p n"
| "prr_step ssthresh p (Ready n cwnd in_flight) =
     (if prr_TimeUntilSend p cwnd in_flight ssthresh = 0 then prr_OnPacketSent p n else p)"

definition prr_run :: "QuicByteCount \<Rightarrow> prr_sender \<Rightarrow> prr_event list \<Rightarrow> prr_sender" where
  "prr_run ssthresh p es = foldl (prr_step ssthresh) p es"

fun acked_bytes :: "prr_event list \<Rightarrow> nat" where
  "acked_bytes [] = 0"
| "acked_bytes (Acked n # es) = unat n + acked_bytes es"
| "acked_bytes (Ready _ _ _ # es) = acked_bytes es"

fun acks :: "prr_event list \<Rightarrow> nat" where
  "acks [] = 0"
| "acks (Acked n # es) = Suc (acks es)"
| "acks (Ready _ _ _ # es) = acks es"

lemma acked_bytes_append [simp]: "acked_bytes (xs @ ys) = acked_bytes xs + acked_bytes ys"
  by (induction xs rule: acked_bytes.induct) auto

lemma acks_append [simp]: "acks (xs @ ys) = acks xs + acks ys"
  by (induction xs rule: acks.induct) auto

text \<open>The bytes that may leave under limited transmit: those ready with less than a segment in flight.\<close>

fun limited_bytes :: "prr_event list \<Rightarrow> nat" where
  "limited_bytes [] = 0"
| "limited_bytes (Acked _ # es) = limited_bytes es"
| "limited_bytes (Ready n _ in_flight # es) = (if in_flight < kMaxSegmentSize then unat n else 0) + limited_bytes es"

lemma limited_bytes_append [simp]: "limited_bytes (xs @ ys) = limited_bytes xs + limited_bytes ys"
  by (induction xs rule: limited_bytes.induct) auto

text \<open>A packet has at most one segment.\<close>

fun one_segment :: "prr_event \<Rightarrow> bool" where
  "one_segment (Acked _) = True"
| "one_segment (Ready n _ _) \<longleftrightarrow> n \<le> kMaxSegmentSize"

fun window_closed :: "prr_event \<Rightarrow> bool" where
  "window_closed (Acked _) = True"
| "window_closed (Ready n cwnd in_flight) \<longleftrightarrow> in_flight < kMaxSegmentSize \<or> cwnd \<le> in_flight"

text \<open>
  The two allowances of the algorithm, both scaled by the flight at the loss: the proportional one, and
  the larger of it and of a segment for every acknowledgement on top of the bytes acknowledged.
\<close>

definition proportional :: "nat \<Rightarrow> prr_event list \<Rightarrow> nat" where
  "proportional ssthresh es = acked_bytes es * ssthresh"

definition allowance :: "nat \<Rightarrow> nat \<Rightarrow> prr_event list \<Rightarrow> nat" where
  "allowance prior ssthresh es = max (proportional ssthresh es) ((acked_bytes es + acks es * 1460) * prior)"

lemma proportional_snoc: "proportional ssthresh es \<le> proportional ssthresh (es @ [e])"
  by (simp add: proportional_def)

lemma allowance_snoc: "allowance prior ssthresh es \<le> allowance prior ssthresh (es @ [e])"
  unfolding allowance_def by (intro max.mono proportional_snoc mult_le_mono1) simp

text \<open>What the counters are, and that the bytes sent keep to an allowance \<open>m\<close>.\<close>

definition prr_counts :: "nat \<Rightarrow> prr_event list \<Rightarrow> prr_sender \<Rightarrow> bool" where
  "prr_counts prior es p \<longleftrightarrow>
     unat (bytes_in_flight_before_loss p) = prior \<and>
     unat (bytes_delivered_since_loss p) = acked_bytes es \<and> unat (ack_count_since_loss p) = acks es"

definition prr_within :: "nat \<Rightarrow> nat \<Rightarrow> prr_event list \<Rightarrow> prr_sender \<Rightarrow> bool" where
  "prr_within m prior es p \<longleftrightarrow> unat (bytes_sent_since_loss p) * prior \<le> m + (1460 + limited_bytes es) * prior"

text \<open>A recovery period of a size for which the products of the code do not wrap.\<close>

definition recovery_size :: "nat \<Rightarrow> nat \<Rightarrow> prr_event list \<Rightarrow> bool" where
  "recovery_size prior ssthresh es \<longleftrightarrow> 0 < prior \<and> prior < 2 ^ 30 \<and> ssthresh < 2 ^ 30 \<and>
     acked_bytes es < 2 ^ 31 \<and> acks es < 2 ^ 20 \<and> limited_bytes es < 2 ^ 31"

lemma recovery_size_snoc: "recovery_size prior ssthresh (es @ [e]) \<Longrightarrow> recovery_size prior ssthresh es"
  by (simp add: recovery_size_def)

lemma unat_MSS [simp]: "unat kMaxSegmentSize = 1460"
  by (simp add: kMaxSegmentSize_def kDefaultTCPMSS_def)

lemma unat_times: "unat a * unat b < 2 ^ 64 \<Longrightarrow> unat (a * b) = unat a * unat b" for a b :: uint64
  by (simp add: unat_word_ariths)

lemma unat_plus: "unat a + unat b < 2 ^ 64 \<Longrightarrow> unat (a + b) = unat a + unat b" for a b :: uint64
  by (simp add: unat_word_ariths)

lemma allowance_bound:
  assumes "recovery_size prior ssthresh es"
  shows "proportional ssthresh es < 2 ^ 61" "allowance prior ssthresh es < 2 ^ 62"
proof -
  have "acked_bytes es * ssthresh < 2 ^ 31 * 2 ^ 30"
    using assms by (intro mult_strict_mono) (auto simp: recovery_size_def)
  moreover have "(acked_bytes es + acks es * 1460) * prior < 2 ^ 32 * 2 ^ 30"
    using assms by (intro mult_strict_mono) (auto simp: recovery_size_def)
  ultimately show "proportional ssthresh es < 2 ^ 61" "allowance prior ssthresh es < 2 ^ 62"
    by (simp_all add: proportional_def allowance_def)
qed

lemma prr_within_bound:
  assumes "prr_within (allowance prior ssthresh es) prior es p" "recovery_size prior ssthresh es"
  shows "unat (bytes_sent_since_loss p) * prior < 2 ^ 63" "unat (bytes_sent_since_loss p) < 2 ^ 63"
proof -
  have "(1460 + limited_bytes es) * prior < 2 ^ 32 * 2 ^ 30"
    using assms(2) by (intro mult_strict_mono) (auto simp: recovery_size_def)
  then show lt: "unat (bytes_sent_since_loss p) * prior < 2 ^ 63"
    using assms(1) allowance_bound(2) [OF assms(2)] by (simp add: prr_within_def)
  have "unat (bytes_sent_since_loss p) * 1 \<le> unat (bytes_sent_since_loss p) * prior"
    using assms(2) by (intro mult_le_mono2) (simp add: recovery_size_def)
  from le_less_trans [OF this lt] show "unat (bytes_sent_since_loss p) < 2 ^ 63" by simp
qed

text \<open>A packet that is not held back outside limited transmit leaves while the bytes sent are within the allowance.\<close>

lemma prr_send_allowed:
  assumes c: "prr_counts prior es p" and w: "prr_within (allowance prior (unat ssthresh) es) prior es p"
    and b: "recovery_size prior (unat ssthresh) es"
    and t: "prr_TimeUntilSend p cwnd in_flight ssthresh = 0" and f: "\<not> in_flight < kMaxSegmentSize"
  shows "unat (bytes_sent_since_loss p) * prior \<le> allowance prior (unat ssthresh) es"
    and "cwnd \<le> in_flight \<Longrightarrow> unat (bytes_sent_since_loss p) * prior \<le> proportional (unat ssthresh) es"
proof -
  define sent where "sent = unat (bytes_sent_since_loss p)"
  have p: "unat (bytes_in_flight_before_loss p) = prior" "unat (bytes_delivered_since_loss p) = acked_bytes es"
    "unat (ack_count_since_loss p) = acks es"
    using c by (simp_all add: prr_counts_def)
  have sp: "unat (bytes_sent_since_loss p * bytes_in_flight_before_loss p) = sent * prior"
    using prr_within_bound(1) [OF w b] unfolding sent_def p(1) [symmetric] by (intro unat_times) simp
  have ds: "unat (bytes_delivered_since_loss p * ssthresh) = proportional (unat ssthresh) es"
    using allowance_bound(1) [OF b] unfolding proportional_def p(2) [symmetric] by (intro unat_times) simp
  have bs: "acked_bytes es < 2 ^ 31" "acks es < 2 ^ 20" using b by (simp_all add: recovery_size_def)
  have am: "unat (ack_count_since_loss p * kMaxSegmentSize) = acks es * 1460"
    using unat_times [of "ack_count_since_loss p" kMaxSegmentSize] bs(2) by (simp add: p)
  then have dam: "unat (bytes_delivered_since_loss p + ack_count_since_loss p * kMaxSegmentSize) = acked_bytes es + acks es * 1460"
    using bs by (subst unat_plus) (auto simp: p)
  have "sent = 0 \<or> (if in_flight < cwnd then sent < acked_bytes es + acks es * 1460
     else sent * prior < proportional (unat ssthresh) es)"
    using t f sp ds dam
    by (auto simp: prr_TimeUntilSend_def sent_def DeltaInfinite_def unat_eq_0 word_less_nat_alt word_le_nat_alt
        split: if_splits)
  then have "sent * prior \<le> allowance prior (unat ssthresh) es"
    "\<not> in_flight < cwnd \<Longrightarrow> sent * prior \<le> proportional (unat ssthresh) es"
    by (auto simp: allowance_def le_max_iff_disj split: if_splits)
  then show "unat (bytes_sent_since_loss p) * prior \<le> allowance prior (unat ssthresh) es"
    "cwnd \<le> in_flight \<Longrightarrow> unat (bytes_sent_since_loss p) * prior \<le> proportional (unat ssthresh) es"
    by (auto simp: sent_def not_less)
qed

text \<open>A packet uses up the slack of one segment, or is counted as limited transmit.\<close>

lemma prr_sent_within:
  assumes "prr_within m prior es p" "unat (bytes_sent_since_loss p) < 2 ^ 63" "n \<le> kMaxSegmentSize"
    and "\<not> in_flight < kMaxSegmentSize \<Longrightarrow> unat (bytes_sent_since_loss p) * prior \<le> m"
  shows "prr_within m prior (es @ [Ready n cwnd in_flight]) (prr_OnPacketSent p n)"
proof -
  have n: "unat n \<le> 1460"
    using assms(3) by (simp add: word_le_nat_alt)
  then have "unat (bytes_sent_since_loss p + n) = unat (bytes_sent_since_loss p) + unat n"
    using assms(2) by (intro unat_plus) simp
  then have sent: "unat (bytes_sent_since_loss (prr_OnPacketSent p n)) * prior = unat (bytes_sent_since_loss p) * prior + unat n * prior"
    by (simp add: prr_OnPacketSent_def add_mult_distrib)
  show ?thesis
  proof (cases "in_flight < kMaxSegmentSize")
    case True
    then show ?thesis
      using assms(1) by (simp add: prr_within_def sent add_mult_distrib)
  next
    case False
    then have "limited_bytes (es @ [Ready n cwnd in_flight]) = limited_bytes es"
      by simp
    then show ?thesis
      using assms(4) [OF False] mult_le_mono1 [OF n, of prior] unfolding prr_within_def sent add_mult_distrib by linarith
  qed
qed

lemma prr_within_mono:
  assumes "prr_within m prior es p" "m \<le> m'" "bytes_sent_since_loss p' = bytes_sent_since_loss p"
  shows "prr_within m' prior (es @ [e]) p'"
proof -
  have "(1460 + limited_bytes es) * prior \<le> (1460 + limited_bytes (es @ [e])) * prior"
    by (intro mult_le_mono1) simp
  then show ?thesis
    using assms(1,2) unfolding prr_within_def assms(3) by linarith
qed

text \<open>One event keeps within an allowance that grows with the events and that the sender respects.\<close>

lemma prr_step_within:
  assumes "prr_within m prior es p" "m \<le> m'" "unat (bytes_sent_since_loss p) < 2 ^ 63" "one_segment e"
    and "\<And>n cwnd in_flight. e = Ready n cwnd in_flight \<Longrightarrow> prr_TimeUntilSend p cwnd in_flight ssthresh = 0 \<Longrightarrow>
           \<not> in_flight < kMaxSegmentSize \<Longrightarrow> unat (bytes_sent_since_loss p) * prior \<le> m"
  shows "prr_within m' prior (es @ [e]) (prr_step ssthresh p e)"
proof (cases e)
  case (Acked n)
  then show ?thesis
    using assms(1,2) by (auto intro: prr_within_mono simp: prr_OnPacketAcked_def)
next
  case (Ready n cwnd in_flight)
  show ?thesis
  proof (cases "prr_TimeUntilSend p cwnd in_flight ssthresh = 0")
    case True
    have "prr_within m prior (es @ [e]) (prr_OnPacketSent p n)"
      unfolding Ready using assms(4) by (intro prr_sent_within assms(1,3) assms(5) [OF Ready True]) (simp_all add: Ready)
    then show ?thesis
      using assms(2) True by (simp add: Ready prr_within_def)
  next
    case False
    then show ?thesis
      using prr_within_mono [OF assms(1,2)] by (simp add: Ready)
  qed
qed

lemma prr_step_counts:
  assumes "prr_counts prior es p" "acked_bytes (es @ [e]) < 2 ^ 31" "acks (es @ [e]) < 2 ^ 20"
  shows "prr_counts prior (es @ [e]) (prr_step ssthresh p e)"
  using assms by (cases e) (auto simp: prr_counts_def prr_OnPacketAcked_def prr_OnPacketSent_def unat_plus)

lemma prr_run_within:
  assumes "\<forall>e\<in>set es. one_segment e" "recovery_size (unat prior) (unat ssthresh) es"
    and "p' = prr_run ssthresh (prr_OnPacketLost p prior) es"
  shows "prr_counts (unat prior) es p' \<and> prr_within (allowance (unat prior) (unat ssthresh) es) (unat prior) es p' \<and>
         ((\<forall>e\<in>set es. window_closed e) \<longrightarrow> prr_within (proportional (unat ssthresh) es) (unat prior) es p')"
  using assms
proof (induction es arbitrary: p' rule: rev_induct)
  case Nil
  then show ?case
    by (simp add: prr_run_def prr_counts_def prr_within_def prr_OnPacketLost_def)
next
  case (snoc e es)
  define q where "q = prr_run ssthresh (prr_OnPacketLost p prior) es"
  have b: "recovery_size (unat prior) (unat ssthresh) es" and e: "one_segment e"
    using snoc.prems(1,2) by (auto dest: recovery_size_snoc)
  from snoc.IH [OF _ b q_def] snoc.prems(1) have IH: "prr_counts (unat prior) es q"
    "prr_within (allowance (unat prior) (unat ssthresh) es) (unat prior) es q"
    "(\<forall>e\<in>set es. window_closed e) \<longrightarrow> prr_within (proportional (unat ssthresh) es) (unat prior) es q"
    by auto
  note allowed = prr_send_allowed [OF IH(1,2) b]
  note small = prr_within_bound(2) [OF IH(2) b]
  have p': "p' = prr_step ssthresh q e"
    using snoc.prems(3) by (simp add: q_def prr_run_def)
  have "prr_within (proportional (unat ssthresh) (es @ [e])) (unat prior) (es @ [e]) p'" if "\<forall>e\<in>set (es @ [e]). window_closed e"
    unfolding p' using IH(3) that allowed(2)
    by (intro prr_step_within [OF _ proportional_snoc small e]) auto
  moreover have "prr_within (allowance (unat prior) (unat ssthresh) (es @ [e])) (unat prior) (es @ [e]) p'"
    unfolding p' by (rule prr_step_within [OF IH(2) allowance_snoc small e allowed(1)])
  moreover have "prr_counts (unat prior) (es @ [e]) p'"
    unfolding p' using snoc.prems(2) by (intro prr_step_counts IH(1)) (simp_all add: recovery_size_def)
  ultimately show ?case by blast
qed

text \<open>With a threshold not above the flight at the loss, the scale cancels.\<close>

lemma prr_within_unscaled:
  assumes "prr_within (allowance prior ssthresh es) prior es p" "ssthresh \<le> prior" "0 < prior"
  shows "unat (bytes_sent_since_loss p) \<le> acked_bytes es + acks es * 1460 + 1460 + limited_bytes es"
proof -
  have "proportional ssthresh es \<le> (acked_bytes es + acks es * 1460) * prior"
    using assms(2) unfolding proportional_def by (intro mult_le_mono) auto
  then have "unat (bytes_sent_since_loss p) * prior \<le> (acked_bytes es + acks es * 1460 + 1460 + limited_bytes es) * prior"
    using assms(1) by (simp add: prr_within_def allowance_def max_def add_mult_distrib split: if_splits)
  then show ?thesis
    using assms(3) by simp
qed

section \<open>Properties\<close>

text \<open>
  C25: From the loss on, for every interleaving of acknowledgements and of packets ready to be sent, PRR keeps the
  bytes sent, scaled by the flight at the loss, to the larger of the bytes acknowledged scaled by the slow start
  threshold and of the bytes acknowledged plus one segment per acknowledgement scaled by the flight, plus the one
  packet of fast retransmit and the packets ready under limited transmit (less than a segment in flight), which the
  algorithm lets out unconditionally.  When the threshold is not above the flight, the scale cancels: not more is
  sent than was acknowledged plus a segment per acknowledgement plus those packets.  While the window is full, only
  the proportional part counts.  Packets have at most one segment, the flight is not empty, and the sizes are
  such that the products of the code do not wrap: less than 1 GB in flight and of threshold, less than 2 GB
  acknowledged and under limited transmit, and less than 2 ^ 20 acknowledgements.
\<close>

theorem prr_rate_bound:
  assumes "\<forall>e\<in>set es. one_segment e" "0 < unat prior" "unat prior < 2 ^ 30" "unat ssthresh < 2 ^ 30"
    and "acked_bytes es < 2 ^ 31" "acks es < 2 ^ 20" "limited_bytes es < 2 ^ 31"
    and "p' = prr_run ssthresh (prr_OnPacketLost p prior) es"
  shows "unat (bytes_sent_since_loss p') * unat prior \<le>
           max (acked_bytes es * unat ssthresh) ((acked_bytes es + acks es * 1460) * unat prior) +
           (1460 + limited_bytes es) * unat prior \<and>
         (ssthresh \<le> prior \<longrightarrow>
            unat (bytes_sent_since_loss p') \<le> acked_bytes es + acks es * 1460 + 1460 + limited_bytes es) \<and>
         ((\<forall>e\<in>set es. window_closed e) \<longrightarrow>
            unat (bytes_sent_since_loss p') * unat prior \<le>
            acked_bytes es * unat ssthresh + (1460 + limited_bytes es) * unat prior)"
proof -
  have "recovery_size (unat prior) (unat ssthresh) es"
    using assms(2-7) by (simp add: recovery_size_def)
  note w = prr_run_within [OF assms(1) this assms(8)]
  then have "ssthresh \<le> prior \<longrightarrow>
      unat (bytes_sent_since_loss p') \<le> acked_bytes es + acks es * 1460 + 1460 + limited_bytes es"
    using prr_within_unscaled assms(2) by (auto simp: word_le_nat_alt)
  with w show ?thesis
    unfolding prr_within_def allowance_def proportional_def by simp
qed

theorem prr_rate_bound_witness:
  "unat (bytes_sent_since_loss (prr_run 70000 (prr_OnPacketLost PrrSender 100000)
      [Ready 1460 70000 98540, Ready 1460 70000 98540, Acked 2920, Ready 1460 70000 97080])) * 100000
   \<le> 2920 * 70000 + 1460 * 100000"
  using prr_rate_bound [of "[Ready 1460 70000 98540, Ready 1460 70000 98540, Acked 2920, Ready 1460 70000 97080]"
      100000 70000 _ PrrSender]
  by (simp add: kMaxSegmentSize_def kDefaultTCPMSS_def)

end
