(* ===== verification/Cubic_Bytes.thy ===== *)
theory Cubic_Bytes
  imports Quic_Time
begin

text \<open>
  The window computations of CUBIC, \<^verbatim>\<open>CubicBytes\<close> of
  \<^verbatim>\<open>src/model/net/quic/core/congestion_control/cubic_bytes.cc\<close>.  Signed 64-bit values of the code are
  64-bit words read with \<^const>\<open>sint\<close>; \<^verbatim>\<open>float\<close> operations round to 24 bits.  The result of
  \<^verbatim>\<open>cbrt\<close> is only used truncated: it is the integer cube root.
\<close>

section \<open>Constants and state\<close>

definition kCubeScale :: nat where "kCubeScale = 40"
definition kCubeCongestionWindowScale :: uint64 where "kCubeCongestionWindowScale = 410"
definition kCubeFactor :: uint64 where
  "kCubeFactor = push_bit kCubeScale 1 div kCubeCongestionWindowScale div kDefaultTCPMSS"
definition cubic_kBeta :: rat where "cubic_kBeta = float_round (7 / 10)"
definition kBetaLastMax :: rat where "kBetaLastMax = float_round (85 / 100)"
definition MaxCubicTimeInterval :: QuicTimeDelta where "MaxCubicTimeInterval = FromMilliseconds 30"

record cubic_bytes =
  num_connections :: int
  epoch :: QuicTime
  last_update_time :: QuicTime
  last_congestion_window :: QuicByteCount
  last_max_congestion_window :: QuicByteCount
  acked_bytes_count :: QuicByteCount
  estimated_tcp_congestion_window :: QuicByteCount
  origin_point_congestion_window :: QuicByteCount
  time_to_origin_point :: uint32
  last_target_congestion_window :: QuicByteCount
  fix_convex_mode :: bool
  fix_cubic_quantization :: bool
  fix_beta_last_max :: bool
  allow_per_ack_updates :: bool

definition ResetCubicState :: "cubic_bytes \<Rightarrow> cubic_bytes" where
  "ResetCubicState c =
     c\<lparr>epoch := 0, last_update_time := 0, last_congestion_window := 0, last_max_congestion_window := 0,
       acked_bytes_count := 0, estimated_tcp_congestion_window := 0, origin_point_congestion_window := 0,
       time_to_origin_point := 0, last_target_congestion_window := 0\<rparr>"

definition CubicBytes :: cubic_bytes where
  "CubicBytes =
     \<lparr>num_connections = 2, epoch = 0, last_update_time = 0, last_congestion_window = 0,
      last_max_congestion_window = 0, acked_bytes_count = 0, estimated_tcp_congestion_window = 0,
      origin_point_congestion_window = 0, time_to_origin_point = 0, last_target_congestion_window = 0,
      fix_convex_mode = False, fix_cubic_quantization = False, fix_beta_last_max = False,
      allow_per_ack_updates = False\<rparr>"

definition SetNumConnections :: "cubic_bytes \<Rightarrow> int \<Rightarrow> cubic_bytes" where
  "SetNumConnections c n = c\<lparr>num_connections := n\<rparr>"
definition SetFixConvexMode :: "cubic_bytes \<Rightarrow> bool \<Rightarrow> cubic_bytes" where
  "SetFixConvexMode c b = c\<lparr>fix_convex_mode := b\<rparr>"
definition SetFixCubicQuantization :: "cubic_bytes \<Rightarrow> bool \<Rightarrow> cubic_bytes" where
  "SetFixCubicQuantization c b = c\<lparr>fix_cubic_quantization := b\<rparr>"
definition SetFixBetaLastMax :: "cubic_bytes \<Rightarrow> bool \<Rightarrow> cubic_bytes" where
  "SetFixBetaLastMax c b = c\<lparr>fix_beta_last_max := b\<rparr>"
definition SetAllowPerAckUpdates :: "cubic_bytes \<Rightarrow> bool \<Rightarrow> cubic_bytes" where
  "SetAllowPerAckUpdates c b = c\<lparr>allow_per_ack_updates := b\<rparr>"
definition cubic_OnApplicationLimited :: "cubic_bytes \<Rightarrow> cubic_bytes" where
  "cubic_OnApplicationLimited c = c\<lparr>epoch := 0\<rparr>"

section \<open>Floating point factors\<close>

text \<open>The conversion of an unsigned integer to \<^verbatim>\<open>float\<close>.\<close>

definition to_float :: "uint64 \<Rightarrow> rat" where
  "to_float w = float_round (of_int (uint w))"

definition n_connection_factor :: "rat \<Rightarrow> int \<Rightarrow> rat" where
  "n_connection_factor f n = float_round (float_round (of_int (n - 1) + f) / of_int n)"

definition Beta :: "cubic_bytes \<Rightarrow> rat" where
  "Beta c = n_connection_factor cubic_kBeta (num_connections c)"

definition BetaLastMax :: "cubic_bytes \<Rightarrow> rat" where
  "BetaLastMax c =
     (if fix_beta_last_max c then n_connection_factor kBetaLastMax (num_connections c) else kBetaLastMax)"

definition Alpha :: "cubic_bytes \<Rightarrow> rat" where
  "Alpha c =
     (let beta = Beta c
      in float_round (float_round (float_round (of_int (3 * num_connections c * num_connections c)) *
           float_round (1 - beta)) / float_round (1 + beta)))"

section \<open>Loss and acknowledgement\<close>

definition CongestionWindowAfterPacketLoss :: "cubic_bytes \<Rightarrow> QuicByteCount \<Rightarrow> cubic_bytes \<times> QuicByteCount" where
  "CongestionWindowAfterPacketLoss c current_congestion_window =
     (let last_window_delta = (if fix_beta_last_max c then kDefaultTCPMSS else 0);
          c = (if current_congestion_window + last_window_delta < last_max_congestion_window c
               then c\<lparr>last_max_congestion_window :=
                        word_of_int (to_integer (float_round (BetaLastMax c * to_float current_congestion_window)))\<rparr>
               else c\<lparr>last_max_congestion_window := current_congestion_window\<rparr>);
          c = c\<lparr>epoch := 0\<rparr>
      in (c, word_of_int (to_integer (float_round (to_float current_congestion_window * Beta c)))))"

text \<open>The integer cube root, found bit by bit from above.\<close>

fun icbrt_bits :: "nat \<Rightarrow> nat \<Rightarrow> nat \<Rightarrow> nat" where
  "icbrt_bits 0 x r = r"
| "icbrt_bits (Suc k) x r = (if (r + 2 ^ k) ^ 3 \<le> x then icbrt_bits k x (r + 2 ^ k) else icbrt_bits k x r)"

definition icbrt :: "nat \<Rightarrow> nat" where "icbrt x = icbrt_bits 22 x 0"

definition start_epoch :: "cubic_bytes \<Rightarrow> QuicByteCount \<Rightarrow> QuicByteCount \<Rightarrow> QuicTime \<Rightarrow> cubic_bytes" where
  "start_epoch c bytes_acked current_congestion_window event_time =
     (let c = c\<lparr>epoch := event_time, acked_bytes_count := bytes_acked,
                estimated_tcp_congestion_window := current_congestion_window\<rparr>
      in if last_max_congestion_window c \<le> current_congestion_window
         then c\<lparr>time_to_origin_point := 0, origin_point_congestion_window := current_congestion_window\<rparr>
         else c\<lparr>time_to_origin_point :=
                  word_of_nat (icbrt (nat \<lfloor>double_round (of_int (uint
                    (kCubeFactor * (last_max_congestion_window c - current_congestion_window))))\<rfloor>)),
                origin_point_congestion_window := last_max_congestion_window c\<rparr>)"

definition elapsed_time :: "cubic_bytes \<Rightarrow> QuicTimeDelta \<Rightarrow> QuicTime \<Rightarrow> uint64" where
  "elapsed_time c delay_min event_time =
     push_bit 10 (word_of_int (event_time + delay_min - epoch c)) div kNumMicrosPerSecond"

definition delta_congestion_window :: "cubic_bytes \<Rightarrow> uint64 \<Rightarrow> QuicByteCount" where
  "delta_congestion_window c offset =
     (if fix_cubic_quantization c
      then drop_bit kCubeScale (kCubeCongestionWindowScale * offset * offset * offset * kDefaultTCPMSS)
      else signed_drop_bit kCubeScale (kCubeCongestionWindowScale * offset * offset * offset) * kDefaultTCPMSS)"

definition cubic_target :: "cubic_bytes \<Rightarrow> uint64 \<Rightarrow> QuicByteCount" where
  "cubic_target c elapsed =
     (let offset = ucast (time_to_origin_point c) - elapsed;
          offset = (if fix_convex_mode c then (if sint offset < 0 then - offset else offset) else offset);
          delta = delta_congestion_window c offset;
          add_delta = sint elapsed > uint (time_to_origin_point c)
      in if fix_convex_mode c \<and> add_delta then origin_point_congestion_window c + delta
         else origin_point_congestion_window c - delta)"

definition updated_tcp_window :: "cubic_bytes \<Rightarrow> QuicByteCount" where
  "updated_tcp_window c =
     word_of_int (to_integer (float_round (to_float (estimated_tcp_congestion_window c) +
       float_round (float_round (to_float (acked_bytes_count c) * float_round (Alpha c * to_float kDefaultTCPMSS)) /
         to_float (estimated_tcp_congestion_window c)))))"

definition CongestionWindowAfterAck ::
  "cubic_bytes \<Rightarrow> QuicByteCount \<Rightarrow> QuicByteCount \<Rightarrow> QuicTimeDelta \<Rightarrow> QuicTime \<Rightarrow> cubic_bytes \<times> QuicByteCount" where
  "CongestionWindowAfterAck c bytes_acked current_congestion_window delay_min event_time =
     (let c = c\<lparr>acked_bytes_count := acked_bytes_count c + bytes_acked\<rparr>
      in if \<not> allow_per_ack_updates c \<and> last_congestion_window c = current_congestion_window \<and>
            event_time - last_update_time c \<le> MaxCubicTimeInterval
         then (c, max (last_target_congestion_window c) (estimated_tcp_congestion_window c))
         else
           let c = c\<lparr>last_congestion_window := current_congestion_window, last_update_time := event_time\<rparr>;
               c = (if epoch c = 0 then start_epoch c bytes_acked current_congestion_window event_time else c);
               target = min (cubic_target c (elapsed_time c delay_min event_time))
                            (current_congestion_window + acked_bytes_count c div 2);
               c = c\<lparr>estimated_tcp_congestion_window := updated_tcp_window c, acked_bytes_count := 0,
                     last_target_congestion_window := target\<rparr>
           in (c, if target < estimated_tcp_congestion_window c then estimated_tcp_congestion_window c else target))"

section \<open>The cube root\<close>

lemma icbrt_bits_bounds:
  "r ^ 3 \<le> x \<Longrightarrow> x < (r + 2 ^ k) ^ 3 \<Longrightarrow>
   icbrt_bits k x r ^ 3 \<le> x \<and> x < (icbrt_bits k x r + 1) ^ 3"
proof (induction k arbitrary: r)
  case (Suc k)
  have "x < (r + 2 ^ k + 2 ^ k) ^ 3"
    using Suc.prems(2) by (simp add: mult_2 add.assoc)
  then show ?case
    using Suc.IH [of "r + 2 ^ k"] Suc.IH [of r] Suc.prems(1) by (cases "(r + 2 ^ k) ^ 3 \<le> x") auto
qed simp

lemma icbrt_bounds:
  assumes "x < 2 ^ 66"
  shows "icbrt x ^ 3 \<le> x \<and> x < (icbrt x + 1) ^ 3"
  unfolding icbrt_def by (rule icbrt_bits_bounds) (use assms in simp_all)

section \<open>The factors\<close>

lemma cubic_kBeta_error: "\<bar>cubic_kBeta - 7 / 10\<bar> \<le> 1 / 2 ^ 24" and cubic_kBeta_range: "0 \<le> cubic_kBeta \<and> cubic_kBeta \<le> 1"
proof -
  show "\<bar>cubic_kBeta - 7 / 10\<bar> \<le> 1 / 2 ^ 24"
    using float_round_error [of "7 / 10"] unfolding cubic_kBeta_def by simp
  then show "0 \<le> cubic_kBeta \<and> cubic_kBeta \<le> 1"
    unfolding abs_le_iff by auto
qed

lemma n_connection_factor_bounds:
  assumes f: "0 \<le> f" "f \<le> 1" and n: "1 \<le> n" "n < 2 ^ 24"
  shows "0 \<le> n_connection_factor f n \<and> n_connection_factor f n \<le> 1 \<and>
         \<bar>n_connection_factor f n * of_int n - (of_int n - 1 + f)\<bar> \<le> 2 * of_int n / 2 ^ 24"
proof -
  define b where "b = float_round (of_int (n - 1) + f)"
  have "of_int (n - 1) + f \<le> of_int n"
    using f by simp
  then have b: "b \<le> of_int n" "0 \<le> b"
    using n f unfolding b_def by (auto intro!: float_round_le float_round_nonneg)
  have "\<bar>b - (of_int (n - 1) + f)\<bar> \<le> \<bar>of_int (n - 1) + f\<bar> / 2 ^ 24"
    unfolding b_def by (rule float_round_error)
  also have "\<dots> \<le> of_int n / 2 ^ 24"
    using f n by (intro divide_right_mono) auto
  finally have e1: "\<bar>b - (of_int (n - 1) + f)\<bar> \<le> of_int n / 2 ^ 24" .
  define g where "g = n_connection_factor f n"
  have g: "g = float_round (b / of_int n)"
    by (simp add: g_def n_connection_factor_def b_def)
  have q: "0 \<le> b / of_int n" "b / of_int n \<le> of_int 1"
    using b n by (simp_all add: divide_le_eq)
  have "0 \<le> g" "g \<le> 1"
    using float_round_nonneg [OF q(1)] float_round_le [OF q(2)] unfolding g by simp_all
  moreover have "\<bar>g - b / of_int n\<bar> \<le> 1 / 2 ^ 24"
    using order_trans [OF float_round_error [of "b / of_int n"] divide_right_mono [of _ 1 "2 ^ 24"]] q
    unfolding g by simp
  then have "\<bar>g - b / of_int n\<bar> * of_int n \<le> 1 / 2 ^ 24 * of_int n"
    using n by (intro mult_right_mono) auto
  then have "\<bar>g * of_int n - b\<bar> \<le> of_int n / 2 ^ 24"
    using n by (simp add: abs_mult_pos left_diff_distrib)
  with e1 have "\<bar>g * of_int n - (of_int n - 1 + f)\<bar> \<le> 2 * of_int n / 2 ^ 24"
    unfolding abs_le_iff by auto
  ultimately show ?thesis
    by (simp add: g_def)
qed

lemma Beta_bounds:
  assumes "1 \<le> num_connections c" "num_connections c < 2 ^ 24"
  shows "0 \<le> Beta c \<and> Beta c \<le> 1 \<and>
         \<bar>Beta c * of_int (num_connections c) - (of_int (num_connections c) - 3 / 10)\<bar> \<le> 3 * of_int (num_connections c) / 2 ^ 24"
proof -
  have "(1::rat) \<le> of_int (num_connections c)"
    using assms(1) by simp
  then show ?thesis
    using n_connection_factor_bounds [of cubic_kBeta "num_connections c"] cubic_kBeta_range cubic_kBeta_error assms
    unfolding Beta_def abs_le_iff by auto
qed

section \<open>Backing off after a loss\<close>

lemma to_float_exact: "uint w < 2 ^ 24 \<Longrightarrow> to_float w = of_int (uint w)"
  unfolding to_float_def by (rule float_round_int) simp

lemma backoff_range:
  fixes W n :: int and \<beta> v :: rat
  assumes W: "0 \<le> W" "W < 2 ^ 24" and n: "1 \<le> n" "n \<le> 2 ^ 10" and v: "v = float_round (of_int W * \<beta>)"
    and b: "0 \<le> \<beta>" "\<beta> \<le> 1" "\<bar>\<beta> * of_int n - (of_int n - 3 / 10)\<bar> \<le> 3 * of_int n / 2 ^ 24"
  shows "0 \<le> to_integer v \<and> to_integer v \<le> W \<and>
         (10 * n - 4) * W \<le> 10 * n * (to_integer v + 1) \<and> 10 * n * to_integer v \<le> (10 * n - 2) * W"
proof -
  define i where "i = to_integer v"
  define N :: rat where "N = of_int n"
  define R :: rat where "R = of_int W"
  have N: "1 \<le> N" "N \<le> 2 ^ 10" and R: "0 \<le> R"
    using n W by (simp_all add: N_def R_def)
  have wb: "R * \<beta> \<le> R" "0 \<le> R * \<beta>"
    using b R by (simp_all add: mult_left_le)
  have v0: "0 \<le> v" "v \<le> of_int W"
    using float_round_nonneg [OF wb(2)] float_round_le [of "R * \<beta>" W] wb W by (simp_all add: v R_def)
  have i: "0 \<le> i" "of_int i \<le> v" "v < of_int i + 1"
    using to_integer_nonneg [OF v0(1)] by (simp_all add: i_def)
  have "\<bar>v - R * \<beta>\<bar> \<le> R / 2 ^ 24"
    using order_trans [OF float_round_error [of "R * \<beta>"] divide_right_mono [of _ R "2 ^ 24"]] wb
    unfolding v R_def by simp
  then have "\<bar>v - R * \<beta>\<bar> * N \<le> R / 2 ^ 24 * N"
    using N by (intro mult_right_mono) auto
  then have e1: "\<bar>v * N - R * (\<beta> * N)\<bar> \<le> R * N / 2 ^ 24"
    using N by (simp add: abs_mult_pos left_diff_distrib mult.assoc)
  have "R * \<bar>\<beta> * N - (N - 3 / 10)\<bar> \<le> R * (3 * N / 2 ^ 24)"
    using b(3) R by (intro mult_left_mono) (auto simp: N_def)
  then have e2: "\<bar>R * (\<beta> * N) - R * (N - 3 / 10)\<bar> \<le> 3 * (R * N / 2 ^ 24)"
    unfolding right_diff_distrib [symmetric] abs_mult abs_of_nonneg [OF R] by (simp add: mult.commute mult.left_commute)
  have RN: "R * N / 2 ^ 24 \<le> R / 100"
  proof -
    have "R * N \<le> R * 2 ^ 10"
      using N R by (intro mult_left_mono) auto
    then show ?thesis
      using R unfolding mult.commute [of R N] by simp
  qed
  have "\<bar>v * N - R * (N - 3 / 10)\<bar> \<le> R / 25"
    using e1 e2 RN unfolding abs_le_iff mult.commute [of R N] by auto
  then have up: "10 * (N * v) \<le> (10 * N - 2) * R" and lo: "(10 * N - 4) * R \<le> 10 * (N * v)"
    using R unfolding abs_le_iff by (auto simp: algebra_simps)
  have "N * of_int i \<le> N * v" "N * v \<le> N * (of_int i + 1)"
    using i N by (auto intro!: mult_left_mono)
  then have "of_int (10 * n * i) \<le> (of_int ((10 * n - 2) * W) :: rat)" "of_int ((10 * n - 4) * W) \<le> (of_int (10 * n * (i + 1)) :: rat)"
    using up lo by (simp_all add: N_def [symmetric] R_def [symmetric] mult.assoc)
  then have "10 * n * i \<le> (10 * n - 2) * W" "(10 * n - 4) * W \<le> 10 * n * (i + 1)"
    by (simp_all only: of_int_le_iff)
  moreover have "i \<le> W"
    using i v0 by (metis of_int_le_iff order_trans)
  ultimately show ?thesis
    using i(1) by (simp add: i_def)
qed

lemma loss_window:
  assumes "uint w < 2 ^ 24" "1 \<le> num_connections c" "num_connections c \<le> 2 ^ 10"
    and w': "w' = uint (snd (CongestionWindowAfterPacketLoss c w))"
  shows "w' \<le> uint w" "(10 * num_connections c - 4) * uint w \<le> 10 * num_connections c * (w' + 1)"
    "10 * num_connections c * w' \<le> (10 * num_connections c - 2) * uint w"
proof -
  define v where "v = float_round (of_int (uint w) * Beta c)"
  have b: "0 \<le> to_integer v \<and> to_integer v \<le> uint w \<and>
    (10 * num_connections c - 4) * uint w \<le> 10 * num_connections c * (to_integer v + 1) \<and>
    10 * num_connections c * to_integer v \<le> (10 * num_connections c - 2) * uint w"
    using Beta_bounds [of c] assms(1-3) by (intro backoff_range [OF _ _ _ _ v_def]) auto
  have "snd (CongestionWindowAfterPacketLoss c w) = word_of_int (to_integer v)"
    by (simp add: CongestionWindowAfterPacketLoss_def Let_def v_def to_float_exact [OF assms(1)] Beta_def)
  then have "w' = to_integer v"
    using b assms(1) uint_of_int64 [of "to_integer v"] by (simp add: w')
  with b show "w' \<le> uint w" "(10 * num_connections c - 4) * uint w \<le> 10 * num_connections c * (w' + 1)"
    "10 * num_connections c * w' \<le> (10 * num_connections c - 2) * uint w"
    by simp_all
qed

lemma loss_state:
  assumes "CongestionWindowAfterPacketLoss c w = (c', w')"
  shows "epoch c' = 0" "num_connections c' = num_connections c" "last_congestion_window c' = last_congestion_window c"
    "estimated_tcp_congestion_window c' = estimated_tcp_congestion_window c" "acked_bytes_count c' = acked_bytes_count c"
  using assms by (auto simp: CongestionWindowAfterPacketLoss_def Let_def)

section \<open>The cubic curve\<close>

text \<open>The increment of the window the code computes, over the integers.\<close>

definition curve_delta :: "bool \<Rightarrow> int \<Rightarrow> int" where
  "curve_delta quantization_fixed x =
     (if quantization_fixed then 410 * x ^ 3 * 1460 div 2 ^ 40 else 410 * x ^ 3 div 2 ^ 40 * 1460)"

lemma cube_range:
  assumes "\<bar>x\<bar> < 26000"
  shows "- 17576000000000 < x ^ 3" "x ^ 3 < (17576000000000 :: int)"
proof -
  have "\<bar>x\<bar> ^ 3 < 26000 ^ 3"
    using assms by (intro power_strict_mono) auto
  then have "\<bar>x ^ 3\<bar> < 17576000000000"
    by (simp add: power_abs)
  then show "- 17576000000000 < x ^ 3" "x ^ 3 < (17576000000000 :: int)"
    by (simp_all add: abs_less_iff)
qed

lemma delta_congestion_window_eq:
  assumes "\<bar>x\<bar> < 26000" "fix_cubic_quantization c \<Longrightarrow> 0 \<le> x"
  shows "delta_congestion_window c (word_of_int x) = word_of_int (curve_delta (fix_cubic_quantization c) x)"
proof -
  note r = cube_range [OF assms(1)]
  have p: "kCubeCongestionWindowScale * word_of_int x * word_of_int x * word_of_int x = (word_of_int (410 * x ^ 3) :: uint64)"
    by (simp add: kCubeCongestionWindowScale_def power3_eq_cube mult.assoc)
  show ?thesis
  proof (cases "fix_cubic_quantization c")
    case True
    have "word_of_int (410 * x ^ 3) * kDefaultTCPMSS = (word_of_int (410 * x ^ 3 * 1460) :: uint64)"
      by (simp add: kDefaultTCPMSS_def)
    moreover have "drop_bit 40 (word_of_int (410 * x ^ 3 * 1460) :: uint64) = word_of_int (410 * x ^ 3 * 1460 div 2 ^ 40)"
      using True r assms(2) zero_le_power [of x 3] by (intro drop_bit_of_int64) simp_all
    ultimately show ?thesis
      using True unfolding delta_congestion_window_def p curve_delta_def kCubeScale_def by (simp only: if_True)
  next
    case False
    have "signed_drop_bit 40 (word_of_int (410 * x ^ 3) :: uint64) = word_of_int (410 * x ^ 3 div 2 ^ 40)"
      using r by (intro signed_drop_bit_of_int64) simp_all
    then show ?thesis
      using False unfolding delta_congestion_window_def p curve_delta_def kCubeScale_def kDefaultTCPMSS_def by simp
  qed
qed

text \<open>The curve relative to its origin, with the sign the code gives it.\<close>

definition curve_offset :: "bool \<Rightarrow> bool \<Rightarrow> int \<Rightarrow> int" where
  "curve_offset convex quant x =
     (if convex \<and> x < 0 then curve_delta quant (- x) else - curve_delta quant x)"

lemma div_bounds: "0 < m \<Longrightarrow> z div m * m \<le> z \<and> z \<le> z div m * m + m" for z m :: int
  using div_mult_mod_eq [of z m] pos_mod_bound [of m z] pos_mod_sign [of m z] by linarith

lemma curve_delta_error:
  "curve_delta quant x * 2 ^ 40 \<le> 598600 * x ^ 3 \<and> 598600 * x ^ 3 \<le> (curve_delta quant x + 1460) * 2 ^ 40"
proof -
  define a where "a = 410 * x ^ 3 * 1460 div 2 ^ 40"
  define b where "b = 410 * x ^ 3 div 2 ^ 40"
  have "a * 2 ^ 40 \<le> 410 * x ^ 3 * 1460 \<and> 410 * x ^ 3 * 1460 \<le> a * 2 ^ 40 + 2 ^ 40"
    "b * 2 ^ 40 \<le> 410 * x ^ 3 \<and> 410 * x ^ 3 \<le> b * 2 ^ 40 + 2 ^ 40"
    unfolding a_def b_def by (rule div_bounds; simp)+
  then show ?thesis
    unfolding curve_delta_def a_def [symmetric] b_def [symmetric] by (cases quant) auto
qed

lemma curve_offset_error:
  "\<bar>curve_offset convex quant x * 2 ^ 40 + 598600 * x ^ 3\<bar> \<le> 1460 * 2 ^ 40"
proof -
  have "(- x) ^ 3 = - (x ^ 3)"
    by (simp add: power3_eq_cube)
  then show ?thesis
    using curve_delta_error [of quant x] curve_delta_error [of quant "- x"]
    unfolding curve_offset_def abs_le_iff by (auto simp: algebra_simps)
qed

lemma cubic_target_eq:
  assumes t: "0 \<le> t" "t < 26000" and K: "uint (time_to_origin_point c) < 26000"
    and q: "fix_cubic_quantization c \<longrightarrow> fix_convex_mode c"
  shows "cubic_target c (word_of_int t) =
    word_of_int (uint (origin_point_congestion_window c) +
      curve_offset (fix_convex_mode c) (fix_cubic_quantization c) (uint (time_to_origin_point c) - t))"
proof -
  define x where "x = uint (time_to_origin_point c) - t"
  have x: "\<bar>x\<bar> < 26000"
    using t K uint_ge_0 [of "time_to_origin_point c"] unfolding x_def abs_less_iff by linarith
  have w: "ucast (time_to_origin_point c) - word_of_int t = (word_of_int x :: uint64)"
    by (simp add: x_def unsigned_ucast_eq)
  have s: "sint (word_of_int x :: uint64) = x" "sint (word_of_int t :: uint64) = t"
    using x t by (auto intro!: sint_of_int64)

  have o: "origin_point_congestion_window c = word_of_int (uint (origin_point_congestion_window c))"
    by simp
  have d: "delta_congestion_window c (word_of_int y) = word_of_int (curve_delta (fix_cubic_quantization c) y)"
    if "y = x \<or> y = - x" "fix_cubic_quantization c \<Longrightarrow> 0 \<le> y" for y
    using that x by (intro delta_congestion_window_eq) auto
  have lt: "uint (time_to_origin_point c) < t \<longleftrightarrow> x < 0"
    by (auto simp: x_def)
  consider "fix_convex_mode c" "x < 0" | "fix_convex_mode c" "0 \<le> x" | "\<not> fix_convex_mode c"
    by linarith
  then show ?thesis
  proof cases
    case 1
    then have "cubic_target c (word_of_int t) = origin_point_congestion_window c + delta_congestion_window c (word_of_int (- x))"
      unfolding cubic_target_def Let_def w s lt by simp
    with 1 show ?thesis
      using d [of "- x"] unfolding x_def [symmetric] curve_offset_def by simp
  next
    case 2
    then show ?thesis
      using d [of x] unfolding cubic_target_def Let_def w s lt x_def [symmetric] curve_offset_def
      by simp
  next
    case 3
    then show ?thesis
      using d [of x] q unfolding cubic_target_def Let_def w s lt x_def [symmetric] curve_offset_def
      by simp
  qed
qed

lemma kCubeFactor_eq: "kCubeFactor = 1836805"
  unfolding kCubeFactor_def kCubeScale_def kCubeCongestionWindowScale_def kDefaultTCPMSS_def by simp

text \<open>The time to the origin is the cube root of the distance to it.\<close>

lemma start_epoch_origin:
  assumes w: "uint (last_max_congestion_window c) < 2 ^ 22" and c': "c' = start_epoch c a w now"
    and K: "K = uint (time_to_origin_point c')" and W: "W = uint (origin_point_congestion_window c')"
  shows "W = max (uint w) (uint (last_max_congestion_window c))" "K < 26000"
    "K ^ 3 \<le> 1836805 * (W - uint w)" "1836805 * (W - uint w) < (K + 1) ^ 3"
proof -
  define lm where "lm = last_max_congestion_window c"
  have "W = max (uint w) (uint lm) \<and> K < 26000 \<and> K ^ 3 \<le> 1836805 * (W - uint w) \<and> 1836805 * (W - uint w) < (K + 1) ^ 3"
  proof (cases "lm \<le> w")
    case True
    then show ?thesis
      by (simp add: K W c' start_epoch_def lm_def [symmetric] word_le_def)
  next
    case False
    then have "uint w < uint lm"
      by (simp add: word_le_def)
    define d where "d = uint lm - uint w"
    have d: "0 \<le> d" "d < 2 ^ 22"
      using \<open>uint w < uint lm\<close> w uint_ge_0 [of w] unfolding d_def lm_def by linarith+
    have "kCubeFactor * (lm - w) = word_of_int (1836805 * d)"
      by (simp add: kCubeFactor_eq d_def)
    then have u: "uint (kCubeFactor * (lm - w)) = 1836805 * d"
      using d uint_of_int64 [of "1836805 * d"] by simp
    have "double_round (of_int (1836805 * d)) = of_int (1836805 * d)"
      unfolding double_round_def by (rule fround_int) (use d in simp)
    then have r: "nat \<lfloor>double_round (of_int (1836805 * d))\<rfloor> = nat (1836805 * d)"
      by (simp only: floor_of_int)
    define k where "k = icbrt (nat (1836805 * d))"
    have k: "k ^ 3 \<le> nat (1836805 * d)" "nat (1836805 * d) < (k + 1) ^ 3"
      using icbrt_bounds [of "nat (1836805 * d)"] d by (simp_all add: k_def)
    have "k ^ 3 < 26000 ^ 3"
      using k(1) d by simp
    then have k26: "k < 26000"
      by (rule power_less_imp_less_base) simp
    then have "uint (word_of_nat k :: uint32) = int k"
      by (simp add: unsigned_of_nat take_bit_nat_eq_self)
    moreover have "time_to_origin_point c' = word_of_nat (icbrt (nat \<lfloor>double_round (of_int (uint (kCubeFactor * (lm - w))))\<rfloor>))"
      using False unfolding c' start_epoch_def Let_def lm_def by simp
    ultimately have Kk: "K = int k"
      unfolding K k_def u r by simp
    have "int (k ^ 3) \<le> int (nat (1836805 * d))" "int (nat (1836805 * d)) < int ((k + 1) ^ 3)"
      using k by (simp_all only: of_nat_le_iff of_nat_less_iff)
    then have "int (k ^ 3) \<le> 1836805 * d" "1836805 * d < int ((k + 1) ^ 3)"
      using d by simp_all
    moreover have "W = uint lm"
      using False unfolding W c' start_epoch_def by (simp add: lm_def [symmetric])
    ultimately show ?thesis
      using \<open>uint w < uint lm\<close> k26 by (simp add: Kk d_def add.commute)
  qed
  then show "W = max (uint w) (uint (last_max_congestion_window c))" "K < 26000"
    "K ^ 3 \<le> 1836805 * (W - uint w)" "1836805 * (W - uint w) < (K + 1) ^ 3"
    by (simp_all add: lm_def)
qed

text \<open>The curve starts at the current window and stays above zero.\<close>

lemma curve_offset_lower:
  assumes "K ^ 3 \<le> 1836805 * D" "0 \<le> t" "0 \<le> K"
  shows "- D \<le> curve_offset convex quant (K - t)"
proof (cases "K - t < 0")
  case True
  have D: "0 \<le> D"
    using assms(1) zero_le_power [OF assms(3), of 3] by linarith
  have c: "0 \<le> (- (K - t)) ^ 3" "(K - t) ^ 3 = - ((- (K - t)) ^ 3)"
    using zero_le_power [of "- (K - t)" 3] True by (simp_all add: power3_eq_cube algebra_simps)
  then have "(K - t) ^ 3 \<le> 0"
    by linarith
  then have "curve_delta quant (K - t) * 2 ^ 40 \<le> 0"
    using order_trans [OF conjunct1 [OF curve_delta_error [of quant "K - t"]] mult_nonneg_nonpos [of 598600 "(K - t) ^ 3"]]
    by simp
  then have "curve_delta quant (K - t) \<le> 0"
    by simp
  moreover have "0 \<le> curve_delta quant (- (K - t))"
    unfolding curve_delta_def using c(1) by (auto simp del: minus_diff_eq intro!: pos_imp_zdiv_nonneg_iff [THEN iffD2] mult_nonneg_nonneg)
  ultimately show ?thesis
    using True D by (simp add: curve_offset_def)
next
  case False
  have "(K - t) ^ 3 \<le> K ^ 3"
    using assms False by (intro power_mono) auto
  then have "curve_delta quant (K - t) * 2 ^ 40 \<le> 598600 * (1836805 * D)"
    using curve_delta_error [of quant "K - t"] assms(1) by linarith
  moreover have "0 \<le> D"
    using assms(1) zero_le_power [OF assms(3), of 3] by linarith
  ultimately have "curve_delta quant (K - t) \<le> D"
    by simp
  then show ?thesis
    using False by (simp add: curve_offset_def)
qed

lemma cubic_target_curve:
  assumes w: "uint w < 2 ^ 22" "uint (last_max_congestion_window c) < 2 ^ 22"
    and q: "fix_cubic_quantization c \<longrightarrow> fix_convex_mode c" and t: "0 \<le> t" "t < 26000"
    and c': "c' = start_epoch c a w now"
    and K: "K = uint (time_to_origin_point c')" and W: "W = uint (origin_point_congestion_window c')"
  shows "uint w \<le> uint (cubic_target c' (word_of_int t))"
    "\<bar>(uint (cubic_target c' (word_of_int t)) - W) * 2 ^ 40 - 598600 * (t - K) ^ 3\<bar> \<le> 1460 * 2 ^ 40"
proof -
  have c: "fix_cubic_quantization c' = fix_cubic_quantization c" "fix_convex_mode c' = fix_convex_mode c"
    by (simp_all add: c' start_epoch_def Let_def)
  note o = start_epoch_origin [OF w(2) c' K W]
  define y where "y = curve_offset (fix_convex_mode c) (fix_cubic_quantization c) (K - t)"
  have K0: "0 \<le> K"
    by (simp add: K)
  have lo: "- (W - uint w) \<le> y"
    unfolding y_def by (rule curve_offset_lower [OF o(3) t(1) K0])
  have cube: "(t - K) ^ 3 = - ((K - t) ^ 3)"
    by (simp add: power3_eq_cube algebra_simps)
  have err: "\<bar>y * 2 ^ 40 - 598600 * (t - K) ^ 3\<bar> \<le> 1460 * 2 ^ 40"
    using curve_offset_error [of "fix_convex_mode c" "fix_cubic_quantization c" "K - t"] unfolding y_def cube by simp
  have "(t - K) ^ 3 < 17576000000000"
    using t o(2) K0 by (intro cube_range) simp
  then have "y < 2 ^ 32"
    using err unfolding abs_le_iff by simp
  moreover have "W < 2 ^ 22"
    using o(1) w by simp
  ultimately have "0 \<le> W + y" "W + y < 2 ^ 64"
    using lo uint_ge_0 [of w] by (linarith, simp)
  then have eq: "uint (cubic_target c' (word_of_int t)) = W + y"
    using cubic_target_eq [OF t, of c'] o(2) q c uint_of_int64 [of "W + y"] by (simp add: K W y_def)
  show "uint w \<le> uint (cubic_target c' (word_of_int t))"
    unfolding eq using lo by linarith
  show "\<bar>(uint (cubic_target c' (word_of_int t)) - W) * 2 ^ 40 - 598600 * (t - K) ^ 3\<bar> \<le> 1460 * 2 ^ 40"
    unfolding eq using err by simp
qed

section \<open>The emulated TCP window\<close>

lemma to_float_bounds:
  assumes "uint w < 2 ^ 32"
  shows "0 \<le> to_float w" "to_float w \<le> 2 ^ 33"
    and "0 < m \<Longrightarrow> m \<le> uint w \<Longrightarrow> m < 2 ^ 24 \<Longrightarrow> of_int m \<le> to_float w"
proof -
  define x where "x = uint w"
  have "(0::rat) \<le> of_int x" "(of_int x :: rat) < of_int (2 ^ 32)"
    using assms by (simp_all only: x_def of_int_0_le_iff of_int_less_iff uint_ge_0)
  then show "0 \<le> to_float w" "to_float w \<le> 2 ^ 33"
    using float_round_nonneg [of "of_int x"] float_round_double [of "of_int x"]
    unfolding to_float_def x_def [symmetric] by simp_all
  show "of_int m \<le> to_float w" if "0 < m" "m \<le> uint w" "m < 2 ^ 24"
    unfolding to_float_def using that by (intro float_round_ge) (simp_all only: of_int_le_iff)
qed

lemma Alpha_bounds:
  assumes "1 \<le> num_connections c" "num_connections c \<le> 16"
  shows "0 \<le> Alpha c \<and> Alpha c \<le> 768"
proof -
  define b where "b = Beta c"
  have b: "0 \<le> b" "b \<le> 1"
    using Beta_bounds [of c] assms by (auto simp: b_def)
  define n where "n = num_connections c"
  have n: "0 \<le> 3 * n * n" "3 * n * n \<le> 768"
    using assms mult_mono [of n 16 n 16] by (auto simp: n_def)
  define x where "x = float_round (of_int (3 * n * n)) * float_round (1 - b)"
  have f: "0 \<le> float_round (1 - b)" "float_round (1 - b) \<le> 1" "1 \<le> float_round (1 + b)"
    using float_round_nonneg [of "1 - b"] float_round_le [of "1 - b" 1] float_round_ge [of 1 "1 + b"] b by simp_all
  have f3: "float_round (of_int (3 * n * n)) \<le> of_int 768" "0 \<le> float_round (of_int (3 * n * n))"
    using float_round_le [of "of_int (3 * n * n)" 768] float_round_nonneg [of "of_int (3 * n * n)"] n
    by (simp_all only: of_int_le_iff of_int_0_le_iff) simp_all
  have "x \<le> of_int 768 * 1"
    unfolding x_def by (rule mult_mono [OF f3(1) f(2) _ f(1)]) simp
  moreover have "0 \<le> x"
    unfolding x_def by (rule mult_nonneg_nonneg [OF f3(2) f(1)])
  ultimately have y: "0 \<le> float_round x" "float_round x \<le> 768"
    using float_round_nonneg [of x] float_round_le [of x 768] by simp_all
  have "float_round x / float_round (1 + b) \<le> float_round x / 1"
    using y f(3) by (intro divide_left_mono) auto
  then have "0 \<le> float_round x / float_round (1 + b)" "float_round x / float_round (1 + b) \<le> of_int 768"
    using y f(3) by auto
  then show ?thesis
    unfolding Alpha_def Let_def b_def [symmetric] n_def [symmetric] x_def [symmetric]
    using float_round_nonneg float_round_le [of _ 768] by auto
qed

lemma updated_tcp_window_ge:
  assumes n: "1 \<le> num_connections c" "num_connections c \<le> 16"
    and m: "0 < m" "m \<le> uint (estimated_tcp_congestion_window c)" "m < 2 ^ 24"
    and b: "uint (estimated_tcp_congestion_window c) < 2 ^ 32" "uint (acked_bytes_count c) < 2 ^ 32"
  shows "m \<le> uint (updated_tcp_window c) \<and> uint (updated_tcp_window c) < 2 ^ 63"
proof -
  define E where "E = to_float (estimated_tcp_congestion_window c)"
  define A where "A = to_float (acked_bytes_count c)"
  define p where "p = float_round (Alpha c * to_float kDefaultTCPMSS)"
  have E: "of_int m \<le> E" "E \<le> 2 ^ 33"
    unfolding E_def using to_float_bounds(2) [OF b(1)] to_float_bounds(3) [OF b(1) m] by simp_all
  have A: "0 \<le> A" "A \<le> 2 ^ 33"
    unfolding A_def using to_float_bounds(1,2) [OF b(2)] by simp_all
  have "(1::rat) \<le> of_int m"
    using m(1) by simp
  then have E1: "1 \<le> E"
    using E by linarith
  have mss: "to_float kDefaultTCPMSS = 1460"
    using to_float_exact [of kDefaultTCPMSS] by (simp add: kDefaultTCPMSS_def)
  have p: "0 \<le> p" "p \<le> 2 ^ 23"
    using Alpha_bounds [OF n] float_round_nonneg [of "Alpha c * 1460"] float_round_double [of "Alpha c * 1460"]
    unfolding p_def mss by simp_all
  have Ap: "0 \<le> A * p" "A * p \<le> 2 ^ 33 * 2 ^ 23"
    using mult_nonneg_nonneg [OF A(1) p(1)] mult_mono [OF A(2) p(2) _ p(1)] by simp_all
  then have f: "0 \<le> float_round (A * p)" "float_round (A * p) \<le> 2 ^ 57"
    using float_round_nonneg [of "A * p"] float_round_double [of "A * p"] by simp_all
  moreover have "float_round (A * p) / E \<le> float_round (A * p) / 1"
    using E1 f by (intro divide_left_mono) auto
  ultimately have "0 \<le> float_round (A * p) / E" "float_round (A * p) / E \<le> 2 ^ 57"
    using E1 by auto
  then have d: "0 \<le> float_round (float_round (A * p) / E)" "float_round (float_round (A * p) / E) \<le> 2 ^ 58"
    using float_round_nonneg float_round_double [of "float_round (A * p) / E"] by auto
  define x where "x = E + float_round (float_round (A * p) / E)"
  have x: "of_int m \<le> x" "0 \<le> x" "x \<le> 2 ^ 59"
    using E d \<open>(1::rat) \<le> of_int m\<close> by (simp_all add: x_def)
  then have v: "of_int m \<le> float_round x" "0 \<le> float_round x" "float_round x \<le> 2 ^ 60"
    using float_round_ge [OF x(1) m(1,3)] float_round_nonneg [of x] float_round_double [of x] by simp_all
  define i where "i = to_integer (float_round x)"
  have i: "0 \<le> i" "of_int i \<le> float_round x" "float_round x < of_int i + 1"
    using to_integer_nonneg [OF v(2)] by (simp_all add: i_def)
  have "of_int m < (of_int (i + 1) :: rat)" "(of_int i :: rat) \<le> of_int (2 ^ 60)"
    using i v by simp_all
  then have "m \<le> i" "i \<le> 2 ^ 60"
    by (simp_all only: of_int_less_iff of_int_le_iff)
  moreover have "updated_tcp_window c = word_of_int i"
    by (simp add: updated_tcp_window_def i_def x_def E_def A_def p_def)
  ultimately show ?thesis
    using i(1) uint_of_int64 [of i] by simp
qed

section \<open>The invariant of the window computation\<close>

text \<open>
  Once an epoch or an update has started, the emulated TCP window is at least the minimum window
  \<open>m\<close>; in particular the division by it in \<^const>\<open>updated_tcp_window\<close> is defined.
\<close>

definition cubic_ok :: "int \<Rightarrow> cubic_bytes \<Rightarrow> bool" where
  "cubic_ok m c \<longleftrightarrow>
     1 \<le> num_connections c \<and> num_connections c \<le> 16 \<and>
     (epoch c \<noteq> 0 \<or> last_congestion_window c \<noteq> 0 \<longrightarrow> m \<le> uint (estimated_tcp_congestion_window c))"

definition after_update :: "cubic_bytes \<Rightarrow> QuicByteCount \<Rightarrow> QuicByteCount \<Rightarrow> QuicTime \<Rightarrow> cubic_bytes" where
  "after_update c bytes_acked w event_time =
     (let c = c\<lparr>acked_bytes_count := acked_bytes_count c + bytes_acked, last_congestion_window := w,
                last_update_time := event_time\<rparr>
      in if epoch c = 0 then start_epoch c bytes_acked w event_time else c)"

lemma CongestionWindowAfterAck_cases:
  obtains (cached) "CongestionWindowAfterAck c a w d t =
      (c\<lparr>acked_bytes_count := acked_bytes_count c + a\<rparr>,
       max (last_target_congestion_window c) (estimated_tcp_congestion_window c))"
    "last_congestion_window c = w"
  | (updated) c1 target where "c1 = after_update c a w t"
    "target = min (cubic_target c1 (elapsed_time c1 d t)) (w + acked_bytes_count c1 div 2)"
    "CongestionWindowAfterAck c a w d t =
      (c1\<lparr>estimated_tcp_congestion_window := updated_tcp_window c1, acked_bytes_count := 0,
          last_target_congestion_window := target\<rparr>, max target (updated_tcp_window c1))"
proof (cases "\<not> allow_per_ack_updates c \<and> last_congestion_window c = w \<and> t - last_update_time c \<le> MaxCubicTimeInterval")
  case True
  then show ?thesis
    by (intro cached) (simp_all add: CongestionWindowAfterAck_def Let_def)
next
  case False
  define c1 where "c1 = after_update c a w t"
  define target where "target = min (cubic_target c1 (elapsed_time c1 d t)) (w + acked_bytes_count c1 div 2)"
  have "CongestionWindowAfterAck c a w d t =
    (c1\<lparr>estimated_tcp_congestion_window := updated_tcp_window c1, acked_bytes_count := 0,
        last_target_congestion_window := target\<rparr>,
     if target < updated_tcp_window c1 then updated_tcp_window c1 else target)"
    unfolding CongestionWindowAfterAck_def target_def c1_def after_update_def Let_def
    by (rule trans [OF if_not_P]) (use False in simp, simp)
  then show ?thesis
    by (intro updated [OF c1_def target_def]) (auto simp: max_def)
qed

lemma after_update_facts:
  assumes "cubic_ok m c" "epoch c \<noteq> 0 \<longrightarrow> estimated_tcp_congestion_window c \<le> w" "m \<le> uint w"
    and "uint (acked_bytes_count c) + uint a < 2 ^ 32"
    and c1: "c1 = after_update c a w t"
  shows "1 \<le> num_connections c1" "num_connections c1 \<le> 16" "m \<le> uint (estimated_tcp_congestion_window c1)"
    "estimated_tcp_congestion_window c1 \<le> w" "uint (acked_bytes_count c1) < 2 ^ 32"
    "uint (acked_bytes_count c1) \<le> uint (acked_bytes_count c) + uint a"
proof -
  have s: "uint (acked_bytes_count c + a) = uint (acked_bytes_count c) + uint a"
    using assms(4) by (simp add: uint_word_ariths)
  have a: "uint a < 2 ^ 32"
    using assms(4) uint_ge_0 [of "acked_bytes_count c"] by linarith
  show "1 \<le> num_connections c1" "num_connections c1 \<le> 16" "m \<le> uint (estimated_tcp_congestion_window c1)"
    "estimated_tcp_congestion_window c1 \<le> w"
    using assms(1-3) by (auto simp: c1 after_update_def start_epoch_def Let_def cubic_ok_def)
  have "acked_bytes_count c1 = (if epoch c = 0 then a else acked_bytes_count c + a)"
    by (simp add: c1 after_update_def start_epoch_def Let_def)
  then show "uint (acked_bytes_count c1) < 2 ^ 32" "uint (acked_bytes_count c1) \<le> uint (acked_bytes_count c) + uint a"
    using s a assms(4) uint_ge_0 [of "acked_bytes_count c"] by (simp_all only: if_splits split: if_splits) auto
qed

lemma after_ack_ok:
  assumes c: "cubic_ok m c" "epoch c \<noteq> 0 \<longrightarrow> estimated_tcp_congestion_window c \<le> w"
    and m: "0 < m" "m < 2 ^ 24" "m \<le> uint w" and w: "uint w < 2 ^ 32"
    and a: "uint (acked_bytes_count c) + uint a < 2 ^ 32"
    and r: "CongestionWindowAfterAck c a w d t = (c', r)"
  shows "cubic_ok m c'" "m \<le> uint r" "estimated_tcp_congestion_window c' \<le> r"
    "uint (acked_bytes_count c') \<le> uint (acked_bytes_count c) + uint a"
proof -
  have "cubic_ok m c' \<and> m \<le> uint r \<and> estimated_tcp_congestion_window c' \<le> r \<and>
    uint (acked_bytes_count c') \<le> uint (acked_bytes_count c) + uint a"
  proof (cases rule: CongestionWindowAfterAck_cases [of c a w d t])
    case cached
    have "w \<noteq> 0"
      using m by auto
    then have e: "m \<le> uint (estimated_tcp_congestion_window c)"
      using c(1) cached(2) by (simp add: cubic_ok_def)
    also have "\<dots> \<le> uint (max (last_target_congestion_window c) (estimated_tcp_congestion_window c))"
      by (simp add: word_le_def [symmetric])
    finally have "m \<le> uint r"
      using cached(1) r by simp
    moreover have "uint (acked_bytes_count c + a) = uint (acked_bytes_count c) + uint a"
      using a by (simp add: uint_word_ariths)
    ultimately show ?thesis
      using cached(1) r c(1) by (auto simp: cubic_ok_def)
  next
    case (updated c1 target)
    note f = after_update_facts [OF c m(3) a updated(1)]
    have "uint (estimated_tcp_congestion_window c1) < 2 ^ 32"
      using f(4) w by (simp add: word_le_def)
    from updated_tcp_window_ge [OF f(1,2) m(1) f(3) m(2) this f(5)]
    have u: "m \<le> uint (updated_tcp_window c1)"
      by simp
    also have "\<dots> \<le> uint (max target (updated_tcp_window c1))"
      by (simp add: word_le_def [symmetric])
    finally have "m \<le> uint r"
      using updated(3) r by simp
    then show ?thesis
      using updated(3) r u f(1,2) uint_ge_0 [of "acked_bytes_count c"] by (auto simp: cubic_ok_def)
  qed
  then show "cubic_ok m c'" "m \<le> uint r" "estimated_tcp_congestion_window c' \<le> r"
    "uint (acked_bytes_count c') \<le> uint (acked_bytes_count c) + uint a"
    by simp_all
qed

lemma elapsed_time_eq:
  assumes "0 \<le> t + d - epoch c" "t + d - epoch c < 25000000"
  shows "elapsed_time c d t = word_of_int ((t + d - epoch c) * 1024 div 1000000)"
proof -
  define x where "x = t + d - epoch c"
  have "push_bit 10 (word_of_int x :: uint64) = word_of_int (x * 1024)"
    by (simp add: push_bit_eq_mult)
  moreover have "uint (word_of_int (x * 1024) :: uint64) = x * 1024"
    using assms by (intro uint_of_int64) (simp_all add: x_def)
  ultimately have "elapsed_time c d t = word_of_int (x * 1024 div uint kNumMicrosPerSecond)"
    unfolding elapsed_time_def x_def [symmetric] word_div_def by simp
  then show ?thesis
    by (simp add: x_def kNumMicrosPerSecond_def)
qed

section \<open>Properties\<close>

text \<open>
  After a loss the window is cut by thirty percent divided by the number of emulated connections,
  up to a third of that share and one byte for the rounding, and never grows; the epoch of the cubic
  curve ends.
\<close>

theorem cubic_backoff:
  assumes "uint w < 2 ^ 24" "1 \<le> num_connections c" "num_connections c \<le> 2 ^ 10"
    and "CongestionWindowAfterPacketLoss c w = (c', w')"
  shows "(10 * num_connections c - 4) * uint w \<le> 10 * num_connections c * (uint w' + 1) \<and>
         10 * num_connections c * uint w' \<le> (10 * num_connections c - 2) * uint w \<and>
         w' \<le> w \<and> epoch c' = 0 \<and> num_connections c' = num_connections c"
  using loss_window [OF assms(1-3), of "uint w'"] loss_state [OF assms(4)] assms(4) by (simp add: word_le_def)

theorem cubic_backoff_witness:
  "\<exists>c' w'. CongestionWindowAfterPacketLoss CubicBytes 146000 = (c', w') \<and> 16 * 146000 \<le> 20 * (uint w' + 1) \<and>
           20 * uint w' \<le> 18 * 146000"
proof (intro exI conjI)
  show "CongestionWindowAfterPacketLoss CubicBytes 146000 =
    (fst (CongestionWindowAfterPacketLoss CubicBytes 146000), snd (CongestionWindowAfterPacketLoss CubicBytes 146000))"
    by simp
  note p = cubic_backoff [of 146000 CubicBytes, OF _ _ _ this]
  show "16 * 146000 \<le> 20 * (uint (snd (CongestionWindowAfterPacketLoss CubicBytes 146000)) + 1)"
    using p by (simp add: CubicBytes_def)
  show "20 * uint (snd (CongestionWindowAfterPacketLoss CubicBytes 146000)) \<le> 18 * 146000"
    using p by (simp add: CubicBytes_def)
qed

text \<open>
  C21: During an epoch the target of the window follows the cubic curve of the paper: with origin the
  larger of the current window and the last maximum, and the time to the origin the integer cube root
  of their distance, the target \<open>d\<close> microseconds into the epoch differs from the exact cubic function
  by at most one segment, in each of the modes in which the quantization fix comes with the convex fix,
  for windows below 4 MB and during the first 25 seconds of the epoch.
  It is never below the window at the start of the epoch, so that no subtraction wraps.
\<close>

theorem cubic_follows_curve:
  assumes "uint w < 2 ^ 22" "uint (last_max_congestion_window c) < 2 ^ 22"
    and "fix_cubic_quantization c \<longrightarrow> fix_convex_mode c"
    and "c' = start_epoch c a w now" "d = event_time + delay_min - now" "0 \<le> d" "d < 25000000"
    and "target = uint (cubic_target c' (elapsed_time c' delay_min event_time))"
    and "K = uint (time_to_origin_point c')" and "W = uint (origin_point_congestion_window c')"
  shows "W = max (uint w) (uint (last_max_congestion_window c)) \<and>
         K ^ 3 \<le> 1836805 * (W - uint w) \<and> 1836805 * (W - uint w) < (K + 1) ^ 3 \<and>
         uint w \<le> target \<and>
         \<bar>(target - W) * 2 ^ 40 - 410 * 1460 * (d * 1024 div 1000000 - K) ^ 3\<bar> \<le> 1460 * 2 ^ 40"
proof -
  have "epoch c' = now"
    by (simp add: assms(4) start_epoch_def Let_def)
  then have "target = uint (cubic_target c' (word_of_int (d * 1024 div 1000000)))"
    using elapsed_time_eq [of event_time delay_min c'] assms(5-8) by simp
  moreover have "d * 1024 div 1000000 < 26000" "0 \<le> d * 1024 div 1000000"
    using assms(6,7) zdiv_mono1 [of "d * 1024" "25000000 * 1024" 1000000] by simp_all
  ultimately show ?thesis
    using start_epoch_origin [OF assms(2,4,9,10)] cubic_target_curve [OF assms(1-3) _ _ assms(4,9,10)] by simp
qed

theorem cubic_follows_curve_witness:
  "let c = CubicBytes\<lparr>last_max_congestion_window := 146000\<rparr>; c' = start_epoch c 0 100000 1000000
   in 100000 \<le> uint (cubic_target c' (elapsed_time c' 50000 3000000))"
  using cubic_follows_curve [of 100000 "CubicBytes\<lparr>last_max_congestion_window := 146000\<rparr>"
      "start_epoch (CubicBytes\<lparr>last_max_congestion_window := 146000\<rparr>) 0 100000 1000000" 0 1000000 2050000 3000000 50000]
  by (simp add: CubicBytes_def Let_def)

end
