(* ===== verification/Quic_Tag.thy ===== *)
theory Quic_Tag
  imports Quic_Prelude "HOL-Library.Char_ord"
begin

text \<open>
  Four-byte tags, \<^verbatim>\<open>src/model/net/quic/core/quic_tag.cc\<close>, and the tags of
  \<^verbatim>\<open>crypto/crypto_protocol.h\<close> that configure congestion control.  The fallback text of a tag that
  is not printable, its number in decimal, is an argument of \<open>QuicTagToString\<close>.
\<close>

unbundle bit_operations_syntax

type_synonym QuicTag = uint32

definition char_to_uint32 :: "char \<Rightarrow> uint32" where
  "char_to_uint32 c = of_char c"

definition MakeQuicTag :: "char \<Rightarrow> char \<Rightarrow> char \<Rightarrow> char \<Rightarrow> QuicTag" where
  "MakeQuicTag a b c d =
     char_to_uint32 a OR push_bit 8 (char_to_uint32 b) OR push_bit 16 (char_to_uint32 c) OR
     push_bit 24 (char_to_uint32 d)"

definition ContainsQuicTag :: "QuicTag list \<Rightarrow> QuicTag \<Rightarrow> bool" where
  "ContainsQuicTag tag_vector tag \<longleftrightarrow> tag \<in> set tag_vector"

text \<open>The inner loop over the peer's tags, with the index it has reached.\<close>

fun find_their_tag :: "QuicTag \<Rightarrow> QuicTag list \<Rightarrow> nat \<Rightarrow> nat option" where
  "find_their_tag t [] j = None"
| "find_their_tag t (u # us) j = (if t = u then Some j else find_their_tag t us (Suc j))"

fun FindMutualQuicTag :: "QuicTag list \<Rightarrow> QuicTag list \<Rightarrow> (QuicTag \<times> nat) option" where
  "FindMutualQuicTag [] their_tags = None"
| "FindMutualQuicTag (t # our_tags) their_tags =
     (case find_their_tag t their_tags 0 of Some j \<Rightarrow> Some (t, j) | None \<Rightarrow> FindMutualQuicTag our_tags their_tags)"

text \<open>\<^verbatim>\<open>isprint\<close> in the C locale.\<close>

definition isprint :: "uint8 \<Rightarrow> bool" where "isprint c \<longleftrightarrow> 32 \<le> c \<and> c \<le> 126"

text \<open>The loop over the bytes of a tag; the first argument counts the bytes that are left.\<close>

fun tag_chars :: "nat \<Rightarrow> QuicTag \<Rightarrow> uint8 list option" where
  "tag_chars 0 tag = Some []"
| "tag_chars (Suc k) tag =
     (let ch = ucast tag :: uint8;
          ch = (if (ch = 0 \<or> ch = 255) \<and> k = 0 then 32 else ch)
      in if isprint ch
         then (case tag_chars k (drop_bit 8 tag) of None \<Rightarrow> None | Some cs \<Rightarrow> Some (ch # cs))
         else None)"

definition QuicTagToString :: "(QuicTag \<Rightarrow> string) \<Rightarrow> QuicTag \<Rightarrow> string" where
  "QuicTagToString Uint64ToString tag =
     (case tag_chars 4 tag of Some cs \<Rightarrow> map (\<lambda>c. char_of (unat c)) cs | None \<Rightarrow> Uint64ToString tag)"

definition kIW03 :: QuicTag where "kIW03 = MakeQuicTag (CHR ''I'') (CHR ''W'') (CHR ''0'') (CHR ''3'')"
definition kIW10 :: QuicTag where "kIW10 = MakeQuicTag (CHR ''I'') (CHR ''W'') (CHR ''1'') (CHR ''0'')"
definition kIW20 :: QuicTag where "kIW20 = MakeQuicTag (CHR ''I'') (CHR ''W'') (CHR ''2'') (CHR ''0'')"
definition kIW50 :: QuicTag where "kIW50 = MakeQuicTag (CHR ''I'') (CHR ''W'') (CHR ''5'') (CHR ''0'')"
definition kMIN1 :: QuicTag where "kMIN1 = MakeQuicTag (CHR ''M'') (CHR ''I'') (CHR ''N'') (CHR ''1'')"
definition kMIN4 :: QuicTag where "kMIN4 = MakeQuicTag (CHR ''M'') (CHR ''I'') (CHR ''N'') (CHR ''4'')"
definition kSSLR :: QuicTag where "kSSLR = MakeQuicTag (CHR ''S'') (CHR ''S'') (CHR ''L'') (CHR ''R'')"
definition kNPRR :: QuicTag where "kNPRR = MakeQuicTag (CHR ''N'') (CHR ''P'') (CHR ''R'') (CHR ''R'')"
definition kCCVX :: QuicTag where "kCCVX = MakeQuicTag (CHR ''C'') (CHR ''C'') (CHR ''V'') (CHR ''X'')"
definition kCBQT :: QuicTag where "kCBQT = MakeQuicTag (CHR ''C'') (CHR ''B'') (CHR ''Q'') (CHR ''T'')"
definition kBLMX :: QuicTag where "kBLMX = MakeQuicTag (CHR ''B'') (CHR ''L'') (CHR ''M'') (CHR ''X'')"
definition kCPAU :: QuicTag where "kCPAU = MakeQuicTag (CHR ''C'') (CHR ''P'') (CHR ''A'') (CHR ''U'')"

lemmas tag_defs = kIW03_def kIW10_def kIW20_def kIW50_def kMIN1_def kMIN4_def kSSLR_def kNPRR_def kCCVX_def
  kCBQT_def kBLMX_def kCPAU_def

section \<open>Facts\<close>

lemma find_their_tag_Some: "find_their_tag t us j = Some i \<Longrightarrow> j \<le> i \<and> i - j < length us \<and> us ! (i - j) = t"
  by (induction t us j rule: find_their_tag.induct) (auto simp: nth_Cons' Suc_diff_Suc split: if_splits)

lemma find_their_tag_None: "find_their_tag t us j = None \<longleftrightarrow> t \<notin> set us"
  by (induction t us j rule: find_their_tag.induct) auto

text \<open>Negotiation takes the first of our tags the peer has, and finds one if there is any.\<close>

lemma FindMutualQuicTag_Some:
  "FindMutualQuicTag ours theirs = Some (t, j) \<Longrightarrow>
   t \<in> set ours \<and> j < length theirs \<and> theirs ! j = t \<and> (\<forall>u\<in>set (takeWhile (\<lambda>u. u \<noteq> t) ours). u \<notin> set theirs)"
  by (induction ours theirs rule: FindMutualQuicTag.induct)
    (auto simp: find_their_tag_None dest: find_their_tag_Some split: option.splits if_splits)

lemma FindMutualQuicTag_None: "FindMutualQuicTag ours theirs = None \<longleftrightarrow> set ours \<inter> set theirs = {}"
  by (induction ours theirs rule: FindMutualQuicTag.induct)
    (auto simp: find_their_tag_None dest: find_their_tag_Some split: option.splits)

end
