(* ===== verification/Tcp_Cubic_Sender.thy ===== *)
theory Tcp_Cubic_Sender
  imports Rtt_Stats Hybrid_Slow_Start Prr_Sender Cubic_Bytes Quic_Tag
begin

text \<open>
  The TCP-like congestion controller, \<^verbatim>\<open>TcpCubicSenderBase\<close> and \<^verbatim>\<open>TcpCubicSenderBytes\<close> of
  \<^verbatim>\<open>src/model/net/quic/core/congestion_control/\<close> with the setters this repository adds.  The two
  classes are one record; the statistics it counts are part of it, and the round trip time estimator
  it reads is an argument.
\<close>

section \<open>State\<close>

definition kMaxBurstBytes :: QuicByteCount where "kMaxBurstBytes = 3 * kDefaultTCPMSS"
definition kRenoBeta :: rat where "kRenoBeta = float_round (7 / 10)"
definition kDefaultNumConnections :: uint32 where "kDefaultNumConnections = 2"
definition kDefaultMinimumCongestionWindow :: QuicByteCount where
  "kDefaultMinimumCongestionWindow = 2 * kDefaultTCPMSS"

record sender_stats =
  slowstart_packets_sent :: uint64
  slowstart_packets_lost :: uint64
  slowstart_bytes_lost :: QuicByteCount
  tcp_loss_events :: uint32

record tcp_cubic_sender =
  hybrid_slow_start :: hybrid_slow_start
  prr :: prr_sender
  stats :: sender_stats
  reno :: bool
  emulated_connections :: uint32
  largest_sent_packet_number :: QuicPacketNumber
  largest_acked_packet_number :: QuicPacketNumber
  largest_sent_at_last_cutback :: QuicPacketNumber
  min4_mode :: bool
  last_cutback_exited_slowstart :: bool
  slow_start_large_reduction :: bool
  no_prr :: bool
  cubic :: cubic_bytes
  num_acked_packets :: uint64
  congestion_window :: QuicByteCount
  min_congestion_window :: QuicByteCount
  max_congestion_window :: QuicByteCount
  slowstart_threshold :: QuicByteCount
  initial_tcp_congestion_window :: QuicByteCount
  initial_max_tcp_congestion_window :: QuicByteCount
  min_slow_start_exit_window :: QuicByteCount

definition TcpCubicSenderBytes :: "bool \<Rightarrow> uint64 \<Rightarrow> uint64 \<Rightarrow> sender_stats \<Rightarrow> tcp_cubic_sender" where
  "TcpCubicSenderBytes is_reno initial_window max_window st =
     \<lparr>hybrid_slow_start = HybridSlowStart, prr = PrrSender, stats = st, reno = is_reno,
      emulated_connections = kDefaultNumConnections, largest_sent_packet_number = 0,
      largest_acked_packet_number = 0, largest_sent_at_last_cutback = 0, min4_mode = False,
      last_cutback_exited_slowstart = False, slow_start_large_reduction = False, no_prr = False,
      cubic = CubicBytes, num_acked_packets = 0, congestion_window = initial_window * kDefaultTCPMSS,
      min_congestion_window = kDefaultMinimumCongestionWindow,
      max_congestion_window = max_window * kDefaultTCPMSS, slowstart_threshold = max_window * kDefaultTCPMSS,
      initial_tcp_congestion_window = initial_window * kDefaultTCPMSS,
      initial_max_tcp_congestion_window = max_window * kDefaultTCPMSS,
      min_slow_start_exit_window = kDefaultMinimumCongestionWindow\<rparr>"

section \<open>Configuration\<close>

definition SetCongestionWindowInPackets :: "tcp_cubic_sender \<Rightarrow> uint64 \<Rightarrow> tcp_cubic_sender" where
  "SetCongestionWindowInPackets s n = s\<lparr>congestion_window := n * kDefaultTCPMSS\<rparr>"

definition SetMinCongestionWindowInPackets :: "tcp_cubic_sender \<Rightarrow> uint64 \<Rightarrow> tcp_cubic_sender" where
  "SetMinCongestionWindowInPackets s n = s\<lparr>min_congestion_window := n * kDefaultTCPMSS\<rparr>"

datatype Perspective = IS_SERVER | IS_CLIENT

text \<open>The received connection options, if the configuration has any.\<close>

type_synonym connection_options = "QuicTag list option"

definition has_option :: "connection_options \<Rightarrow> QuicTag \<Rightarrow> bool" where
  "has_option config tag = (case config of None \<Rightarrow> False | Some tags \<Rightarrow> ContainsQuicTag tags tag)"

definition base_SetFromConfig :: "tcp_cubic_sender \<Rightarrow> connection_options \<Rightarrow> Perspective \<Rightarrow> tcp_cubic_sender" where
  "base_SetFromConfig s config perspective =
     (if perspective = IS_SERVER then
        let s = (if has_option config kIW03 then SetCongestionWindowInPackets s 3 else s);
            s = (if has_option config kIW10 then SetCongestionWindowInPackets s 10 else s);
            s = (if has_option config kIW20 then SetCongestionWindowInPackets s 20 else s);
            s = (if has_option config kIW50 then SetCongestionWindowInPackets s 50 else s);
            s = (if has_option config kMIN1 then SetMinCongestionWindowInPackets s 1 else s);
            s = (if has_option config kMIN4 then SetMinCongestionWindowInPackets (s\<lparr>min4_mode := True\<rparr>) 1 else s);
            s = (if has_option config kSSLR then s\<lparr>slow_start_large_reduction := True\<rparr> else s);
            s = (if has_option config kNPRR then s\<lparr>no_prr := True\<rparr> else s)
        in s
      else s)"

definition SetFromConfig :: "tcp_cubic_sender \<Rightarrow> connection_options \<Rightarrow> Perspective \<Rightarrow> tcp_cubic_sender" where
  "SetFromConfig s config perspective =
     (let s = base_SetFromConfig s config perspective;
          s = (if has_option config kCCVX then s\<lparr>cubic := SetFixConvexMode (cubic s) True\<rparr> else s);
          s = (if has_option config kCBQT then s\<lparr>cubic := SetFixCubicQuantization (cubic s) True\<rparr> else s);
          s = (if has_option config kBLMX then s\<lparr>cubic := SetFixBetaLastMax (cubic s) True\<rparr> else s);
          s = (if has_option config kCPAU then s\<lparr>cubic := SetAllowPerAckUpdates (cubic s) True\<rparr> else s)
      in s)"

definition SetSlowstartthresholdInBytesPublic :: "tcp_cubic_sender \<Rightarrow> QuicByteCount \<Rightarrow> tcp_cubic_sender" where
  "SetSlowstartthresholdInBytesPublic s threshhold =
     s\<lparr>slowstart_threshold := max (min_congestion_window s) (min threshhold (slowstart_threshold s))\<rparr>"

definition SetSlowstartthresholdFromBandwidthAndRttPublic ::
  "tcp_cubic_sender \<Rightarrow> QuicBandwidth \<Rightarrow> QuicTimeDelta \<Rightarrow> tcp_cubic_sender" where
  "SetSlowstartthresholdFromBandwidthAndRttPublic s bandwidth rtt =
     (let threshhold = ToBytesPerPeriod bandwidth rtt
      in s\<lparr>slowstart_threshold := max (min_congestion_window s) (min threshhold (slowstart_threshold s))\<rparr>)"

definition SetMinSlowstartExitWindowPublic :: "tcp_cubic_sender \<Rightarrow> QuicByteCount \<Rightarrow> tcp_cubic_sender" where
  "SetMinSlowstartExitWindowPublic s windowSize =
     s\<lparr>min_slow_start_exit_window := min (congestion_window s) (max (initial_tcp_congestion_window s div 2) windowSize)\<rparr>"

definition SetMinSlowstartExitWindowFromBandwidthAndRttPublic ::
  "tcp_cubic_sender \<Rightarrow> QuicBandwidth \<Rightarrow> QuicTimeDelta \<Rightarrow> tcp_cubic_sender" where
  "SetMinSlowstartExitWindowFromBandwidthAndRttPublic s bandwidth rtt =
     (let windowSize = ToBytesPerPeriod bandwidth rtt
      in s\<lparr>min_slow_start_exit_window := min (congestion_window s) (max (initial_tcp_congestion_window s div 2) windowSize)\<rparr>)"

definition limited_window :: "tcp_cubic_sender \<Rightarrow> QuicByteCount \<Rightarrow> QuicByteCount" where
  "limited_window s new_congestion_window =
     max (min_congestion_window s) (min new_congestion_window (kMaxResumptionCongestionWindow * kDefaultTCPMSS))"

definition SetCongestionWindowFromBandwidthAndRtt ::
  "tcp_cubic_sender \<Rightarrow> QuicBandwidth \<Rightarrow> QuicTimeDelta \<Rightarrow> tcp_cubic_sender" where
  "SetCongestionWindowFromBandwidthAndRtt s bandwidth rtt =
     s\<lparr>congestion_window := limited_window s (ToBytesPerPeriod bandwidth rtt)\<rparr>"

definition SetCongestionWindowFromBandwidthAndRttPublic ::
  "tcp_cubic_sender \<Rightarrow> QuicBandwidth \<Rightarrow> QuicTimeDelta \<Rightarrow> tcp_cubic_sender" where
  "SetCongestionWindowFromBandwidthAndRttPublic s bandwidth rtt =
     s\<lparr>congestion_window := limited_window s (ToBytesPerPeriod bandwidth rtt)\<rparr>"

definition SetCongestionWindowInPacketsPublic :: "tcp_cubic_sender \<Rightarrow> uint64 \<Rightarrow> tcp_cubic_sender" where
  "SetCongestionWindowInPacketsPublic s n = s\<lparr>congestion_window := n * kDefaultTCPMSS\<rparr>"

definition SetInitialCongestionWindowInBytesPublic :: "tcp_cubic_sender \<Rightarrow> QuicByteCount \<Rightarrow> tcp_cubic_sender" where
  "SetInitialCongestionWindowInBytesPublic s w = s\<lparr>initial_tcp_congestion_window := w\<rparr>"

definition SetInitialCongestionWindowFromBandwidthAndRttPublic ::
  "tcp_cubic_sender \<Rightarrow> QuicBandwidth \<Rightarrow> QuicTimeDelta \<Rightarrow> tcp_cubic_sender" where
  "SetInitialCongestionWindowFromBandwidthAndRttPublic s bandwidth rtt =
     s\<lparr>initial_tcp_congestion_window := limited_window s (ToBytesPerPeriod bandwidth rtt)\<rparr>"

definition AdjustNetworkParameters :: "tcp_cubic_sender \<Rightarrow> QuicBandwidth \<Rightarrow> QuicTimeDelta \<Rightarrow> tcp_cubic_sender" where
  "AdjustNetworkParameters s bandwidth rtt =
     (if bw_IsZero bandwidth \<or> rtt = 0 then s else SetCongestionWindowFromBandwidthAndRtt s bandwidth rtt)"

definition SetNumEmulatedConnections :: "tcp_cubic_sender \<Rightarrow> int \<Rightarrow> tcp_cubic_sender" where
  "SetNumEmulatedConnections s n =
     (let s = s\<lparr>emulated_connections := word_of_int (max 1 n)\<rparr>
      in s\<lparr>cubic := SetNumConnections (cubic s) (sint (emulated_connections s))\<rparr>)"

section \<open>Predicates of the state\<close>

definition InSlowStart :: "tcp_cubic_sender \<Rightarrow> bool" where
  "InSlowStart s \<longleftrightarrow> congestion_window s < slowstart_threshold s"

definition InRecovery :: "tcp_cubic_sender \<Rightarrow> bool" where
  "InRecovery s \<longleftrightarrow>
     largest_acked_packet_number s \<le> largest_sent_at_last_cutback s \<and> largest_acked_packet_number s \<noteq> 0"

definition IsCwndLimited :: "tcp_cubic_sender \<Rightarrow> QuicByteCount \<Rightarrow> bool" where
  "IsCwndLimited s bytes_in_flight =
     (if bytes_in_flight \<ge> congestion_window s then True
      else let available_bytes = congestion_window s - bytes_in_flight;
               slow_start_limited = (InSlowStart s \<and> bytes_in_flight > congestion_window s div 2)
           in slow_start_limited \<or> available_bytes \<le> kMaxBurstBytes)"

definition RenoBeta :: "tcp_cubic_sender \<Rightarrow> rat" where
  "RenoBeta s = n_connection_factor kRenoBeta (uint (emulated_connections s))"

section \<open>Loss, acknowledgement and timeout\<close>

definition ExitSlowstart :: "tcp_cubic_sender \<Rightarrow> tcp_cubic_sender" where
  "ExitSlowstart s = s\<lparr>slowstart_threshold := congestion_window s\<rparr>"

text \<open>The window after the first loss of a window of packets.\<close>

definition cut_window :: "tcp_cubic_sender \<Rightarrow> tcp_cubic_sender" where
  "cut_window s =
     (if slow_start_large_reduction s \<and> InSlowStart s then
        let s = (if congestion_window s \<ge> 2 * initial_tcp_congestion_window s
                 then s\<lparr>min_slow_start_exit_window := congestion_window s div 2\<rparr> else s)
        in s\<lparr>congestion_window := congestion_window s - kDefaultTCPMSS\<rparr>
      else if reno s then
        s\<lparr>congestion_window := word_of_int (to_integer (float_round (to_float (congestion_window s) * RenoBeta s)))\<rparr>
      else
        let (c, w) = CongestionWindowAfterPacketLoss (cubic s) (congestion_window s)
        in s\<lparr>cubic := c, congestion_window := w\<rparr>)"

definition OnPacketLost ::
  "tcp_cubic_sender \<Rightarrow> QuicPacketNumber \<Rightarrow> QuicByteCount \<Rightarrow> QuicByteCount \<Rightarrow> tcp_cubic_sender" where
  "OnPacketLost s packet_number lost_bytes prior_in_flight =
     (if packet_number \<le> largest_sent_at_last_cutback s then
        (if last_cutback_exited_slowstart s then
           let st = stats s;
               s = s\<lparr>stats := st\<lparr>slowstart_packets_lost := slowstart_packets_lost st + 1,
                               slowstart_bytes_lost := slowstart_bytes_lost st + lost_bytes\<rparr>\<rparr>
           in if slow_start_large_reduction s then
                let w = max (congestion_window s - lost_bytes) (min_slow_start_exit_window s)
                in s\<lparr>congestion_window := w, slowstart_threshold := w\<rparr>
              else s
         else s)
      else
        let st = stats s;
            s = s\<lparr>stats := st\<lparr>tcp_loss_events := tcp_loss_events st + 1\<rparr>,
                  last_cutback_exited_slowstart := InSlowStart s\<rparr>;
            st = stats s;
            s = (if InSlowStart s then s\<lparr>stats := st\<lparr>slowstart_packets_lost := slowstart_packets_lost st + 1\<rparr>\<rparr> else s);
            s = (if \<not> no_prr s then s\<lparr>prr := prr_OnPacketLost (prr s) prior_in_flight\<rparr> else s);
            s = cut_window s;
            s = (if congestion_window s < min_congestion_window s
                 then s\<lparr>congestion_window := min_congestion_window s\<rparr> else s)
        in s\<lparr>slowstart_threshold := congestion_window s,
             largest_sent_at_last_cutback := largest_sent_packet_number s, num_acked_packets := 0\<rparr>)"

definition MaybeIncreaseCwnd ::
  "rtt_stats \<Rightarrow> tcp_cubic_sender \<Rightarrow> QuicPacketNumber \<Rightarrow> QuicByteCount \<Rightarrow> QuicByteCount \<Rightarrow> QuicTime \<Rightarrow> tcp_cubic_sender" where
  "MaybeIncreaseCwnd rtt s acked_packet_number bytes_acked prior_in_flight event_time =
     (if \<not> IsCwndLimited s prior_in_flight then s\<lparr>cubic := cubic_OnApplicationLimited (cubic s)\<rparr>
      else if congestion_window s \<ge> max_congestion_window s then s
      else if InSlowStart s then s\<lparr>congestion_window := congestion_window s + kDefaultTCPMSS\<rparr>
      else if reno s then
        let s = s\<lparr>num_acked_packets := num_acked_packets s + 1\<rparr>
        in if num_acked_packets s * ucast (emulated_connections s) \<ge> congestion_window s div kDefaultTCPMSS
           then s\<lparr>congestion_window := congestion_window s + kDefaultTCPMSS, num_acked_packets := 0\<rparr> else s
      else
        let (c, w) = CongestionWindowAfterAck (cubic s) bytes_acked (congestion_window s) (min_rtt rtt) event_time
        in s\<lparr>cubic := c, congestion_window := min (max_congestion_window s) w\<rparr>)"

definition OnPacketAcked ::
  "rtt_stats \<Rightarrow> tcp_cubic_sender \<Rightarrow> QuicPacketNumber \<Rightarrow> QuicByteCount \<Rightarrow> QuicByteCount \<Rightarrow> QuicTime \<Rightarrow> tcp_cubic_sender" where
  "OnPacketAcked rtt s acked_packet_number bytes_acked prior_in_flight event_time =
     (let s = s\<lparr>largest_acked_packet_number := max acked_packet_number (largest_acked_packet_number s)\<rparr>
      in if InRecovery s then
           (if \<not> no_prr s then s\<lparr>prr := prr_OnPacketAcked (prr s) bytes_acked\<rparr> else s)
         else
           let s = MaybeIncreaseCwnd rtt s acked_packet_number bytes_acked prior_in_flight event_time
           in if InSlowStart s
              then s\<lparr>hybrid_slow_start := hss_OnPacketAcked (hybrid_slow_start s) acked_packet_number\<rparr> else s)"

type_synonym congestion_vector = "(QuicPacketNumber \<times> QuicByteCount) list"

definition maybe_exit_slow_start :: "rtt_stats \<Rightarrow> tcp_cubic_sender \<Rightarrow> bool \<Rightarrow> tcp_cubic_sender" where
  "maybe_exit_slow_start rtt s rtt_updated =
     (if rtt_updated \<and> InSlowStart s then
        let (h, leave) = ShouldExitSlowStart (hybrid_slow_start s) (latest_rtt rtt) (min_rtt rtt)
                           (congestion_window s div kDefaultTCPMSS);
            s = s\<lparr>hybrid_slow_start := h\<rparr>
        in if leave then ExitSlowstart s else s
      else s)"

definition OnCongestionEvent ::
  "rtt_stats \<Rightarrow> tcp_cubic_sender \<Rightarrow> bool \<Rightarrow> QuicByteCount \<Rightarrow> QuicTime \<Rightarrow> congestion_vector \<Rightarrow> congestion_vector \<Rightarrow>
   tcp_cubic_sender" where
  "OnCongestionEvent rtt s rtt_updated prior_in_flight event_time acked_packets lost_packets =
     (let s = maybe_exit_slow_start rtt s rtt_updated;
          s = foldl (\<lambda>s (n, b). OnPacketLost s n b prior_in_flight) s lost_packets
      in foldl (\<lambda>s (n, b). OnPacketAcked rtt s n b prior_in_flight event_time) s acked_packets)"

datatype HasRetransmittableData = NO_RETRANSMITTABLE_DATA | HAS_RETRANSMITTABLE_DATA

definition OnPacketSent ::
  "tcp_cubic_sender \<Rightarrow> QuicPacketNumber \<Rightarrow> QuicByteCount \<Rightarrow> HasRetransmittableData \<Rightarrow> tcp_cubic_sender \<times> bool" where
  "OnPacketSent s packet_number bytes is_retransmittable =
     (let st = stats s;
          s = (if InSlowStart s then s\<lparr>stats := st\<lparr>slowstart_packets_sent := slowstart_packets_sent st + 1\<rparr>\<rparr> else s)
      in if is_retransmittable \<noteq> HAS_RETRANSMITTABLE_DATA then (s, False)
         else
           let s = (if InRecovery s then s\<lparr>prr := prr_OnPacketSent (prr s) bytes\<rparr> else s)
           in (s\<lparr>largest_sent_packet_number := packet_number,
                 hybrid_slow_start := hss_OnPacketSent (hybrid_slow_start s) packet_number\<rparr>, True))"

definition HandleRetransmissionTimeout :: "tcp_cubic_sender \<Rightarrow> tcp_cubic_sender" where
  "HandleRetransmissionTimeout s =
     s\<lparr>cubic := ResetCubicState (cubic s), slowstart_threshold := congestion_window s div 2,
       congestion_window := min_congestion_window s\<rparr>"

definition OnRetransmissionTimeout :: "tcp_cubic_sender \<Rightarrow> bool \<Rightarrow> tcp_cubic_sender" where
  "OnRetransmissionTimeout s packets_retransmitted =
     (let s = s\<lparr>largest_sent_at_last_cutback := 0\<rparr>
      in if \<not> packets_retransmitted then s
         else HandleRetransmissionTimeout (s\<lparr>hybrid_slow_start := Restart (hybrid_slow_start s)\<rparr>))"

definition base_OnConnectionMigration :: "tcp_cubic_sender \<Rightarrow> tcp_cubic_sender" where
  "base_OnConnectionMigration s =
     s\<lparr>hybrid_slow_start := Restart (hybrid_slow_start s), prr := PrrSender, largest_sent_packet_number := 0,
       largest_acked_packet_number := 0, largest_sent_at_last_cutback := 0, last_cutback_exited_slowstart := False\<rparr>"

definition OnConnectionMigration :: "tcp_cubic_sender \<Rightarrow> tcp_cubic_sender" where
  "OnConnectionMigration s =
     (let s = base_OnConnectionMigration s
      in s\<lparr>cubic := ResetCubicState (cubic s), num_acked_packets := 0,
           congestion_window := initial_tcp_congestion_window s,
           max_congestion_window := initial_max_tcp_congestion_window s,
           slowstart_threshold := initial_max_tcp_congestion_window s\<rparr>)"

section \<open>Sending\<close>

definition TimeUntilSend :: "tcp_cubic_sender \<Rightarrow> QuicByteCount \<Rightarrow> QuicTimeDelta" where
  "TimeUntilSend s bytes_in_flight =
     (if \<not> no_prr s \<and> InRecovery s
      then prr_TimeUntilSend (prr s) (congestion_window s) bytes_in_flight (slowstart_threshold s)
      else if congestion_window s > bytes_in_flight then 0
      else if min4_mode s \<and> bytes_in_flight < 4 * kDefaultTCPMSS then 0
      else DeltaInfinite)"

definition PacingRate :: "rtt_stats \<Rightarrow> tcp_cubic_sender \<Rightarrow> QuicBandwidth option" where
  "PacingRate rtt s =
     (let srtt = (if smoothed_rtt rtt = 0 then initial_rtt_us rtt else smoothed_rtt rtt)
      in case FromBytesAndTimeDelta (congestion_window s) srtt of
           None \<Rightarrow> None
         | Some bandwidth \<Rightarrow> Some (bw_times_float bandwidth
             (if InSlowStart s then 2 else if no_prr s \<and> InRecovery s then 1 else 5 / 4)))"

definition BandwidthEstimate :: "rtt_stats \<Rightarrow> tcp_cubic_sender \<Rightarrow> QuicBandwidth option" where
  "BandwidthEstimate rtt s =
     (if smoothed_rtt rtt = 0 then Some bw_Zero
      else FromBytesAndTimeDelta (congestion_window s) (smoothed_rtt rtt))"

section \<open>The invariant of the window\<close>

text \<open>
  The window stays between its minimum and one segment above its maximum.  While a cubic epoch runs
  below the maximum, the emulated TCP window is within the window.  \<open>B\<close> bounds the acknowledged bytes.
\<close>

definition window_inv :: "int \<Rightarrow> tcp_cubic_sender \<Rightarrow> bool" where
  "window_inv B s \<longleftrightarrow>
     kDefaultTCPMSS \<le> min_congestion_window s \<and> min_congestion_window s \<le> congestion_window s \<and>
     min_congestion_window s \<le> max_congestion_window s \<and> uint (max_congestion_window s) < 2 ^ 23 \<and>
     uint (congestion_window s) < uint (max_congestion_window s) + 1460 \<and>
     min_congestion_window s \<le> initial_tcp_congestion_window s \<and>
     uint (initial_tcp_congestion_window s) < uint (max_congestion_window s) + 1460 \<and>
     initial_max_tcp_congestion_window s = max_congestion_window s \<and>
     \<not> slow_start_large_reduction s \<and>
     1 \<le> uint (emulated_connections s) \<and> uint (emulated_connections s) \<le> 16 \<and>
     cubic_ok (uint (min_congestion_window s)) (cubic s) \<and> (reno s \<longrightarrow> epoch (cubic s) = 0) \<and>
     (epoch (cubic s) \<noteq> 0 \<longrightarrow>
        estimated_tcp_congestion_window (cubic s) \<le> congestion_window s \<or>
        max_congestion_window s \<le> congestion_window s) \<and>
     uint (acked_bytes_count (cubic s)) \<le> B"

lemma window_inv_mono: "window_inv B s \<Longrightarrow> B \<le> B' \<Longrightarrow> window_inv B' s"
  by (auto simp: window_inv_def)

text \<open>Changes of other fields keep it.\<close>

lemma window_inv_frame:
  assumes "window_inv B s" "congestion_window t = congestion_window s"
    "min_congestion_window t = min_congestion_window s" "max_congestion_window t = max_congestion_window s"
    "initial_tcp_congestion_window t = initial_tcp_congestion_window s"
    "initial_max_tcp_congestion_window t = initial_max_tcp_congestion_window s"
    "slow_start_large_reduction t = slow_start_large_reduction s"
    "emulated_connections t = emulated_connections s" "cubic t = cubic s" "reno t = reno s"
  shows "window_inv B t"
  using assms by (simp add: window_inv_def)

lemma uint_MSS [simp]: "uint kDefaultTCPMSS = 1460"
  by (simp add: kDefaultTCPMSS_def)

lemma reno_backoff:
  assumes "uint (congestion_window s) < 2 ^ 24" "1 \<le> uint (emulated_connections s)" "uint (emulated_connections s) \<le> 16"
  shows "word_of_int (to_integer (float_round (to_float (congestion_window s) * RenoBeta s))) \<le> congestion_window s"
proof -
  have k: "kRenoBeta = cubic_kBeta"
    by (simp add: kRenoBeta_def cubic_kBeta_def)
  define c where "c = CubicBytes\<lparr>num_connections := uint (emulated_connections s)\<rparr>"
  have "RenoBeta s = Beta c"
    by (simp add: RenoBeta_def Beta_def c_def k)
  moreover have "snd (CongestionWindowAfterPacketLoss c w) = word_of_int (to_integer (float_round (to_float w * Beta c)))" for w
    by (simp add: CongestionWindowAfterPacketLoss_def Let_def Beta_def)
  ultimately show ?thesis
    using loss_window(1) [of "congestion_window s" c] assms by (simp add: c_def word_le_def)
qed

text \<open>So does a change of the window that ends the epoch.\<close>

lemma window_inv_cut:
  assumes "window_inv B s" "min_congestion_window s \<le> w" "uint w < uint (max_congestion_window s) + 1460"
    and "cubic_ok (uint (min_congestion_window s)) c" "epoch c = 0" "uint (acked_bytes_count c) \<le> B"
  shows "window_inv B (s\<lparr>congestion_window := w, cubic := c\<rparr>)"
  using assms by (simp add: window_inv_def)

text \<open>The window that one loss event leaves before it is raised to the minimum, for Reno and for CUBIC.\<close>

definition single_cut :: "tcp_cubic_sender \<Rightarrow> QuicByteCount" where
  "single_cut s =
     (if reno s then word_of_int (to_integer (float_round (to_float (congestion_window s) * RenoBeta s)))
      else snd (CongestionWindowAfterPacketLoss (cubic s) (congestion_window s)))"

lemma cut_window_result:
  assumes "window_inv B s"
  obtains c w where "cut_window s = s\<lparr>congestion_window := w, cubic := c\<rparr>" "w \<le> congestion_window s"
    "cubic_ok (uint (min_congestion_window s)) c" "epoch c = 0" "uint (acked_bytes_count c) \<le> B"
    "w = single_cut s"
proof -
  have w: "uint (congestion_window s) < 2 ^ 24" "1 \<le> num_connections (cubic s)" "num_connections (cubic s) \<le> 2 ^ 10"
    "\<not> slow_start_large_reduction s"
    using assms by (simp_all add: window_inv_def cubic_ok_def)
  show ?thesis
  proof (cases "reno s")
    case True
    define w where "w = (word_of_int (to_integer (float_round (to_float (congestion_window s) * RenoBeta s))) :: uint64)"
    show ?thesis
    proof (rule that)
      show "cut_window s = s\<lparr>congestion_window := w, cubic := cubic s\<rparr>"
        using True \<open>\<not> slow_start_large_reduction s\<close> by (simp add: cut_window_def w_def)
      show "w \<le> congestion_window s"
        unfolding w_def using assms \<open>uint (congestion_window s) < 2 ^ 24\<close> by (intro reno_backoff) (simp_all add: window_inv_def)
    qed (use assms True in \<open>simp_all add: window_inv_def single_cut_def w_def\<close>)
  next
    case False
    obtain c w' where cw: "CongestionWindowAfterPacketLoss (cubic s) (congestion_window s) = (c, w')"
      by fastforce
    show ?thesis
    proof (rule that)
      show "cut_window s = s\<lparr>congestion_window := w', cubic := c\<rparr>"
        using False w(4) cw by (simp add: cut_window_def)
      show "w' \<le> congestion_window s"
        using loss_window(1) [OF w(1-3) refl] cw by (simp add: word_le_def)
    qed (use loss_state [OF cw] assms cw False in \<open>simp_all add: cubic_ok_def window_inv_def single_cut_def\<close>)
  qed
qed

lemma OnPacketLost_old:
  assumes "packet_number \<le> largest_sent_at_last_cutback s" "\<not> slow_start_large_reduction s"
  shows "\<exists>st. OnPacketLost s packet_number lost_bytes prior = s\<lparr>stats := st\<rparr> \<and>
              tcp_loss_events st = tcp_loss_events (stats s)"
  using assms by (auto simp: OnPacketLost_def Let_def intro: exI [of _ "stats s"])

lemma OnPacketLost_new:
  assumes "\<not> packet_number \<le> largest_sent_at_last_cutback s" "window_inv B s"
  obtains c w p st b where "OnPacketLost s packet_number lost_bytes prior =
      s\<lparr>congestion_window := w, cubic := c, stats := st, last_cutback_exited_slowstart := b, prr := p,
        slowstart_threshold := w, largest_sent_at_last_cutback := largest_sent_packet_number s, num_acked_packets := 0\<rparr>"
    "min_congestion_window s \<le> w" "w \<le> congestion_window s" "tcp_loss_events st = tcp_loss_events (stats s) + 1"
    "cubic_ok (uint (min_congestion_window s)) c" "epoch c = 0" "uint (acked_bytes_count c) \<le> B"
    "w = max (min_congestion_window s) (single_cut s)"
proof -
  define t where "t = (let st = stats s;
            s = s\<lparr>stats := st\<lparr>tcp_loss_events := tcp_loss_events st + 1\<rparr>,
                  last_cutback_exited_slowstart := InSlowStart s\<rparr>;
            st = stats s;
            s = (if InSlowStart s then s\<lparr>stats := st\<lparr>slowstart_packets_lost := slowstart_packets_lost st + 1\<rparr>\<rparr> else s)
            in if \<not> no_prr s then s\<lparr>prr := prr_OnPacketLost (prr s) prior\<rparr> else s)"
  have slow: "InSlowStart (s\<lparr>stats := st, last_cutback_exited_slowstart := b\<rparr>) = InSlowStart s" for st b
    by (simp add: InSlowStart_def)
  obtain st p where t: "t = s\<lparr>stats := st, last_cutback_exited_slowstart := InSlowStart s, prr := p\<rparr>"
    "tcp_loss_events st = tcp_loss_events (stats s) + 1"
  proof (rule that)
    show "t = s\<lparr>stats := stats t, last_cutback_exited_slowstart := InSlowStart s, prr := prr t\<rparr>"
      by (cases "InSlowStart s"; cases "no_prr s") (simp_all add: t_def Let_def slow)
    show "tcp_loss_events (stats t) = tcp_loss_events (stats s) + 1"
      by (simp add: t_def Let_def)
  qed
  have "window_inv B t"
    using assms(2) by (rule window_inv_frame) (simp_all add: t)
  from cut_window_result [OF this] obtain c w where cw: "cut_window t = t\<lparr>congestion_window := w, cubic := c\<rparr>"
    "w \<le> congestion_window t" "cubic_ok (uint (min_congestion_window t)) c" "epoch c = 0" "uint (acked_bytes_count c) \<le> B"
    "w = single_cut t" .
  define w' where "w' = (if w < min_congestion_window s then min_congestion_window s else w)"
  have lost: "OnPacketLost s packet_number lost_bytes prior =
    (let s = cut_window t;
         s = (if congestion_window s < min_congestion_window s then s\<lparr>congestion_window := min_congestion_window s\<rparr> else s)
     in s\<lparr>slowstart_threshold := congestion_window s,
          largest_sent_at_last_cutback := largest_sent_packet_number s, num_acked_packets := 0\<rparr>)"
    using assms(1) unfolding OnPacketLost_def t_def by (simp only: Let_def if_False)
  show ?thesis
  proof (rule that)
    show "OnPacketLost s packet_number lost_bytes prior =
      s\<lparr>congestion_window := w', cubic := c, stats := st, last_cutback_exited_slowstart := InSlowStart s, prr := p,
        slowstart_threshold := w', largest_sent_at_last_cutback := largest_sent_packet_number s, num_acked_packets := 0\<rparr>"
      unfolding lost cw(1) by (simp add: t w'_def Let_def)
    show "min_congestion_window s \<le> w'" "w' \<le> congestion_window s"
      using cw(2) t assms(2) by (auto simp: w'_def window_inv_def not_less)
    have "single_cut t = single_cut s"
      by (simp add: t single_cut_def RenoBeta_def)
    then show "w' = max (min_congestion_window s) (single_cut s)"
      using cw(6) by (auto simp: w'_def max_def)
  qed (use cw t in simp_all)
qed

lemma OnPacketLost_inv:
  assumes "window_inv B s"
  shows "window_inv B (OnPacketLost s n b prior) \<and> congestion_window (OnPacketLost s n b prior) \<le> congestion_window s"
proof (cases "n \<le> largest_sent_at_last_cutback s")
  case True
  then obtain st where "OnPacketLost s n b prior = s\<lparr>stats := st\<rparr>"
    using OnPacketLost_old [of n s b prior] assms by (auto simp: window_inv_def)
  then show ?thesis
    using window_inv_frame [OF assms] by simp
next
  case False
  from OnPacketLost_new [OF this assms, of b prior] obtain c w p st e where l: "OnPacketLost s n b prior =
      s\<lparr>congestion_window := w, cubic := c, stats := st, last_cutback_exited_slowstart := e, prr := p,
        slowstart_threshold := w, largest_sent_at_last_cutback := largest_sent_packet_number s, num_acked_packets := 0\<rparr>"
    "min_congestion_window s \<le> w" "w \<le> congestion_window s" "tcp_loss_events st = tcp_loss_events (stats s) + 1"
    "cubic_ok (uint (min_congestion_window s)) c" "epoch c = 0" "uint (acked_bytes_count c) \<le> B"
    "w = max (min_congestion_window s) (single_cut s)" .
  have "uint w < uint (max_congestion_window s) + 1460"
    using assms l(3) by (simp add: window_inv_def word_le_def)
  from window_inv_frame [OF window_inv_cut [OF assms l(2) this l(5-7)]] show ?thesis
    using l(3) unfolding l(1) by simp
qed

lemma add_MSS:
  assumes "w < m" "uint m < 2 ^ 23"
  shows "uint (w + kDefaultTCPMSS) = uint w + 1460" "w \<le> w + kDefaultTCPMSS"
proof -
  show "uint (w + kDefaultTCPMSS) = uint w + 1460"
    using assms by (simp add: uint_word_ariths word_less_def)
  then show "w \<le> w + kDefaultTCPMSS"
    by (simp add: word_le_def)
qed

text \<open>One more segment below the maximum.\<close>

lemma window_inv_add_MSS:
  assumes "window_inv B s" "congestion_window s < max_congestion_window s"
  shows "window_inv B (s\<lparr>congestion_window := congestion_window s + kDefaultTCPMSS\<rparr>)"
proof -
  have "uint (max_congestion_window s) < 2 ^ 23"
    using assms(1) by (simp add: window_inv_def)
  note a = add_MSS [OF assms(2) this]
  have e: "epoch (cubic s) \<noteq> 0 \<longrightarrow> estimated_tcp_congestion_window (cubic s) \<le> congestion_window s"
    using assms by (auto simp: window_inv_def not_le [symmetric])
  have "min_congestion_window s \<le> congestion_window s"
    using assms(1) by (simp add: window_inv_def)
  then have "min_congestion_window s \<le> congestion_window s + kDefaultTCPMSS"
    using a(2) by (rule order_trans)
  moreover have "uint (congestion_window s) < uint (max_congestion_window s)"
    using assms(2) by (simp add: word_less_def)
  ultimately show ?thesis
    using assms(1) e a order_trans [OF _ a(2)] by (simp add: window_inv_def)
qed

lemma MaybeIncreaseCwnd_inv:
  assumes inv: "window_inv B s" and B: "B + uint a < 2 ^ 32"
  shows "window_inv (B + uint a) (MaybeIncreaseCwnd rtt s n a prior t)"
proof -
  have inv': "window_inv (B + uint a) s"
    by (rule window_inv_mono [OF inv]) simp
  consider (app) "\<not> IsCwndLimited s prior" | (full) "IsCwndLimited s prior" "congestion_window s \<ge> max_congestion_window s"
    | (slow) "IsCwndLimited s prior" "congestion_window s < max_congestion_window s" "InSlowStart s"
    | (reno) "IsCwndLimited s prior" "congestion_window s < max_congestion_window s" "\<not> InSlowStart s" "reno s"
    | (cubic) "IsCwndLimited s prior" "congestion_window s < max_congestion_window s" "\<not> InSlowStart s" "\<not> reno s"
    by fastforce
  then show ?thesis
  proof cases
    case app
    then show ?thesis
      using inv' by (simp add: MaybeIncreaseCwnd_def cubic_OnApplicationLimited_def window_inv_def cubic_ok_def)
  next
    case full
    then show ?thesis
      using inv' by (simp add: MaybeIncreaseCwnd_def)
  next
    case slow
    then show ?thesis
      using window_inv_add_MSS [OF inv'] by (simp add: MaybeIncreaseCwnd_def not_le [symmetric])
  next
    case reno
    then show ?thesis
      using window_inv_frame [OF window_inv_add_MSS [OF inv']] window_inv_frame [OF inv']
      by (simp add: MaybeIncreaseCwnd_def not_le [symmetric] Let_def)
  next
    case cubic
    obtain c w where cw: "CongestionWindowAfterAck (cubic s) a (congestion_window s) (min_rtt rtt) t = (c, w)"
      by fastforce
    let ?m = "uint (min_congestion_window s)"
    have s: "cubic_ok ?m (cubic s)" "?m \<le> uint (congestion_window s)" "uint (congestion_window s) < 2 ^ 32"
      "epoch (cubic s) \<noteq> 0 \<longrightarrow> estimated_tcp_congestion_window (cubic s) \<le> congestion_window s"
      "0 < ?m" "?m < 2 ^ 24" "?m \<le> uint (max_congestion_window s)" "uint (acked_bytes_count (cubic s)) \<le> B"
      using inv cubic(2) by (auto simp: window_inv_def not_le [symmetric] word_le_def)
    have ack: "uint (acked_bytes_count (cubic s)) + uint a < 2 ^ 32"
      using s(8) B by linarith
    note ok = after_ack_ok [OF s(1,4,5,6,2,3) ack cw]
    have "MaybeIncreaseCwnd rtt s n a prior t = s\<lparr>cubic := c, congestion_window := min (max_congestion_window s) w\<rparr>"
      using cubic cw by (simp add: MaybeIncreaseCwnd_def not_le [symmetric])
    then show ?thesis
      using inv ok s(7,8) cubic(4) by (auto simp: window_inv_def min_def word_le_def split: if_splits)
  qed
qed

lemma OnPacketAcked_inv:
  assumes inv: "window_inv B s" and B: "B + uint a < 2 ^ 32"
  shows "window_inv (B + uint a) (OnPacketAcked rtt s n a prior t)"
proof -
  define s1 where "s1 = s\<lparr>largest_acked_packet_number := max n (largest_acked_packet_number s)\<rparr>"
  have s1: "window_inv B s1"
    using inv by (rule window_inv_frame) (simp_all add: s1_def)
  then have s1': "window_inv (B + uint a) s1"
    by (rule window_inv_mono) simp
  note s2 = MaybeIncreaseCwnd_inv [OF s1 B, of rtt n prior t]
  show ?thesis
    unfolding OnPacketAcked_def s1_def [symmetric] Let_def
    using window_inv_frame [OF s1'] window_inv_frame [OF s2] s1' s2 by auto
qed

section \<open>Runs\<close>

text \<open>What the connection tells the controller: packets sent, congestion events, timeouts, migration.\<close>

datatype sender_event =
    Sent QuicPacketNumber QuicByteCount HasRetransmittableData
  | Congestion rtt_stats bool QuicByteCount QuicTime congestion_vector congestion_vector
  | Timeout bool
  | Migration

fun sender_step :: "tcp_cubic_sender \<Rightarrow> sender_event \<Rightarrow> tcp_cubic_sender" where
  "sender_step s (Sent n b r) = fst (OnPacketSent s n b r)"
| "sender_step s (Congestion rtt u prior t acked lost) = OnCongestionEvent rtt s u prior t acked lost"
| "sender_step s (Timeout b) = OnRetransmissionTimeout s b"
| "sender_step s Migration = OnConnectionMigration s"

definition sender_run :: "tcp_cubic_sender \<Rightarrow> sender_event list \<Rightarrow> tcp_cubic_sender" where
  "sender_run s es = foldl sender_step s es"

definition vector_bytes :: "congestion_vector \<Rightarrow> int" where
  "vector_bytes v = (\<Sum>p\<leftarrow>v. uint (snd p))"

fun event_bytes :: "sender_event \<Rightarrow> int" where
  "event_bytes (Congestion _ _ _ _ acked _) = vector_bytes acked"
| "event_bytes _ = 0"

definition run_bytes :: "sender_event list \<Rightarrow> int" where
  "run_bytes es = (\<Sum>e\<leftarrow>es. event_bytes e)"

lemma vector_bytes_nonneg [simp]: "0 \<le> vector_bytes v"
  by (induction v) (simp_all add: vector_bytes_def)

lemma event_bytes_nonneg [simp]: "0 \<le> event_bytes e"
  by (cases e) simp_all

lemma run_bytes_nonneg [simp]: "0 \<le> run_bytes es"
  by (induction es) (simp_all add: run_bytes_def)

lemma lost_inv:
  assumes "window_inv B s"
  shows "window_inv B (foldl (\<lambda>s (n, b). OnPacketLost s n b prior) s lost)"
  using assms by (induction lost arbitrary: s) (simp_all add: split_beta OnPacketLost_inv)

lemma acked_inv:
  assumes "window_inv B s" "B + vector_bytes acked < 2 ^ 32"
  shows "window_inv (B + vector_bytes acked) (foldl (\<lambda>s (n, b). OnPacketAcked rtt s n b prior t) s acked)"
  using assms
proof (induction acked arbitrary: s B)
  case (Cons p acked)
  have b: "B + uint (snd p) < 2 ^ 32"
    using Cons.prems(2) vector_bytes_nonneg [of acked] by (simp add: vector_bytes_def)
  have "window_inv (B + uint (snd p)) (OnPacketAcked rtt s (fst p) (snd p) prior t)"
    by (rule OnPacketAcked_inv [OF Cons.prems(1) b])
  from Cons.IH [OF this] Cons.prems(2) show ?case
    by (simp add: vector_bytes_def split_beta add.assoc)
qed (simp add: vector_bytes_def)

lemma maybe_exit_slow_start_inv: "window_inv B s \<Longrightarrow> window_inv B (maybe_exit_slow_start rtt s u)"
  using window_inv_frame [of B s] by (simp add: maybe_exit_slow_start_def ExitSlowstart_def Let_def split_beta)

lemma window_inv_reset:
  assumes "window_inv B s" "min_congestion_window s \<le> w" "uint w < uint (max_congestion_window s) + 1460"
  shows "window_inv B (s\<lparr>congestion_window := w, cubic := ResetCubicState (cubic s)\<rparr>)"
proof -
  have "0 \<le> B"
    using assms(1) uint_ge_0 [of "acked_bytes_count (cubic s)"] unfolding window_inv_def by linarith
  then show ?thesis
    using assms by (intro window_inv_cut) (auto simp: window_inv_def cubic_ok_def ResetCubicState_def)
qed

lemma sender_step_inv:
  assumes "window_inv B s" "B + event_bytes e < 2 ^ 32"
  shows "window_inv (B + event_bytes e) (sender_step s e)"
proof (cases e)
  case (Sent n b r)
  then show ?thesis
    using window_inv_frame [OF assms(1), of "fst (OnPacketSent s n b r)"] by (simp add: OnPacketSent_def Let_def)
next
  case (Congestion rtt u prior t acked lost)
  then show ?thesis
    using acked_inv [OF lost_inv [OF maybe_exit_slow_start_inv [OF assms(1)]]] assms(2)
    by (simp add: OnCongestionEvent_def Let_def)
next
  case (Timeout b)
  have "uint (min_congestion_window s) < uint (max_congestion_window s) + 1460"
    using assms(1) by (simp add: window_inv_def word_le_def)
  from window_inv_frame [OF window_inv_reset [OF assms(1) order_refl this]] window_inv_frame [OF assms(1)]
  show ?thesis
    by (cases b) (simp_all add: Timeout OnRetransmissionTimeout_def HandleRetransmissionTimeout_def)
next
  case Migration
  have "min_congestion_window s \<le> initial_tcp_congestion_window s"
    "uint (initial_tcp_congestion_window s) < uint (max_congestion_window s) + 1460"
    "initial_max_tcp_congestion_window s = max_congestion_window s"
    using assms(1) by (simp_all add: window_inv_def)
  with window_inv_frame [OF window_inv_reset [OF assms(1) this(1,2)]] show ?thesis
    by (simp add: Migration OnConnectionMigration_def base_OnConnectionMigration_def Let_def)
qed

lemma sender_run_inv:
  assumes "window_inv B s" "B + run_bytes es < 2 ^ 32"
  shows "window_inv (B + run_bytes es) (sender_run s es)"
  using assms
proof (induction es arbitrary: s B)
  case (Cons e es)
  have "window_inv (B + event_bytes e) (sender_step s e)"
    using Cons.prems run_bytes_nonneg [of es] by (intro sender_step_inv) (simp_all add: run_bytes_def)
  from Cons.IH [OF this] Cons.prems(2) show ?case
    by (simp add: run_bytes_def sender_run_def add.assoc)
qed (simp add: run_bytes_def sender_run_def)

text \<open>No event moves the limits of the window.\<close>

definition limits :: "tcp_cubic_sender \<Rightarrow> QuicByteCount \<times> QuicByteCount \<times> QuicByteCount" where
  "limits s = (min_congestion_window s, max_congestion_window s, initial_max_tcp_congestion_window s)"

lemma cut_window_limits: "limits (cut_window s) = limits s"
  by (simp add: cut_window_def limits_def Let_def split_beta)

lemma OnPacketLost_limits: "limits (OnPacketLost s n b prior) = limits s"
  using cut_window_limits [of "t" for t] unfolding OnPacketLost_def Let_def limits_def by simp

lemma MaybeIncreaseCwnd_limits: "limits (MaybeIncreaseCwnd rtt s n a prior t) = limits s"
  by (simp add: MaybeIncreaseCwnd_def limits_def Let_def split_beta)

lemma OnPacketAcked_limits: "limits (OnPacketAcked rtt s n a prior t) = limits s"
  using MaybeIncreaseCwnd_limits [of rtt "s\<lparr>largest_acked_packet_number := max n (largest_acked_packet_number s)\<rparr>" n a prior t]
  by (simp add: OnPacketAcked_def limits_def Let_def)

lemma lost_limits: "limits (foldl (\<lambda>s (n, b). OnPacketLost s n b prior) s lost) = limits s"
  by (induction lost arbitrary: s) (simp_all add: split_beta OnPacketLost_limits)

lemma acked_limits: "limits (foldl (\<lambda>s (n, b). OnPacketAcked rtt s n b prior t) s acked) = limits s"
  by (induction acked arbitrary: s) (simp_all add: split_beta OnPacketAcked_limits)

lemma maybe_exit_slow_start_limits: "limits (maybe_exit_slow_start rtt s u) = limits s"
  by (simp add: maybe_exit_slow_start_def ExitSlowstart_def limits_def Let_def split_beta)

lemma OnCongestionEvent_limits: "limits (OnCongestionEvent rtt s u prior t acked lost) = limits s"
  by (simp add: OnCongestionEvent_def Let_def acked_limits lost_limits maybe_exit_slow_start_limits)

lemma sender_step_limits:
  assumes "initial_max_tcp_congestion_window s = max_congestion_window s"
  shows "limits (sender_step s e) = limits s"
proof (cases e)
  case (Congestion rtt u prior t acked lost)
  then show ?thesis
    by (simp add: OnCongestionEvent_limits)
qed (use assms in \<open>simp_all add: OnPacketSent_def OnRetransmissionTimeout_def HandleRetransmissionTimeout_def
      OnConnectionMigration_def base_OnConnectionMigration_def Let_def limits_def\<close>)

lemma sender_run_limits:
  assumes "initial_max_tcp_congestion_window s = max_congestion_window s"
  shows "limits (sender_run s es) = limits s"
  using assms
proof (induction es arbitrary: s)
  case (Cons e es)
  have "limits (sender_step s e) = limits s"
    by (rule sender_step_limits [OF Cons.prems])
  with Cons show ?case
    by (simp add: sender_run_def limits_def)
qed (simp add: sender_run_def)

section \<open>Start of a connection\<close>

definition fresh_sender :: "tcp_cubic_sender \<Rightarrow> bool" where
  "fresh_sender s \<longleftrightarrow>
     window_inv 0 s \<and> epoch (cubic s) = 0 \<and> last_congestion_window (cubic s) = 0 \<and>
     50 * kDefaultTCPMSS \<le> max_congestion_window s \<and>
     (min_congestion_window s = kDefaultTCPMSS \<or> min_congestion_window s = 2 * kDefaultTCPMSS)"

lemma fresh_cwnd:
  assumes "fresh_sender s" "min_congestion_window s \<le> w" "uint w < uint (max_congestion_window s) + 1460"
  shows "fresh_sender (s\<lparr>congestion_window := w\<rparr>)"
  using assms by (simp add: fresh_sender_def window_inv_def)

lemma fresh_packets:
  assumes "fresh_sender s" "n \<in> {3, 10, 20, 50}"
  shows "fresh_sender (SetCongestionWindowInPackets s n)"
  unfolding SetCongestionWindowInPackets_def using assms
  by (intro fresh_cwnd) (auto simp: fresh_sender_def kDefaultTCPMSS_def word_le_def)

lemma fresh_min:
  assumes "fresh_sender s"
  shows "fresh_sender (SetMinCongestionWindowInPackets s 1)"
  using assms by (auto simp: fresh_sender_def window_inv_def cubic_ok_def SetMinCongestionWindowInPackets_def
      kDefaultTCPMSS_def word_le_def)

lemma fresh_frame:
  assumes "fresh_sender s" "congestion_window t = congestion_window s"
    "min_congestion_window t = min_congestion_window s" "max_congestion_window t = max_congestion_window s"
    "initial_tcp_congestion_window t = initial_tcp_congestion_window s"
    "initial_max_tcp_congestion_window t = initial_max_tcp_congestion_window s"
    "slow_start_large_reduction t = slow_start_large_reduction s"
    "emulated_connections t = emulated_connections s" "reno t = reno s"
    "epoch (cubic t) = epoch (cubic s)" "last_congestion_window (cubic t) = last_congestion_window (cubic s)"
    "num_connections (cubic t) = num_connections (cubic s)" "acked_bytes_count (cubic t) = acked_bytes_count (cubic s)"
  shows "fresh_sender t"
  using assms by (simp add: fresh_sender_def window_inv_def cubic_ok_def)

lemma fresh_SetFromConfig:
  assumes "fresh_sender s" "\<not> has_option config kSSLR"
  shows "fresh_sender (SetFromConfig s config perspective)"
proof -
  have f: "fresh_sender (s\<lparr>min4_mode := b\<rparr>)" "fresh_sender (s\<lparr>no_prr := b\<rparr>)" if "fresh_sender s" for s b
    using fresh_frame [OF that] by simp_all
  have "fresh_sender (base_SetFromConfig s config perspective)"
    unfolding base_SetFromConfig_def Let_def using assms by (auto intro!: fresh_packets fresh_min f)
  then show ?thesis
    by (rule fresh_frame) (simp_all add: SetFromConfig_def Let_def SetFixConvexMode_def SetFixCubicQuantization_def
        SetFixBetaLastMax_def SetAllowPerAckUpdates_def)
qed

lemma fresh_TcpCubicSenderBytes:
  assumes "2 \<le> uint iw" "iw \<le> mw" "50 \<le> uint mw" "uint mw \<le> 5000"
  shows "fresh_sender (TcpCubicSenderBytes r iw mw st)"
proof -
  have u: "uint (w * kDefaultTCPMSS) = uint w * 1460" if "uint w \<le> 5000" for w
    using that uint_of_int64 [of "uint w * 1460"] by (simp add: kDefaultTCPMSS_def)
  show ?thesis
    using u [of iw] u [of mw] assms
    by (auto simp: fresh_sender_def window_inv_def TcpCubicSenderBytes_def CubicBytes_def cubic_ok_def
        kDefaultMinimumCongestionWindow_def word_le_def kDefaultNumConnections_def kDefaultTCPMSS_def)
qed

section \<open>One cut per window\<close>

abbreviation lose :: "QuicByteCount \<Rightarrow> tcp_cubic_sender \<Rightarrow> congestion_vector \<Rightarrow> tcp_cubic_sender" where
  "lose prior s lost \<equiv> foldl (\<lambda>s (n, b). OnPacketLost s n b prior) s lost"

lemma lose_Cons: "lose prior s (p # lost) = lose prior (OnPacketLost s (fst p) (snd p) prior) lost"
  by (simp add: split_beta)

lemma lose_old:
  assumes "\<forall>p\<in>set lost. fst p \<le> largest_sent_at_last_cutback s" "\<not> slow_start_large_reduction s"
  shows "\<exists>st. lose prior s lost = s\<lparr>stats := st\<rparr> \<and> tcp_loss_events st = tcp_loss_events (stats s)"
  using assms
proof (induction lost arbitrary: s)
  case Nil
  then show ?case by (intro exI [of _ "stats s"]) simp
next
  case (Cons p lost)
  obtain st where st: "OnPacketLost s (fst p) (snd p) prior = s\<lparr>stats := st\<rparr>" "tcp_loss_events st = tcp_loss_events (stats s)"
    using OnPacketLost_old [of "fst p" s "snd p" prior] Cons.prems by auto
  from Cons.IH [of "s\<lparr>stats := st\<rparr>"] Cons.prems obtain st' where
    "lose prior (s\<lparr>stats := st\<rparr>) lost = s\<lparr>stats := st\<rparr>\<lparr>stats := st'\<rparr>" "tcp_loss_events st' = tcp_loss_events st"
    by auto
  then show ?case
    unfolding lose_Cons st(1) using st(2) by (intro exI [of _ st']) simp
qed

lemma lose_window:
  assumes "window_inv B s" "\<forall>p\<in>set lost. fst p \<le> largest_sent_packet_number s" "s' = lose prior s lost"
  shows "if \<exists>p\<in>set lost. fst p > largest_sent_at_last_cutback s
         then congestion_window s' = max (min_congestion_window s) (single_cut s) \<and> congestion_window s' \<le> congestion_window s \<and>
           slowstart_threshold s' = congestion_window s' \<and> largest_sent_at_last_cutback s' = largest_sent_packet_number s \<and>
           tcp_loss_events (stats s') = tcp_loss_events (stats s) + 1
         else \<exists>st. s' = s\<lparr>stats := st\<rparr> \<and> tcp_loss_events st = tcp_loss_events (stats s)"
  using assms
proof (induction lost arbitrary: s)
  case Nil
  then show ?case by (auto intro: exI [of _ "stats s"])
next
  case (Cons p lost)
  have ns: "\<not> slow_start_large_reduction s"
    using Cons.prems(1) by (simp add: window_inv_def)
  show ?case
  proof (cases "fst p \<le> largest_sent_at_last_cutback s")
    case True
    obtain st where st: "OnPacketLost s (fst p) (snd p) prior = s\<lparr>stats := st\<rparr>" "tcp_loss_events st = tcp_loss_events (stats s)"
      using OnPacketLost_old [OF True ns, of "snd p" prior] by auto
    have "window_inv B (s\<lparr>stats := st\<rparr>)"
      using Cons.prems(1) by (rule window_inv_frame) simp_all
    moreover have "single_cut (s\<lparr>stats := st\<rparr>) = single_cut s"
      by (simp add: single_cut_def RenoBeta_def)
    ultimately show ?thesis
      using Cons.IH [of "s\<lparr>stats := st\<rparr>"] Cons.prems(2,3) st(2) leD [OF True] unfolding lose_Cons st(1)
      by (cases "\<exists>p\<in>set lost. fst p > largest_sent_at_last_cutback s") auto
  next
    case False
    from OnPacketLost_new [OF this Cons.prems(1), of "snd p" prior] obtain c w q st e where
      l: "OnPacketLost s (fst p) (snd p) prior =
      s\<lparr>congestion_window := w, cubic := c, stats := st, last_cutback_exited_slowstart := e, prr := q,
        slowstart_threshold := w, largest_sent_at_last_cutback := largest_sent_packet_number s, num_acked_packets := 0\<rparr>"
      "min_congestion_window s \<le> w" "w \<le> congestion_window s" "tcp_loss_events st = tcp_loss_events (stats s) + 1"
      "cubic_ok (uint (min_congestion_window s)) c" "epoch c = 0" "uint (acked_bytes_count c) \<le> B"
      "w = max (min_congestion_window s) (single_cut s)" .
    define s1 where "s1 = OnPacketLost s (fst p) (snd p) prior"
    have "\<forall>p\<in>set lost. fst p \<le> largest_sent_at_last_cutback s1" "\<not> slow_start_large_reduction s1"
      using Cons.prems(2) ns by (simp_all add: s1_def l(1))
    from lose_old [OF this, of prior] obtain st' where "lose prior s1 lost = s1\<lparr>stats := st'\<rparr>"
      "tcp_loss_events st' = tcp_loss_events (stats s1)"
      by blast
    moreover have "s' = lose prior s1 lost"
      unfolding s1_def Cons.prems(3) by (rule lose_Cons)
    moreover have "congestion_window s1 = w" "stats s1 = st" "slowstart_threshold s1 = w"
      "largest_sent_at_last_cutback s1 = largest_sent_packet_number s"
      by (simp_all add: s1_def l(1))
    moreover have "\<exists>p\<in>set (p # lost). fst p > largest_sent_at_last_cutback s"
      using False by (auto simp: not_le)
    ultimately show ?thesis
      using l(3,4,8) by simp
  qed
qed

section \<open>Properties\<close>

text \<open>
  C20: Whatever the connection reports until 4 GB have been acknowledged, for a controller built with an initial window
  of at least two segments and a maximum window of 50 to 5000 segments and for every choice of connection options
  without the large slow start reduction, the congestion window stays at or above its minimum of one or two segments and
  below one segment more than its maximum, and the division by the emulated TCP window is defined:
  that window is at least the minimum in every state in which it is used.
\<close>

theorem congestion_window_bounds:
  assumes "2 \<le> uint iw" "iw \<le> mw" "50 \<le> uint mw" "uint mw \<le> 5000" "\<not> has_option config kSSLR"
    and "run_bytes es < 2 ^ 32"
    and "s = sender_run (SetFromConfig (TcpCubicSenderBytes is_reno iw mw st) config perspective) es"
  shows "kDefaultTCPMSS \<le> min_congestion_window s \<and> min_congestion_window s \<le> congestion_window s \<and>
         uint (congestion_window s) < uint (max_congestion_window s) + 1460 \<and>
         max_congestion_window s = mw * kDefaultTCPMSS \<and>
         (epoch (cubic s) \<noteq> 0 \<longrightarrow> min_congestion_window s \<le> estimated_tcp_congestion_window (cubic s))"
proof -
  define s0 where "s0 = SetFromConfig (TcpCubicSenderBytes is_reno iw mw st) config perspective"
  have s0: "fresh_sender s0"
    unfolding s0_def using assms by (intro fresh_SetFromConfig fresh_TcpCubicSenderBytes)
  then have "window_inv (0 + run_bytes es) s"
    unfolding assms(7) s0_def [symmetric] using assms(6) by (intro sender_run_inv) (simp_all add: fresh_sender_def)
  moreover have "limits s = limits s0"
    unfolding assms(7) s0_def [symmetric]
    by (rule sender_run_limits) (use s0 in \<open>simp add: fresh_sender_def window_inv_def\<close>)
  moreover have "max_congestion_window s0 = mw * kDefaultTCPMSS"
    by (simp add: s0_def SetFromConfig_def base_SetFromConfig_def Let_def SetCongestionWindowInPackets_def
        SetMinCongestionWindowInPackets_def TcpCubicSenderBytes_def)
  ultimately show ?thesis
    by (auto simp: window_inv_def limits_def cubic_ok_def word_le_def)
qed

definition example_stats :: sender_stats where
  "example_stats = \<lparr>slowstart_packets_sent = 0, slowstart_packets_lost = 0, slowstart_bytes_lost = 0, tcp_loss_events = 0\<rparr>"

theorem congestion_window_bounds_witness:
  "kDefaultTCPMSS \<le> congestion_window (sender_run (SetFromConfig (TcpCubicSenderBytes False 32 2000 example_stats) (Some []) IS_SERVER)
     [Sent 1 1460 HAS_RETRANSMITTABLE_DATA, Congestion RttStats False 1460 1000 [] [(1, 1460)], Timeout True])"
  using congestion_window_bounds [of 32 2000 "Some []"
      "[Sent 1 1460 HAS_RETRANSMITTABLE_DATA, Congestion RttStats False 1460 1000 [] [(1, 1460)], Timeout True]"
      _ False example_stats IS_SERVER]
  by (auto simp: has_option_def ContainsQuicTag_def run_bytes_def vector_bytes_def word_le_def)

text \<open>
  C24: The controller never locks up.  Take a controller built with an initial window of at least two segments and a
  maximum window of 50 to 5000 segments, CUBIC or Reno, with any connection options but the large slow start
  reduction.  In every state it reaches before 4 GB have been acknowledged, whatever is sent, acknowledged and
  lost, a sender with less than one segment in flight may send at once, in recovery or not.
\<close>

theorem sender_never_stuck:
  assumes "2 \<le> uint iw" "iw \<le> mw" "50 \<le> uint mw" "uint mw \<le> 5000" "\<not> has_option config kSSLR"
    and "run_bytes es < 2 ^ 32" "bytes_in_flight < kDefaultTCPMSS"
  shows "TimeUntilSend (sender_run (SetFromConfig (TcpCubicSenderBytes is_reno iw mw st) config perspective) es)
           bytes_in_flight = 0"
proof -
  define s0 where "s0 = SetFromConfig (TcpCubicSenderBytes is_reno iw mw st) config perspective"
  have "fresh_sender s0"
    unfolding s0_def using assms by (intro fresh_SetFromConfig fresh_TcpCubicSenderBytes)
  then have "window_inv (0 + run_bytes es) (sender_run s0 es)"
    using assms(6) by (intro sender_run_inv) (simp_all add: fresh_sender_def)
  then have "bytes_in_flight < congestion_window (sender_run s0 es)"
    using assms(7) by (auto simp: window_inv_def intro: order_less_le_trans)
  then show ?thesis
    using assms(7) unfolding s0_def by (simp add: TimeUntilSend_def prr_TimeUntilSend_def kMaxSegmentSize_def)
qed

theorem sender_never_stuck_witness:
  "TimeUntilSend (sender_run (SetFromConfig (TcpCubicSenderBytes True 10 2000 example_stats) None IS_CLIENT)
     [Sent 1 1460 HAS_RETRANSMITTABLE_DATA, Congestion RttStats False 1460 1000 [] [(1, 1460)]]) 0 = 0"
  using sender_never_stuck [of 10 2000 None
      "[Sent 1 1460 HAS_RETRANSMITTABLE_DATA, Congestion RttStats False 1460 1000 [] [(1, 1460)]]" 0 True example_stats IS_CLIENT]
  by (simp add: has_option_def run_bytes_def vector_bytes_def word_le_def kDefaultTCPMSS_def)

text \<open>
  C31: However many packets of one window are lost, the window is cut exactly once.  Take a batch of losses of
  packets already sent, in a state within the bounds of the window and without the large slow start reduction,
  whether the controller runs CUBIC or Reno.  If one of the packets was sent after the last cut, the window becomes
  the one that a single loss prescribes, raised to the minimum window and never above the window before; it is the
  new slow start threshold, one loss event is counted, and all packets sent so far count as sent before the cut.
  If there was no such packet, nothing but the statistics of lost packets changes.
\<close>

theorem one_cut_per_window:
  assumes "window_inv B s" "\<forall>p\<in>set lost. fst p \<le> largest_sent_packet_number s"
    and "s' = foldl (\<lambda>s (n, b). OnPacketLost s n b prior) s lost"
  shows "if \<exists>p\<in>set lost. fst p > largest_sent_at_last_cutback s
         then congestion_window s' = max (min_congestion_window s) (single_cut s) \<and> congestion_window s' \<le> congestion_window s \<and>
           slowstart_threshold s' = congestion_window s' \<and> largest_sent_at_last_cutback s' = largest_sent_packet_number s \<and>
           tcp_loss_events (stats s') = tcp_loss_events (stats s) + 1
         else \<exists>st. s' = s\<lparr>stats := st\<rparr> \<and> tcp_loss_events st = tcp_loss_events (stats s)"
  by (rule lose_window [OF assms])

theorem one_cut_per_window_witness:
  "congestion_window (foldl (\<lambda>s (n, b). OnPacketLost s n b 4380)
     ((TcpCubicSenderBytes True 32 2000 example_stats)\<lparr>largest_sent_packet_number := 3\<rparr>) [(1, 1460), (2, 1460), (3, 1460)]) =
   max 2920 (single_cut ((TcpCubicSenderBytes True 32 2000 example_stats)\<lparr>largest_sent_packet_number := 3\<rparr>))"
proof -
  define s where "s = (TcpCubicSenderBytes True 32 2000 example_stats)\<lparr>largest_sent_packet_number := 3\<rparr>"
  have "window_inv 0 s"
    by (simp add: s_def window_inv_def TcpCubicSenderBytes_def CubicBytes_def cubic_ok_def kDefaultMinimumCongestionWindow_def
        word_le_def kDefaultNumConnections_def kDefaultTCPMSS_def)
  moreover have "largest_sent_packet_number s = 3" "largest_sent_at_last_cutback s = 0" "min_congestion_window s = 2920"
    by (simp_all add: s_def TcpCubicSenderBytes_def kDefaultMinimumCongestionWindow_def kDefaultTCPMSS_def)
  ultimately show ?thesis
    using one_cut_per_window [of 0 s "[(1, 1460), (2, 1460), (3, 1460)]" _ 4380] unfolding s_def [symmetric]
    by (simp del: foldl_Cons)
qed

end
