(* ===== verification/Pacing_Sender.thy ===== *)
theory Pacing_Sender
  imports Tcp_Cubic_Sender "HOL-Library.Monad_Syntax"
begin

text \<open>
  Pacing, \<^verbatim>\<open>PacingSender\<close> of \<^verbatim>\<open>src/model/net/quic/core/congestion_control/pacing_sender.{h,cc}\<close>: packets are spread over
  time at the rate of the congestion controller below, after a burst when the connection leaves quiescence.

  The controller below is the TCP-like controller of the theory \<open>Tcp_Cubic_Sender\<close>, the default of a connection;
  it and the round trip times are arguments, and its new state is part of the results.  The value
  \<open>None\<close> is a division by zero in the rate of the controller.

  The theory shows that pacing never lets out a packet that the controller forbids, and that the packets of a
  paced run are at least as far apart as the rate asks, up to the granularity of the alarm.
\<close>

section \<open>The sender\<close>

definition kAlarmGranularity :: QuicTimeDelta where "kAlarmGranularity = FromMilliseconds 1"
definition kInitialUnpacedBurst :: uint32 where "kInitialUnpacedBurst = 10"

record pacing_sender =
  max_pacing_rate :: QuicBandwidth
  burst_tokens :: uint32
  last_delayed_packet_sent_time :: QuicTime
  ideal_next_packet_send_time :: QuicTime
  was_last_send_delayed :: bool

definition PacingSender :: pacing_sender where
  "PacingSender =
     \<lparr>max_pacing_rate = bw_Zero, burst_tokens = kInitialUnpacedBurst, last_delayed_packet_sent_time = 0,
      ideal_next_packet_send_time = 0, was_last_send_delayed = False\<rparr>"

definition set_max_pacing_rate :: "pacing_sender \<Rightarrow> QuicBandwidth \<Rightarrow> pacing_sender" where
  "set_max_pacing_rate ps rate = ps\<lparr>max_pacing_rate := rate\<rparr>"

definition pacing_OnCongestionEvent ::
  "rtt_stats \<Rightarrow> pacing_sender \<Rightarrow> tcp_cubic_sender \<Rightarrow> bool \<Rightarrow> QuicByteCount \<Rightarrow> QuicTime \<Rightarrow> congestion_vector \<Rightarrow> congestion_vector \<Rightarrow>
   pacing_sender \<times> tcp_cubic_sender" where
  "pacing_OnCongestionEvent rtt ps s rtt_updated bytes_in_flight event_time acked_packets lost_packets =
     (if lost_packets \<noteq> [] then ps\<lparr>burst_tokens := 0\<rparr> else ps,
      OnCongestionEvent rtt s rtt_updated bytes_in_flight event_time acked_packets lost_packets)"

definition pacing_PacingRate :: "rtt_stats \<Rightarrow> pacing_sender \<Rightarrow> tcp_cubic_sender \<Rightarrow> QuicBandwidth option" where
  "pacing_PacingRate rtt ps s =
     (if \<not> bw_IsZero (max_pacing_rate ps)
      then map_option (\<lambda>rate. FromBitsPerSecond (min (bits_per_second (max_pacing_rate ps)) (bits_per_second rate))) (PacingRate rtt s)
      else PacingRate rtt s)"

text \<open>The part of \<^verbatim>\<open>OnPacketSent\<close> after the use of the burst tokens.\<close>

definition paced_send :: "pacing_sender \<Rightarrow> QuicTime \<Rightarrow> QuicTimeDelta \<Rightarrow> pacing_sender" where
  "paced_send ps time delay =
     (if was_last_send_delayed ps
      then
        let ps = ps\<lparr>ideal_next_packet_send_time := ideal_next_packet_send_time ps + delay\<rparr>;
            application_limited =
              (last_delayed_packet_sent_time ps \<noteq> 0 \<and> time > last_delayed_packet_sent_time ps + delay);
            making_up_for_lost_time = (ideal_next_packet_send_time ps \<le> time)
        in if making_up_for_lost_time \<and> \<not> application_limited then ps\<lparr>last_delayed_packet_sent_time := time\<rparr>
           else ps\<lparr>was_last_send_delayed := False, last_delayed_packet_sent_time := 0\<rparr>
      else ps\<lparr>ideal_next_packet_send_time := max (ideal_next_packet_send_time ps + delay) (time + delay)\<rparr>)"

definition pacing_OnPacketSent ::
  "rtt_stats \<Rightarrow> pacing_sender \<Rightarrow> tcp_cubic_sender \<Rightarrow> QuicTime \<Rightarrow> QuicByteCount \<Rightarrow> QuicPacketNumber \<Rightarrow> QuicByteCount \<Rightarrow>
   HasRetransmittableData \<Rightarrow> (pacing_sender \<times> tcp_cubic_sender \<times> bool) option" where
  "pacing_OnPacketSent rtt ps s time bytes_in_flight number bytes retransmittable =
     (let (s, in_flight) = OnPacketSent s number bytes retransmittable in
      if retransmittable \<noteq> HAS_RETRANSMITTABLE_DATA then Some (ps, s, in_flight)
      else
        let ps = (if bytes_in_flight = 0 \<and> \<not> InRecovery s
                  then ps\<lparr>burst_tokens := min kInitialUnpacedBurst (ucast (congestion_window s div kDefaultTCPMSS))\<rparr>
                  else ps) in
        if burst_tokens ps > 0
        then Some (ps\<lparr>burst_tokens := burst_tokens ps - 1, was_last_send_delayed := False,
                      last_delayed_packet_sent_time := 0, ideal_next_packet_send_time := 0\<rparr>, s, in_flight)
        else do {
          rate \<leftarrow> pacing_PacingRate rtt ps s;
          Some (paced_send ps time (TransferTime rate bytes), s, in_flight)
        })"

definition pacing_TimeUntilSend ::
  "pacing_sender \<Rightarrow> tcp_cubic_sender \<Rightarrow> QuicTime \<Rightarrow> QuicByteCount \<Rightarrow> pacing_sender \<times> QuicTimeDelta" where
  "pacing_TimeUntilSend ps s now bytes_in_flight =
     (let time_until_send = TimeUntilSend s bytes_in_flight in
      if burst_tokens ps > 0 \<or> bytes_in_flight = 0 then (ps, time_until_send)
      else if time_until_send \<noteq> 0 then (ps, time_until_send)
      else if ideal_next_packet_send_time ps > now + kAlarmGranularity
      then (ps\<lparr>was_last_send_delayed := True\<rparr>, ideal_next_packet_send_time ps - now)
      else (ps, 0))"

section \<open>Paced runs\<close>

text \<open>Attempts to send: the time, the bytes in flight, and the number and the size of the packet.  A packet is
  sent if the answer is to send at once; the packets sent are listed with their times, the delays of the
  rate, and whether the sender was on time, that is, had not told an alarm to wait since it last caught up.\<close>

type_synonym attempt = "QuicTime \<times> QuicByteCount \<times> QuicPacketNumber \<times> QuicByteCount"
type_synonym departure = "QuicTime \<times> QuicTimeDelta \<times> bool"

abbreviation sent_at :: "departure \<Rightarrow> QuicTime" where "sent_at \<equiv> fst"
abbreviation spacing :: "departure \<Rightarrow> QuicTimeDelta" where "spacing p \<equiv> fst (snd p)"
abbreviation on_time :: "departure \<Rightarrow> bool" where "on_time p \<equiv> snd (snd p)"

fun paced_run ::
  "rtt_stats \<Rightarrow> pacing_sender \<Rightarrow> tcp_cubic_sender \<Rightarrow> attempt list \<Rightarrow>
   (pacing_sender \<times> tcp_cubic_sender \<times> departure list) option" where
  "paced_run rtt ps s [] = Some (ps, s, [])"
| "paced_run rtt ps s ((now, in_flight, number, bytes) # attempts) =
     (let (ps, wait) = pacing_TimeUntilSend ps s now in_flight in
      if wait \<noteq> 0 then paced_run rtt ps s attempts
      else do {
        (ps', s', _) \<leftarrow> pacing_OnPacketSent rtt ps s now in_flight number bytes HAS_RETRANSMITTABLE_DATA;
        rate \<leftarrow> pacing_PacingRate rtt ps s';
        (ps'', s'', sent) \<leftarrow> paced_run rtt ps' s' attempts;
        Some (ps'', s'', (now, TransferTime rate bytes, \<not> was_last_send_delayed ps) # sent)
      })"

lemma TimeUntilSend_paced:
  assumes "burst_tokens ps = 0" "b \<noteq> 0" "pacing_TimeUntilSend ps s now b = (ps', wait)"
  shows "burst_tokens ps' = 0" "ideal_next_packet_send_time ps' = ideal_next_packet_send_time ps"
    "max_pacing_rate ps' = max_pacing_rate ps"
    "wait = 0 \<longrightarrow> TimeUntilSend s b = 0 \<and> ideal_next_packet_send_time ps \<le> now + kAlarmGranularity"
    "ideal_next_packet_send_time ps \<le> now + kAlarmGranularity \<longrightarrow> was_last_send_delayed ps' = was_last_send_delayed ps"
  using assms by (auto simp: pacing_TimeUntilSend_def Let_def kAlarmGranularity_def FromMilliseconds_def split: if_splits)

lemma paced_send_ideal:
  "ideal_next_packet_send_time ps + delay \<le> ideal_next_packet_send_time (paced_send ps time delay)"
  "\<not> was_last_send_delayed ps \<Longrightarrow> time + delay \<le> ideal_next_packet_send_time (paced_send ps time delay)"
  "burst_tokens (paced_send ps time delay) = burst_tokens ps"
  by (auto simp: paced_send_def Let_def)

lemma OnPacketSent_paced:
  assumes "burst_tokens ps = 0" "b \<noteq> 0"
    "pacing_OnPacketSent rtt ps s time b number bytes HAS_RETRANSMITTABLE_DATA = Some (ps', s', fl)"
  shows "\<exists>rate. pacing_PacingRate rtt ps s' = Some rate \<and> burst_tokens ps' = 0 \<and>
    ideal_next_packet_send_time ps + TransferTime rate bytes \<le> ideal_next_packet_send_time ps' \<and>
    (\<not> was_last_send_delayed ps \<longrightarrow> time + TransferTime rate bytes \<le> ideal_next_packet_send_time ps')"
  using assms paced_send_ideal
  by (cases "OnPacketSent s number bytes HAS_RETRANSMITTABLE_DATA"; cases "pacing_PacingRate rtt ps (fst (OnPacketSent s number bytes HAS_RETRANSMITTABLE_DATA))")
     (auto simp: pacing_OnPacketSent_def)

text \<open>One attempt of a run: the packet waits, or it is sent.\<close>

lemma paced_run_Cons:
  assumes "burst_tokens ps = 0" "b \<noteq> 0" "paced_run rtt ps s ((now, b, number, bytes) # attempts) = Some (ps', s', sent)"
  obtains (waits) ps1 where "burst_tokens ps1 = 0" "ideal_next_packet_send_time ps1 = ideal_next_packet_send_time ps"
      "ideal_next_packet_send_time ps \<le> now + kAlarmGranularity \<longrightarrow> was_last_send_delayed ps1 = was_last_send_delayed ps"
      "paced_run rtt ps1 s attempts = Some (ps', s', sent)"
    | (sends) ps2 s2 d u sent' where "burst_tokens ps2 = 0" "ideal_next_packet_send_time ps + d \<le> ideal_next_packet_send_time ps2"
      "u \<longrightarrow> now + d \<le> ideal_next_packet_send_time ps2" "ideal_next_packet_send_time ps \<le> now + kAlarmGranularity"
      "u = (\<not> was_last_send_delayed ps)" "paced_run rtt ps2 s2 attempts = Some (ps', s', sent')" "sent = (now, d, u) # sent'"
proof -
  obtain ps1 wait where w: "pacing_TimeUntilSend ps s now b = (ps1, wait)" by (cases "pacing_TimeUntilSend ps s now b")
  note p = TimeUntilSend_paced [OF assms(1,2) w]
  show ?thesis
  proof (cases "wait = 0")
    case False
    then show ?thesis using waits [OF p(1,2,5)] assms(3) w by simp
  next
    case True
    then obtain ps2 s2 fl rate sent' where r:
      "pacing_OnPacketSent rtt ps1 s now b number bytes HAS_RETRANSMITTABLE_DATA = Some (ps2, s2, fl)"
      "pacing_PacingRate rtt ps1 s2 = Some rate" "paced_run rtt ps2 s2 attempts = Some (ps', s', sent')"
      "sent = (now, TransferTime rate bytes, \<not> was_last_send_delayed ps1) # sent'"
      using assms(3) w by (auto split: bind_splits)
    then show ?thesis
      using OnPacketSent_paced [OF p(1) assms(2) r(1)] p True
      by (intro sends [of ps2 "TransferTime rate bytes" "\<not> was_last_send_delayed ps1" s2 sent']) auto
  qed
qed

text \<open>Every packet is as late as the ideal time at the start and the delays of the packets before it ask.\<close>

lemma paced_run_spread:
  assumes "burst_tokens ps = 0" "\<forall>(now, b, n, k)\<in>set attempts. b \<noteq> 0" "paced_run rtt ps s attempts = Some (ps', s', sent)"
    and "j < length sent"
  shows "ideal_next_packet_send_time ps + (\<Sum>p\<leftarrow>take j sent. spacing p) \<le> sent_at (sent ! j) + kAlarmGranularity"
  using assms
proof (induction attempts arbitrary: ps s sent j)
  case (Cons a attempts)
  obtain now b number bytes where a: "a = (now, b, number, bytes)" by (cases a)
  have b: "b \<noteq> 0" "\<forall>(now, b, n, k)\<in>set attempts. b \<noteq> 0" using Cons.prems(2) a by auto
  have "paced_run rtt ps s ((now, b, number, bytes) # attempts) = Some (ps', s', sent)" using Cons.prems(3) a by simp
  with Cons.prems(1) b(1) show ?case
  proof (cases rule: paced_run_Cons)
    case (waits ps1)
    then show ?thesis using Cons.IH [OF waits(1) b(2) waits(4) Cons.prems(4)] by simp
  next
    case (sends ps2 s2 d u sent')
    then show ?thesis
      using Cons.IH [OF sends(1) b(2) sends(6), of "j - 1"] Cons.prems(4) by (cases j) auto
  qed
qed simp

text \<open>So is every packet after one that was sent on time, counted from the departure of that one.\<close>

lemma paced_run_on_time:
  assumes "burst_tokens ps = 0" "\<forall>(now, b, n, k)\<in>set attempts. b \<noteq> 0" "paced_run rtt ps s attempts = Some (ps', s', sent)"
    and "i < j" "j < length sent" "on_time (sent ! i)"
  shows "sent_at (sent ! i) + (\<Sum>p\<leftarrow>drop i (take j sent). spacing p) \<le> sent_at (sent ! j) + kAlarmGranularity"
  using assms
proof (induction attempts arbitrary: ps s sent i j)
  case (Cons a attempts)
  obtain now b number bytes where a: "a = (now, b, number, bytes)" by (cases a)
  have b: "b \<noteq> 0" "\<forall>(now, b, n, k)\<in>set attempts. b \<noteq> 0" using Cons.prems(2) a by auto
  have "paced_run rtt ps s ((now, b, number, bytes) # attempts) = Some (ps', s', sent)" using Cons.prems(3) a by simp
  with Cons.prems(1) b(1) show ?case
  proof (cases rule: paced_run_Cons)
    case (waits ps1)
    then show ?thesis using Cons.IH [OF waits(1) b(2) waits(4) Cons.prems(4-6)] by simp
  next
    case (sends ps2 s2 d u sent')
    obtain j' where j: "j = Suc j'" using Cons.prems(4) by (cases j) auto
    show ?thesis
    proof (cases i)
      case 0
      then show ?thesis
        using paced_run_spread [OF sends(1) b(2) sends(6), of j'] sends(3,7) j Cons.prems(5,6) by simp
    next
      case (Suc i')
      then show ?thesis
        using Cons.IH [OF sends(1) b(2) sends(6), of i' j'] sends(7) j Cons.prems(4-6) by simp
    qed
  qed
qed simp

text \<open>A sender that is not behind its ideal time sends its first packet on time.\<close>

lemma paced_run_first:
  assumes "burst_tokens ps = 0" "\<forall>(now, b, n, k)\<in>set attempts. b \<noteq> 0" "paced_run rtt ps s attempts = Some (ps', s', sent)"
    and "\<not> was_last_send_delayed ps" "\<forall>(now, b, n, k)\<in>set attempts. ideal_next_packet_send_time ps \<le> now + kAlarmGranularity"
    and "sent \<noteq> []"
  shows "on_time (sent ! 0)"
  using assms
proof (induction attempts arbitrary: ps s sent)
  case (Cons a attempts)
  obtain now b number bytes where a: "a = (now, b, number, bytes)" by (cases a)
  have b: "b \<noteq> 0" "\<forall>(now, b, n, k)\<in>set attempts. b \<noteq> 0" using Cons.prems(2) a by auto
  have "paced_run rtt ps s ((now, b, number, bytes) # attempts) = Some (ps', s', sent)" using Cons.prems(3) a by simp
  with Cons.prems(1) b(1) show ?case
  proof (cases rule: paced_run_Cons)
    case (waits ps1)
    then show ?thesis using Cons.IH [OF waits(1) b(2) waits(4)] Cons.prems(4-6) a by simp
  qed (use Cons.prems(4) in simp)
qed simp

text \<open>A packet that may be sent at once is one the controller allows.\<close>

lemma pacing_respects_controller: "snd (pacing_TimeUntilSend ps s now b) = 0 \<Longrightarrow> TimeUntilSend s b = 0"
  by (auto simp: pacing_TimeUntilSend_def Let_def split: if_splits)

text \<open>The delays from packet \<open>i\<close> to packet \<open>j\<close>.\<close>

definition spacing_between :: "departure list \<Rightarrow> nat \<Rightarrow> nat \<Rightarrow> QuicTimeDelta" where
  "spacing_between sent i j = (\<Sum>p\<leftarrow>drop i (take j sent). spacing p)"

text \<open>C27: Once the burst is used up pacing spreads the packets over the clock.  In a run of packets sent whenever the
  pacing sender says so, with data in flight throughout and whatever the times of the attempts, a packet that follows
  one sent on time leaves at least the transfer times of the packets from that one on after it, up to the alarm
  granularity of a millisecond.  The first packet after a burst is on time (clocks do not show negative times), since a burst leaves the ideal time at zero
  and no delay; so the whole run is spread from its first packet on.  Only packets behind their ideal time may make up
  for it: they too leave no earlier than the ideal time at the start and the packets before them allow.\<close>

theorem pacing_spreads_packets:
  assumes "burst_tokens ps = 0" "\<forall>(now, b, n, k)\<in>set attempts. b \<noteq> 0" "paced_run rtt ps s attempts = Some (ps', s', sent)"
    and "j < length sent"
  shows "(\<forall>i<j. on_time (sent ! i) \<longrightarrow> sent_at (sent ! i) + spacing_between sent i j \<le> sent_at (sent ! j) + 1000) \<and>
         (\<not> was_last_send_delayed ps \<and> ideal_next_packet_send_time ps = 0 \<and> (\<forall>(now, b, n, k)\<in>set attempts. 0 \<le> now) \<longrightarrow>
            on_time (sent ! 0) \<and> (0 < j \<longrightarrow> sent_at (sent ! 0) + spacing_between sent 0 j \<le> sent_at (sent ! j) + 1000)) \<and>
         ideal_next_packet_send_time ps + spacing_between sent 0 j \<le> sent_at (sent ! j) + 1000"
proof -
  have g: "kAlarmGranularity = 1000" by (simp add: kAlarmGranularity_def FromMilliseconds_def)
  have on: "\<forall>i<j. on_time (sent ! i) \<longrightarrow> sent_at (sent ! i) + spacing_between sent i j \<le> sent_at (sent ! j) + 1000"
    using paced_run_on_time [OF assms(1-3) _ assms(4)] by (simp add: g spacing_between_def)
  have "on_time (sent ! 0)" if "\<not> was_last_send_delayed ps" "ideal_next_packet_send_time ps = 0"
    "\<forall>(now, b, n, k)\<in>set attempts. 0 \<le> now"
    using assms(4) that(2,3) by (intro paced_run_first [OF assms(1-3) that(1)]) (auto simp: g)
  then show ?thesis
    using on paced_run_spread [OF assms] by (auto simp: g spacing_between_def)
qed

definition example_run :: "(pacing_sender \<times> tcp_cubic_sender \<times> departure list) option" where
  "example_run = paced_run (RttStats\<lparr>smoothed_rtt := 100000\<rparr>) (PacingSender\<lparr>burst_tokens := 0\<rparr>)
     (TcpCubicSenderBytes False 32 2000 example_stats) [(5000, 1460, 1, 1460), (5100, 2920, 2, 1460), (9000, 2920, 2, 1460), (9000, 4380, 3, 1460)]"

lemma example_run_sent: "map_option (\<lambda>(ps, s, sent). sent) example_run = Some [(5000, 1562, True), (9000, 1562, False), (9000, 1562, False)]"
  by code_simp

theorem pacing_spreads_packets_witness:
  "\<exists>ps s sent. example_run = Some (ps, s, sent) \<and> length sent = 3 \<and> sent_at (sent ! 0) + spacing_between sent 0 2 \<le> sent_at (sent ! 2) + 1000"
proof -
  obtain ps' s' where r: "example_run = Some (ps', s', [(5000, 1562, True), (9000, 1562, False), (9000, 1562, False)])" using example_run_sent by auto
  define sent :: "departure list" where "sent = [(5000, 1562, True), (9000, 1562, False), (9000, 1562, False)]"
  have "sent_at (sent ! 0) + spacing_between sent 0 2 \<le> sent_at (sent ! 2) + 1000"
    using pacing_spreads_packets [of "PacingSender\<lparr>burst_tokens := 0\<rparr>"
        "[(5000, 1460, 1, 1460), (5100, 2920, 2, 1460), (9000, 2920, 2, 1460), (9000, 4380, 3, 1460)]"
        "RttStats\<lparr>smoothed_rtt := 100000\<rparr>" "TcpCubicSenderBytes False 32 2000 example_stats" ps' s' sent 2]
      r unfolding example_run_def sent_def [symmetric] by (simp del: paced_run.simps add: PacingSender_def) (simp add: sent_def)
  then show ?thesis using r unfolding sent_def by fastforce
qed

end
