(* ===== verification/Interval_Set.thy ===== *)
theory Interval_Set
  imports Quic_Prelude
begin

text \<open>
  Half-open intervals and sets of them: the class templates of
  \<^verbatim>\<open>src/model/net/base/interval.h\<close> and \<^verbatim>\<open>src/model/net/base/interval_set.h\<close>, over any
  linearly ordered type with the default value \<open>0\<close>.
  The \<open>std::set\<close> of an \<open>IntervalSet\<close> is the list of its elements in the order of the
  comparator; an iterator is the suffix of the list that starts at it (the end is \<open>[]\<close>).
\<close>

section \<open>Intervals\<close>

record 'a interval =
  imin :: 'a
  imax :: 'a

abbreviation Interval :: "'a \<Rightarrow> 'a \<Rightarrow> 'a interval" where
  "Interval a b \<equiv> \<lparr>imin = a, imax = b\<rparr>"

definition iv_default :: "'a::zero interval" where
  "iv_default = Interval 0 0"

definition iv_Empty :: "'a::linorder interval \<Rightarrow> bool" where
  "iv_Empty i \<longleftrightarrow> imin i \<ge> imax i"

definition iv_Length :: "'a::{linorder, minus} interval \<Rightarrow> 'a" where
  "iv_Length i = (if imin i \<ge> imax i then imin i else imax i) - imin i"

definition iv_Contains :: "'a::linorder interval \<Rightarrow> 'a \<Rightarrow> bool" where
  "iv_Contains i t \<longleftrightarrow> imin i \<le> t \<and> imax i > t"

definition iv_ContainsInterval :: "'a::linorder interval \<Rightarrow> 'a interval \<Rightarrow> bool" where
  "iv_ContainsInterval this i \<longleftrightarrow>
     \<not> iv_Empty this \<and> \<not> iv_Empty i \<and> imin this \<le> imin i \<and> imax this \<ge> imax i"

definition iv_Intersects :: "'a::linorder interval \<Rightarrow> 'a interval \<Rightarrow> bool" where
  "iv_Intersects this i \<longleftrightarrow>
     \<not> iv_Empty this \<and> \<not> iv_Empty i \<and> imin this < imax i \<and> imax this > imin i"

text \<open>\<open>Intersects\<close> with an out parameter: the flag and, when it is set, the intersection.\<close>

definition iv_Intersection :: "'a::linorder interval \<Rightarrow> 'a interval \<Rightarrow> 'a interval option" where
  "iv_Intersection this i =
     (if \<not> iv_Intersects this i then None
      else Some (Interval (max (imin this) (imin i)) (min (imax this) (imax i))))"

definition iv_IntersectWith :: "'a::linorder interval \<Rightarrow> 'a interval \<Rightarrow> 'a interval \<times> bool" where
  "iv_IntersectWith this i =
     (if iv_Empty this then (this, False)
      else let (this, modified) =
                 (if imin i > imin this then (this\<lparr>imin := imin i\<rparr>, True) else (this, False))
           in if imax i < imax this then (this\<lparr>imax := imax i\<rparr>, True) else (this, modified))"

definition iv_SpanningUnion :: "'a::linorder interval \<Rightarrow> 'a interval \<Rightarrow> 'a interval \<times> bool" where
  "iv_SpanningUnion this i =
     (if iv_Empty i then (this, False)
      else if iv_Empty this then (i, True)
      else let (this, modified) =
                 (if imin i < imin this then (this\<lparr>imin := imin i\<rparr>, True) else (this, False))
           in if imax i > imax this then (this\<lparr>imax := imax i\<rparr>, True) else (this, modified))"

text \<open>\<open>Difference\<close>: the flag and the two out parameters \<open>lo\<close> and \<open>hi\<close>.\<close>

definition iv_Difference ::
  "'a::{linorder, zero} interval \<Rightarrow> 'a interval \<Rightarrow> bool \<times> 'a interval \<times> 'a interval" where
  "iv_Difference this i =
     (if iv_Empty this then (False, iv_default, iv_default)
      else if iv_Empty i then (False, this, iv_default)
      else if imin this < imax i \<and> imin this \<ge> imin i \<and> imax this > imax i then
        (True, iv_default, Interval (imax i) (imax this))
      else if imax this > imin i \<and> imax this \<le> imax i \<and> imin this < imin i then
        (True, Interval (imin this) (imin i), iv_default)
      else if imin this < imin i \<and> imax this > imax i then
        (True, Interval (imin this) (imin i), Interval (imax i) (imax this))
      else if imin this \<ge> imin i \<and> imax this \<le> imax i then (True, iv_default, iv_default)
      else (False, this, iv_default))"

definition iv_equal :: "'a::linorder interval \<Rightarrow> 'a interval \<Rightarrow> bool" where
  "iv_equal a b =
     (if iv_Empty a \<and> iv_Empty b then True
      else if iv_Empty a \<noteq> iv_Empty b then False
      else imin a = imin b \<and> imax a = imax b)"

definition iv_less :: "'a::linorder interval \<Rightarrow> 'a interval \<Rightarrow> bool" where
  "iv_less a b \<longleftrightarrow> imin a < imin b \<or> imin a = imin b \<and> imax a > imax b"

section \<open>The ordered set of intervals\<close>

type_synonym 'a interval_set = "'a interval list"

text \<open>\<open>std::set\<close>: insertion (with its flag), \<open>upper_bound\<close> and what stands before it.\<close>

definition set_insert :: "'a::linorder interval \<Rightarrow> 'a interval_set \<Rightarrow> 'a interval_set \<times> bool" where
  "set_insert x xs =
     (if x \<in> set xs then (xs, False)
      else (takeWhile (\<lambda>y. iv_less y x) xs @ x # dropWhile (\<lambda>y. iv_less y x) xs, True))"

definition before_upper :: "'a::linorder interval \<Rightarrow> 'a interval_set \<Rightarrow> 'a interval list" where
  "before_upper probe xs = takeWhile (\<lambda>y. \<not> iv_less probe y) xs"

definition upper_bound :: "'a::linorder interval \<Rightarrow> 'a interval_set \<Rightarrow> 'a interval list" where
  "upper_bound probe xs = dropWhile (\<lambda>y. \<not> iv_less probe y) xs"

fun is_Valid :: "'a::linorder interval_set \<Rightarrow> bool" where
  "is_Valid [] \<longleftrightarrow> True"
| "is_Valid [x] \<longleftrightarrow> imin x < imax x"
| "is_Valid (x # y # ys) \<longleftrightarrow> imin x < imax x \<and> imax x < imin y \<and> is_Valid (y # ys)"

definition is_SpanningInterval :: "'a::{linorder, zero} interval_set \<Rightarrow> 'a interval" where
  "is_SpanningInterval xs =
     (if xs \<noteq> [] then Interval (imin (hd xs)) (imax (last xs)) else iv_default)"

text \<open>
  \<open>Compact\<close> on the iterator range from \<open>prev\<close>: merging erases two elements and inserts the
  merged one; the elements still to visit are those the iterator \<open>next\<close> steps through.
\<close>

fun compact_loop ::
  "'a::linorder interval_set \<Rightarrow> 'a interval \<Rightarrow> 'a interval list \<Rightarrow> 'a interval_set" where
  "compact_loop xs prev [] = xs"
| "compact_loop xs prev (it # its) =
     (if imax prev \<ge> imin it then
        let i = Interval (imin prev) (max (imax prev) (imax it));
            xs = fst (set_insert i (remove1 it (remove1 prev xs)))
        in compact_loop xs i its
      else compact_loop xs it its)"

definition is_Compact :: "'a::linorder interval_set \<Rightarrow> 'a interval list \<Rightarrow> 'a interval_set" where
  "is_Compact xs rng = (case rng of [] \<Rightarrow> xs | b # bs \<Rightarrow> compact_loop xs b bs)"

definition is_Add :: "'a::linorder interval_set \<Rightarrow> 'a interval \<Rightarrow> 'a interval_set" where
  "is_Add xs interval =
     (if iv_Empty interval then xs
      else let (ys, inserted) = set_insert interval xs
           in if \<not> inserted then xs
              else let pre = takeWhile (\<lambda>y. y \<noteq> interval) ys;
                       rest = dropWhile (\<lambda>y. y \<noteq> interval) ys;
                       begin = (if pre = [] then rest else last pre # rest);
                       target_end = Interval (imax interval) (imax interval);
                       stop = upper_bound target_end ys
                   in is_Compact ys (take (length begin - length stop) begin))"

definition is_AddSet :: "'a::linorder interval_set \<Rightarrow> 'a interval_set \<Rightarrow> 'a interval_set" where
  "is_AddSet xs other = fold (\<lambda>i xs. is_Add xs i) other xs"

definition is_Equals :: "'a::linorder interval_set \<Rightarrow> 'a interval_set \<Rightarrow> bool" where
  "is_Equals xs ys \<longleftrightarrow>
     length xs = length ys \<and> list_all2 (\<lambda>i j. imin i = imin j \<and> imax i = imax j) xs ys"

definition is_Contains :: "'a::linorder interval_set \<Rightarrow> 'a \<Rightarrow> bool" where
  "is_Contains xs value =
     (let pre = before_upper (Interval value value) xs
      in if pre = [] then False else iv_Contains (last pre) value)"

definition is_ContainsInterval :: "'a::linorder interval_set \<Rightarrow> 'a interval \<Rightarrow> bool" where
  "is_ContainsInterval xs interval =
     (let pre = before_upper interval xs
      in if pre = [] then False else iv_ContainsInterval (last pre) interval)"

definition is_ContainsSet ::
  "'a::{linorder, zero} interval_set \<Rightarrow> 'a interval_set \<Rightarrow> bool" where
  "is_ContainsSet xs other =
     (if \<not> iv_ContainsInterval (is_SpanningInterval xs) (is_SpanningInterval other) then False
      else list_all (is_ContainsInterval xs) other)"

definition is_Find :: "'a::linorder interval_set \<Rightarrow> 'a \<Rightarrow> 'a interval option" where
  "is_Find xs value =
     (let pre = before_upper (Interval value value) xs
      in if pre = [] then None
         else if iv_Contains (last pre) value then Some (last pre) else None)"

definition is_FindInterval :: "'a::linorder interval_set \<Rightarrow> 'a interval \<Rightarrow> 'a interval option" where
  "is_FindInterval xs probe =
     (let pre = before_upper probe xs
      in if pre = [] then None
         else if iv_ContainsInterval (last pre) probe then Some (last pre) else None)"

definition is_IsDisjoint :: "'a::linorder interval_set \<Rightarrow> 'a interval \<Rightarrow> bool" where
  "is_IsDisjoint xs interval =
     (let tmp = Interval (imin interval) (imin interval);
          pre = before_upper tmp xs; it = upper_bound tmp xs
      in if it \<noteq> [] \<and> imax interval > imin (hd it) then False
         else if pre = [] then True
         else imax (last pre) \<le> imin interval)"

definition is_Union :: "'a::linorder interval_set \<Rightarrow> 'a interval_set \<Rightarrow> 'a interval_set" where
  "is_Union xs other = (let ys = fold (\<lambda>i xs. fst (set_insert i xs)) other xs in is_Compact ys ys)"

text \<open>
  \<open>FindIntersectionCandidate\<close> gives the suffix to search from.  The search for the next
  intersecting pair moves both iterators; it does not end on a pair that neither intersects
  nor can be skipped, so its rounds are counted by fuel and \<open>None\<close> is running out.
\<close>

definition is_FindIntersectionCandidate ::
  "'a::linorder interval_set \<Rightarrow> 'a interval \<Rightarrow> 'a interval list" where
  "is_FindIntersectionCandidate xs interval =
     (let pre = before_upper interval xs; mine = upper_bound interval xs
      in if pre \<noteq> [] then last pre # mine else mine)"

fun is_FindNextIntersectingPair ::
  "nat \<Rightarrow> 'a::linorder interval list \<Rightarrow> 'a interval list \<Rightarrow>
     ('a interval list \<times> 'a interval list) option option" where
  "is_FindNextIntersectingPair 0 mine theirs = None"
| "is_FindNextIntersectingPair (Suc n) mine theirs =
     (if mine = [] \<or> theirs = [] then Some None
      else if iv_Intersects (hd mine) (hd theirs) then Some (Some (mine, theirs))
      else let mine = dropWhile (\<lambda>m. imax m \<le> imin (hd theirs)) mine
           in if mine = [] then Some None
              else let theirs = dropWhile (\<lambda>t. imax t \<le> imin (hd mine)) theirs
                   in if theirs = [] then Some None
                      else is_FindNextIntersectingPair n mine theirs)"

definition is_Intersects ::
  "nat \<Rightarrow> 'a::{linorder, zero} interval_set \<Rightarrow> 'a interval_set \<Rightarrow> bool option" where
  "is_Intersects n xs other =
     (if \<not> iv_Intersects (is_SpanningInterval xs) (is_SpanningInterval other) then Some False
      else let mine = is_FindIntersectionCandidate xs (hd other)
           in if mine = [] then Some False
              else map_option (\<lambda>r. r \<noteq> None)
                     (is_FindNextIntersectingPair n mine
                        (is_FindIntersectionCandidate other (hd mine))))"

text \<open>One round of the loop of \<open>Difference\<close> at an intersecting pair, and the loop.\<close>

definition difference_step ::
  "'a::{linorder, zero} interval_set \<Rightarrow> 'a interval list \<Rightarrow> 'a interval \<Rightarrow>
     'a interval_set \<times> 'a interval list" where
  "difference_step xs mine their =
     (let i = hd mine; xs = remove1 i xs; mine = tl mine;
          (_, lo, hi) = iv_Difference i their;
          xs = (if \<not> iv_Empty lo then fst (set_insert lo xs) else xs)
      in if \<not> iv_Empty hi
         then let xs = fst (set_insert hi xs) in (xs, dropWhile (\<lambda>y. y \<noteq> hi) xs)
         else (xs, mine))"

fun difference_loop ::
  "nat \<Rightarrow> 'a::{linorder, zero} interval_set \<Rightarrow> 'a interval list \<Rightarrow> 'a interval list \<Rightarrow>
     'a interval_set option" where
  "difference_loop 0 xs mine theirs = None"
| "difference_loop (Suc n) xs mine theirs =
     (case is_FindNextIntersectingPair (Suc n) mine theirs of
        None \<Rightarrow> None
      | Some None \<Rightarrow> Some xs
      | Some (Some (mine, theirs)) \<Rightarrow>
          let (xs, mine) = difference_step xs mine (hd theirs)
          in difference_loop n xs mine theirs)"

definition is_DifferenceSet ::
  "nat \<Rightarrow> 'a::{linorder, zero} interval_set \<Rightarrow> 'a interval_set \<Rightarrow> 'a interval_set option" where
  "is_DifferenceSet n xs other =
     (if \<not> iv_Intersects (is_SpanningInterval xs) (is_SpanningInterval other) then Some xs
      else let mine = is_FindIntersectionCandidate xs (hd other)
           in if mine = [] then Some xs
              else difference_loop n xs mine (is_FindIntersectionCandidate other (hd xs)))"

definition is_Difference ::
  "nat \<Rightarrow> 'a::{linorder, zero} interval_set \<Rightarrow> 'a interval \<Rightarrow> 'a interval_set option" where
  "is_Difference n xs interval =
     (if \<not> iv_Intersects (is_SpanningInterval xs) interval then Some xs
      else is_DifferenceSet n xs (is_Add [] interval))"

definition is_Complement ::
  "nat \<Rightarrow> 'a::{linorder, zero} interval_set \<Rightarrow> 'a \<Rightarrow> 'a \<Rightarrow> 'a interval_set option" where
  "is_Complement n xs mn mx = is_DifferenceSet n (is_Add [] (Interval mn mx)) xs"

section \<open>The set a list of intervals stands for\<close>

definition iv_set :: "'a::linorder interval \<Rightarrow> 'a set" where
  "iv_set i = {imin i ..< imax i}"

definition is_abs :: "'a::linorder interval_set \<Rightarrow> 'a set" where
  "is_abs xs = (\<Union>i\<in>set xs. iv_set i)"

lemma is_abs_simps [simp]:
  "is_abs [] = {}" "is_abs (x # xs) = iv_set x \<union> is_abs xs"
  "is_abs (xs @ ys) = is_abs xs \<union> is_abs ys"
  by (auto simp: is_abs_def)

lemma iv_Contains_iff: "iv_Contains i t \<longleftrightarrow> t \<in> iv_set i"
  by (auto simp: iv_Contains_def iv_set_def)

lemma iv_ContainsInterval_iff:
  "iv_ContainsInterval a b \<longleftrightarrow> iv_set b \<noteq> {} \<and> iv_set b \<subseteq> iv_set a"
  unfolding iv_ContainsInterval_def iv_Empty_def iv_set_def
  by (smt (verit) atLeastLessThan_empty_iff atLeastLessThan_subset_iff ivl_subset leD leI order_trans)

lemma is_Valid_iff:
  "is_Valid xs \<longleftrightarrow> sorted_wrt (\<lambda>x y. imax x < imin y) xs \<and> (\<forall>x\<in>set xs. imin x < imax x)"
  by (induction xs rule: is_Valid.induct) (auto intro: order.strict_trans)

lemma is_Valid_nonempty: "is_Valid xs \<Longrightarrow> x \<in> set xs \<Longrightarrow> imin x < imax x"
  unfolding is_Valid_iff by blast

lemma is_Valid_Cons:
  "is_Valid (x # xs) \<longleftrightarrow> imin x < imax x \<and> (\<forall>y\<in>set xs. imax x < imin y) \<and> is_Valid xs"
  by (auto simp: is_Valid_iff)

lemma is_Valid_append:
  "is_Valid (xs @ ys) \<longleftrightarrow>
     is_Valid xs \<and> is_Valid ys \<and> (\<forall>x\<in>set xs. \<forall>y\<in>set ys. imax x < imin y)"
  by (auto simp: is_Valid_iff sorted_wrt_append)

section \<open>Compaction and \<open>Add\<close>\<close>

text \<open>Compaction in place: what the erasures and insertions of \<open>Compact\<close> amount to.\<close>

fun compact_list :: "'a::linorder interval \<Rightarrow> 'a interval list \<Rightarrow> 'a interval list" where
  "compact_list p [] = [p]"
| "compact_list p (it # its) =
     (if imax p \<ge> imin it then compact_list (Interval (imin p) (max (imax p) (imax it))) its
      else p # compact_list it its)"

lemma iv_less_irrefl [simp]: "\<not> iv_less x x"
  by (simp add: iv_less_def)

lemma iv_less_trans: "iv_less x y \<Longrightarrow> iv_less y z \<Longrightarrow> iv_less x z"
  by (auto simp: iv_less_def)

lemma iv_less_cases: "iv_less x y \<or> x = y \<or> iv_less y (x::'a::linorder interval)"
  by (cases x, cases y) (auto simp: iv_less_def)

lemma set_insert_between:
  assumes "\<forall>a\<in>set A. iv_less a x" "\<forall>b\<in>set B. iv_less x b"
  shows "set_insert x (A @ B) = (A @ x # B, True)"
proof -
  have "x \<notin> set (A @ B)"
    using assms by auto
  moreover have "takeWhile (\<lambda>y. iv_less y x) (A @ B) = A"
    using assms by (cases B) (auto simp: takeWhile_append2 dest: iv_less_trans)
  moreover have "dropWhile (\<lambda>y. iv_less y x) (A @ B) = B"
    using assms by (cases B) (auto simp: dropWhile_append2 dest: iv_less_trans)
  ultimately show ?thesis
    by (simp add: set_insert_def)
qed

lemma iv_less_merge:
  "iv_less p it \<Longrightarrow> iv_less it b \<Longrightarrow> iv_less (Interval (imin p) (max (imax p) (imax it))) b"
  by (auto simp: iv_less_def less_max_iff_disj)

lemma remove1_middle: "x \<notin> set A \<Longrightarrow> remove1 x (A @ x # B) = A @ B"
  by (simp add: remove1_append)

lemma compact_loop_eq:
  assumes "sorted_wrt iv_less (A @ p # its @ B)" "\<forall>a\<in>set A. imin a < imin p"
    and "\<forall>x\<in>set (p # its). imin x < imax x"
  shows "compact_loop (A @ p # its @ B) p its = A @ compact_list p its @ B"
  using assms
proof (induction its arbitrary: A p)
  case (Cons it its)
  have srt: "\<forall>z\<in>set (its @ B). iv_less it z" "iv_less p it" "\<forall>a\<in>set A. iv_less a p \<and> iv_less a it"
    using Cons.prems(1) by (auto simp: sorted_wrt_append)
  show ?case
  proof (cases "imax p \<ge> imin it")
    case True
    let ?i = "Interval (imin p) (max (imax p) (imax it))"
    have "remove1 p (A @ p # it # its @ B) = A @ it # its @ B"
      using srt by (intro remove1_middle) auto
    moreover have "remove1 it (A @ it # its @ B) = A @ its @ B"
      using srt by (intro remove1_middle) auto
    moreover have lt: "\<forall>a\<in>set A. iv_less a ?i"
      using Cons.prems(2) by (simp add: iv_less_def)
    have gt: "\<forall>b\<in>set (its @ B). iv_less ?i b"
      using srt(1) iv_less_merge [OF srt(2)] by blast
    have "set_insert ?i (A @ its @ B) = (A @ ?i # its @ B, True)"
      by (rule set_insert_between [OF lt gt])
    moreover have "sorted_wrt iv_less (A @ ?i # its @ B)"
      using Cons.prems(1) lt gt by (simp add: sorted_wrt_append)
    then have "compact_loop (A @ ?i # its @ B) ?i its = A @ compact_list ?i its @ B"
      using Cons.prems by (intro Cons.IH) (auto simp: less_max_iff_disj)
    ultimately show ?thesis
      using True by (simp add: Let_def)
  next
    case False
    then have "compact_loop ((A @ [p]) @ it # its @ B) it its = (A @ [p]) @ compact_list it its @ B"
      using Cons.prems by (intro Cons.IH) (auto dest: order.strict_trans)
    then show ?thesis
      using False by simp
  qed
qed simp

lemma compact_list_min:
  "x \<in> set (compact_list p its) \<Longrightarrow> imin x \<in> insert (imin p) (imin ` set its)"
  by (induction p its rule: compact_list.induct) (auto split: if_splits)

lemma compact_list_max:
  "x \<in> set (compact_list p its) \<Longrightarrow> imax x \<in> insert (imax p) (imax ` set its)"
  by (induction p its rule: compact_list.induct) (auto simp: max_def split: if_splits)

lemma compact_list_Valid:
  assumes "sorted_wrt (\<lambda>x y. imin x \<le> imin y) (p # its)" "\<forall>x\<in>set (p # its). imin x < imax x"
  shows "is_Valid (compact_list p its)"
  using assms
proof (induction its arbitrary: p)
  case (Cons it its)
  show ?case
  proof (cases "imax p \<ge> imin it")
    case True
    then show ?thesis
      using Cons.prems by (auto intro!: Cons.IH simp: less_max_iff_disj)
  next
    case False
    then show ?thesis
      using Cons by (force simp: is_Valid_Cons dest: compact_list_min)
  qed
qed simp

lemma compact_list_abs:
  assumes "sorted_wrt (\<lambda>x y. imin x \<le> imin y) (p # its)" "\<forall>x\<in>set (p # its). imin x < imax x"
  shows "is_abs (compact_list p its) = iv_set p \<union> is_abs its"
  using assms
proof (induction its arbitrary: p)
  case (Cons it its)
  show ?case
  proof (cases "imax p \<ge> imin it")
    case True
    have "is_abs (compact_list (Interval (imin p) (max (imax p) (imax it))) its) =
        iv_set (Interval (imin p) (max (imax p) (imax it))) \<union> is_abs its"
      using Cons.prems by (intro Cons.IH) (auto simp: less_max_iff_disj)
    moreover have "iv_set (Interval (imin p) (max (imax p) (imax it))) = iv_set p \<union> iv_set it"
      using True Cons.prems by (auto simp: iv_set_def less_max_iff_disj)
    ultimately show ?thesis
      using True by (simp add: Un_assoc)
  next
    case False
    then show ?thesis
      using Cons by simp
  qed
qed simp

lemma is_Valid_sorted: "is_Valid xs \<Longrightarrow> sorted_wrt iv_less xs"
  unfolding is_Valid_iff
  by (induction xs) (auto simp: iv_less_def intro: order.strict_trans)

lemma sorted_iv_less_imin: "sorted_wrt iv_less xs \<Longrightarrow> sorted_wrt (\<lambda>x y. imin x \<le> imin y) xs"
  by (induction xs) (auto simp: iv_less_def)

lemma dropWhile_sorted:
  assumes "sorted_wrt r xs" "\<And>x y. r x y \<Longrightarrow> x \<in> set xs \<Longrightarrow> y \<in> set xs \<Longrightarrow> \<not> P x \<Longrightarrow> \<not> P y"
    and "y \<in> set (dropWhile P xs)"
  shows "\<not> P y"
  using assms
proof (induction xs)
  case (Cons x xs)
  then show ?case
    by (cases "P x") auto
qed simp

lemma sorted_insert_split:
  assumes "sorted_wrt iv_less xs" "x \<notin> set xs"
  obtains L R where "xs = L @ R" "set_insert x xs = (L @ x # R, True)"
    "\<forall>a\<in>set L. iv_less a x" "\<forall>b\<in>set R. iv_less x b"
proof -
  let ?L = "takeWhile (\<lambda>y. iv_less y x) xs" and ?R = "dropWhile (\<lambda>y. iv_less y x) xs"
  have "\<not> iv_less b x" if "b \<in> set ?R" for b
    using assms(1) _ that by (rule dropWhile_sorted) (blast intro: iv_less_trans)
  then have "\<forall>b\<in>set ?R. iv_less x b"
    using iv_less_cases [of x] assms(2) by (blast dest: set_dropWhileD)
  then show thesis
    using assms(2) by (intro that [of ?L ?R]) (auto simp: set_insert_def dest: set_takeWhileD)
qed

lemma takeWhile_neq_middle: "x \<notin> set A \<Longrightarrow> takeWhile (\<lambda>y. y \<noteq> x) (A @ x # B) = A"
  by (induction A) auto

lemma dropWhile_neq_middle: "x \<notin> set A \<Longrightarrow> dropWhile (\<lambda>y. y \<noteq> x) (A @ x # B) = x # B"
  by (induction A) auto

lemma target_end_less:
  "imin x < imax x \<Longrightarrow> \<not> iv_less (Interval t t) x \<longleftrightarrow> imin x \<le> t"
  by (auto simp: iv_less_def)

text \<open>\<open>Add\<close> inserts between \<open>L\<close> and \<open>R1 @ R2\<close> and compacts up to \<open>R2\<close>.\<close>

lemma is_Add_range:
  assumes "is_Valid xs" "\<not> iv_Empty i" "i \<notin> set xs"
  obtains L R1 R2 where "xs = L @ R1 @ R2"
    "is_Add xs i = is_Compact (L @ i # R1 @ R2) ((if L = [] then [] else [last L]) @ i # R1)"
    "\<forall>a\<in>set L. iv_less a i" "\<forall>b\<in>set R1. iv_less i b" "\<forall>b\<in>set R2. imax i < imin b"
proof -
  obtain L R where LR: "xs = L @ R" and ins: "set_insert i xs = (L @ i # R, True)"
    and less: "\<forall>a\<in>set L. iv_less a i" "\<forall>b\<in>set R. iv_less i b"
    by (rule sorted_insert_split [OF is_Valid_sorted [OF assms(1)] assms(3)])
  let ?P = "\<lambda>y. \<not> iv_less (Interval (imax i) (imax i)) y"
  define R1 R2 where R12: "R1 = takeWhile ?P R" "R2 = dropWhile ?P R"
  have R: "R = R1 @ R2"
    by (simp add: R12)
  have nes: "\<forall>x\<in>set xs. imin x < imax x"
    using is_Valid_nonempty [OF assms(1)] by blast
  have ne: "imin i < imax i"
    using assms(2) by (simp add: iv_Empty_def)
  have "\<forall>x\<in>set (L @ [i]). imin x < imax i"
    using less(1) ne order.strict_trans [of _ "imin i" "imax i"] by (auto simp: iv_less_def)
  then have "\<forall>x\<in>set (L @ [i]). ?P x"
    by (auto simp: iv_less_def)
  then have stop: "upper_bound (Interval (imax i) (imax i)) (L @ i # R) = R2"
    using dropWhile_append2 [of "L @ [i]" ?P R] by (simp add: upper_bound_def R12)
  have pre: "takeWhile (\<lambda>y. y \<noteq> i) (L @ i # R) = L" "dropWhile (\<lambda>y. y \<noteq> i) (L @ i # R) = i # R"
    using less(1) by (auto intro!: takeWhile_neq_middle dropWhile_neq_middle)
  have up: "iv_less (Interval (imax i) (imax i)) b" if "b \<in> set R2" for b
  proof -
    have "sorted_wrt iv_less R"
      using is_Valid_sorted [OF assms(1)] by (simp add: LR sorted_wrt_append)
    then have "\<not> ?P b"
      using _ that unfolding R12 by (rule dropWhile_sorted) (blast intro: iv_less_trans)
    then show ?thesis
      by blast
  qed
  have "imax i < imin b" if "b \<in> set R2" for b
    using up [OF that] bspec [OF nes, of b] that by (auto simp: iv_less_def LR R)
  then have "\<forall>b\<in>set R2. imax i < imin b"
    by blast
  moreover have "is_Add xs i = is_Compact (L @ i # R) ((if L = [] then [] else [last L]) @ i # R1)"
    using assms(2) unfolding is_Add_def ins prod.case pre stop Let_def by (simp add: R)
  ultimately show thesis
    using less by (intro that [of L R1 R2]) (simp_all add: LR R)
qed

lemma compact_splice:
  assumes "sorted_wrt iv_less (p # its)" "\<forall>x\<in>set (p # its). imin x < imax x"
    and "is_Valid A" "is_Valid B" "\<forall>a\<in>set A. \<forall>x\<in>set (p # its @ B). imax a < imin x"
    and "\<forall>x\<in>set (p # its). \<forall>b\<in>set B. imax x < imin b"
  shows "is_Valid (A @ compact_list p its @ B)"
    and "is_abs (A @ compact_list p its @ B) = is_abs A \<union> (iv_set p \<union> is_abs its) \<union> is_abs B"
proof -
  have "is_Valid (compact_list p its)"
    by (rule compact_list_Valid [OF sorted_iv_less_imin [OF assms(1)] assms(2)])
  moreover have "imax a < imin x" if "a \<in> set A" "x \<in> set (compact_list p its)" for a x
    using compact_list_min [OF that(2)] bspec [OF assms(5) that(1)] by auto
  moreover have "imax x < imin b" if "b \<in> set B" "x \<in> set (compact_list p its)" for b x
    using compact_list_max [OF that(2)] assms(6) that(1) by auto
  ultimately show "is_Valid (A @ compact_list p its @ B)"
    using assms(3,4,5) by (auto simp: is_Valid_append)
  show "is_abs (A @ compact_list p its @ B) = is_abs A \<union> (iv_set p \<union> is_abs its) \<union> is_abs B"
    using compact_list_abs [OF sorted_iv_less_imin [OF assms(1)] assms(2)] by (simp add: Un_assoc)
qed

lemma compact_loop_splice:
  assumes "sorted_wrt iv_less (p # its)" "\<forall>x\<in>set (p # its). imin x < imax x"
    and "is_Valid A" "is_Valid B" "\<forall>a\<in>set A. \<forall>x\<in>set (p # its @ B). imax a < imin x"
    and "\<forall>x\<in>set (p # its). \<forall>b\<in>set B. imax x < imin b"
  shows "compact_loop (A @ p # its @ B) p its = A @ compact_list p its @ B"
proof (rule compact_loop_eq [OF _ _ assms(2)])
  have lt: "iv_less x y" if "imin x < imax x" "imax x < imin y" for x y :: "'a interval"
    using order.strict_trans [OF that] by (simp add: iv_less_def)
  have "iv_less a x" if "a \<in> set A" "x \<in> set (p # its @ B)" for a x
    using lt [of a x] that assms(5) is_Valid_nonempty [OF assms(3)] by blast
  moreover have "iv_less x b" if "x \<in> set (p # its)" "b \<in> set B" for x b
    using lt [of x b] that assms(2,6) by blast
  ultimately show "sorted_wrt iv_less (A @ p # its @ B)"
    using assms(1) is_Valid_sorted [OF assms(3)] is_Valid_sorted [OF assms(4)]
    by (auto simp: sorted_wrt_append)
  show "\<forall>a\<in>set A. imin a < imin p"
    using assms(5) is_Valid_nonempty [OF assms(3)] by (meson list.set_intros(1) order.strict_trans)
qed

text \<open>The two facts on \<open>Add\<close>: the invariant is kept, and the set grows by the interval.\<close>

lemma is_Add_new:
  assumes "is_Valid xs" "\<not> iv_Empty i" "i \<notin> set xs"
  shows "is_Valid (is_Add xs i) \<and> is_abs (is_Add xs i) = is_abs xs \<union> iv_set i"
proof -
  obtain L R1 R2 where xs: "xs = L @ R1 @ R2"
    and Add: "is_Add xs i = is_Compact (L @ i # R1 @ R2) ((if L = [] then [] else [last L]) @ i # R1)"
    and less: "\<forall>a\<in>set L. iv_less a i" "\<forall>b\<in>set R1. iv_less i b" "\<forall>b\<in>set R2. imax i < imin b"
    by (rule is_Add_range [OF assms])
  have val: "is_Valid L" "is_Valid R1" "is_Valid R2"
    "\<forall>a\<in>set L. \<forall>b\<in>set R1 \<union> set R2. imax a < imin b" "\<forall>a\<in>set R1. \<forall>b\<in>set R2. imax a < imin b"
    using assms(1) by (auto simp: xs is_Valid_append)
  have ne: "\<forall>x\<in>set L \<union> set R1. imin x < imax x" "imin i < imax i"
    using is_Valid_nonempty [OF assms(1)] assms(2) by (auto simp: xs iv_Empty_def)
  have srt: "sorted_wrt iv_less (i # R1)"
    using less(2) is_Valid_sorted [OF val(2)] by simp
  show ?thesis
  proof (cases L rule: rev_cases)
    case Nil
    have "is_Add xs i = compact_loop ([] @ i # R1 @ R2) i R1"
      by (simp add: Add Nil is_Compact_def)
    also have "\<dots> = [] @ compact_list i R1 @ R2"
      by (rule compact_loop_splice) (use srt ne less(3) val in auto)
    finally show ?thesis
      using compact_splice [of i R1 "[]" R2] srt ne less(3) val by (auto simp: xs Nil)
  next
    case (snoc A p)
    have srt': "sorted_wrt iv_less (p # i # R1)"
      using srt less(1) by (auto simp: snoc intro: iv_less_trans)
    have A: "is_Valid A" "\<forall>a\<in>set A. \<forall>x\<in>set (p # (i # R1) @ R2). imax a < imin x"
    proof -
      show "is_Valid A"
        using val(1) by (simp add: snoc is_Valid_append)
      have "imax a < imin p" if "a \<in> set A" for a
        using val(1) that by (simp add: snoc is_Valid_append)
      moreover have "imin p \<le> imin i"
        using less(1) by (auto simp: snoc iv_less_def)
      ultimately show "\<forall>a\<in>set A. \<forall>x\<in>set (p # (i # R1) @ R2). imax a < imin x"
        using val(4) by (auto simp: snoc intro: less_le_trans)
    qed
    have mid: "\<forall>x\<in>set (p # i # R1). \<forall>b\<in>set R2. imax x < imin b" "\<forall>x\<in>set (p # i # R1). imin x < imax x"
      using less(3) val(4,5) ne by (auto simp: snoc)
    have "is_Add xs i = compact_loop (A @ p # (i # R1) @ R2) p (i # R1)"
      by (simp add: Add snoc is_Compact_def)
    also have "\<dots> = A @ compact_list p (i # R1) @ R2"
      by (rule compact_loop_splice [OF srt' mid(2) A(1) val(3) A(2) mid(1)])
    finally show ?thesis
      using compact_splice [OF srt' mid(2) A(1) val(3) A(2) mid(1)] by (auto simp: xs snoc)
  qed
qed

lemma is_Add_correct:
  assumes "is_Valid xs"
  shows "is_Valid (is_Add xs i)" and "is_abs (is_Add xs i) = is_abs xs \<union> iv_set i"
proof -
  consider "iv_Empty i" | "\<not> iv_Empty i" "i \<in> set xs" | "\<not> iv_Empty i" "i \<notin> set xs"
    by blast
  then have "is_Valid (is_Add xs i) \<and> is_abs (is_Add xs i) = is_abs xs \<union> iv_set i"
  proof cases
    case 1
    then show ?thesis
      using assms by (simp add: is_Add_def iv_Empty_def iv_set_def)
  next
    case 2
    then have "is_Add xs i = xs" "iv_set i \<subseteq> is_abs xs"
      by (auto simp: is_Add_def set_insert_def is_abs_def)
    then show ?thesis
      using assms by auto
  next
    case 3
    then show ?thesis
      by (rule is_Add_new [OF assms])
  qed
  then show "is_Valid (is_Add xs i)" "is_abs (is_Add xs i) = is_abs xs \<union> iv_set i"
    by blast+
qed

lemma is_AddSet_correct:
  assumes "is_Valid xs"
  shows "is_Valid (is_AddSet xs ys)" "is_abs (is_AddSet xs ys) = is_abs xs \<union> is_abs ys"
proof -
  have "is_Valid (is_AddSet xs ys) \<and> is_abs (is_AddSet xs ys) = is_abs xs \<union> is_abs ys"
    using assms
    by (induction ys arbitrary: xs) (auto simp: is_AddSet_def is_Add_correct)
  then show "is_Valid (is_AddSet xs ys)" "is_abs (is_AddSet xs ys) = is_abs xs \<union> is_abs ys"
    by blast+
qed

lemma fold_insert_sorted:
  assumes "sorted_wrt iv_less xs"
  shows "sorted_wrt iv_less (fold (\<lambda>i xs. fst (set_insert i xs)) ys xs) \<and>
         set (fold (\<lambda>i xs. fst (set_insert i xs)) ys xs) = set xs \<union> set ys"
  using assms
proof (induction ys arbitrary: xs)
  case (Cons y ys)
  have "sorted_wrt iv_less (fst (set_insert y xs)) \<and> set (fst (set_insert y xs)) = insert y (set xs)"
  proof (cases "y \<in> set xs")
    case True
    then show ?thesis
      using Cons.prems by (auto simp: set_insert_def)
  next
    case False
    then obtain L R where "xs = L @ R" "set_insert y xs = (L @ y # R, True)"
      "\<forall>a\<in>set L. iv_less a y" "\<forall>b\<in>set R. iv_less y b"
      by (rule sorted_insert_split [OF Cons.prems])
    then show ?thesis
      using Cons.prems by (auto simp: sorted_wrt_append)
  qed
  then show ?case
    using Cons.IH [of "fst (set_insert y xs)"] by auto
qed simp

lemma is_Union_correct:
  assumes "is_Valid xs" "is_Valid ys"
  shows "is_Valid (is_Union xs ys)" "is_abs (is_Union xs ys) = is_abs xs \<union> is_abs ys"
proof -
  let ?zs = "fold (\<lambda>i xs. fst (set_insert i xs)) ys xs"
  have zs: "sorted_wrt iv_less ?zs" "set ?zs = set xs \<union> set ys"
    using fold_insert_sorted [OF is_Valid_sorted [OF assms(1)]] by auto
  have abs: "is_abs ?zs = is_abs xs \<union> is_abs ys"
    by (auto simp: is_abs_def zs(2))
  have ne: "\<forall>x\<in>set ?zs. imin x < imax x"
    unfolding zs(2) using is_Valid_nonempty assms by blast
  have "is_Valid (is_Union xs ys) \<and> is_abs (is_Union xs ys) = is_abs xs \<union> is_abs ys"
  proof (cases ?zs)
    case Nil
    then show ?thesis
      using abs by (simp add: is_Union_def is_Compact_def)
  next
    case (Cons p its)
    have "is_Union xs ys = compact_loop ([] @ p # its @ []) p its"
      by (simp add: is_Union_def is_Compact_def Cons)
    also have "\<dots> = [] @ compact_list p its @ []"
      by (rule compact_loop_splice) (use zs(1) ne in \<open>auto simp: Cons\<close>)
    finally show ?thesis
      using compact_splice [of p its "[]" "[]"] zs(1) ne abs by (auto simp: Cons)
  qed
  then show "is_Valid (is_Union xs ys)" "is_abs (is_Union xs ys) = is_abs xs \<union> is_abs ys"
    by blast+
qed

section \<open>Queries\<close>

text \<open>
  The element before \<open>upper_bound\<close> is the only one that can hold the probe: what stands before
  it ends below the probe, what stands after it begins above.
\<close>

lemma upper_bound_split:
  assumes "sorted_wrt iv_less xs"
  shows "xs = before_upper p xs @ upper_bound p xs"
    "x \<in> set (before_upper p xs) \<Longrightarrow> \<not> iv_less p x"
    "x \<in> set (upper_bound p xs) \<Longrightarrow> iv_less p x"
proof -
  show "xs = before_upper p xs @ upper_bound p xs"
    by (simp add: before_upper_def upper_bound_def)
  show "\<not> iv_less p x" if "x \<in> set (before_upper p xs)"
    using that by (auto simp: before_upper_def dest: set_takeWhileD)
  assume *: "x \<in> set (upper_bound p xs)"
  have "\<not> \<not> iv_less p x"
    using assms _ * unfolding upper_bound_def by (rule dropWhile_sorted) (blast intro: iv_less_trans)
  then show "iv_less p x"
    by blast
qed

lemma before_upper_subset: "x \<in> set (before_upper p xs) \<Longrightarrow> x \<in> set xs"
  by (auto simp: before_upper_def dest: set_takeWhileD)

lemma upper_bound_subset: "x \<in> set (upper_bound p xs) \<Longrightarrow> x \<in> set xs"
  by (auto simp: upper_bound_def dest: set_dropWhileD)

lemma before_upper_or: "x \<in> set xs \<Longrightarrow> x \<in> set (before_upper p xs) \<or> x \<in> set (upper_bound p xs)"
  unfolding before_upper_def upper_bound_def by (metis Un_iff set_append takeWhile_dropWhile_id)

lemma before_upper_last:
  assumes "is_Valid xs" "before_upper p xs \<noteq> []" "x \<in> set (before_upper p xs)"
  shows "x = last (before_upper p xs) \<or> imax x < imin (last (before_upper p xs))"
proof -
  obtain ys y where "before_upper p xs = ys @ [y]"
    using assms(2) by (cases "before_upper p xs" rule: rev_cases) auto
  moreover have "is_Valid (before_upper p xs)"
    using assms(1) upper_bound_split(1) [OF is_Valid_sorted [OF assms(1)], where p = p]
    by (metis is_Valid_append)
  ultimately show ?thesis
    using assms(3) by (auto simp: is_Valid_append)
qed

lemma is_Contains_abs:
  assumes "is_Valid xs"
  shows "is_Contains xs v \<longleftrightarrow> v \<in> is_abs xs"
proof -
  let ?p = "Interval v v"
  note split = upper_bound_split [OF is_Valid_sorted [OF assms], where p = ?p]
  have nes: "imin x < imax x" if "x \<in> set xs" for x
    using that assms by (rule is_Valid_nonempty [rotated])
  have up: "v \<notin> iv_set x" if "x \<in> set (upper_bound ?p xs)" for x
    using split(3) [OF that] by (auto simp: iv_set_def iv_less_def)
  have below: "imin x \<le> v" if "x \<in> set (before_upper ?p xs)" for x
    using split(2) [OF that] by (auto simp: iv_less_def)
  have "v \<in> is_abs xs \<longleftrightarrow> v \<in> is_abs (before_upper ?p xs)"
    using up by (subst split(1)) (auto simp: is_abs_def)
  also have "\<dots> \<longleftrightarrow> is_Contains xs v"
  proof (cases "before_upper ?p xs = []")
    case True
    then show ?thesis
      by (simp add: is_Contains_def)
  next
    case False
    have "v \<notin> iv_set x" if "x \<in> set (before_upper ?p xs)" "x \<noteq> last (before_upper ?p xs)" for x
      using before_upper_last [OF assms False that(1)] that(2) below [OF last_in_set [OF False]]
      by (auto simp: iv_set_def)
    then have "v \<in> is_abs (before_upper ?p xs) \<longleftrightarrow> v \<in> iv_set (last (before_upper ?p xs))"
      using last_in_set [OF False] by (auto simp: is_abs_def)
    then show ?thesis
      using False by (simp add: is_Contains_def iv_Contains_iff)
  qed
  finally show ?thesis
    by simp
qed

lemma is_Find_iff:
  assumes "is_Valid xs"
  shows "is_Find xs v = Some x \<longleftrightarrow> x \<in> set xs \<and> v \<in> iv_set x"
proof -
  have disj: "y = z" if "y \<in> set xs" "z \<in> set xs" "v \<in> iv_set y" "v \<in> iv_set z" for y z
    using assms that
    by (induction xs) (auto simp: is_Valid_Cons iv_set_def dest: order.strict_trans1 less_le_trans)
  have "is_Contains xs v \<longleftrightarrow> is_Find xs v \<noteq> None"
    by (auto simp: is_Contains_def is_Find_def Let_def)
  moreover have "x \<in> set xs \<and> v \<in> iv_set x" if "is_Find xs v = Some x" for x
    using that before_upper_subset [OF last_in_set [of "before_upper (Interval v v) xs"]]
    by (auto simp: is_Find_def Let_def iv_Contains_iff split: if_splits)
  ultimately show ?thesis
    using disj is_Contains_abs [OF assms, of v] by (fastforce simp: is_abs_def)
qed

lemma is_abs_gap:
  assumes "is_Valid xs" "x \<in> set xs"
  shows "imax x \<notin> is_abs xs"
  using assms
proof (induction xs)
  case (Cons a xs)
  have "imax x \<notin> iv_set a" if "x \<in> set xs"
    using Cons.prems(1) that is_Valid_nonempty [of xs x] order.strict_trans [of "imax a" "imin x" "imax x"]
    by (auto simp: is_Valid_Cons iv_set_def)
  moreover have "imax a \<notin> is_abs xs"
    using Cons.prems(1) by (force simp: is_Valid_Cons iv_set_def is_abs_def)
  ultimately show ?case
    using Cons by (auto simp: is_Valid_Cons) (auto simp: iv_set_def)
qed simp

text \<open>An interval inside the set lies inside one of its elements, as elements never touch.\<close>

lemma subset_abs_one:
  assumes "is_Valid xs" "imin i < imax i"
  shows "iv_set i \<subseteq> is_abs xs \<longleftrightarrow> (\<exists>x\<in>set xs. iv_set i \<subseteq> iv_set x)"
proof
  assume sub: "iv_set i \<subseteq> is_abs xs"
  have "imin i \<in> iv_set i"
    using assms(2) by (simp add: iv_set_def)
  then obtain x where x: "x \<in> set xs" "imin i \<in> iv_set x"
    using sub by (auto simp: is_abs_def)
  have "imax x \<notin> iv_set i"
    using is_abs_gap [OF assms(1) x(1)] sub by blast
  then have "imax i \<le> imax x"
    using x(2) by (auto simp: iv_set_def)
  then show "\<exists>x\<in>set xs. iv_set i \<subseteq> iv_set x"
    using x by (force simp: iv_set_def)
qed (auto simp: is_abs_def)

lemma is_ContainsInterval_abs:
  assumes "is_Valid xs"
  shows "is_ContainsInterval xs i \<longleftrightarrow> \<not> iv_Empty i \<and> iv_set i \<subseteq> is_abs xs"
proof (cases "iv_Empty i")
  case True
  then show ?thesis
    by (simp add: is_ContainsInterval_def iv_ContainsInterval_def Let_def)
next
  case False
  then have ne: "imin i < imax i"
    by (simp add: iv_Empty_def)
  note split = upper_bound_split [OF is_Valid_sorted [OF assms], where p = i]
  have only: "x = last (before_upper i xs) \<and> before_upper i xs \<noteq> []"
    if "x \<in> set xs" "iv_set i \<subseteq> iv_set x" for x
  proof -
    have x: "imin x \<le> imin i" "imax i \<le> imax x"
      using that(2) ne by (auto simp: iv_set_def)
    then have "x \<in> set (before_upper i xs)"
      using split(3) [of x] before_upper_or [OF that(1), of i] by (auto simp: iv_less_def)
    moreover from this have nonempty: "before_upper i xs \<noteq> []"
      by auto
    have "imin (last (before_upper i xs)) \<le> imin i"
      using split(2) [OF last_in_set [OF nonempty]] by (auto simp: iv_less_def)
    then have "\<not> imax x < imin (last (before_upper i xs))"
      using x ne by auto
    ultimately show ?thesis
      using before_upper_last [OF assms nonempty] nonempty by blast
  qed
  have "iv_set i \<noteq> {}"
    using ne by (simp add: iv_set_def)
  then show ?thesis
    unfolding subset_abs_one [OF assms ne] is_ContainsInterval_def Let_def iv_ContainsInterval_iff
    using False only before_upper_subset [OF last_in_set [of "before_upper i xs"]] by auto
qed

lemma is_IsDisjoint_abs:
  assumes "is_Valid xs" "\<not> iv_Empty i"
  shows "is_IsDisjoint xs i \<longleftrightarrow> is_abs xs \<inter> iv_set i = {}"
proof -
  let ?p = "Interval (imin i) (imin i)"
  note split = upper_bound_split [OF is_Valid_sorted [OF assms(1)], where p = ?p]
  have ne: "imin i < imax i"
    using assms(2) by (simp add: iv_Empty_def)
  have nes: "imin x < imax x" if "x \<in> set xs" for x
    using assms(1) that by (rule is_Valid_nonempty)
  have meet: "iv_set x \<inter> iv_set i = {} \<longleftrightarrow> imax x \<le> imin i \<or> imax i \<le> imin x" if "x \<in> set xs" for x
    using nes [OF that] ne
    by (auto simp: iv_set_def disjoint_iff not_less)
  have low: "imin x \<le> imin i" if "x \<in> set (before_upper ?p xs)" for x
    using split(2) [OF that] by (auto simp: iv_less_def)
  have high: "imin i < imin x" if "x \<in> set (upper_bound ?p xs)" for x
    using split(3) [OF that] nes [OF upper_bound_subset [OF that]] by (auto simp: iv_less_def)
  have "is_abs xs \<inter> iv_set i = {} \<longleftrightarrow> (\<forall>x\<in>set xs. iv_set x \<inter> iv_set i = {})"
    by (auto simp: is_abs_def)
  also have "\<dots> \<longleftrightarrow> (\<forall>x\<in>set (before_upper ?p xs). imax x \<le> imin i) \<and>
      (\<forall>x\<in>set (upper_bound ?p xs). imax i \<le> imin x)"
    (is "_ \<longleftrightarrow> ?B \<and> ?U")
  proof -
    have "iv_set x \<inter> iv_set i = {} \<longleftrightarrow> imax x \<le> imin i" if "x \<in> set (before_upper ?p xs)" for x
      using meet [OF before_upper_subset [OF that]] low [OF that] ne by auto
    moreover have "iv_set x \<inter> iv_set i = {} \<longleftrightarrow> imax i \<le> imin x" if "x \<in> set (upper_bound ?p xs)" for x
      using meet [OF upper_bound_subset [OF that]] high [OF that] nes [OF upper_bound_subset [OF that]]
      by auto
    ultimately show ?thesis
      using before_upper_or [of _ xs ?p] before_upper_subset [of _ ?p xs] upper_bound_subset [of _ ?p xs]
      by blast
  qed
  also have "?U \<longleftrightarrow> \<not> (upper_bound ?p xs \<noteq> [] \<and> imax i > imin (hd (upper_bound ?p xs)))"
  proof -
    have "is_Valid (upper_bound ?p xs)"
      using assms(1) split(1) by (metis is_Valid_append)
    then show ?thesis
      by (cases "upper_bound ?p xs") (auto simp: is_Valid_Cons not_less intro: order.trans less_imp_le)
  qed
  also have "?B \<longleftrightarrow> before_upper ?p xs = [] \<or> imax (last (before_upper ?p xs)) \<le> imin i"
  proof (cases "before_upper ?p xs = []")
    case False
    then show ?thesis
      using before_upper_last [OF assms(1) False] low [OF last_in_set [OF False]]
        last_in_set [OF False] by fastforce
  qed simp
  finally show ?thesis
    by (auto simp: is_IsDisjoint_def Let_def)
qed

lemma is_Equals_eq: "is_Equals xs ys \<longleftrightarrow> xs = ys"
proof -
  have "(\<lambda>i j::'a interval. imin i = imin j \<and> imax i = imax j) = (=)"
    by (intro ext) (auto intro: interval.equality)
  then show ?thesis
    by (auto simp: is_Equals_def list.rel_eq)
qed

text \<open>Valid lists are canonical: the set determines the list.\<close>

lemma is_abs_above:
  assumes "is_Valid (x # xs)" "v \<in> is_abs xs"
  shows "imax x < v"
  using assms by (auto simp: is_Valid_Cons iv_set_def is_abs_def intro: less_le_trans)

lemma is_Valid_min_abs:
  assumes "is_Valid (x # xs)"
  shows "imin x \<in> is_abs (x # xs)" "\<forall>v\<in>is_abs (x # xs). imin x \<le> v"
proof -
  show "imin x \<in> is_abs (x # xs)"
    using assms by (simp add: is_Valid_Cons iv_set_def)
  show "\<forall>v\<in>is_abs (x # xs). imin x \<le> v"
    using assms is_abs_above [OF assms] by (force simp: is_Valid_Cons iv_set_def)
qed



lemma is_abs_inj:
  assumes "is_Valid xs" "is_Valid ys" "is_abs xs = is_abs ys"
  shows "xs = ys"
  using assms
proof (induction xs arbitrary: ys)
  case Nil
  then show ?case
    using is_Valid_min_abs(1) by (cases ys) force+
next
  case (Cons x xs)
  then obtain y ys' where ys: "ys = y # ys'"
    using is_Valid_min_abs(1) [OF Cons.prems(1)] by (cases ys) auto
  have min: "imin x = imin y"
    using is_Valid_min_abs [OF Cons.prems(1)] is_Valid_min_abs [OF Cons.prems(2) [unfolded ys]]
      Cons.prems(3) by (metis ys order.antisym)
  have max: "imax a \<le> imax b" if "is_Valid (a # as)" "is_Valid (b # bs)" "imin a = imin b"
      "is_abs (a # as) = is_abs (b # bs)" for a b :: "'a interval" and as bs
  proof (rule ccontr)
    assume "\<not> imax a \<le> imax b"
    then have "imax b \<in> is_abs (a # as)"
      using that(3) is_Valid_nonempty [OF that(2), of b] by (auto simp: iv_set_def)
    then show False
      using is_abs_gap [OF that(2), of b] that(4) by auto
  qed
  have eq: "x = y"
    using min max [OF Cons.prems(1) Cons.prems(2) [unfolded ys] min Cons.prems(3) [unfolded ys]]
      max [OF Cons.prems(2) [unfolded ys] Cons.prems(1) min [symmetric] Cons.prems(3) [unfolded ys, symmetric]]
    by (auto intro: interval.equality)
  have "is_abs xs = is_abs ys'"
    using Cons.prems(3) is_abs_above [OF Cons.prems(1)] is_abs_above [OF Cons.prems(2) [unfolded ys]]
    unfolding ys eq by (auto simp: iv_set_def) (metis Un_iff atLeastLessThan_iff order.asym)+
  then show ?case
    using Cons by (auto simp: ys eq is_Valid_Cons)
qed

section \<open>Difference\<close>

lemma iv_Intersects_iff: "iv_Intersects a b \<longleftrightarrow> iv_set a \<inter> iv_set b \<noteq> {}"
proof -
  have "iv_set a \<inter> iv_set b = {max (imin a) (imin b) ..< min (imax a) (imax b)}"
    by (auto simp: iv_set_def)
  then show ?thesis
    by (auto simp: iv_Intersects_def iv_Empty_def)
qed

lemma iv_Difference_eq:
  assumes "iv_Intersects a b"
  shows "iv_Difference a b =
    (True, if imin a < imin b then Interval (imin a) (imin b) else iv_default,
     if imax b < imax a then Interval (imax b) (imax a) else iv_default)"
  using assms by (auto simp: iv_Difference_def iv_Intersects_def iv_Empty_def)

lemma dropWhile_disjoint:
  assumes "is_Valid xs" "\<forall>v\<in>S. b \<le> v"
  shows "is_abs (takeWhile (\<lambda>x. imax x \<le> b) xs) \<inter> S = {}"
  using assms(2) by (auto simp: is_abs_def iv_set_def dest!: set_takeWhileD) (meson leD order.trans)

lemma is_abs_Cons_ge: "is_Valid (x # xs) \<Longrightarrow> v \<in> is_abs (x # xs) \<Longrightarrow> imin x \<le> v"
  using is_Valid_min_abs(2) by blast

lemma is_abs_hd: "is_Valid xs \<Longrightarrow> v \<in> is_abs xs \<Longrightarrow> imin (hd xs) \<le> v"
  by (cases xs) (use is_abs_Cons_ge in auto)

lemma is_abs_takeWhile: "is_abs (takeWhile P xs) \<union> is_abs (dropWhile P xs) = is_abs xs"
  by (metis is_abs_simps(3) takeWhile_dropWhile_id)

lemma is_Valid_suffix: "is_Valid xs \<Longrightarrow> is_Valid (dropWhile P xs)"
  by (metis is_Valid_append takeWhile_dropWhile_id)

lemma dropWhile_length: "length (dropWhile P xs) \<le> length xs"
  by (induction xs) auto

text \<open>
  The search for the next pair ends within as many rounds as the two lists have elements; what it
  skips meets nothing of the other list.
\<close>

definition pair_found ::
  "'a::linorder interval list \<Rightarrow> 'a interval list \<Rightarrow> ('a interval list \<times> 'a interval list) option \<Rightarrow> bool" where
  "pair_found mine theirs r =
    (case r of None \<Rightarrow> is_abs mine \<inter> is_abs theirs = {}
     | Some (mine', theirs') \<Rightarrow> \<exists>S T. mine = S @ mine' \<and> theirs = T @ theirs' \<and>
         mine' \<noteq> [] \<and> theirs' \<noteq> [] \<and> iv_Intersects (hd mine') (hd theirs') \<and>
         is_abs S \<inter> is_abs theirs = {} \<and> is_abs mine' \<inter> is_abs T = {} \<and>
         (iv_Intersects (hd mine) (hd theirs) \<or>
          length mine' + length theirs' < length mine + length theirs))"

lemma pair_found_skip:
  assumes "pair_found m t r" "is_abs S \<inter> is_abs (T @ t) = {}" "is_abs m \<inter> is_abs T = {}"
    and "length m + length t < length (S @ m) + length (T @ t)"
  shows "pair_found (S @ m) (T @ t) r"
proof (cases r)
  case None
  then show ?thesis
    using assms by (auto simp: pair_found_def)
next
  case (Some p)
  obtain m' t' where p: "p = (m', t')"
    by (cases p)
  obtain S' T' where *: "m = S' @ m'" "t = T' @ t'" "m' \<noteq> []" "t' \<noteq> []"
    "iv_Intersects (hd m') (hd t')" "is_abs S' \<inter> is_abs t = {}" "is_abs m' \<inter> is_abs T' = {}"
    using assms(1) by (auto simp: pair_found_def Some p)
  have "S @ m = (S @ S') @ m'" "T @ t = (T @ T') @ t'"
    using * by simp_all
  moreover have "is_abs (S @ S') \<inter> is_abs (T @ t) = {}" "is_abs m' \<inter> is_abs (T @ T') = {}"
    using *(1,6,7) assms(2,3) by auto
  moreover have "length m' + length t' < length (S @ m) + length (T @ t)"
    using assms(4) unfolding *(1,2) length_append by linarith
  ultimately show ?thesis
    unfolding pair_found_def Some p option.case prod.case using *(3-5) by blast
qed

lemma FindNext_step:
  assumes "is_Valid (m # ms)" "is_Valid (t # ts)" "\<not> iv_Intersects m t"
  obtains S m' T t' where "m # ms = S @ m'" "t # ts = T @ t'" "is_Valid m'" "is_Valid t'"
    "is_FindNextIntersectingPair (Suc n) (m # ms) (t # ts) =
       (if m' = [] \<or> t' = [] then Some None else is_FindNextIntersectingPair n m' t')"
    "is_abs S \<inter> is_abs (t # ts) = {}" "is_abs m' \<inter> is_abs T = {}"
    "length m' + length t' < length (m # ms) + length (t # ts)"
proof -
  define S m' where Sm: "S = takeWhile (\<lambda>m. imax m \<le> imin t) (m # ms)" "m' = dropWhile (\<lambda>m. imax m \<le> imin t) (m # ms)"
  define T t' where Tt: "T = takeWhile (\<lambda>t. imax t \<le> imin (hd m')) (t # ts)" "t' = dropWhile (\<lambda>t. imax t \<le> imin (hd m')) (t # ts)"
  have eqs: "m # ms = S @ m'" "t # ts = T @ t'"
    unfolding Sm Tt by simp_all
  have val: "is_Valid m'" "is_Valid t'"
    unfolding Sm Tt by (rule is_Valid_suffix, fact)+
  have S: "is_abs S \<inter> is_abs (t # ts) = {}"
    unfolding Sm using is_abs_Cons_ge [OF assms(2)] by (intro dropWhile_disjoint [OF assms(1)]) blast
  have "is_abs T \<inter> is_abs m' = {}"
    unfolding Tt using is_abs_hd [OF val(1)] by (intro dropWhile_disjoint [OF assms(2)]) blast
  then have T: "is_abs m' \<inter> is_abs T = {}"
    by blast
  have step: "is_FindNextIntersectingPair (Suc n) (m # ms) (t # ts) =
      (if m' = [] \<or> t' = [] then Some None else is_FindNextIntersectingPair n m' t')"
    unfolding Sm Tt using assms(3) by (simp only: is_FindNextIntersectingPair.simps Let_def list.sel if_False) simp
  have "imax m \<le> imin t \<or> imax t \<le> imin m"
    using assms by (auto simp: iv_Intersects_def iv_Empty_def not_less is_Valid_Cons)
  then have "S \<noteq> [] \<or> T \<noteq> []"
    by (auto simp: Sm Tt)
  then have "length m' + length t' < length (m # ms) + length (t # ts)"
    unfolding eqs by (cases S; cases T) auto
  then show thesis
    using that eqs val step S T by blast
qed

lemma FindNext_correct:
  assumes "is_Valid mine" "is_Valid theirs" "length mine + length theirs < n"
  shows "\<exists>r. is_FindNextIntersectingPair n mine theirs = Some r \<and> pair_found mine theirs r"
  using assms
proof (induction n arbitrary: mine theirs)
  case (Suc n)
  consider "mine = [] \<or> theirs = []"
    | m ms t ts where "mine = m # ms" "theirs = t # ts" "iv_Intersects m t"
    | m ms t ts where "mine = m # ms" "theirs = t # ts" "\<not> iv_Intersects m t"
    by (cases mine; cases theirs) auto
  then show ?case
  proof cases
    case 1
    then show ?thesis
      by (auto simp: pair_found_def)
  next
    case 2
    then show ?thesis
      by (auto simp: pair_found_def)
  next
    case 3
    obtain S m' T t' where *: "m # ms = S @ m'" "t # ts = T @ t'" "is_Valid m'" "is_Valid t'"
      "is_FindNextIntersectingPair (Suc n) (m # ms) (t # ts) =
         (if m' = [] \<or> t' = [] then Some None else is_FindNextIntersectingPair n m' t')"
      "is_abs S \<inter> is_abs (t # ts) = {}" "is_abs m' \<inter> is_abs T = {}"
      "length m' + length t' < length (m # ms) + length (t # ts)"
      by (rule FindNext_step [OF Suc.prems(1,2) [unfolded 3(1,2)] 3(3)])
    have "\<exists>r. is_FindNextIntersectingPair (Suc n) (m # ms) (t # ts) = Some r \<and> pair_found m' t' r"
    proof (cases "m' = [] \<or> t' = []")
      case True
      then show ?thesis
        unfolding *(5) by (auto simp: pair_found_def)
    next
      case False
      have "length m' + length t' < n"
        using *(8) Suc.prems(3) by (simp add: 3)
      from Suc.IH [OF *(3,4) this] False show ?thesis
        unfolding *(5) by simp
    qed
    then show ?thesis
      using pair_found_skip [of m' t' _ S T] *(6,7,8) unfolding 3(1,2) *(1,2) by blast
  qed
qed simp

text \<open>
  One round of \<open>Difference\<close>: the element is replaced by what is left of it below and above
  the other interval, and the iterator stands at the upper rest.
\<close>

lemma iv_less_gap: "imin x < imax x \<Longrightarrow> imax x < imin y \<Longrightarrow> iv_less x y"
  using order.strict_trans [of "imin x" "imax x" "imin y"] by (simp add: iv_less_def)

lemma difference_step_eq:
  assumes "is_Valid (P @ m # ms)" "iv_Intersects m t"
  defines "los \<equiv> if imin m < imin t then [Interval (imin m) (imin t)] else []"
    and "his \<equiv> if imax t < imax m then [Interval (imax t) (imax m)] else []"
  shows "difference_step (P @ m # ms) (m # ms) t = (P @ los @ his @ ms, his @ ms)"
proof -
  have lt: "\<forall>p\<in>set P. imin p < imax p \<and> imax p < imin m" "\<forall>x\<in>set ms. imax m < imin x"
    and m: "imin m < imax m"
    using assms(1) is_Valid_nonempty [OF assms(1)] by (auto simp: is_Valid_append is_Valid_Cons)
  have t: "imin t < imax t" "imin m < imax t" "imin t < imax m"
    using assms(2) by (auto simp: iv_Intersects_def iv_Empty_def)
  have "m \<notin> set P"
    using lt(1) m by fastforce
  then have rem: "remove1 m (P @ m # ms) = P @ ms"
    by (rule remove1_middle)
  have los_less: "\<forall>p\<in>set P. iv_less p lo" "\<forall>x\<in>set ms. iv_less lo x"
    if "imin lo = imin m" "imax lo < imax m" for lo
  proof -
    show "\<forall>p\<in>set P. iv_less p lo"
      using lt(1) by (auto simp: that(1) intro!: iv_less_gap)
    show "\<forall>x\<in>set ms. iv_less lo x"
      using lt(2) that order.strict_trans [OF m] by (auto simp: iv_less_def)
  qed
  have lo: "(if \<not> iv_Empty (if imin m < imin t then Interval (imin m) (imin t) else iv_default)
      then fst (set_insert (if imin m < imin t then Interval (imin m) (imin t) else iv_default) (P @ ms))
      else P @ ms) = P @ los @ ms"
    using set_insert_between [OF los_less, of "Interval (imin m) (imin t)"] t
    by (auto simp: iv_Empty_def iv_default_def los_def)
  have "\<forall>p\<in>set (P @ los). iv_less p (Interval (imax t) (imax m))"
    using lt(1) t order.strict_trans by (auto simp: los_def iv_less_def)
  moreover have "\<forall>x\<in>set ms. iv_less (Interval (imax t) (imax m)) x" if "imax t < imax m"
    using lt(2) that order.strict_trans by (auto simp: iv_less_def)
  ultimately have hi: "set_insert (Interval (imax t) (imax m)) ((P @ los) @ ms) =
      ((P @ los) @ Interval (imax t) (imax m) # ms, True)" if "imax t < imax m"
    using that by (intro set_insert_between) auto
  have "Interval (imax t) (imax m) \<notin> set (P @ los)"
    using \<open>\<forall>p\<in>set (P @ los). iv_less p (Interval (imax t) (imax m))\<close> by force
  then have "dropWhile (\<lambda>y. y \<noteq> Interval (imax t) (imax m)) ((P @ los) @ Interval (imax t) (imax m) # ms) =
      Interval (imax t) (imax m) # ms"
    by (rule dropWhile_neq_middle)
  then show ?thesis
    using hi unfolding difference_step_def iv_Difference_eq [OF assms(2)] list.sel Let_def prod.case rem lo
    by (auto simp: his_def iv_Empty_def iv_default_def)
qed

lemma difference_rests:
  assumes "is_Valid (P @ m # ms)" "is_Valid (t # ts)" "iv_Intersects m t"
  defines "los \<equiv> if imin m < imin t then [Interval (imin m) (imin t)] else []"
    and "his \<equiv> if imax t < imax m then [Interval (imax t) (imax m)] else []"
  shows "is_Valid ((P @ los) @ his @ ms)"
    "is_abs los \<union> (is_abs (his @ ms) - is_abs (t # ts)) = is_abs (m # ms) - is_abs (t # ts)"
    "length (his @ ms) + (if his @ ms \<noteq> [] \<and> iv_Intersects (hd (his @ ms)) t then 1 else 0) \<le> length (m # ms)"
proof -
  have t: "imin t < imax t" "imin m < imax t" "imin t < imax m" "imin m < imax m"
    using assms(3) by (auto simp: iv_Intersects_def iv_Empty_def)
  have P: "is_Valid P" "is_Valid ms" "\<forall>p\<in>set P. \<forall>x\<in>set ms. imax p < imin x"
    "\<forall>p\<in>set P. imax p < imin m" "\<forall>x\<in>set ms. imax m < imin x"
    using assms(1) by (auto simp: is_Valid_append is_Valid_Cons)
  have "\<forall>p\<in>set P. imax p < imax t" "\<forall>x\<in>set ms. imin t < imin x"
    using P(4,5) t order.strict_trans by blast+
  then show "is_Valid ((P @ los) @ his @ ms)"
    using P t by (auto simp: los_def his_def is_Valid_append)
  have ts: "imax t < v" if "v \<in> is_abs ts" for v
    using is_abs_above [OF assms(2) that] .
  have "v < imin t" if "v \<in> is_abs los" for v
    using that by (auto simp: los_def iv_set_def split: if_splits)
  then have "is_abs los \<inter> is_abs (t # ts) = {}"
    using is_abs_Cons_ge [OF assms(2)] leD by blast
  moreover have "is_abs los \<union> (is_abs his - iv_set t) = iv_set m - iv_set t"
    using t by (auto simp: los_def his_def iv_set_def)
  moreover have "is_abs los \<subseteq> iv_set m"
    using t by (auto simp: los_def iv_set_def)
  ultimately show "is_abs los \<union> (is_abs (his @ ms) - is_abs (t # ts)) = is_abs (m # ms) - is_abs (t # ts)"
    by auto
  have "\<not> iv_Intersects (Interval (imax t) (imax m)) t"
    by (simp add: iv_Intersects_def)
  then show "length (his @ ms) + (if his @ ms \<noteq> [] \<and> iv_Intersects (hd (his @ ms)) t then 1 else 0) \<le> length (m # ms)"
    by (auto simp: his_def)
qed

definition heads_meet :: "'a::linorder interval list \<Rightarrow> 'a interval list \<Rightarrow> nat" where
  "heads_meet xs ys = (if xs \<noteq> [] \<and> ys \<noteq> [] \<and> iv_Intersects (hd xs) (hd ys) then 1 else 0)"

lemma difference_loop_correct:
  assumes "is_Valid (P @ mine)" "is_Valid theirs"
    and "length mine + length theirs + heads_meet mine theirs < n"
  shows "\<exists>r. difference_loop n (P @ mine) mine theirs = Some r \<and> is_Valid r \<and>
    is_abs r = is_abs P \<union> (is_abs mine - is_abs theirs)"
  using assms
proof (induction n arbitrary: P mine theirs)
  case (Suc n)
  have "is_Valid mine"
    using Suc.prems(1) by (simp add: is_Valid_append)
  then obtain r where r: "is_FindNextIntersectingPair (Suc n) mine theirs = Some r" "pair_found mine theirs r"
    using FindNext_correct [OF _ Suc.prems(2), of mine "Suc n"] Suc.prems(3) by auto
  show ?case
  proof (cases r)
    case None
    then show ?thesis
      using r Suc.prems(1) by (auto simp: pair_found_def simp del: is_FindNextIntersectingPair.simps)
  next
    case (Some p)
    obtain m ms t ts where p: "p = (m # ms, t # ts)"
      using r(2) Some by (cases p) (auto simp: pair_found_def neq_Nil_conv)
    obtain S T where *: "mine = S @ m # ms" "theirs = T @ t # ts" "iv_Intersects m t"
      "is_abs S \<inter> is_abs theirs = {}" "is_abs (m # ms) \<inter> is_abs T = {}"
      "iv_Intersects (hd mine) (hd theirs) \<or>
         length (m # ms) + length (t # ts) < length mine + length theirs"
      using r(2) unfolding pair_found_def Some p option.case prod.case list.sel by blast
    have val: "is_Valid ((P @ S) @ m # ms)" "is_Valid (t # ts)"
      using Suc.prems(1,2) by (simp_all add: *(1,2) is_Valid_append)
    define los where "los = (if imin m < imin t then [Interval (imin m) (imin t)] else [])"
    define his where "his = (if imax t < imax m then [Interval (imax t) (imax m)] else [])"
    note rests = difference_rests [OF val *(3), folded los_def his_def]
    have step: "difference_step (P @ mine) (m # ms) t = (((P @ S) @ los) @ his @ ms, his @ ms)"
      using difference_step_eq [OF val(1) *(3), folded los_def his_def] by (simp add: *(1))
    have "length (m # ms) + length (t # ts) < length mine + length theirs + heads_meet mine theirs"
      using *(1,2,6) by (auto simp: heads_meet_def)
    then have "length (his @ ms) + length (t # ts) + heads_meet (his @ ms) (t # ts) < n"
      using rests(3) Suc.prems(3) by (auto simp: heads_meet_def split: if_splits)
    then obtain r' where "difference_loop n (((P @ S) @ los) @ his @ ms) (his @ ms) (t # ts) = Some r'"
      "is_Valid r'" "is_abs r' = is_abs ((P @ S) @ los) \<union> (is_abs (his @ ms) - is_abs (t # ts))"
      using Suc.IH [OF rests(1) val(2)] by blast
    moreover have "is_abs ((P @ S) @ los) \<union> (is_abs (his @ ms) - is_abs (t # ts)) =
        is_abs P \<union> (is_abs mine - is_abs theirs)"
      using rests(2) *(4,5) unfolding *(1,2) is_abs_simps by blast
    ultimately show ?thesis
      using step r(1) by (simp add: Some p del: is_FindNextIntersectingPair.simps)
  qed
qed simp

lemma candidate_split:
  assumes "is_Valid xs" "xs \<noteq> []" "\<forall>v\<in>V. imin p \<le> v"
  obtains P where "xs = P @ is_FindIntersectionCandidate xs p" "is_abs P \<inter> V = {}"
    "is_FindIntersectionCandidate xs p \<noteq> []"
proof (cases "before_upper p xs = []")
  case True
  then have "is_FindIntersectionCandidate xs p = xs"
    using upper_bound_split(1) [OF is_Valid_sorted [OF assms(1)], where p = p]
    by (simp add: is_FindIntersectionCandidate_def)
  then show thesis
    using that [of "[]"] assms(2) by simp
next
  case False
  note split = upper_bound_split [OF is_Valid_sorted [OF assms(1)], where p = p]
  obtain P y where Py: "before_upper p xs = P @ [y]"
    using False by (cases "before_upper p xs" rule: rev_cases) auto
  then have cand: "is_FindIntersectionCandidate xs p = y # upper_bound p xs"
    by (simp add: is_FindIntersectionCandidate_def)
  then have eq: "xs = P @ is_FindIntersectionCandidate xs p"
    using split(1) Py by simp
  have le: "imin y \<le> imin p"
    using split(2) [of y] by (auto simp: iv_less_def Py)
  have "is_Valid (P @ y # upper_bound p xs)"
    using assms(1) eq cand by simp
  then have "imax x < imin y" if "x \<in> set P" for x
    using that by (simp add: is_Valid_append)
  then have "v < imin p" if "v \<in> is_abs P" for v
    using le that by (fastforce simp: is_abs_def iv_set_def)
  then have "is_abs P \<inter> V = {}"
    using assms(3) leD by blast
  then show thesis
    using that [OF eq] cand by simp
qed

lemma SpanningInterval_abs:
  assumes "is_Valid xs"
  shows "is_abs xs \<subseteq> iv_set (is_SpanningInterval xs)"
proof (cases xs)
  case (Cons x ys)
  have "v < imax (last xs)" if "v \<in> is_abs xs" for v
    using that assms
  proof (induction xs)
    case (Cons x xs)
    then have "xs \<noteq> [] \<Longrightarrow> imax x < imax (last xs)"
      using is_Valid_nonempty [OF Cons.prems(2), of "last xs"] last_in_set [of xs]
      by (auto simp: is_Valid_Cons intro: order.strict_trans)
    then show ?case
      using Cons by (cases "xs = []") (auto simp: iv_set_def is_Valid_Cons intro: order.strict_trans)
  qed simp
  then show ?thesis
    using is_abs_hd [OF assms] by (fastforce simp: is_SpanningInterval_def iv_set_def Cons)
qed simp

text \<open>\<open>Difference\<close> with enough rounds returns, keeps the invariant and is set difference.\<close>

lemma is_DifferenceSet_correct:
  assumes "is_Valid xs" "is_Valid ys" "length xs + length ys + 1 < n"
  shows "\<exists>r. is_DifferenceSet n xs ys = Some r \<and> is_Valid r \<and> is_abs r = is_abs xs - is_abs ys"
proof (cases "iv_Intersects (is_SpanningInterval xs) (is_SpanningInterval ys)")
  case False
  then have "is_abs xs \<inter> is_abs ys = {}"
    using SpanningInterval_abs [OF assms(1)] SpanningInterval_abs [OF assms(2)]
    by (auto simp: iv_Intersects_iff)
  then show ?thesis
    using False assms(1) by (auto simp: is_DifferenceSet_def)
next
  case True
  then have ne: "xs \<noteq> []" "ys \<noteq> []"
    by (auto simp: iv_Intersects_def is_SpanningInterval_def iv_Empty_def iv_default_def)
  let ?m = "is_FindIntersectionCandidate xs (hd ys)" and ?t = "is_FindIntersectionCandidate ys (hd xs)"
  obtain P where P: "xs = P @ ?m" "is_abs P \<inter> is_abs ys = {}" "?m \<noteq> []"
    using candidate_split [OF assms(1) ne(1), of "is_abs ys" "hd ys"] is_abs_hd [OF assms(2)] by blast
  obtain Q where Q: "ys = Q @ ?t" "is_abs Q \<inter> is_abs xs = {}"
    using candidate_split [OF assms(2) ne(2), of "is_abs xs" "hd xs"] is_abs_hd [OF assms(1)] by blast
  have "length ?m \<le> length xs" "length ?t \<le> length ys"
    using arg_cong [OF P(1), of length] arg_cong [OF Q(1), of length] by simp_all
  then have "length ?m + length ?t + heads_meet ?m ?t < n"
    using assms(3) by (simp add: heads_meet_def)
  moreover have "is_Valid (P @ ?m)" "is_Valid ?t"
    using assms(1,2) P(1) Q(1) by (metis is_Valid_append)+
  ultimately obtain r where "difference_loop n (P @ ?m) ?m ?t = Some r" "is_Valid r"
    "is_abs r = is_abs P \<union> (is_abs ?m - is_abs ?t)"
    using difference_loop_correct by blast
  moreover have "is_abs P \<union> (is_abs ?m - is_abs ?t) = is_abs xs - is_abs ys"
    using P(2) Q(2) arg_cong [OF P(1), of is_abs] arg_cong [OF Q(1), of is_abs] by auto
  ultimately show ?thesis
    using True P(1,3) by (auto simp: is_DifferenceSet_def Let_def)
qed

lemma is_Difference_correct:
  assumes "is_Valid xs" "length xs + 2 < n"
  shows "\<exists>r. is_Difference n xs i = Some r \<and> is_Valid r \<and> is_abs r = is_abs xs - iv_set i"
proof (cases "iv_Intersects (is_SpanningInterval xs) i")
  case False
  then have "is_abs xs \<inter> iv_set i = {}"
    using SpanningInterval_abs [OF assms(1)] by (auto simp: iv_Intersects_iff)
  then show ?thesis
    using False assms(1) by (auto simp: is_Difference_def)
next
  case True
  then have "\<not> iv_Empty i"
    by (simp add: iv_Intersects_def)
  then have "is_Add [] i = [i]" "is_Valid [i]"
    by (simp_all add: is_Add_def set_insert_def upper_bound_def iv_less_def is_Compact_def iv_Empty_def)
  then show ?thesis
    using is_DifferenceSet_correct [OF assms(1), of "[i]" n] assms(2) True
    by (simp add: is_Difference_def)
qed

lemma is_Intersects_correct:
  assumes "is_Valid xs" "is_Valid ys" "length xs + length ys < n"
  shows "is_Intersects n xs ys = Some (is_abs xs \<inter> is_abs ys \<noteq> {})"
proof (cases "iv_Intersects (is_SpanningInterval xs) (is_SpanningInterval ys)")
  case False
  then have "is_abs xs \<inter> is_abs ys = {}"
    using SpanningInterval_abs [OF assms(1)] SpanningInterval_abs [OF assms(2)]
    by (auto simp: iv_Intersects_iff)
  then show ?thesis
    using False by (simp add: is_Intersects_def)
next
  case True
  then have ne: "xs \<noteq> []" "ys \<noteq> []"
    by (auto simp: iv_Intersects_def is_SpanningInterval_def iv_Empty_def iv_default_def)
  let ?m = "is_FindIntersectionCandidate xs (hd ys)"
  let ?t = "is_FindIntersectionCandidate ys (hd ?m)"
  obtain P where P: "xs = P @ ?m" "is_abs P \<inter> is_abs ys = {}" "?m \<noteq> []"
    using candidate_split [OF assms(1) ne(1), of "is_abs ys" "hd ys"] is_abs_hd [OF assms(2)] by blast
  have vm: "is_Valid ?m"
    using assms(1) P(1) by (metis is_Valid_append)
  obtain Q where Q: "ys = Q @ ?t" "is_abs Q \<inter> is_abs ?m = {}"
    using candidate_split [OF assms(2) ne(2), of "is_abs ?m" "hd ?m"] is_abs_hd [OF vm] by blast
  have vt: "is_Valid ?t"
    using assms(2) Q(1) by (metis is_Valid_append)
  have "length ?m \<le> length xs" "length ?t \<le> length ys"
    using arg_cong [OF P(1), of length] arg_cong [OF Q(1), of length] by simp_all
  then have "length ?m + length ?t < n"
    using assms(3) by simp
  then obtain r where r: "is_FindNextIntersectingPair n ?m ?t = Some r" "pair_found ?m ?t r"
    using FindNext_correct [OF vm vt] by blast
  have "is_abs xs \<inter> is_abs ys = is_abs ?m \<inter> is_abs ?t"
    using P(2) Q(2) arg_cong [OF P(1), of is_abs] arg_cong [OF Q(1), of is_abs] by auto
  moreover have "r = None \<longleftrightarrow> is_abs ?m \<inter> is_abs ?t = {}"
  proof (cases r)
    case None
    then show ?thesis
      using r(2) by (simp add: pair_found_def)
  next
    case (Some p)
    then obtain S m ms T t ts where "?m = S @ m # ms" "?t = T @ t # ts" "iv_Intersects m t"
      using r(2) by (cases p) (auto simp: pair_found_def neq_Nil_conv)
    then show ?thesis
      using Some by (auto simp: iv_Intersects_iff)
  qed
  ultimately show ?thesis
    using True P(3) r(1) by (cases r) (simp_all add: is_Intersects_def Let_def)
qed

section \<open>Properties\<close>

text \<open>
  C5: \<open>IntervalSet::Add\<close> keeps the class invariant \<open>Valid\<close> (elements non-empty, ordered, disjoint
  and not adjacent) and adds exactly the values of the interval, as \<open>Contains\<close> observes them.
\<close>

theorem IntervalSet_Add:
  assumes "is_Valid xs"
  shows "is_Valid (is_Add xs i) \<and>
    (\<forall>v. is_Contains (is_Add xs i) v \<longleftrightarrow> is_Contains xs v \<or> iv_Contains i v)"
  using is_Add_correct [OF assms] assms by (simp add: is_Contains_abs iv_Contains_iff)

theorem IntervalSet_Add_witness:
  "is_Valid (is_Add [Interval 1 3, Interval 5 (7::nat)] (Interval 3 5)) \<and>
   is_Contains (is_Add [Interval 1 3, Interval 5 (7::nat)] (Interval 3 5)) 6 \<and>
   \<not> is_Contains (is_Add [Interval 1 3, Interval 5 (7::nat)] (Interval 3 5)) 7"
proof -
  have "is_Valid [Interval 1 3, Interval 5 (7::nat)]" "is_Contains [Interval 1 3, Interval 5 (7::nat)] 6"
    "\<not> is_Contains [Interval 1 3, Interval 5 (7::nat)] 7" "\<not> iv_Contains (Interval 3 5) (7::nat)"
    by code_simp+
  then show ?thesis
    using IntervalSet_Add [of "[Interval 1 3, Interval 5 (7::nat)]" "Interval 3 5"] by blast
qed

text \<open>
  C9: \<open>IntervalSet::Difference\<close> with an interval returns within a number of rounds linear in the
  number of intervals, keeps \<open>Valid\<close> and removes exactly the values of the interval.
\<close>

theorem IntervalSet_Difference:
  assumes "is_Valid xs" "length xs + 2 < n"
  shows "\<exists>r. is_Difference n xs i = Some r \<and> is_Valid r \<and>
    (\<forall>v. is_Contains r v \<longleftrightarrow> is_Contains xs v \<and> \<not> iv_Contains i v)"
  using is_Difference_correct [OF assms, of i] assms(1) by (auto simp: is_Contains_abs iv_Contains_iff)

theorem IntervalSet_Difference_witness:
  "is_Valid [Interval 1 3, Interval 5 (9::nat)] \<and>
   (\<exists>r. is_Difference 5 [Interval 1 3, Interval 5 (9::nat)] (Interval 2 6) = Some r \<and> is_Valid r \<and>
    \<not> is_Contains r 5 \<and> is_Contains r 6)"
proof -
  have *: "is_Valid [Interval 1 3, Interval 5 (9::nat)]" "is_Contains [Interval 1 3, Interval 5 (9::nat)] 6"
    "iv_Contains (Interval 2 6) (5::nat)" "\<not> iv_Contains (Interval 2 6) (6::nat)"
    "length [Interval 1 3, Interval 5 (9::nat)] + 2 < 5"
    by code_simp+
  then show ?thesis
    using IntervalSet_Difference [OF *(1,5), of "Interval 2 6"] by blast
qed

text \<open>
  \<open>Union\<close>, \<open>Add\<close> of a set, \<open>Difference\<close> with a set and \<open>Complement\<close> keep \<open>Valid\<close> and are the
  operations of sets on the contained values.
\<close>

theorem IntervalSet_algebra:
  assumes "is_Valid xs" "is_Valid ys" "length xs + length ys + 2 < n"
  shows "is_Valid (is_Union xs ys) \<and> is_abs (is_Union xs ys) = is_abs xs \<union> is_abs ys \<and>
    is_Equals (is_AddSet xs ys) (is_Union xs ys) \<and>
    (\<exists>r. is_DifferenceSet n xs ys = Some r \<and> is_Valid r \<and> is_abs r = is_abs xs - is_abs ys) \<and>
    (\<exists>r. is_Complement n xs a b = Some r \<and> is_Valid r \<and> is_abs r = {a..<b} - is_abs xs)"
proof -
  have "is_AddSet xs ys = is_Union xs ys"
    using is_abs_inj is_AddSet_correct [OF assms(1)] is_Union_correct [OF assms(1,2)] by metis
  moreover have "length (is_Add [] (Interval a b)) \<le> 1"
    by (simp add: is_Add_def set_insert_def is_Compact_def upper_bound_def iv_less_def iv_Empty_def)
  then have "\<exists>r. is_Complement n xs a b = Some r \<and> is_Valid r \<and> is_abs r = {a..<b} - is_abs xs"
    using is_DifferenceSet_correct [of "is_Add [] (Interval a b)" xs n] is_Add_correct [of "[]" "Interval a b"]
      assms(1,3) by (simp add: is_Complement_def iv_set_def)
  ultimately show ?thesis
    using is_Union_correct [OF assms(1,2)] is_DifferenceSet_correct [of xs ys n] assms
    by (simp add: is_Equals_eq)
qed

theorem IntervalSet_algebra_witness:
  "is_Valid [Interval 1 (3::nat)] \<and> is_Valid [Interval 2 (5::nat)] \<and>
   is_Valid (is_Union [Interval 1 (3::nat)] [Interval 2 5]) \<and>
   is_abs (is_Union [Interval 1 (3::nat)] [Interval 2 5]) = is_abs [Interval 1 3] \<union> is_abs [Interval 2 5]"
  using IntervalSet_algebra [of "[Interval 1 (3::nat)]" "[Interval 2 5]" 5] by simp

text \<open>
  The queries: containment of an interval and of a set, disjointness from an interval and
  intersection with a set answer by the contained values; two valid sets are \<open>Equals\<close> exactly when
  they contain the same values.
\<close>

theorem IntervalSet_queries:
  assumes "is_Valid xs" "is_Valid ys" "\<not> iv_Empty i" "length xs + length ys < n"
  shows "(is_ContainsInterval xs i \<longleftrightarrow> iv_set i \<subseteq> is_abs xs) \<and>
    (is_IsDisjoint xs i \<longleftrightarrow> is_abs xs \<inter> iv_set i = {}) \<and>
    is_Intersects n xs ys = Some (is_abs xs \<inter> is_abs ys \<noteq> {}) \<and>
    (is_Equals xs ys \<longleftrightarrow> (\<forall>v. is_Contains xs v \<longleftrightarrow> is_Contains ys v))"
proof -
  have "is_Equals xs ys \<longleftrightarrow> is_abs xs = is_abs ys"
    using is_abs_inj [OF assms(1,2)] by (auto simp: is_Equals_eq)
  then show ?thesis
    using assms
    by (auto simp: is_ContainsInterval_abs is_IsDisjoint_abs is_Intersects_correct is_Contains_abs)
qed

theorem IntervalSet_queries_witness:
  "is_Intersects 3 [Interval 1 (3::nat)] [Interval 2 5] \<noteq> None \<and>
   \<not> is_IsDisjoint [Interval 1 (3::nat)] (Interval 2 5)"
  using IntervalSet_queries [of "[Interval 1 (3::nat)]" "[Interval 2 5]" "Interval 2 5" 3]
  by (auto simp: iv_Empty_def is_abs_def iv_set_def)

end
