(* ===== verification/Packet_Number_Queue.thy ===== *)
theory Packet_Number_Queue
  imports Interval_Set
begin

text \<open>
  The set of packet numbers an ack frame carries: \<^verbatim>\<open>PacketNumberQueue\<close> of
  \<^verbatim>\<open>src/model/net/quic/core/frames/quic_ack_frame.cc\<close>.  A flag chooses between a deque of
  intervals with hand-written updates and the general \<open>IntervalSet\<close>; both are modelled, on
  64-bit packet numbers, and proved to hold the same intervals after the same operations.
\<close>

section \<open>Data\<close>

record packet_number_queue =
  packet_number_intervals :: "QuicPacketNumber interval_set"
  packet_number_deque :: "QuicPacketNumber interval list"
  use_deque :: bool

definition PacketNumberQueue :: "bool \<Rightarrow> packet_number_queue" where
  "PacketNumberQueue flag =
     \<lparr>packet_number_intervals = [], packet_number_deque = [], use_deque = flag\<rparr>"

section \<open>The deque\<close>

text \<open>The backward loop of \<open>Add\<close>: \<open>Suc i\<close> elements are still to be looked at.\<close>

fun deque_add_loop ::
  "nat \<Rightarrow> QuicPacketNumber \<Rightarrow> QuicPacketNumber interval list \<Rightarrow> QuicPacketNumber interval list" where
  "deque_add_loop 0 packet_number xs = xs"
| "deque_add_loop (Suc i) packet_number xs =
     (let packet_interval = xs ! i
      in if iv_Contains packet_interval packet_number then xs
         else if imax packet_interval = packet_number then
           xs[i := packet_interval\<lparr>imax := packet_number + 1\<rparr>]
         else if imin packet_interval = packet_number + 1 then
           let xs = xs[i := packet_interval\<lparr>imin := packet_number\<rparr>]
           in if i > 0 \<and> packet_number = imax (xs ! (i - 1))
              then let xs = xs[i - 1 := (xs ! (i - 1))\<lparr>imax := imax packet_interval\<rparr>]
                   in take i xs @ drop (Suc i) xs
              else xs
         else if imax packet_interval < packet_number + 1 then
           take (Suc i) xs @ Interval packet_number (packet_number + 1) # drop (Suc i) xs
         else deque_add_loop i packet_number xs)"

definition deque_Add ::
  "QuicPacketNumber interval list \<Rightarrow> QuicPacketNumber \<Rightarrow> QuicPacketNumber interval list" where
  "deque_Add xs packet_number =
     (if xs = [] then [Interval packet_number (packet_number + 1)]
      else if imax (last xs) = packet_number then
        butlast xs @ [(last xs)\<lparr>imax := packet_number + 1\<rparr>]
      else if imax (last xs) < packet_number then
        xs @ [Interval packet_number (packet_number + 1)]
      else if imin (hd xs) > packet_number + 1 then
        Interval packet_number (packet_number + 1) # xs
      else if imin (hd xs) = packet_number + 1 then
        (hd xs)\<lparr>imin := packet_number\<rparr> # tl xs
      else deque_add_loop (length xs) packet_number xs)"

function deque_add_each ::
  "QuicPacketNumber interval list \<Rightarrow> QuicPacketNumber \<Rightarrow> QuicPacketNumber \<Rightarrow> QuicPacketNumber interval list" where
  "deque_add_each xs i higher =
     (if i < higher then deque_add_each (deque_Add xs i) (i + 1) higher else xs)"
  by auto

termination
proof (relation "measure (\<lambda>(_, i, higher). unat higher - unat i)")
  fix xs and i higher :: QuicPacketNumber
  assume "i < higher"
  then have "unat i < unat higher" "unat (i + 1) = Suc (unat i)"
    using word_less_not_max [of i higher] by (auto simp: word_less_nat_alt unat_inc)
  then show "((deque_Add xs i, i + 1, higher), xs, i, higher) \<in> measure (\<lambda>(_, i, higher). unat higher - unat i)"
    by simp
qed simp

declare deque_add_each.simps [simp del]

definition deque_AddRange ::
  "QuicPacketNumber interval list \<Rightarrow> QuicPacketNumber \<Rightarrow> QuicPacketNumber \<Rightarrow> QuicPacketNumber interval list" where
  "deque_AddRange xs lower higher =
     (if xs = [] then [Interval lower higher]
      else let back = last xs; front = hd xs
           in if imax back = lower then butlast xs @ [back\<lparr>imax := higher\<rparr>]
              else if imax back < lower then xs @ [Interval lower higher]
              else if imin front = higher then front\<lparr>imin := lower\<rparr> # tl xs
              else if imin front > higher then Interval lower higher # xs
              else let (xs, higher) =
                         (if higher \<ge> imax back
                          then (butlast xs @ [back\<lparr>imax := higher\<rparr>], max lower (imin back))
                          else (xs, higher));
                       (xs, lower) =
                         (if lower < imin front
                          then ((hd xs)\<lparr>imin := lower\<rparr> # tl xs, min higher (imax front))
                          else (xs, lower))
                   in deque_add_each xs lower higher)"

fun deque_RemoveUpTo ::
  "QuicPacketNumber interval list \<Rightarrow> QuicPacketNumber \<Rightarrow> QuicPacketNumber interval list" where
  "deque_RemoveUpTo [] higher = []"
| "deque_RemoveUpTo (front # xs) higher =
     (if imax front < higher then deque_RemoveUpTo xs higher
      else if imin front < higher \<and> imax front \<ge> higher then
        (if imax front = higher then xs else front\<lparr>imin := higher\<rparr> # xs)
      else front # xs)"

definition deque_Contains :: "QuicPacketNumber interval list \<Rightarrow> QuicPacketNumber \<Rightarrow> bool" where
  "deque_Contains xs packet_number =
     (if xs = [] then False
      else if imin (hd xs) > packet_number \<or> imax (last xs) \<le> packet_number then False
      else list_ex (\<lambda>i. iv_Contains i packet_number) xs)"

text \<open>The sum of the lengths is kept in an \<open>int\<close> and returned as a \<open>size_t\<close>.\<close>

definition deque_NumPacketsSlow :: "QuicPacketNumber interval list \<Rightarrow> 64 word" where
  "deque_NumPacketsSlow xs =
     signed (fold (\<lambda>i (n::32 word). ucast ((signed n :: 64 word) + iv_Length i)) xs 0)"

section \<open>The operations of the queue\<close>

text \<open>
  \<open>Difference\<close> of the interval set is given as many rounds as it needs.  An access to the front
  of an empty container is \<open>None\<close>.
\<close>

definition pnq_Empty :: "packet_number_queue \<Rightarrow> bool" where
  "pnq_Empty q = (if use_deque q then packet_number_deque q = [] else packet_number_intervals q = [])"

definition pnq_Add :: "packet_number_queue \<Rightarrow> QuicPacketNumber \<Rightarrow> packet_number_queue" where
  "pnq_Add q packet_number =
     (if use_deque q
      then q\<lparr>packet_number_deque := deque_Add (packet_number_deque q) packet_number\<rparr>
      else q\<lparr>packet_number_intervals :=
               is_Add (packet_number_intervals q) (Interval packet_number (packet_number + 1))\<rparr>)"

definition pnq_AddRange ::
  "packet_number_queue \<Rightarrow> QuicPacketNumber \<Rightarrow> QuicPacketNumber \<Rightarrow> packet_number_queue" where
  "pnq_AddRange q lower higher =
     (if lower \<ge> higher then q
      else if use_deque q
      then q\<lparr>packet_number_deque := deque_AddRange (packet_number_deque q) lower higher\<rparr>
      else q\<lparr>packet_number_intervals := is_Add (packet_number_intervals q) (Interval lower higher)\<rparr>)"

definition pnq_Min :: "packet_number_queue \<Rightarrow> QuicPacketNumber option" where
  "pnq_Min q =
     (if pnq_Empty q then None
      else if use_deque q then Some (imin (hd (packet_number_deque q)))
      else Some (imin (hd (packet_number_intervals q))))"

definition pnq_Max :: "packet_number_queue \<Rightarrow> QuicPacketNumber option" where
  "pnq_Max q =
     (if pnq_Empty q then None
      else if use_deque q then Some (imax (last (packet_number_deque q)) - 1)
      else Some (imax (last (packet_number_intervals q)) - 1))"

definition interval_rounds :: "'a interval_set \<Rightarrow> nat" where
  "interval_rounds xs = length xs + 3"

definition pnq_RemoveUpTo ::
  "packet_number_queue \<Rightarrow> QuicPacketNumber \<Rightarrow> (packet_number_queue \<times> bool) option" where
  "pnq_RemoveUpTo q higher =
     (if pnq_Empty q then Some (q, False)
      else let old_min = pnq_Min q;
               removed = (if use_deque q
                 then Some (q\<lparr>packet_number_deque := deque_RemoveUpTo (packet_number_deque q) higher\<rparr>)
                 else map_option (\<lambda>ivs. q\<lparr>packet_number_intervals := ivs\<rparr>)
                        (is_Difference (interval_rounds (packet_number_intervals q))
                           (packet_number_intervals q) (Interval 0 higher)))
           in map_option (\<lambda>q. (q, pnq_Empty q \<or> old_min \<noteq> pnq_Min q)) removed)"

definition pnq_RemoveSmallestInterval :: "packet_number_queue \<Rightarrow> packet_number_queue option" where
  "pnq_RemoveSmallestInterval q =
     (if pnq_Empty q then None
      else if use_deque q then Some (q\<lparr>packet_number_deque := tl (packet_number_deque q)\<rparr>)
      else map_option (\<lambda>ivs. q\<lparr>packet_number_intervals := ivs\<rparr>)
             (is_Difference (interval_rounds (packet_number_intervals q))
                (packet_number_intervals q) (hd (packet_number_intervals q))))"

definition pnq_Contains :: "packet_number_queue \<Rightarrow> QuicPacketNumber \<Rightarrow> bool" where
  "pnq_Contains q packet_number =
     (if use_deque q then deque_Contains (packet_number_deque q) packet_number
      else is_Contains (packet_number_intervals q) packet_number)"

definition pnq_NumPacketsSlow :: "packet_number_queue \<Rightarrow> 64 word" where
  "pnq_NumPacketsSlow q =
     (if use_deque q then deque_NumPacketsSlow (packet_number_deque q)
      else fold (\<lambda>i n. n + iv_Length i) (packet_number_intervals q) 0)"

definition pnq_NumIntervals :: "packet_number_queue \<Rightarrow> nat" where
  "pnq_NumIntervals q =
     (if use_deque q then length (packet_number_deque q) else length (packet_number_intervals q))"

definition pnq_LastIntervalLength :: "packet_number_queue \<Rightarrow> QuicPacketNumber option" where
  "pnq_LastIntervalLength q =
     (if pnq_Empty q then None
      else if use_deque q then Some (iv_Length (last (packet_number_deque q)))
      else Some (iv_Length (last (packet_number_intervals q))))"

section \<open>The ack frame\<close>

record ack_frame =
  largest_observed :: QuicPacketNumber
  ack_delay_time :: QuicTimeDelta
  received_packet_times :: "(QuicPacketNumber \<times> QuicTime) list"
  packets :: packet_number_queue

definition IsAwaitingPacket :: "ack_frame \<Rightarrow> QuicPacketNumber \<Rightarrow> QuicPacketNumber \<Rightarrow> bool" where
  "IsAwaitingPacket frame packet_number peer_least_packet_awaiting_ack \<longleftrightarrow>
     packet_number \<ge> peer_least_packet_awaiting_ack \<and> \<not> pnq_Contains (packets frame) packet_number"

section \<open>The deque keeps the intervals valid\<close>

lemma iv_set_single: "p \<noteq> - 1 \<Longrightarrow> iv_set (Interval p (p + 1)) = {p}" for p :: QuicPacketNumber
  by (auto simp: iv_set_def less_inc_iff)

lemma iv_set_extend:
  fixes p :: QuicPacketNumber
  assumes "p \<noteq> - 1" "imin i < imax i"
  shows "imax i = p \<Longrightarrow> iv_set (i\<lparr>imax := p + 1\<rparr>) = insert p (iv_set i)"
    and "imin i = p + 1 \<Longrightarrow> iv_set (i\<lparr>imin := p\<rparr>) = insert p (iv_set i)"
proof -
  show "iv_set (i\<lparr>imax := p + 1\<rparr>) = insert p (iv_set i)" if "imax i = p"
    using assms that by (auto simp: iv_set_def less_inc_iff)
  have "p < imax i" if "imin i = p + 1"
    using assms that less_inc_self [OF assms(1)] by (metis order.strict_trans)
  then show "iv_set (i\<lparr>imin := p\<rparr>) = insert p (iv_set i)" if "imin i = p + 1"
    using assms(1) that by (auto simp: iv_set_def inc_le_iff)
qed

lemmas inc_order = less_inc_iff inc_le_iff

text \<open>The body of the loop of \<open>Add\<close> at the last of the elements still to be looked at.\<close>

lemma deque_add_loop_snoc:
  "deque_add_loop (length (A @ [x])) p ((A @ [x]) @ B) =
      (if iv_Contains x p then A @ x # B
       else if imax x = p then A @ x\<lparr>imax := p + 1\<rparr> # B
       else if imin x = p + 1 then
         (if A \<noteq> [] \<and> p = imax (last A) then butlast A @ (last A)\<lparr>imax := imax x\<rparr> # B
          else A @ x\<lparr>imin := p\<rparr> # B)
       else if imax x < p + 1 then A @ x # Interval p (p + 1) # B
       else deque_add_loop (length A) p (A @ x # B))"
  by (cases A rule: rev_cases) (simp_all add: Let_def nth_append list_update_append)

lemma deque_merge:
  fixes p :: QuicPacketNumber
  assumes "is_Valid ((A @ [a]) @ x # B)" "imin x = p + 1" "imax a = p" "p \<noteq> - 1"
  shows "is_Valid (A @ a\<lparr>imax := imax x\<rparr> # B) \<and>
    is_abs (A @ a\<lparr>imax := imax x\<rparr> # B) = insert p (is_abs ((A @ [a]) @ x # B))"
proof -
  have *: "imin a < p" "p < imax x"
    using assms less_inc_self [of p] by (auto simp: is_Valid_append is_Valid_Cons)
  have "v \<in> iv_set (a\<lparr>imax := imax x\<rparr>) \<longleftrightarrow> v \<in> insert p (iv_set a \<union> iv_set x)" for v
    using * by (cases v p rule: linorder_cases)
      (auto simp: iv_set_def assms(2,3) inc_le_iff [OF assms(4)])
  then have "iv_set (a\<lparr>imax := imax x\<rparr>) = insert p (iv_set a \<union> iv_set x)" "imin a < imax x"
    using * by auto
  then show ?thesis
    using assms(1) by (auto simp: is_Valid_append is_Valid_Cons)
qed

lemma deque_add_loop_correct:
  assumes "is_Valid (A @ B)" "\<forall>b\<in>set B. p + 1 < imin b" "p \<noteq> - 1" "A \<noteq> []" "imin (hd A) \<le> p"
  shows "is_Valid (deque_add_loop (length A) p (A @ B)) \<and>
    is_abs (deque_add_loop (length A) p (A @ B)) = insert p (is_abs (A @ B))"
  using assms
proof (induction A arbitrary: B rule: rev_induct)
  case (snoc x A)
  note less = less_inc_self [OF snoc.prems(3)]
  have val: "is_Valid A" "is_Valid B" "imin x < imax x" "\<forall>a\<in>set A. imax a < imin x"
    "\<forall>b\<in>set B. imax x < imin b" "\<forall>a\<in>set A. \<forall>b\<in>set B. imax a < imin b"
    using snoc.prems(1) by (auto simp: is_Valid_append is_Valid_Cons)
  have B: "p < imin b" if "b \<in> set B" for b
    using order.strict_trans [OF less] snoc.prems(2) that by blast
  consider (in_x) "iv_Contains x p" | (max) "imax x = p" | (min) "imin x = p + 1" "imax x \<noteq> p"
    | (above) "imax x < p" | (below) "p + 1 < imin x"
    unfolding iv_Contains_def using inc_le_iff [OF snoc.prems(3), of "imin x"]
    by (metis leI order.not_eq_order_implies_strict)
  then show ?case
  proof cases
    case in_x
    then show ?thesis
      using snoc.prems(1) unfolding deque_add_loop_snoc by (auto simp: iv_Contains_iff)
  next
    case max
    then have "imin x < p + 1"
      using val(3) less by simp
    then show ?thesis
      using max snoc.prems(2) val iv_set_extend(1) [OF snoc.prems(3) val(3) max]
      unfolding deque_add_loop_snoc by (auto simp: iv_Contains_def is_Valid_append is_Valid_Cons)
  next
    case min
    have not: "\<not> iv_Contains x p"
      using less by (simp add: iv_Contains_def min not_le [symmetric])
    show ?thesis
    proof (cases "A \<noteq> [] \<and> p = imax (last A)")
      case True
      then obtain A' a where A: "A = A' @ [a]" "imax a = p"
        by (cases A rule: rev_cases) auto
      show ?thesis
        using deque_merge [of A' a x B p] snoc.prems(1,3) A min not
        unfolding deque_add_loop_snoc by simp
    next
      case False
      have "imax a < p" if "a \<in> set A" for a
        using val(1,4) that False snoc.prems(3) unfolding min(1) less_inc_iff [OF snoc.prems(3)]
        by (cases A rule: rev_cases) (auto simp: is_Valid_append dest: is_Valid_nonempty)
      then show ?thesis
        using False val min not less iv_set_extend(2) [OF snoc.prems(3) val(3) min(1)]
        unfolding deque_add_loop_snoc by (auto simp: is_Valid_append is_Valid_Cons)
    qed
  next
    case above
    then have "deque_add_loop (length (A @ [x])) p ((A @ [x]) @ B) = A @ x # Interval p (p + 1) # B"
      using less val(3) unfolding deque_add_loop_snoc iv_Contains_def by auto
    moreover have "imax a < p" if "a \<in> set A" for a
      using val(3,4) above that by (meson order.strict_trans)
    ultimately show ?thesis
      using above less snoc.prems(2) B val iv_set_single [OF snoc.prems(3)]
      by (auto simp: is_Valid_append is_Valid_Cons)
  next
    case below
    then have lt: "p < imin x"
      using less by simp
    then have step: "deque_add_loop (length (A @ [x])) p ((A @ [x]) @ B) = deque_add_loop (length A) p (A @ x # B)"
      using below val(3) less unfolding deque_add_loop_snoc iv_Contains_def by auto
    have "A \<noteq> []"
      using snoc.prems(5) lt by auto
    then show ?thesis
      using snoc.IH [of "x # B"] snoc.prems below step by auto
  qed
qed simp

lemma extend_back:
  assumes "is_Valid (ys @ [y])" "imax y \<le> h"
  shows "is_Valid (ys @ [y\<lparr>imax := h\<rparr>]) \<and> is_abs (ys @ [y\<lparr>imax := h\<rparr>]) = is_abs (ys @ [y]) \<union> {imin y..<h}"
proof -
  have "imin y < h" "iv_set (y\<lparr>imax := h\<rparr>) = iv_set y \<union> {imin y..<h}"
    using assms by (auto simp: is_Valid_append iv_set_def)
  then show ?thesis
    using assms(1) by (auto simp: is_Valid_append)
qed

lemma extend_front:
  assumes "is_Valid (x # xs)" "l \<le> imin x"
  shows "is_Valid (x\<lparr>imin := l\<rparr> # xs) \<and> is_abs (x\<lparr>imin := l\<rparr> # xs) = is_abs (x # xs) \<union> {l..<imin x}"
proof -
  have "l < imax x" "iv_set (x\<lparr>imin := l\<rparr>) = iv_set x \<union> {l..<imin x}"
    using assms by (auto simp: is_Valid_Cons iv_set_def)
  then show ?thesis
    using assms(1) by (auto simp: is_Valid_Cons)
qed

lemma append_interval:
  assumes "is_Valid (ys @ [y])" "imax y < l" "l < h"
  shows "is_Valid ((ys @ [y]) @ [Interval l h])"
proof -
  have "imax z < l" if "z \<in> set ys" for z
    using assms that is_Valid_nonempty [OF assms(1), of y]
    by (auto simp: is_Valid_append)
  then show ?thesis
    using assms by (auto simp: is_Valid_append)
qed

lemma prepend_interval:
  assumes "is_Valid (x # xs)" "h < imin x" "l < h"
  shows "is_Valid (Interval l h # x # xs)"
proof -
  have "h < imin z" if "z \<in> set xs" for z
    using assms that by (auto simp: is_Valid_Cons)
  then show ?thesis
    using assms by (auto simp: is_Valid_Cons)
qed

lemma deque_Add_correct:
  assumes "is_Valid xs" "p \<noteq> - 1"
  shows "is_Valid (deque_Add xs p) \<and> is_abs (deque_Add xs p) = insert p (is_abs xs)"
proof (cases xs)
  case Nil
  then show ?thesis
    using less_inc_self [OF assms(2)] iv_set_single [OF assms(2)] by (simp add: deque_Add_def)
next
  case (Cons x xs')
  note less = less_inc_self [OF assms(2)] and single = iv_set_single [OF assms(2)]
  obtain ys y where ys: "xs = ys @ [y]"
    using Cons by (metis list.distinct(1) rev_exhaust)
  have h: "xs \<noteq> []" "hd xs = x" "tl xs = xs'"
    by (simp_all add: Cons)
  have h': "last xs = y" "butlast xs = ys"
    by (simp_all add: ys)
  have at: "{p..<p + 1} = {p}"
    using single by (simp add: iv_set_def)
  consider (ordered) "imax y = p" | (skip) "imax y < p" "imax y \<noteq> p"
    | (front) "\<not> imax y < p" "imax y \<noteq> p" "p + 1 < imin x"
    | (join) "\<not> imax y < p" "imax y \<noteq> p" "imin x = p + 1" "\<not> p + 1 < imin x"
    | (loop) "\<not> imax y < p" "imax y \<noteq> p" "imin x \<noteq> p + 1" "\<not> p + 1 < imin x" "imin x \<le> p"
    using less_inc_iff [OF assms(2), of "imin x"] by (metis linorder_cases less_irrefl)
  then show ?thesis
  proof cases
    case ordered
    then have "imin y < p"
      using assms(1) by (auto simp: ys is_Valid_append)
    then have "iv_set y \<union> {imin y..<p + 1} = insert p (iv_set y)"
      using ordered assms(2) by (auto simp: iv_set_def less_inc_iff)
    moreover have "deque_Add xs p = ys @ [y\<lparr>imax := p + 1\<rparr>]"
      using ordered h h' by (simp add: deque_Add_def)
    ultimately show ?thesis
      using ordered extend_back [OF assms(1) [unfolded ys], of "p + 1"] less by (auto simp: ys)
  next
    case skip
    then have "deque_Add xs p = xs @ [Interval p (p + 1)]"
      using h h' by (simp add: deque_Add_def)
    then show ?thesis
      using append_interval [OF assms(1) [unfolded ys] skip(1) less] single by (simp add: ys)
  next
    case front
    then have "deque_Add xs p = Interval p (p + 1) # xs"
      using h h' by (simp add: deque_Add_def)
    then show ?thesis
      using prepend_interval [OF assms(1) [unfolded Cons] front(3) less] single by (simp add: Cons)
  next
    case join
    then have "deque_Add xs p = x\<lparr>imin := p\<rparr> # xs'"
      using h h' by (simp add: deque_Add_def)
    then show ?thesis
      using extend_front [OF assms(1) [unfolded Cons], of p] less at join(3) by (simp add: Cons)
  next
    case loop
    then have "deque_Add xs p = deque_add_loop (length xs) p (xs @ [])"
      using h h' by (simp add: deque_Add_def)
    then show ?thesis
      using deque_add_loop_correct [of xs "[]" p] assms loop h by simp
  qed
qed
lemma deque_add_each_correct:
  assumes "is_Valid xs"
  shows "is_Valid (deque_add_each xs l h) \<and> is_abs (deque_add_each xs l h) = is_abs xs \<union> {l..<h}"
  using assms
proof (induction xs l h rule: deque_add_each.induct)
  case (1 xs i h)
  show ?case
  proof (cases "i < h")
    case True
    then have "i \<noteq> - 1"
      by (rule word_less_not_max)
    then have "{i..<h} = insert i {i + 1..<h}"
      using True by (auto simp: inc_le_iff)
    then show ?thesis
      using True 1 deque_Add_correct [OF 1(2) \<open>i \<noteq> - 1\<close>] by (subst (1 2) deque_add_each.simps) auto
  qed (use 1 in \<open>simp add: deque_add_each.simps\<close>)
qed

text \<open>
  The slow path of \<open>AddRange\<close> first lets the last and the first interval grow and then adds what
  is left one packet at a time.
\<close>

lemma AddRange_grow_back:
  fixes l h :: QuicPacketNumber
  assumes "is_Valid (ys @ [y])" "l < imax y" "imax y \<le> h"
  shows "is_Valid (ys @ [y\<lparr>imax := h\<rparr>])"
    "is_abs (ys @ [y\<lparr>imax := h\<rparr>]) \<union> {l..<max l (imin y)} = is_abs (ys @ [y]) \<union> {l..<h}"
proof -
  have "{imin y..<h} \<union> {l..<max l (imin y)} \<union> iv_set y = iv_set y \<union> {l..<h}"
    using assms(2,3) is_Valid_nonempty [OF assms(1), of y] by (auto simp: iv_set_def max_def)
  then show "is_Valid (ys @ [y\<lparr>imax := h\<rparr>])"
    "is_abs (ys @ [y\<lparr>imax := h\<rparr>]) \<union> {l..<max l (imin y)} = is_abs (ys @ [y]) \<union> {l..<h}"
    using extend_back [OF assms(1,3)] by auto
qed

lemma AddRange_grow_front:
  fixes l h :: QuicPacketNumber
  assumes "is_Valid (x # xs)" "l < imin x" "imin x \<le> h" "m \<le> imax x" "imin x \<le> m"
  shows "is_Valid (x\<lparr>imin := l\<rparr> # xs)"
    "is_abs (x\<lparr>imin := l\<rparr> # xs) \<union> {min h m..<h} = is_abs (x # xs) \<union> {l..<h}"
proof -
  have "iv_set x \<union> {l..<imin x} \<union> {min h m..<h} = iv_set x \<union> {l..<h}"
    using assms by (auto simp: iv_set_def min_def)
  then show "is_Valid (x\<lparr>imin := l\<rparr> # xs)"
    "is_abs (x\<lparr>imin := l\<rparr> # xs) \<union> {min h m..<h} = is_abs (x # xs) \<union> {l..<h}"
    using extend_front [OF assms(1) less_imp_le [OF assms(2)]] by auto
qed

lemma is_Valid_hd_last:
  assumes "is_Valid xs" "xs \<noteq> []"
  shows "imin (hd xs) \<le> imin (last xs)" "imin (hd xs) < imax (hd xs)"
proof -
  show "imin (hd xs) < imax (hd xs)"
    using assms is_Valid_nonempty by force
  show "imin (hd xs) \<le> imin (last xs)"
    using assms is_Valid_nonempty [OF assms(1), of "last xs"] is_abs_hd [OF assms(1), of "imin (last xs)"]
    by (force simp: is_abs_def iv_set_def)
qed

text \<open>What the slow path does before its loop, given the interval set and the bounds.\<close>

lemma AddRange_grow:
  fixes l h :: QuicPacketNumber
  assumes "is_Valid xs" "xs \<noteq> []" "l < imax (last xs)" "imin (hd xs) < h"
    and "(ys, h') = (if h \<ge> imax (last xs)
      then (butlast xs @ [(last xs)\<lparr>imax := h\<rparr>], max l (imin (last xs))) else (xs, h))"
    and "(zs, l') = (if l < imin (hd xs) then ((hd ys)\<lparr>imin := l\<rparr> # tl ys, min h' (imax (hd xs))) else (ys, l))"
  shows "is_Valid zs \<and> is_abs zs \<union> {l'..<h'} = is_abs xs \<union> {l..<h}"
proof -
  note hl = is_Valid_hd_last [OF assms(1,2)]
  have xs: "butlast xs @ [last xs] = xs"
    using assms(2) by simp
  have val: "is_Valid (butlast xs @ [last xs])"
    using assms(1) xs by simp
  have ys: "is_Valid ys \<and> is_abs ys \<union> {l..<h'} = is_abs xs \<union> {l..<h} \<and> ys \<noteq> [] \<and>
      imin (hd ys) = imin (hd xs) \<and> imax (hd xs) \<le> imax (hd ys) \<and> imin (hd xs) \<le> h'"
  proof (cases "h \<ge> imax (last xs)")
    case True
    then have eqs: "ys = butlast xs @ [(last xs)\<lparr>imax := h\<rparr>]" "h' = max l (imin (last xs))"
      using assms(5) by simp_all
    have "imin (hd ys) = imin (hd xs) \<and> imax (hd xs) \<le> imax (hd ys)"
      using True assms(2) unfolding eqs by (cases xs) auto
    moreover have "imin (hd xs) \<le> h'"
      using hl(1) unfolding eqs by (simp add: le_max_iff_disj)
    ultimately show ?thesis
      using AddRange_grow_back [OF val assms(3) True] unfolding xs eqs by blast
  next
    case False
    then show ?thesis
      using assms by simp
  qed
  show ?thesis
  proof (cases "l < imin (hd xs)")
    case True
    then have eqs: "zs = (hd ys)\<lparr>imin := l\<rparr> # tl ys" "l' = min h' (imax (hd xs))"
      using assms(6) by simp_all
    show ?thesis
      using AddRange_grow_front [of "hd ys" "tl ys" l h' "imax (hd xs)"] ys True hl(2)
      unfolding eqs by (simp add: less_imp_le)
  next
    case False
    then show ?thesis
      using ys assms(6) by simp
  qed
qed

lemma deque_AddRange_correct:
  assumes "is_Valid xs" "l < h"
  shows "is_Valid (deque_AddRange xs l h) \<and> is_abs (deque_AddRange xs l h) = is_abs xs \<union> {l..<h}"
proof (cases xs)
  case Nil
  then show ?thesis
    using assms(2) by (simp add: deque_AddRange_def iv_set_def)
next
  case (Cons x xs')
  obtain ys y where ys: "xs = ys @ [y]"
    using Cons by (metis list.distinct(1) rev_exhaust)
  have h: "xs \<noteq> []" "hd xs = x" "tl xs = xs'"
    by (simp_all add: Cons)
  have h': "last xs = y" "butlast xs = ys"
    by (simp_all add: ys)
  consider (ordered) "imax y = l" | (skip) "imax y < l" "imax y \<noteq> l"
    | (join) "\<not> imax y < l" "imax y \<noteq> l" "imin x = h"
    | (front) "\<not> imax y < l" "imax y \<noteq> l" "imin x \<noteq> h" "h < imin x"
    | (slow) "\<not> imax y < l" "imax y \<noteq> l" "imin x \<noteq> h" "\<not> h < imin x"
    by blast
  then show ?thesis
  proof cases
    case ordered
    then have "deque_AddRange xs l h = ys @ [y\<lparr>imax := h\<rparr>]"
      using h h' by (simp add: deque_AddRange_def)
    moreover have "iv_set y \<union> {imin y..<h} = iv_set y \<union> {l..<h}"
      using is_Valid_nonempty [OF assms(1), of y] ordered by (auto simp: iv_set_def ys)
    ultimately show ?thesis
      using extend_back [OF assms(1) [unfolded ys], of h] assms(2) ordered by (auto simp: ys)
  next
    case skip
    then have "deque_AddRange xs l h = xs @ [Interval l h]"
      using h h' by (simp add: deque_AddRange_def)
    then show ?thesis
      using append_interval [OF assms(1) [unfolded ys] skip(1) assms(2)] by (simp add: ys iv_set_def Un_assoc)
  next
    case join
    then have "deque_AddRange xs l h = x\<lparr>imin := l\<rparr> # xs'"
      using h h' by (simp add: deque_AddRange_def)
    then show ?thesis
      using extend_front [OF assms(1) [unfolded Cons], of l] assms(2) join(3) by (simp add: Cons)
  next
    case front
    then have "deque_AddRange xs l h = Interval l h # xs"
      using h h' by (simp add: deque_AddRange_def)
    then show ?thesis
      using prepend_interval [OF assms(1) [unfolded Cons] front(4) assms(2)]
      by (auto simp: Cons iv_set_def)
  next
    case slow
    let ?yh = "if h \<ge> imax (last xs)
      then (butlast xs @ [(last xs)\<lparr>imax := h\<rparr>], max l (imin (last xs))) else (xs, h)"
    let ?zl = "if l < imin (hd xs)
      then ((hd (fst ?yh))\<lparr>imin := l\<rparr> # tl (fst ?yh), min (snd ?yh) (imax (hd xs))) else (fst ?yh, l)"
    have "deque_AddRange xs l h = deque_add_each (fst ?zl) (snd ?zl) (snd ?yh)"
      using slow h h' unfolding deque_AddRange_def by (simp add: Let_def split_def)
    moreover have "is_Valid (fst ?zl) \<and> is_abs (fst ?zl) \<union> {snd ?zl..<snd ?yh} = is_abs xs \<union> {l..<h}"
      by (rule AddRange_grow [OF assms(1) h(1)]) (use slow h h' in simp_all)
    ultimately show ?thesis
      using deque_add_each_correct [of "fst ?zl" "snd ?zl" "snd ?yh"] by simp
  qed
qed

lemma deque_RemoveUpTo_correct:
  assumes "is_Valid xs"
  shows "is_Valid (deque_RemoveUpTo xs h) \<and> is_abs (deque_RemoveUpTo xs h) = is_abs xs - {..<h}"
  using assms
proof (induction xs)
  case (Cons x xs)
  have tail: "is_abs xs - {..<h} = is_abs xs" if "h \<le> imax x"
  proof -
    have "h < v" if "v \<in> is_abs xs" for v
      using is_abs_above [OF Cons.prems that] \<open>h \<le> imax x\<close> by simp
    then show ?thesis
      using order.asym by blast
  qed
  have val: "is_Valid xs" "imin x < imax x" "\<forall>y\<in>set xs. imax x < imin y"
    using Cons.prems by (auto simp: is_Valid_Cons)
  consider "imax x < h" | "\<not> imax x < h" "imin x < h" "imax x = h"
    | "\<not> imax x < h" "imin x < h" "imax x \<noteq> h" "h \<le> imax x"
    | "\<not> imax x < h" "\<not> imin x < h" "h \<le> imax x"
    by fastforce
  then show ?case
  proof cases
    case 1
    then have "iv_set x - {..<h} = {}"
      by (auto simp: iv_set_def)
    then have "is_abs (x # xs) - {..<h} = is_abs xs - {..<h}"
      by auto
    then show ?thesis
      using 1 Cons.IH [OF val(1)] by simp
  next
    case 2
    then have "iv_set x - {..<h} = {}"
      by (auto simp: iv_set_def)
    then have "is_abs (x # xs) - {..<h} = is_abs xs"
      using 2 tail by auto
    then show ?thesis
      using 2 val(1) by simp
  next
    case 3
    then have "iv_set (x\<lparr>imin := h\<rparr>) = iv_set x - {..<h}"
      by (auto simp: iv_set_def)
    then have "is_abs (x # xs) - {..<h} = is_abs (x\<lparr>imin := h\<rparr> # xs)"
      using tail [OF 3(4)] by auto
    then show ?thesis
      using 3 val by (simp add: is_Valid_Cons)
  next
    case 4
    then have "iv_set x - {..<h} = iv_set x"
      by (auto simp: iv_set_def)
    then have "is_abs (x # xs) - {..<h} = is_abs (x # xs)"
      using tail [OF 4(3)] by auto
    then show ?thesis
      using 4 Cons.prems by simp
  qed
qed simp

section \<open>The contract both containers keep\<close>

text \<open>Operations of a client, the state they lead to, and their meaning on sets.\<close>

datatype pnq_op = OpAdd QuicPacketNumber | OpAddRange QuicPacketNumber QuicPacketNumber
  | OpRemoveUpTo QuicPacketNumber

fun pnq_op_ok :: "pnq_op \<Rightarrow> bool" where
  "pnq_op_ok (OpAdd p) \<longleftrightarrow> p \<noteq> - 1"
| "pnq_op_ok _ \<longleftrightarrow> True"

fun set_step :: "pnq_op \<Rightarrow> QuicPacketNumber set \<Rightarrow> QuicPacketNumber set" where
  "set_step (OpAdd p) S = insert p S"
| "set_step (OpAddRange l h) S = S \<union> {l..<h}"
| "set_step (OpRemoveUpTo h) S = S - {..<h}"

fun packet_step ::
  "('s \<Rightarrow> QuicPacketNumber \<Rightarrow> 's) \<Rightarrow> ('s \<Rightarrow> QuicPacketNumber \<Rightarrow> QuicPacketNumber \<Rightarrow> 's) \<Rightarrow>
   ('s \<Rightarrow> QuicPacketNumber \<Rightarrow> ('s \<times> bool) option) \<Rightarrow> pnq_op \<Rightarrow> 's \<Rightarrow> 's option" where
  "packet_step add add_range remove (OpAdd p) q = Some (add q p)"
| "packet_step add add_range remove (OpAddRange l h) q = Some (add_range q l h)"
| "packet_step add add_range remove (OpRemoveUpTo h) q = map_option fst (remove q h)"

fun run_steps :: "('op \<Rightarrow> 's \<Rightarrow> 's option) \<Rightarrow> 'op list \<Rightarrow> 's \<Rightarrow> 's option" where
  "run_steps step [] q = Some q"
| "run_steps step (op # ops) q = Option.bind (step op q) (run_steps step ops)"

definition pnq_run :: "pnq_op list \<Rightarrow> packet_number_queue \<Rightarrow> packet_number_queue option" where
  "pnq_run = run_steps (packet_step pnq_Add pnq_AddRange pnq_RemoveUpTo)"

locale packet_set =
  fixes inv :: "'s \<Rightarrow> bool"
    and vals :: "'s \<Rightarrow> QuicPacketNumber set"
    and add :: "'s \<Rightarrow> QuicPacketNumber \<Rightarrow> 's"
    and add_range :: "'s \<Rightarrow> QuicPacketNumber \<Rightarrow> QuicPacketNumber \<Rightarrow> 's"
    and remove_up_to :: "'s \<Rightarrow> QuicPacketNumber \<Rightarrow> ('s \<times> bool) option"
    and contains :: "'s \<Rightarrow> QuicPacketNumber \<Rightarrow> bool"
  assumes add_law: "inv q \<Longrightarrow> p \<noteq> - 1 \<Longrightarrow> inv (add q p) \<and> vals (add q p) = insert p (vals q)"
    and range_law: "inv q \<Longrightarrow> inv (add_range q l h) \<and> vals (add_range q l h) = vals q \<union> {l..<h}"
    and remove_law: "inv q \<Longrightarrow> \<exists>q' b. remove_up_to q h = Some (q', b) \<and> inv q' \<and>
      vals q' = vals q - {..<h} \<and> (b \<longleftrightarrow> (\<exists>v\<in>vals q. v < h))"
    and contains_law: "inv q \<Longrightarrow> contains q p \<longleftrightarrow> p \<in> vals q"
begin

lemma step_refines:
  assumes "inv q" "pnq_op_ok op"
  shows "\<exists>q'. packet_step add add_range remove_up_to op q = Some q' \<and> inv q' \<and>
    vals q' = set_step op (vals q)"
proof (cases op)
  case (OpRemoveUpTo h)
  then show ?thesis
    using remove_law [OF assms(1), of h] by auto
qed (use assms add_law range_law in auto)

lemma run_refines:
  assumes "inv q" "list_all pnq_op_ok ops"
  shows "\<exists>q'. run_steps (packet_step add add_range remove_up_to) ops q = Some q' \<and> inv q' \<and>
    vals q' = fold set_step ops (vals q)"
  using assms
proof (induction ops arbitrary: q)
  case (Cons op ops)
  then obtain q' where "packet_step add add_range remove_up_to op q = Some q'" "inv q'"
    "vals q' = set_step op (vals q)"
    using step_refines [OF Cons.prems(1), of op] by auto
  then show ?case
    using Cons.IH [of q'] Cons.prems(2) by simp
qed simp

lemma run_contains:
  assumes "inv q" "list_all pnq_op_ok ops"
  shows "\<exists>q'. run_steps (packet_step add add_range remove_up_to) ops q = Some q' \<and>
    (\<forall>p. contains q' p \<longleftrightarrow> p \<in> fold set_step ops (vals q))"
  using run_refines [OF assms] contains_law by blast

end

lemma deque_Contains_abs:
  assumes "is_Valid xs"
  shows "deque_Contains xs p \<longleftrightarrow> p \<in> is_abs xs"
proof -
  have "list_ex (\<lambda>i. iv_Contains i p) xs \<longleftrightarrow> p \<in> is_abs xs"
    by (induction xs) (auto simp: iv_Contains_iff)
  moreover have "imin (hd xs) \<le> p \<and> p < imax (last xs)" if "p \<in> is_abs xs" "xs \<noteq> []"
    using SpanningInterval_abs [OF assms] that by (auto simp: is_SpanningInterval_def iv_set_def)
  ultimately show ?thesis
    by (cases "xs = []") (auto simp: deque_Contains_def not_less not_le)
qed

text \<open>The smallest value tells whether something below a bound was removed.\<close>

lemma removed_below:
  assumes "is_Valid xs" "xs \<noteq> []" "is_Valid ys" "is_abs ys = is_abs xs - {..<h}"
  shows "(ys = [] \<or> imin (hd xs) \<noteq> imin (hd ys)) \<longleftrightarrow> (\<exists>v\<in>is_abs xs. v < h)"
proof -
  obtain x xs' where xs: "xs = x # xs'"
    using assms(2) by (cases xs) auto
  have low: "imin x \<in> is_abs xs" "\<forall>v\<in>is_abs xs. imin x \<le> v"
    using is_Valid_min_abs [OF assms(1) [unfolded xs]] by (auto simp: xs)
  then have "(\<exists>v\<in>is_abs xs. v < h) \<longleftrightarrow> imin x \<notin> is_abs ys"
    using assms(4) by (auto intro: le_less_trans)
  moreover have "imin x \<in> is_abs ys \<longleftrightarrow> ys \<noteq> [] \<and> imin x = imin (hd ys)"
  proof (cases ys)
    case (Cons y ys')
    have "imin y \<in> is_abs ys" "\<forall>v\<in>is_abs ys. imin y \<le> v"
      using is_Valid_min_abs [OF assms(3) [unfolded Cons]] by (auto simp: Cons)
    then show ?thesis
      using low assms(4) by (auto simp: Cons intro: order.antisym)
  qed simp
  ultimately show ?thesis
    by (auto simp: xs)
qed

interpretation deque_queue: packet_set "\<lambda>q. use_deque q \<and> is_Valid (packet_number_deque q)"
  "\<lambda>q. is_abs (packet_number_deque q)" pnq_Add pnq_AddRange pnq_RemoveUpTo pnq_Contains
proof
  show "\<exists>q' b. pnq_RemoveUpTo q h = Some (q', b) \<and> (use_deque q' \<and> is_Valid (packet_number_deque q')) \<and>
      is_abs (packet_number_deque q') = is_abs (packet_number_deque q) - {..<h} \<and>
      (b \<longleftrightarrow> (\<exists>v\<in>is_abs (packet_number_deque q). v < h))"
    if "use_deque q \<and> is_Valid (packet_number_deque q)" for q h
  proof (cases "packet_number_deque q = []")
    case False
    then show ?thesis
      using that deque_RemoveUpTo_correct [of "packet_number_deque q" h]
        removed_below [of "packet_number_deque q" "deque_RemoveUpTo (packet_number_deque q) h" h]
      by (auto simp: pnq_RemoveUpTo_def pnq_Empty_def pnq_Min_def)
  qed (use that in \<open>auto simp: pnq_RemoveUpTo_def pnq_Empty_def\<close>)
qed (auto simp: pnq_Add_def pnq_AddRange_def pnq_Contains_def deque_Add_correct deque_AddRange_correct
    deque_Contains_abs not_le)

interpretation interval_queue: packet_set "\<lambda>q. \<not> use_deque q \<and> is_Valid (packet_number_intervals q)"
  "\<lambda>q. is_abs (packet_number_intervals q)" pnq_Add pnq_AddRange pnq_RemoveUpTo pnq_Contains
proof
  show "\<exists>q' b. pnq_RemoveUpTo q h = Some (q', b) \<and> (\<not> use_deque q' \<and> is_Valid (packet_number_intervals q')) \<and>
      is_abs (packet_number_intervals q') = is_abs (packet_number_intervals q) - {..<h} \<and>
      (b \<longleftrightarrow> (\<exists>v\<in>is_abs (packet_number_intervals q). v < h))"
    if inv: "\<not> use_deque q \<and> is_Valid (packet_number_intervals q)" for q h
  proof (cases "packet_number_intervals q = []")
    case False
    obtain r where r: "is_Difference (interval_rounds (packet_number_intervals q)) (packet_number_intervals q)
        (Interval 0 h) = Some r" "is_Valid r" "is_abs r = is_abs (packet_number_intervals q) - {..<h}"
      using is_Difference_correct [of "packet_number_intervals q" "interval_rounds (packet_number_intervals q)" "Interval 0 h"] inv
      unfolding iv_set_def interval.simps word_atLeast0 by (auto simp: interval_rounds_def)
    then show ?thesis
      using that False removed_below [of "packet_number_intervals q" r h]
      by (auto simp: pnq_RemoveUpTo_def pnq_Empty_def pnq_Min_def)
  qed (use that in \<open>auto simp: pnq_RemoveUpTo_def pnq_Empty_def\<close>)
qed (auto simp: pnq_Add_def pnq_AddRange_def pnq_Contains_def is_Add_correct is_Contains_abs iv_set_def
    less_inc_iff)

section \<open>Properties\<close>

definition queue_intervals :: "packet_number_queue \<Rightarrow> QuicPacketNumber interval list" where
  "queue_intervals q = (if use_deque q then packet_number_deque q else packet_number_intervals q)"

text \<open>
  C4: The two containers behind \<open>PacketNumberQueue\<close> agree: after the same operations, whose
  \<open>Difference\<close> loops all end, the deque and the interval set hold the same list of intervals, it
  satisfies the invariant of \<open>IntervalSet\<close>, and \<open>Contains\<close> answers as the set of packet
  numbers that the operations describe.
\<close>

theorem PacketNumberQueue_containers_agree:
  assumes "list_all pnq_op_ok ops"
  shows "\<exists>qd qi. pnq_run ops (PacketNumberQueue True) = Some qd \<and>
    pnq_run ops (PacketNumberQueue False) = Some qi \<and>
    queue_intervals qd = queue_intervals qi \<and> is_Valid (queue_intervals qd) \<and>
    (\<forall>p. (pnq_Contains qd p \<longleftrightarrow> p \<in> fold set_step ops {}) \<and>
         (pnq_Contains qi p \<longleftrightarrow> p \<in> fold set_step ops {}))"
proof -
  obtain qd where qd: "pnq_run ops (PacketNumberQueue True) = Some qd" "use_deque qd"
    "is_Valid (packet_number_deque qd)" "is_abs (packet_number_deque qd) = fold set_step ops {}"
    using deque_queue.run_refines [OF _ assms, of "PacketNumberQueue True"]
    by (auto simp: PacketNumberQueue_def pnq_run_def)
  obtain qi where qi: "pnq_run ops (PacketNumberQueue False) = Some qi" "\<not> use_deque qi"
    "is_Valid (packet_number_intervals qi)" "is_abs (packet_number_intervals qi) = fold set_step ops {}"
    using interval_queue.run_refines [OF _ assms, of "PacketNumberQueue False"]
    by (auto simp: PacketNumberQueue_def pnq_run_def)
  have "packet_number_deque qd = packet_number_intervals qi"
    using is_abs_inj qd(3,4) qi(3,4) by metis
  then show ?thesis
    using qd qi deque_queue.contains_law interval_queue.contains_law by (auto simp: queue_intervals_def)
qed

theorem PacketNumberQueue_containers_agree_witness:
  "\<exists>qd qi. pnq_run [OpAdd 1, OpAdd 3, OpAddRange 2 6, OpRemoveUpTo 3] (PacketNumberQueue True) = Some qd \<and>
    pnq_run [OpAdd 1, OpAdd 3, OpAddRange 2 6, OpRemoveUpTo 3] (PacketNumberQueue False) = Some qi \<and>
    queue_intervals qd = queue_intervals qi \<and> pnq_Contains qi 4"
proof -
  have ok: "list_all pnq_op_ok [OpAdd 1, OpAdd 3, OpAddRange 2 6, OpRemoveUpTo 3]"
    by simp
  have "4 \<in> fold set_step [OpAdd 1, OpAdd 3, OpAddRange 2 6, OpRemoveUpTo 3] {}"
    by simp
  then show ?thesis
    using PacketNumberQueue_containers_agree [OF ok] by blast
qed

text \<open>
  \<open>RemoveUpTo\<close> leaves exactly the packet numbers from the bound on, ends, and returns whether
  anything was removed, with either container.
\<close>

theorem RemoveUpTo_removes:
  assumes "is_Valid (queue_intervals q)"
  shows "\<exists>q' b. pnq_RemoveUpTo q h = Some (q', b) \<and> is_Valid (queue_intervals q') \<and>
    (\<forall>p. pnq_Contains q' p \<longleftrightarrow> pnq_Contains q p \<and> h \<le> p) \<and> (b \<longleftrightarrow> (\<exists>p. pnq_Contains q p \<and> p < h))"
proof (cases "use_deque q")
  case True
  then show ?thesis
    using assms deque_queue.remove_law [of q h] deque_queue.contains_law
    by (fastforce simp: queue_intervals_def)
next
  case False
  then show ?thesis
    using assms interval_queue.remove_law [of q h] interval_queue.contains_law
    by (fastforce simp: queue_intervals_def)
qed

theorem RemoveUpTo_removes_witness:
  "\<exists>q' b. pnq_RemoveUpTo (pnq_Add (PacketNumberQueue False) 4) 5 = Some (q', b) \<and> b \<and>
    \<not> pnq_Contains q' 4"
proof -
  have "is_Valid (queue_intervals (pnq_Add (PacketNumberQueue False) 4))"
    "pnq_Contains (pnq_Add (PacketNumberQueue False) 4) 4"
    by (simp_all add: queue_intervals_def pnq_Add_def PacketNumberQueue_def is_Add_correct
        pnq_Contains_def is_Contains_abs iv_set_def)
  moreover have "(4::QuicPacketNumber) < 5" "\<not> (5::QuicPacketNumber) \<le> 4"
    by simp_all
  ultimately show ?thesis
    using RemoveUpTo_removes [of "pnq_Add (PacketNumberQueue False) 4" 5] by blast
qed

text \<open>The number of packets, as the sum of the lengths of the intervals.\<close>

lemma iv_set_card: "imin i < imax i \<Longrightarrow> iv_Length i = word_of_nat (card (iv_set i))"
  for i :: "QuicPacketNumber interval"
proof -
  assume less: "imin i < imax i"
  have inj: "inj_on unat (iv_set i)"
    by (auto simp: inj_on_def word_unat_eq_iff)
  have img: "unat ` iv_set i = {unat (imin i)..<unat (imax i)}"
  proof (intro equalityI subsetI)
    fix n
    assume "n \<in> {unat (imin i)..<unat (imax i)}"
    then have n: "unat (imin i) \<le> n" "n < unat (imax i)"
      by auto
    then have "unat (word_of_nat n :: QuicPacketNumber) = n"
      using unsigned_less [of "imax i", where 'a = nat] by (simp add: unat_of_nat take_bit_eq_mod)
    then show "n \<in> unat ` iv_set i"
      using n by (intro image_eqI [of _ _ "word_of_nat n"]) (auto simp: iv_set_def word_le_nat_alt word_less_nat_alt)
  qed (auto simp: iv_set_def word_le_nat_alt word_less_nat_alt)
  have "card (iv_set i) = unat (imax i) - unat (imin i)"
    using card_image [OF inj] img by simp
  also have "\<dots> = unat (imax i - imin i)"
    using less by (simp add: unat_sub less_imp_le)
  finally show ?thesis
    using less by (auto simp: iv_Length_def)
qed

lemma fold_lengths:
  fixes xs :: "QuicPacketNumber interval list"
  assumes "is_Valid xs"
  shows "fold (\<lambda>i n. n + iv_Length i) xs n = n + word_of_nat (card (is_abs xs))"
  using assms
proof (induction xs arbitrary: n)
  case (Cons x xs)
  have "iv_set x \<inter> is_abs xs = {}"
    using is_abs_above [OF Cons.prems] order.asym by (fastforce simp: iv_set_def)
  moreover have "finite (iv_set x)" "finite (is_abs xs)"
    by (rule finite)+
  ultimately have "card (is_abs (x # xs)) = card (iv_set x) + card (is_abs xs)"
    by (simp add: card_Un_disjoint)
  then show ?case
    using Cons iv_set_card [of x] by (simp add: is_Valid_Cons)
qed simp

lemma is_abs_last:
  fixes xs :: "QuicPacketNumber interval list"
  assumes "is_Valid xs" "xs \<noteq> []"
  shows "imax (last xs) - 1 \<in> is_abs xs" "\<forall>v\<in>is_abs xs. v \<le> imax (last xs) - 1"
proof -
  let ?m = "imax (last xs)"
  have last: "imin (last xs) < ?m"
    using assms is_Valid_nonempty [OF assms(1), of "last xs"] by simp
  then have "?m - 1 \<noteq> - 1"
    by auto
  then have less: "v \<le> ?m - 1 \<longleftrightarrow> v < ?m" for v
    using less_inc_iff [of "?m - 1" v] by simp
  have "imax (last xs) - 1 \<in> iv_set (last xs)"
    using last less by (auto simp: iv_set_def)
  then show "imax (last xs) - 1 \<in> is_abs xs"
    using assms(2) by (auto simp: is_abs_def)
  show "\<forall>v\<in>is_abs xs. v \<le> imax (last xs) - 1"
    using SpanningInterval_abs [OF assms(1)] assms(2)
    unfolding less by (auto simp: is_SpanningInterval_def iv_set_def)
qed

text \<open>
  With the interval set, \<open>NumPacketsSlow\<close> is the number of packet numbers in the queue and
  \<open>Min\<close> and \<open>Max\<close> are the smallest and the largest of them.
\<close>

theorem PacketNumberQueue_observers:
  assumes "\<not> use_deque q" "is_Valid (queue_intervals q)"
  shows "pnq_NumPacketsSlow q = word_of_nat (card {p. pnq_Contains q p}) \<and>
    (if pnq_Empty q then {p. pnq_Contains q p} = {}
     else \<exists>a b. pnq_Min q = Some a \<and> pnq_Max q = Some b \<and> pnq_Contains q a \<and> pnq_Contains q b \<and>
       {p. pnq_Contains q p} \<subseteq> {a..b})"
proof -
  let ?xs = "packet_number_intervals q"
  have val: "is_Valid ?xs" and con: "{p. pnq_Contains q p} = is_abs ?xs"
    using assms by (auto simp: queue_intervals_def pnq_Contains_def is_Contains_abs)
  have "pnq_NumPacketsSlow q = word_of_nat (card {p. pnq_Contains q p})"
    using fold_lengths [OF val, of 0] assms(1) unfolding con by (simp add: pnq_NumPacketsSlow_def)
  moreover have "\<exists>a b. pnq_Min q = Some a \<and> pnq_Max q = Some b \<and> pnq_Contains q a \<and> pnq_Contains q b \<and>
       {p. pnq_Contains q p} \<subseteq> {a..b}" if "\<not> pnq_Empty q"
  proof -
    have ne: "?xs \<noteq> []"
      using that assms(1) by (simp add: pnq_Empty_def)
    have "imin (hd ?xs) \<in> is_abs ?xs" "is_abs ?xs \<subseteq> {imin (hd ?xs)..imax (last ?xs) - 1}"
      using is_Valid_min_abs(1) [of "hd ?xs" "tl ?xs"] val ne is_abs_hd [OF val] is_abs_last(2) [OF val ne]
      by auto
    then show ?thesis
      using is_abs_last(1) [OF val ne] that assms(1) con by (auto simp: pnq_Min_def pnq_Max_def)
  qed
  ultimately show ?thesis
    using assms(1) con by (auto simp: pnq_Empty_def)
qed

theorem PacketNumberQueue_observers_witness:
  "pnq_NumPacketsSlow (pnq_AddRange (PacketNumberQueue False) 2 4) =
     word_of_nat (card {p. pnq_Contains (pnq_AddRange (PacketNumberQueue False) 2 4) p})"
proof -
  have "\<not> use_deque (pnq_AddRange (PacketNumberQueue False) 2 4)"
    "is_Valid (queue_intervals (pnq_AddRange (PacketNumberQueue False) 2 4))"
    by (simp_all add: queue_intervals_def pnq_AddRange_def PacketNumberQueue_def is_Add_correct)
  then show ?thesis
    using PacketNumberQueue_observers by blast
qed

end
