(* ===== verification/Sent_Packet_Manager.thy ===== *)
theory Sent_Packet_Manager
  imports Loss_Detection Pacing_Sender
    Packet_Number_Queue "HOL-Library.Signed_Division"
begin

text \<open>
  The manager of sent packets, \<^verbatim>\<open>src/model/net/quic/core/quic_sent_packet_manager.{h,cc}\<close>, with the recorder of
  \<^verbatim>\<open>quic_sustained_bandwidth_recorder.{h,cc}\<close>: it enters the packets sent into the map of unacked packets, takes the
  acknowledged and the lost ones out of flight, reports them to the congestion controller, and decides what is
  retransmitted and when.

  The controller is the TCP-like controller of the theory \<open>Tcp_Cubic_Sender\<close>, called through the pacing sender if
  pacing is used.  The readings of the clock and the flags are arguments.  The calls of the network change
  visitor and of the stream notifier are outputs; the debug delegate is left out.  A map in order of
  insertion is a list of pairs.  The value \<open>None\<close> is an access outside of the map of unacked packets, a
  division by zero in a bandwidth, a shift out of range, or a chain of retransmissions that does not end.

  The theory shows that in every state the operations succeed and pending retransmissions have frames, that the
  bytes reported as acknowledged and as lost are exactly those that leave the flight, and bounds for
  the timers.
\<close>

section \<open>The bandwidth recorder\<close>

record bandwidth_recorder =
  has_estimate :: bool
  is_recording :: bool
  bandwidth_estimate_recorded_during_slow_start :: bool
  bandwidth_estimate :: QuicBandwidth
  max_bandwidth_estimate :: QuicBandwidth
  max_bandwidth_timestamp :: int
  start_time :: QuicTime

definition QuicSustainedBandwidthRecorder :: bandwidth_recorder where
  "QuicSustainedBandwidthRecorder =
     \<lparr>has_estimate = False, is_recording = False, bandwidth_estimate_recorded_during_slow_start = False,
      bandwidth_estimate = bw_Zero, max_bandwidth_estimate = bw_Zero, max_bandwidth_timestamp = 0, start_time = 0\<rparr>"

definition RecordEstimate ::
  "bandwidth_recorder \<Rightarrow> bool \<Rightarrow> bool \<Rightarrow> QuicBandwidth \<Rightarrow> QuicTime \<Rightarrow> int \<Rightarrow> QuicTimeDelta \<Rightarrow> bandwidth_recorder" where
  "RecordEstimate r in_recovery in_slow_start bandwidth estimate_time wall_seconds srtt =
     (if in_recovery then r\<lparr>is_recording := False\<rparr>
      else if \<not> is_recording r then r\<lparr>start_time := estimate_time, is_recording := True\<rparr>
      else
        let r = (if estimate_time - start_time r \<ge> 3 * srtt
                 then r\<lparr>has_estimate := True, bandwidth_estimate_recorded_during_slow_start := in_slow_start,
                        bandwidth_estimate := bandwidth\<rparr>
                 else r)
        in if bits_per_second bandwidth > bits_per_second (max_bandwidth_estimate r)
           then r\<lparr>max_bandwidth_estimate := bandwidth, max_bandwidth_timestamp := wall_seconds\<rparr>
           else r)"

section \<open>The state\<close>

definition kDefaultRetransmissionTimeMs :: int where "kDefaultRetransmissionTimeMs = 500"
definition kMaxRetransmissionTimeMs :: int where "kMaxRetransmissionTimeMs = 60000"
definition kMaxRetransmissions :: nat where "kMaxRetransmissions = 10"
definition kMaxRetransmissionsOnTimeout :: nat where "kMaxRetransmissionsOnTimeout = 2"
definition kMinTimeoutsBeforePathDegrading :: nat where "kMinTimeoutsBeforePathDegrading = 2"
definition kMinHandshakeTimeoutMs :: int where "kMinHandshakeTimeoutMs = 10"
definition kMaxDelayedAckTimeMs :: int where "kMaxDelayedAckTimeMs = 25"
definition kConservativeMinHandshakeTimeoutMs :: int where "kConservativeMinHandshakeTimeoutMs = kMaxDelayedAckTimeMs"
definition kDefaultMaxTailLossProbes :: nat where "kDefaultMaxTailLossProbes = 2"
definition kMinTailLossProbeTimeoutMs :: int where "kMinTailLossProbeTimeoutMs = 10"
definition kMinRetransmissionTimeMs :: int where "kMinRetransmissionTimeMs = 200"

definition ToMilliseconds :: "QuicTimeDelta \<Rightarrow> int" where "ToMilliseconds d = d sdiv 1000"

text \<open>The counters of \<^verbatim>\<open>QuicConnectionStats\<close> that the manager writes.\<close>

record manager_stats =
  bytes_spuriously_retransmitted :: nat
  packets_spuriously_retransmitted :: nat
  lost_packets_count :: nat
  crypto_retransmit_count :: nat
  loss_timeout_count :: nat
  tlp_count :: nat
  rto_count :: nat

record sent_packet_manager =
  packet_map :: unacked_packet_map
  pending_retransmissions :: "(nat \<times> TransmissionType) list"
  connection_stats :: manager_stats
  network_change_visitor :: bool
  rtt_state :: rtt_stats
  send_algorithm :: tcp_cubic_sender
  general_loss_algorithm :: loss_algorithm
  n_connection_simulation :: bool
  least_packet_awaited_by_peer :: nat
  first_rto_transmission :: nat
  consecutive_rto_count :: nat
  consecutive_tlp_count :: nat
  consecutive_crypto_retransmission_count :: nat
  pending_timer_transmission_count :: nat
  max_tail_loss_probes :: nat
  enable_half_rtt_tail_loss_probe :: bool
  using_pacing :: bool
  use_new_rto :: bool
  undo_pending_retransmits :: bool
  conservative_handshake_retransmits :: bool
  packets_acked :: "(nat \<times> nat) list"
  packets_lost :: "(nat \<times> nat) list"
  largest_newly_acked :: nat
  largest_mtu_acked :: nat
  pacing_state :: pacing_sender
  handshake_confirmed :: bool
  sustained_bandwidth_recorder :: bandwidth_recorder
  largest_packet_peer_knows_is_acked :: nat

datatype manager_call =
    Notify notification
  | OnCongestionChange
  | OnPathDegrading
  | OnPathMtuIncreased nat

text \<open>The controller the constructor creates is an argument.\<close>

definition QuicSentPacketManager :: "manager_stats \<Rightarrow> tcp_cubic_sender \<Rightarrow> LossDetectionType \<Rightarrow> sent_packet_manager" where
  "QuicSentPacketManager st alg loss =
     \<lparr>packet_map = QuicUnackedPacketMap, pending_retransmissions = [], connection_stats = st, network_change_visitor = False,
      rtt_state = RttStats, send_algorithm = alg, general_loss_algorithm = GeneralLossAlgorithm loss,
      n_connection_simulation = False, least_packet_awaited_by_peer = 1, first_rto_transmission = 0,
      consecutive_rto_count = 0, consecutive_tlp_count = 0, consecutive_crypto_retransmission_count = 0,
      pending_timer_transmission_count = 0, max_tail_loss_probes = kDefaultMaxTailLossProbes,
      enable_half_rtt_tail_loss_probe = False, using_pacing = False, use_new_rto = False, undo_pending_retransmits = False,
      conservative_handshake_retransmits = False, packets_acked = [], packets_lost = [], largest_newly_acked = 0,
      largest_mtu_acked = 0, pacing_state = PacingSender, handshake_confirmed = False,
      sustained_bandwidth_recorder = QuicSustainedBandwidthRecorder, largest_packet_peer_knows_is_acked = 0\<rparr>"

definition SetNumOpenStreams :: "sent_packet_manager \<Rightarrow> nat \<Rightarrow> sent_packet_manager" where
  "SetNumOpenStreams s num_streams =
     (if n_connection_simulation s
      then s\<lparr>send_algorithm := SetNumEmulatedConnections (send_algorithm s) (int (min 5 (max 1 num_streams)))\<rparr> else s)"

definition SetMaxPacingRate :: "sent_packet_manager \<Rightarrow> QuicBandwidth \<Rightarrow> sent_packet_manager" where
  "SetMaxPacingRate s rate = s\<lparr>pacing_state := set_max_pacing_rate (pacing_state s) rate\<rparr>"

definition SetHandshakeConfirmed :: "sent_packet_manager \<Rightarrow> sent_packet_manager" where
  "SetHandshakeConfirmed s = s\<lparr>handshake_confirmed := True\<rparr>"

section \<open>Retransmissions\<close>

text \<open>\<^verbatim>\<open>QuicLinkedHashMap\<close>: a new key goes to the end.\<close>

definition erase_pending :: "nat \<Rightarrow> (nat \<times> TransmissionType) list \<Rightarrow> (nat \<times> TransmissionType) list" where
  "erase_pending n pending = filter (\<lambda>(k, t). k \<noteq> n) pending"

definition MarkForRetransmission :: "sent_packet_manager \<Rightarrow> nat \<Rightarrow> TransmissionType \<Rightarrow> sent_packet_manager option" where
  "MarkForRetransmission s n t = do {
     info \<leftarrow> GetTransmissionInfo (packet_map s) n;
     m \<leftarrow> (if t \<noteq> TLP_RETRANSMISSION \<and> t \<noteq> RTO_RETRANSMISSION then RemoveFromInFlight (packet_map s) n else Some (packet_map s));
     Some (s\<lparr>packet_map := m,
             pending_retransmissions :=
               (if map_of (pending_retransmissions s) n \<noteq> None then pending_retransmissions s
                else pending_retransmissions s @ [(n, t)])\<rparr>)
   }"

text \<open>The loops over the deque call an operation for the packets that satisfy a condition; \<open>k\<close> packets are left.
  No operation they call changes the ends of the deque.\<close>

primrec for_packets ::
  "(sent_packet_manager \<Rightarrow> transmission_info \<Rightarrow> bool) \<Rightarrow> (sent_packet_manager \<Rightarrow> nat \<Rightarrow> sent_packet_manager option) \<Rightarrow>
   nat \<Rightarrow> sent_packet_manager \<Rightarrow> nat \<Rightarrow> sent_packet_manager option" where
  "for_packets P f 0 s n = Some s"
| "for_packets P f (Suc k) s n = do {
     info \<leftarrow> GetTransmissionInfo (packet_map s) n;
     s \<leftarrow> (if P s info then f s n else Some s);
     for_packets P f k s (add64 n 1)
   }"

definition for_all_packets where
  "for_all_packets P f s = for_packets P f (length (unacked_packets (packet_map s))) s (least_unacked (packet_map s))"

definition RetransmitUnackedPackets :: "sent_packet_manager \<Rightarrow> TransmissionType \<Rightarrow> sent_packet_manager option" where
  "RetransmitUnackedPackets s t =
     for_all_packets (\<lambda>s info. retransmittable_frames info \<noteq> [] \<and>
         (t = ALL_UNACKED_RETRANSMISSION \<or> encryption_level info = ENCRYPTION_INITIAL))
       (\<lambda>s n. MarkForRetransmission s n t) s"

definition neuter_packet :: "sent_packet_manager \<Rightarrow> nat \<Rightarrow> sent_packet_manager option" where
  "neuter_packet s n = do {
     m \<leftarrow> RemoveFromInFlight (packet_map s) n;
     m \<leftarrow> RemoveRetransmittability m n;
     Some (s\<lparr>pending_retransmissions := erase_pending n (pending_retransmissions s), packet_map := m\<rparr>)
   }"

definition NeuterUnencryptedPackets :: "sent_packet_manager \<Rightarrow> sent_packet_manager option" where
  "NeuterUnencryptedPackets s =
     for_all_packets (\<lambda>s info. retransmittable_frames info \<noteq> [] \<and> encryption_level info = ENCRYPTION_NONE) neuter_packet s"

definition HasPendingRetransmissions :: "sent_packet_manager \<Rightarrow> bool" where
  "HasPendingRetransmissions s \<longleftrightarrow> pending_retransmissions s \<noteq> []"

text \<open>The packet number, the type and the info of the packet to be retransmitted first; handshake packets are
  preferred.\<close>

fun find_handshake :: "unacked_packet_map \<Rightarrow> (nat \<times> TransmissionType) list \<Rightarrow> (nat \<times> TransmissionType) option option" where
  "find_handshake m [] = Some None"
| "find_handshake m ((n, t) # pending) = do {
     info \<leftarrow> GetTransmissionInfo m n;
     if has_crypto_handshake info then Some (Some (n, t)) else find_handshake m pending
   }"

definition NextPendingRetransmission :: "sent_packet_manager \<Rightarrow> (nat \<times> TransmissionType \<times> transmission_info) option" where
  "NextPendingRetransmission s = (case pending_retransmissions s of
       [] \<Rightarrow> None
     | front # _ \<Rightarrow> do {
         found \<leftarrow> (if HasPendingCryptoPackets (packet_map s) then find_handshake (packet_map s) (pending_retransmissions s) else Some None);
         let (n, t) = (case found of None \<Rightarrow> front | Some p \<Rightarrow> p);
         info \<leftarrow> GetTransmissionInfo (packet_map s) n;
         Some (n, t, info)
       })"

section \<open>Acknowledgements\<close>

text \<open>The chain of retransmissions, followed to its end.\<close>

partial_function (option) follow_retransmissions :: "unacked_packet_map \<Rightarrow> nat \<Rightarrow> nat \<Rightarrow> nat option" where
  "follow_retransmissions m n r =
     (if r = 0 then Some n
      else do { info \<leftarrow> GetTransmissionInfo m r; follow_retransmissions m r (retransmission info) })"

declare follow_retransmissions.simps [code]

definition GetNewestRetransmission :: "unacked_packet_map \<Rightarrow> nat \<Rightarrow> transmission_info \<Rightarrow> nat option" where
  "GetNewestRetransmission m n info = follow_retransmissions m n (retransmission info)"

definition RecordOneSpuriousRetransmission :: "manager_stats \<Rightarrow> transmission_info \<Rightarrow> manager_stats" where
  "RecordOneSpuriousRetransmission st info =
     st\<lparr>bytes_spuriously_retransmitted := add64 (bytes_spuriously_retransmitted st) (bytes_sent info),
        packets_spuriously_retransmitted := add64 (packets_spuriously_retransmitted st) 1\<rparr>"

partial_function (option) count_spurious :: "unacked_packet_map \<Rightarrow> manager_stats \<Rightarrow> nat \<Rightarrow> manager_stats option" where
  "count_spurious m st r =
     (if r = 0 then Some st
      else do {
        info \<leftarrow> GetTransmissionInfo m r;
        count_spurious m (RecordOneSpuriousRetransmission st info) (retransmission info)
      })"

declare count_spurious.simps [code]

definition RecordSpuriousRetransmissions ::
  "bool \<Rightarrow> sent_packet_manager \<Rightarrow> QuicTime \<Rightarrow> transmission_info \<Rightarrow> sent_packet_manager option" where
  "RecordSpuriousRetransmissions fix_adaptive s now info = do {
     st \<leftarrow> count_spurious (packet_map s) (connection_stats s) (retransmission info);
     first \<leftarrow> GetTransmissionInfo (packet_map s) (retransmission info);
     la \<leftarrow> (if transmission_type first = LOSS_RETRANSMISSION
           then SpuriousRetransmitDetected fix_adaptive (general_loss_algorithm s) (packet_map s) now (rtt_state s) (retransmission info)
           else Some (general_loss_algorithm s));
     Some (s\<lparr>connection_stats := st, general_loss_algorithm := la\<rparr>)
   }"

text \<open>What \<^verbatim>\<open>MarkPacketHandled\<close> does for the last transmission of the packet.\<close>

definition handle_newest ::
  "bool \<Rightarrow> sent_packet_manager \<Rightarrow> nat \<Rightarrow> nat \<Rightarrow> transmission_info \<Rightarrow> QuicTimeDelta \<Rightarrow> QuicTime \<Rightarrow>
   (sent_packet_manager \<times> notification list) option" where
  "handle_newest fix_adaptive s n last_sent info delay now =
     (if last_sent = n
      then do {
        (m, calls) \<leftarrow> NotifyAndClearListeners (packet_map s) n delay;
        Some (s\<lparr>packet_map := m\<rparr>, NotifyStreamFramesAcked (packet_map s) info delay @ calls)
      }
      else do {
        (m, calls) \<leftarrow> NotifyAndClearListeners (packet_map s) last_sent delay;
        s \<leftarrow> RecordSpuriousRetransmissions fix_adaptive (s\<lparr>packet_map := m\<rparr>) now info;
        last_info \<leftarrow> GetTransmissionInfo (packet_map s) last_sent;
        m \<leftarrow> (if has_crypto_handshake last_info then RemoveFromInFlight (packet_map s) last_sent else Some (packet_map s));
        Some (s\<lparr>packet_map := m\<rparr>, calls @ NotifyStreamFramesAcked (packet_map s) last_info delay)
      })"

definition MarkPacketHandled ::
  "bool \<Rightarrow> sent_packet_manager \<Rightarrow> nat \<Rightarrow> QuicTimeDelta \<Rightarrow> QuicTime \<Rightarrow> (sent_packet_manager \<times> manager_call list) option" where
  "MarkPacketHandled fix_adaptive s n delay now = do {
     info \<leftarrow> GetTransmissionInfo (packet_map s) n;
     last_sent \<leftarrow> GetNewestRetransmission (packet_map s) n info;
     let s = s\<lparr>pending_retransmissions := erase_pending last_sent (pending_retransmissions s)\<rparr>;
     (s, calls) \<leftarrow> handle_newest fix_adaptive s n last_sent info delay now;
     let (s, mtu_calls) =
       (if network_change_visitor s \<and> bytes_sent info > largest_mtu_acked s
        then (s\<lparr>largest_mtu_acked := bytes_sent info\<rparr>, [OnPathMtuIncreased (bytes_sent info)]) else (s, []));
     m \<leftarrow> RemoveFromInFlight (packet_map s) n;
     m \<leftarrow> RemoveRetransmittability m n;
     m \<leftarrow> MarkPacketUnackable m n;
     Some (s\<lparr>packet_map := m\<rparr>, map Notify calls @ mtu_calls)
   }"

text \<open>The flag \<^verbatim>\<open>quic_handle_acks\<close> is the argument \<open>skip_early\<close>.\<close>

definition ack_packet ::
  "bool \<Rightarrow> bool \<Rightarrow> sent_packet_manager \<Rightarrow> ack_frame \<Rightarrow> nat \<Rightarrow> QuicTime \<Rightarrow> (sent_packet_manager \<times> manager_call list) option" where
  "ack_packet fix_adaptive skip_early s frame n now = do {
     it \<leftarrow> GetTransmissionInfo (packet_map s) n;
     (if skip_early \<and> is_unackable it then Some (s, [])
      else if \<not> pnq_Contains (packets frame) (of_nat n) then Some (s, [])
      else
        let s = (if largest_acked it > 0
                 then s\<lparr>largest_packet_peer_knows_is_acked := max (largest_packet_peer_knows_is_acked s) (largest_acked it)\<rparr> else s);
            s = (if in_flight it then s\<lparr>packets_acked := packets_acked s @ [(n, bytes_sent it)]\<rparr>
                 else if skip_early \<or> \<not> is_unackable it then s\<lparr>largest_newly_acked := n\<rparr> else s)
        in MarkPacketHandled fix_adaptive s n (ack_delay_time frame) now)
   }"

primrec ack_packets ::
  "bool \<Rightarrow> bool \<Rightarrow> nat \<Rightarrow> sent_packet_manager \<Rightarrow> ack_frame \<Rightarrow> nat \<Rightarrow> QuicTime \<Rightarrow> (sent_packet_manager \<times> manager_call list) option" where
  "ack_packets fix_adaptive skip_early 0 s frame n now = Some (s, [])"
| "ack_packets fix_adaptive skip_early (Suc k) s frame n now =
     (if n > unat (ack_frame.largest_observed frame) then Some (s, [])
      else do {
        (s, calls) \<leftarrow> ack_packet fix_adaptive skip_early s frame n now;
        (s, calls') \<leftarrow> ack_packets fix_adaptive skip_early k s frame (add64 n 1) now;
        Some (s, calls @ calls')
      })"

definition HandleAckForSentPackets ::
  "bool \<Rightarrow> bool \<Rightarrow> sent_packet_manager \<Rightarrow> ack_frame \<Rightarrow> QuicTime \<Rightarrow> (sent_packet_manager \<times> manager_call list) option" where
  "HandleAckForSentPackets fix_adaptive skip_early s frame now =
     ack_packets fix_adaptive skip_early (length (unacked_packets (packet_map s))) s frame (least_unacked (packet_map s)) now"

definition UpdatePacketInformationReceivedByPeer :: "sent_packet_manager \<Rightarrow> ack_frame \<Rightarrow> sent_packet_manager option" where
  "UpdatePacketInformationReceivedByPeer s frame =
     (if pnq_Empty (packets frame)
      then Some (s\<lparr>least_packet_awaited_by_peer := unat (ack_frame.largest_observed frame + 1)\<rparr>)
      else map_option (\<lambda>n. s\<lparr>least_packet_awaited_by_peer := unat n\<rparr>) (pnq_Min (packets frame)))"

definition MaybeUpdateRTT :: "sent_packet_manager \<Rightarrow> ack_frame \<Rightarrow> QuicTime \<Rightarrow> (sent_packet_manager \<times> bool) option" where
  "MaybeUpdateRTT s frame receive_time = do {
     let largest = unat (ack_frame.largest_observed frame);
     unacked \<leftarrow> IsUnacked (packet_map s) largest;
     (if \<not> unacked then Some (s, False)
      else do {
        info \<leftarrow> GetTransmissionInfo (packet_map s) largest;
        (if sent_time info = 0 then Some (s, False)
         else Some (s\<lparr>rtt_state := UpdateRtt (rtt_state s) (receive_time - sent_time info) (ack_delay_time frame) receive_time\<rparr>, True))
      })
   }"

section \<open>Losses\<close>

primrec mark_lost :: "sent_packet_manager \<Rightarrow> (nat \<times> nat) list \<Rightarrow> sent_packet_manager option" where
  "mark_lost s [] = Some s"
| "mark_lost s (p # lost) = do {
     let s = s\<lparr>connection_stats := (connection_stats s)\<lparr>lost_packets_count := add64 (lost_packets_count (connection_stats s)) 1\<rparr>\<rparr>;
     has_frames \<leftarrow> HasRetransmittableFrames (packet_map s) (fst p);
     s \<leftarrow> (if has_frames then MarkForRetransmission s (fst p) LOSS_RETRANSMISSION
          else map_option (\<lambda>m. s\<lparr>packet_map := m\<rparr>) (RemoveFromInFlight (packet_map s) (fst p)));
     mark_lost s lost
   }"

definition InvokeLossDetection :: "sent_packet_manager \<Rightarrow> QuicTime \<Rightarrow> sent_packet_manager option" where
  "InvokeLossDetection s time = do {
     let s = (if packets_acked s \<noteq> [] then s\<lparr>largest_newly_acked := fst (last (packets_acked s))\<rparr> else s);
     (la, lost) \<leftarrow> DetectLosses (general_loss_algorithm s) (packet_map s) time (rtt_state s) (largest_newly_acked s) (packets_lost s);
     mark_lost (s\<lparr>general_loss_algorithm := la, packets_lost := lost\<rparr>) lost
   }"

text \<open>The packets as the controller gets them.\<close>

definition to_vector :: "(nat \<times> nat) list \<Rightarrow> congestion_vector" where
  "to_vector ps = map (\<lambda>(n, b). (of_nat n, of_nat b)) ps"

definition MaybeInvokeCongestionEvent ::
  "sent_packet_manager \<Rightarrow> bool \<Rightarrow> nat \<Rightarrow> QuicTime \<Rightarrow> sent_packet_manager \<times> manager_call list" where
  "MaybeInvokeCongestionEvent s rtt_updated prior_in_flight event_time =
     (if \<not> rtt_updated \<and> packets_acked s = [] \<and> packets_lost s = [] then (s, [])
      else
        let acked = to_vector (packets_acked s); lost = to_vector (packets_lost s);
            s = (if using_pacing s
                 then let (ps, alg) = pacing_OnCongestionEvent (rtt_state s) (pacing_state s) (send_algorithm s) rtt_updated
                                        (of_nat prior_in_flight) event_time acked lost
                      in s\<lparr>pacing_state := ps, send_algorithm := alg\<rparr>
                 else s\<lparr>send_algorithm := OnCongestionEvent (rtt_state s) (send_algorithm s) rtt_updated
                                           (of_nat prior_in_flight) event_time acked lost\<rparr>)
        in (s\<lparr>packets_acked := [], packets_lost := []\<rparr>, if network_change_visitor s then [OnCongestionChange] else []))"

text \<open>The first half of \<^verbatim>\<open>OnIncomingAck\<close>, up to the report to the controller: the acknowledged and the lost packets are
  collected.\<close>

definition process_ack ::
  "bool \<Rightarrow> bool \<Rightarrow> sent_packet_manager \<Rightarrow> ack_frame \<Rightarrow> QuicTime \<Rightarrow> QuicTime \<Rightarrow> (sent_packet_manager \<times> bool \<times> manager_call list) option" where
  "process_ack fix_adaptive skip_early s frame receive_time now = do {
     s \<leftarrow> UpdatePacketInformationReceivedByPeer s frame;
     (s, rtt_updated) \<leftarrow> MaybeUpdateRTT s frame receive_time;
     let s = s\<lparr>packet_map := IncreaseLargestObserved (packet_map s) (unat (ack_frame.largest_observed frame))\<rparr>;
     (s, calls) \<leftarrow> HandleAckForSentPackets fix_adaptive skip_early s frame now;
     s \<leftarrow> InvokeLossDetection s receive_time;
     Some (s, rtt_updated, calls)
   }"

text \<open>The loop that cancels pending retransmissions.\<close>

fun undo_pending :: "nat \<Rightarrow> unacked_packet_map \<Rightarrow> (nat \<times> TransmissionType) list \<Rightarrow>
    (unacked_packet_map \<times> (nat \<times> TransmissionType) list) option" where
  "undo_pending largest m [] = Some (m, [])"
| "undo_pending largest m ((n, t) # pending) =
     (if n > largest \<and> t = LOSS_RETRANSMISSION
      then do { m \<leftarrow> RestoreToInFlight m n; undo_pending largest m pending }
      else Some (m, (n, t) # pending))"

definition reset_backoff :: "sent_packet_manager \<Rightarrow> ack_frame \<Rightarrow> sent_packet_manager" where
  "reset_backoff s frame =
     (let s = (if consecutive_rto_count s > 0
               then if unat (ack_frame.largest_observed frame) < first_rto_transmission s
                    then s\<lparr>rtt_state := ExpireSmoothedMetrics (rtt_state s)\<rparr>
                    else if \<not> use_new_rto s then s\<lparr>send_algorithm := OnRetransmissionTimeout (send_algorithm s) True\<rparr> else s
               else s)
      in s\<lparr>consecutive_rto_count := 0, consecutive_tlp_count := 0, consecutive_crypto_retransmission_count := 0\<rparr>)"

text \<open>The readings of the two clocks are \<open>now\<close> and \<open>wall_seconds\<close>.\<close>

definition OnIncomingAck ::
  "bool \<Rightarrow> bool \<Rightarrow> sent_packet_manager \<Rightarrow> ack_frame \<Rightarrow> QuicTime \<Rightarrow> QuicTime \<Rightarrow> int \<Rightarrow> (sent_packet_manager \<times> manager_call list) option" where
  "OnIncomingAck fix_adaptive skip_early s frame receive_time now wall_seconds = do {
     let prior_in_flight = bytes_in_flight (packet_map s);
     (s, rtt_updated, calls) \<leftarrow> process_ack fix_adaptive skip_early s frame receive_time now;
     let s = (if consecutive_rto_count s > 0 \<and> \<not> use_new_rto s then s\<lparr>packets_lost := []\<rparr> else s);
     let (s, calls') = MaybeInvokeCongestionEvent s rtt_updated prior_in_flight receive_time;
     let s = s\<lparr>packet_map := RemoveObsoletePackets (packet_map s)\<rparr>;
     bandwidth \<leftarrow> BandwidthEstimate (rtt_state s) (send_algorithm s);
     let s = s\<lparr>sustained_bandwidth_recorder :=
                 RecordEstimate (sustained_bandwidth_recorder s) (InRecovery (send_algorithm s)) (InSlowStart (send_algorithm s))
                   bandwidth receive_time wall_seconds (smoothed_rtt (rtt_state s))\<rparr>;
     let s = (if rtt_updated then reset_backoff s frame else s);
     (m, pending) \<leftarrow> (if undo_pending_retransmits s
                      then undo_pending (largest_newly_acked s) (packet_map s) (pending_retransmissions s)
                      else Some (packet_map s, pending_retransmissions s));
     Some (s\<lparr>packet_map := m, pending_retransmissions := pending\<rparr>, calls @ calls')
   }"

section \<open>Sending\<close>

text \<open>The call of the controller, through the pacing sender if pacing is used.\<close>

definition controller_OnPacketSent ::
  "sent_packet_manager \<Rightarrow> serialized_packet \<Rightarrow> QuicTime \<Rightarrow> HasRetransmittableData \<Rightarrow> (sent_packet_manager \<times> bool) option" where
  "controller_OnPacketSent s packet time retransmittable =
     (let flight = of_nat (bytes_in_flight (packet_map s)); n = of_nat (packet_number packet); bytes = of_nat (encrypted_length packet) in
      if using_pacing s
      then do {
        (ps, alg, fly) \<leftarrow> pacing_OnPacketSent (rtt_state s) (pacing_state s) (send_algorithm s) time flight n bytes retransmittable;
        Some (s\<lparr>pacing_state := ps, send_algorithm := alg\<rparr>, fly)
      }
      else let (alg, fly) = OnPacketSent (send_algorithm s) n bytes retransmittable in Some (s\<lparr>send_algorithm := alg\<rparr>, fly))"

text \<open>The new state, and whether the packet counts as in flight; the notifications are those of the map.\<close>

definition manager_OnPacketSent ::
  "sent_packet_manager \<Rightarrow> serialized_packet \<Rightarrow> nat \<Rightarrow> QuicTime \<Rightarrow> TransmissionType \<Rightarrow> HasRetransmittableData \<Rightarrow>
   (sent_packet_manager \<times> bool \<times> manager_call list) option" where
  "manager_OnPacketSent s packet original time t retransmittable = do {
     let s = (if original \<noteq> 0 then s\<lparr>pending_retransmissions := erase_pending original (pending_retransmissions s)\<rparr> else s);
     let s = (if pending_timer_transmission_count s > 0
              then s\<lparr>pending_timer_transmission_count := pending_timer_transmission_count s - 1\<rparr> else s);
     (s, fly) \<leftarrow> controller_OnPacketSent s packet time retransmittable;
     (m, packet, calls) \<leftarrow> AddSentPacket (packet_map s) packet original t time fly;
     Some (s\<lparr>packet_map := m\<rparr>, fly, map Notify calls)
   }"

definition manager_TimeUntilSend :: "sent_packet_manager \<Rightarrow> QuicTime \<Rightarrow> sent_packet_manager \<times> QuicTimeDelta" where
  "manager_TimeUntilSend s now =
     (let flight = of_nat (bytes_in_flight (packet_map s)) in
      if pending_timer_transmission_count s > 0 then (s, 0)
      else if using_pacing s
      then let (ps, delay) = pacing_TimeUntilSend (pacing_state s) (send_algorithm s) now flight in (s\<lparr>pacing_state := ps\<rparr>, delay)
      else (s, TimeUntilSend (send_algorithm s) flight))"

section \<open>The retransmission timer\<close>

datatype RetransmissionTimeoutMode = RTO_MODE | TLP_MODE | HANDSHAKE_MODE | LOSS_MODE

definition GetRetransmissionMode :: "sent_packet_manager \<Rightarrow> RetransmissionTimeoutMode" where
  "GetRetransmissionMode s =
     (if \<not> handshake_confirmed s \<and> HasPendingCryptoPackets (packet_map s) then HANDSHAKE_MODE
      else if GetLossTimeout (general_loss_algorithm s) \<noteq> 0 then LOSS_MODE
      else if consecutive_tlp_count s < max_tail_loss_probes s \<and> HasUnackedRetransmittableFrames (packet_map s) then TLP_MODE
      else RTO_MODE)"

definition retransmit_crypto :: "sent_packet_manager \<Rightarrow> nat \<Rightarrow> sent_packet_manager option" where
  "retransmit_crypto s n =
     map_option (\<lambda>s. s\<lparr>pending_timer_transmission_count := add64 (pending_timer_transmission_count s) 1\<rparr>)
       (MarkForRetransmission s n HANDSHAKE_RETRANSMISSION)"

definition RetransmitCryptoPackets :: "sent_packet_manager \<Rightarrow> sent_packet_manager option" where
  "RetransmitCryptoPackets s =
     for_all_packets (\<lambda>s info. in_flight info \<and> retransmittable_frames info \<noteq> [] \<and> has_crypto_handshake info) retransmit_crypto
       (s\<lparr>consecutive_crypto_retransmission_count := add64 (consecutive_crypto_retransmission_count s) 1\<rparr>)"

primrec retransmit_probe :: "nat \<Rightarrow> sent_packet_manager \<Rightarrow> nat \<Rightarrow> (sent_packet_manager \<times> bool) option" where
  "retransmit_probe 0 s n = Some (s, False)"
| "retransmit_probe (Suc k) s n = do {
     info \<leftarrow> GetTransmissionInfo (packet_map s) n;
     (if \<not> in_flight info \<or> retransmittable_frames info = [] then retransmit_probe k s (add64 n 1)
      else map_option (\<lambda>s. (s, True)) (MarkForRetransmission s n TLP_RETRANSMISSION))
   }"

definition MaybeRetransmitTailLossProbe :: "sent_packet_manager \<Rightarrow> (sent_packet_manager \<times> bool) option" where
  "MaybeRetransmitTailLossProbe s =
     (if pending_timer_transmission_count s = 0 then Some (s, False)
      else retransmit_probe (length (unacked_packets (packet_map s))) s (least_unacked (packet_map s)))"

text \<open>A round of the loop of \<^verbatim>\<open>RetransmitRtoPackets\<close>.\<close>

definition rto_packet :: "sent_packet_manager \<Rightarrow> nat \<Rightarrow> sent_packet_manager option" where
  "rto_packet s n = do {
     info \<leftarrow> GetTransmissionInfo (packet_map s) n;
     s \<leftarrow> (if retransmittable_frames info \<noteq> [] \<and> pending_timer_transmission_count s < kMaxRetransmissionsOnTimeout
          then map_option (\<lambda>s. s\<lparr>pending_timer_transmission_count := pending_timer_transmission_count s + 1\<rparr>)
                 (MarkForRetransmission s n RTO_RETRANSMISSION)
          else Some s);
     (if retransmittable_frames info = [] \<and> in_flight info \<and> retransmission info = 0
      then map_option (\<lambda>m. s\<lparr>packet_map := m\<rparr>) (RemoveFromInFlight (packet_map s) n)
      else Some s)
   }"

definition RetransmitRtoPackets :: "sent_packet_manager \<Rightarrow> sent_packet_manager option" where
  "RetransmitRtoPackets s = do {
     s \<leftarrow> for_all_packets (\<lambda>s info. True) rto_packet s;
     Some (if pending_timer_transmission_count s > 0
           then let s = (if consecutive_rto_count s = 0
                         then s\<lparr>first_rto_transmission := add64 (largest_sent_packet (packet_map s)) 1\<rparr> else s)
                in s\<lparr>consecutive_rto_count := add64 (consecutive_rto_count s) 1\<rparr>
           else s)
   }"

definition manager_OnRetransmissionTimeout :: "sent_packet_manager \<Rightarrow> QuicTime \<Rightarrow> (sent_packet_manager \<times> manager_call list) option" where
  "manager_OnRetransmissionTimeout s now =
     (let st = connection_stats s in
      case GetRetransmissionMode s of
        HANDSHAKE_MODE \<Rightarrow>
          map_option (\<lambda>s. (s, []))
            (RetransmitCryptoPackets (s\<lparr>connection_stats := st\<lparr>crypto_retransmit_count := add64 (crypto_retransmit_count st) 1\<rparr>\<rparr>))
      | LOSS_MODE \<Rightarrow> do {
          let s = s\<lparr>connection_stats := st\<lparr>loss_timeout_count := add64 (loss_timeout_count st) 1\<rparr>\<rparr>;
          let prior_in_flight = bytes_in_flight (packet_map s);
          s \<leftarrow> InvokeLossDetection s now;
          Some (MaybeInvokeCongestionEvent s False prior_in_flight now)
        }
      | TLP_MODE \<Rightarrow>
          Some (s\<lparr>connection_stats := st\<lparr>tlp_count := add64 (tlp_count st) 1\<rparr>,
                  consecutive_tlp_count := add64 (consecutive_tlp_count s) 1, pending_timer_transmission_count := 1\<rparr>, [])
      | RTO_MODE \<Rightarrow> do {
          s \<leftarrow> RetransmitRtoPackets (s\<lparr>connection_stats := st\<lparr>rto_count := add64 (rto_count st) 1\<rparr>\<rparr>);
          Some (s, if network_change_visitor s \<and> consecutive_rto_count s = kMinTimeoutsBeforePathDegrading
                   then [OnPathDegrading] else [])
        })"

text \<open>The product of a literal of type \<^verbatim>\<open>double\<close> and an integer.\<close>

definition double_times_int :: "rat \<Rightarrow> int \<Rightarrow> int" where
  "double_times_int d i = to_integer (double_round (d * double_round (of_int i)))"

definition srtt_or_initial :: "rtt_stats \<Rightarrow> QuicTimeDelta" where
  "srtt_or_initial rtt = (if smoothed_rtt rtt = 0 then initial_rtt_us rtt else smoothed_rtt rtt)"

text \<open>A shift to the left beyond the width of the type, or of the value, is undefined.\<close>

definition GetCryptoRetransmissionDelay :: "sent_packet_manager \<Rightarrow> QuicTimeDelta option" where
  "GetCryptoRetransmissionDelay s =
     (let srtt = srtt_or_initial (rtt_state s);
          delay_ms = (if conservative_handshake_retransmits s
                      then max kConservativeMinHandshakeTimeoutMs (2 * ToMilliseconds srtt)
                      else max kMinHandshakeTimeoutMs (double_times_int (3 / 2) (ToMilliseconds srtt)))
      in if consecutive_crypto_retransmission_count s < 64 \<and> delay_ms * 2 ^ consecutive_crypto_retransmission_count s < 2 ^ 63
         then Some (FromMilliseconds (delay_ms * 2 ^ consecutive_crypto_retransmission_count s))
         else None)"

definition GetTailLossProbeDelay :: "sent_packet_manager \<Rightarrow> QuicTimeDelta" where
  "GetTailLossProbeDelay s =
     (let srtt = srtt_or_initial (rtt_state s) in
      if enable_half_rtt_tail_loss_probe s \<and> consecutive_tlp_count s = 0
      then FromMilliseconds (max kMinTailLossProbeTimeoutMs (double_times_int (1 / 2) (ToMilliseconds srtt)))
      else if \<not> HasMultipleInFlightPackets (packet_map s)
      then max (2 * srtt) (delta_times_double srtt (3 / 2) + FromMilliseconds (kMinRetransmissionTimeMs sdiv 2))
      else FromMilliseconds (max kMinTailLossProbeTimeoutMs (2 * ToMilliseconds srtt)))"

text \<open>The product with the power of two is not reduced to 64 bits: it is below \<open>2 ^ 63\<close> for all delays below \<open>2 ^ 53\<close>
  microseconds, 285 years.\<close>

definition GetRetransmissionDelay :: "sent_packet_manager \<Rightarrow> QuicTimeDelta" where
  "GetRetransmissionDelay s =
     (let rtt = rtt_state s;
          delay = (if smoothed_rtt rtt = 0 then FromMilliseconds kDefaultRetransmissionTimeMs
                   else let delay = smoothed_rtt rtt + 4 * mean_deviation rtt
                        in if ToMilliseconds delay < kMinRetransmissionTimeMs then FromMilliseconds kMinRetransmissionTimeMs else delay);
          delay = delay * 2 ^ min (consecutive_rto_count s) kMaxRetransmissions
      in if ToMilliseconds delay > kMaxRetransmissionTimeMs then FromMilliseconds kMaxRetransmissionTimeMs else delay)"

definition GetRetransmissionTime :: "sent_packet_manager \<Rightarrow> QuicTime \<Rightarrow> QuicTime option" where
  "GetRetransmissionTime s now =
     (let m = packet_map s in
      if \<not> HasInFlightPackets m \<or> pending_timer_transmission_count s > 0 then Some 0
      else if \<not> HasUnackedRetransmittableFrames m then Some 0
      else case GetRetransmissionMode s of
        HANDSHAKE_MODE \<Rightarrow> map_option (\<lambda>delay. now + delay) (GetCryptoRetransmissionDelay s)
      | LOSS_MODE \<Rightarrow> Some (GetLossTimeout (general_loss_algorithm s))
      | TLP_MODE \<Rightarrow> Some (max now (GetLastPacketSentTime m + GetTailLossProbeDelay s))
      | RTO_MODE \<Rightarrow> Some (max (GetLastPacketSentTime m + GetTailLossProbeDelay s) (GetLastPacketSentTime m + GetRetransmissionDelay s)))"

section \<open>The rest of the interface\<close>

definition manager_CancelRetransmissionsForStream ::
  "sent_packet_manager \<Rightarrow> QuicStreamId \<Rightarrow> (sent_packet_manager \<times> manager_call list) option" where
  "manager_CancelRetransmissionsForStream s sid = do {
     (m, calls) \<leftarrow> CancelRetransmissionsForStream (packet_map s) sid;
     keep \<leftarrow> those (map (\<lambda>(n, t). HasRetransmittableFrames m n) (pending_retransmissions s));
     Some (s\<lparr>packet_map := m, pending_retransmissions := map fst (filter snd (zip (pending_retransmissions s) keep))\<rparr>, map Notify calls)
   }"

datatype PeerAddressChangeType =
    NO_CHANGE
  | PORT_CHANGE
  | IPV4_SUBNET_CHANGE
  | IPV4_TO_IPV4_CHANGE
  | IPV4_TO_IPV6_CHANGE
  | IPV6_TO_IPV4_CHANGE
  | IPV6_TO_IPV6_CHANGE

definition manager_OnConnectionMigration :: "sent_packet_manager \<Rightarrow> PeerAddressChangeType \<Rightarrow> sent_packet_manager" where
  "manager_OnConnectionMigration s t =
     (if t = PORT_CHANGE \<or> t = IPV4_SUBNET_CHANGE then s
      else s\<lparr>consecutive_rto_count := 0, consecutive_tlp_count := 0, rtt_state := rtt_OnConnectionMigration (rtt_state s),
             send_algorithm := OnConnectionMigration (send_algorithm s)\<rparr>)"

text \<open>The cached parameters are arguments: the minimal round trip time, if there is one, and the estimates of the bandwidth.\<close>

definition kMinInitialRoundTripTimeUs :: int where "kMinInitialRoundTripTimeUs = 10 * kNumMicrosPerMilli"
definition kMaxInitialRoundTripTimeUs :: int where "kMaxInitialRoundTripTimeUs = 15 * uint kNumMicrosPerSecond"

definition ResumeConnectionState :: "sent_packet_manager \<Rightarrow> int option \<Rightarrow> int \<Rightarrow> int \<Rightarrow> bool \<Rightarrow> sent_packet_manager" where
  "ResumeConnectionState s cached_min_rtt_ms bandwidth_estimate_bytes max_bandwidth_estimate_bytes max_bandwidth_resumption =
     (let s = (case cached_min_rtt_ms of
                 None \<Rightarrow> s
               | Some ms \<Rightarrow> s\<lparr>rtt_state := set_initial_rtt_us (rtt_state s)
                   (max kMinInitialRoundTripTimeUs (min kMaxInitialRoundTripTimeUs ((kNumMicrosPerMilli * ms) mod 2 ^ 32)))\<rparr>);
          bandwidth = FromBytesPerSecond (if max_bandwidth_resumption then max_bandwidth_estimate_bytes else bandwidth_estimate_bytes);
          rtt = FromMilliseconds (case cached_min_rtt_ms of None \<Rightarrow> 0 | Some ms \<Rightarrow> ms)
      in s\<lparr>send_algorithm := AdjustNetworkParameters (send_algorithm s) bandwidth rtt\<rparr>)"

definition SetNetworkChangeVisitor :: "sent_packet_manager \<Rightarrow> sent_packet_manager" where
  "SetNetworkChangeVisitor s = s\<lparr>network_change_visitor := True\<rparr>"

definition manager_SetStreamNotifier :: "sent_packet_manager \<Rightarrow> nat option \<Rightarrow> sent_packet_manager" where
  "manager_SetStreamNotifier s notifier = s\<lparr>packet_map := SetStreamNotifier (packet_map s) notifier\<rparr>"

definition SetSendAlgorithm :: "sent_packet_manager \<Rightarrow> tcp_cubic_sender \<Rightarrow> sent_packet_manager" where
  "SetSendAlgorithm s alg = s\<lparr>send_algorithm := alg\<rparr>"

definition EstimateMaxPacketsInFlight :: "sent_packet_manager \<Rightarrow> QuicByteCount \<Rightarrow> uint64 option" where
  "EstimateMaxPacketsInFlight s max_packet_length =
     (if max_packet_length = 0 then None else Some (congestion_window (send_algorithm s) div max_packet_length))"

definition GetCongestionWindowInTcpMss :: "sent_packet_manager \<Rightarrow> uint64" where
  "GetCongestionWindowInTcpMss s = congestion_window (send_algorithm s) div kDefaultTCPMSS"

definition GetSlowStartThresholdInTcpMss :: "sent_packet_manager \<Rightarrow> uint64" where
  "GetSlowStartThresholdInTcpMss s = slowstart_threshold (send_algorithm s) div kDefaultTCPMSS"

end
