(* ===== verification/Manager_Invariant.thy ===== *)
theory Manager_Invariant
  imports Sent_Packet_Manager
begin

text \<open>
  The invariant of the manager of sent packets, \<^verbatim>\<open>src/model/net/quic/core/quic_sent_packet_manager.cc\<close>, as modelled in the
  theory \<open>Sent_Packet_Manager\<close>.

  The relation \<open>evolves\<close> says which packets leave the flight and which lose their frames when the map of
  unacked packets changes; each operation on the map is an instance, and the loops of the manager compose
  them.  The theory shows that the operations of the manager succeed and keep the invariant in all reachable
  states, what is reported of an acknowledgement, and what a retransmission timeout does.
\<close>

section \<open>Changes of the map\<close>

text \<open>The packets in flight, the sizes, and the packets with handshake data.\<close>

definition flying :: "unacked_packet_map \<Rightarrow> nat set" where
  "flying m = {n. \<exists>x. info_at m n = Some x \<and> in_flight x}"

definition size_of :: "unacked_packet_map \<Rightarrow> nat \<Rightarrow> nat" where
  "size_of m n = (case info_at m n of None \<Rightarrow> 0 | Some x \<Rightarrow> bytes_sent x)"

definition handshakes :: "unacked_packet_map \<Rightarrow> nat set" where
  "handshakes m = {n. \<exists>x. info_at m n = Some x \<and> has_crypto_handshake x}"

lemma info_tracked: "unacked_inv m \<Longrightarrow> info_at m n = Some x \<Longrightarrow> tracked m n"
  by (auto simp: unacked_inv_def map_inv_def info_at_def tracked_def split: if_splits)

lemma frames_tracked: "unacked_inv m \<Longrightarrow> frames_at (info_at m) n \<noteq> [] \<Longrightarrow> tracked m n"
  by (auto simp: frames_at_def split: option.splits intro: info_tracked)

lemma flying_tracked: "unacked_inv m \<Longrightarrow> n \<in> flying m \<Longrightarrow> tracked m n"
  by (auto simp: flying_def intro: info_tracked)

lemma flying_finite: "unacked_inv m \<Longrightarrow> finite (flying m)"
  by (rule finite_subset [of _ "{..largest_sent_packet m}"]) (auto simp: tracked_def dest: flying_tracked)

lemma flying_bytes: "unacked_inv m \<Longrightarrow> bytes_in_flight m = (\<Sum>n\<in>flying m. size_of m n)"
proof -
  assume inv: "unacked_inv m"
  have "flight_inv (info_at m) (\<lambda>n. map_option bytes_sent (info_at m n)) (flying m)" by (auto simp: flight_inv_def flying_def)
  then have "bytes_in_flight m = (\<Sum>n\<in>flying m. the (map_option bytes_sent (info_at m n)))" by (rule flight_bytes [OF inv])
  also have "\<dots> = (\<Sum>n\<in>flying m. size_of m n)" by (rule sum.cong) (auto simp: flying_def size_of_def)
  finally show ?thesis .
qed

text \<open>The packets \<open>D\<close> leave the flight, and those of \<open>F\<close> lose their frames.\<close>

definition evolves :: "nat set \<Rightarrow> nat set \<Rightarrow> unacked_packet_map \<Rightarrow> unacked_packet_map \<Rightarrow> bool" where
  "evolves D F m m' \<longleftrightarrow> unacked_inv m' \<and> observed_same m m' \<and> least_unacked m' = least_unacked m \<and>
     size_of m' = size_of m \<and> D \<subseteq> flying m \<and> flying m' = flying m - D \<and> handshakes m' \<subseteq> handshakes m \<and>
     frames_at (info_at m') = (\<lambda>n. if n \<in> F then [] else frames_at (info_at m) n)"

lemma evolves_refl: "unacked_inv m \<Longrightarrow> evolves {} {} m m"
  by (simp add: evolves_def observed_same_def)

lemma evolves_trans: "evolves D F m m' \<Longrightarrow> evolves D' F' m' m'' \<Longrightarrow> evolves (D \<union> D') (F \<union> F') m m''"
  unfolding evolves_def observed_same_def by (auto simp: fun_eq_iff)

lemma evolves_tracked: "evolves D F m m' \<Longrightarrow> tracked m' n = tracked m n"
  by (simp add: evolves_def tracked_def observed_same_def)

lemma evolves_inv: "evolves D F m m' \<Longrightarrow> unacked_inv m'"
  by (simp add: evolves_def)

lemma evolves_bytes:
  assumes "unacked_inv m" "evolves D F m m'"
  shows "bytes_in_flight m = bytes_in_flight m' + (\<Sum>n\<in>D. size_of m n)"
proof -
  have e: "unacked_inv m'" "D \<subseteq> flying m" "flying m' = flying m - D" "size_of m' = size_of m"
    using assms(2) by (auto simp: evolves_def)
  have "(\<Sum>n\<in>flying m. size_of m n) = (\<Sum>n\<in>flying m - D. size_of m n) + (\<Sum>n\<in>D. size_of m n)"
    by (rule sum.subset_diff [OF e(2) flying_finite [OF assms(1)]])
  then show ?thesis using flying_bytes [OF assms(1)] flying_bytes [OF e(1)] e(3,4) by simp
qed

lemma unacked_inv_dom:
  assumes "unacked_inv m" "unacked_inv m'" "observed_same m m'" "least_unacked m' = least_unacked m"
  shows "dom (info_at m') = dom (info_at m)"
  using info_at_range [OF assms(1) [unfolded unacked_inv_def]] info_at_range [OF assms(2) [unfolded unacked_inv_def]] assms(3,4)
  by (simp add: observed_same_def)

lemma keeps_evolves:
  assumes "unacked_inv m" "unacked_inv m'" "observed_same m m'" "least_unacked m' = least_unacked m" "keeps (info_at m) (info_at m')"
    and "handshakes m' \<subseteq> handshakes m" "frames_at (info_at m') = (\<lambda>n. if n \<in> F then [] else frames_at (info_at m) n)"
  shows "evolves {} F m m'"
proof -
  have k: "\<exists>x. info_at m k = Some x \<and> bytes_sent y = bytes_sent x \<and> in_flight y = in_flight x" if "info_at m' k = Some y" for k y
    using assms(5) that unfolding keeps_def by blast
  have n: "info_at m' k = None \<longleftrightarrow> info_at m k = None" for k
    using unacked_inv_dom [OF assms(1-4)] by (metis domIff)
  have "size_of m' k = size_of m k \<and> (k \<in> flying m' \<longleftrightarrow> k \<in> flying m)" for k
  proof (cases "info_at m' k")
    case None
    then show ?thesis using n [of k] by (simp add: size_of_def flying_def)
  next
    case (Some y)
    then show ?thesis using k [OF Some] by (auto simp: size_of_def flying_def)
  qed
  then show ?thesis using assms(2-4,6,7) unfolding evolves_def by auto
qed

text \<open>The end of the links depends on the links alone.\<close>

definition link_of :: "unacked_packet_map \<Rightarrow> nat \<Rightarrow> nat option" where
  "link_of m n = map_option retransmission (info_at m n)"

lemma newest_link:
  "newest m n = (case link_of m n of None \<Rightarrow> n | Some r \<Rightarrow> if n < r then newest m r else n)"
  by (subst newest.simps) (simp add: link_of_def split: option.split)

lemma newest_same: "link_of m' = link_of m \<Longrightarrow> newest m' n = newest m n"
proof (induction m n rule: newest.induct)
  case (1 m n)
  show ?case
  proof (cases "link_of m n")
    case None
    then show ?thesis using 1(2) by (subst (1 2) newest_link) simp
  next
    case (Some r)
    then obtain x where x: "info_at m n = Some x" "retransmission x = r" by (auto simp: link_of_def)
    then show ?thesis using Some 1(1) [OF x(1)] 1(2) by (subst (1 2) newest_link) simp
  qed
qed

lemma newest_tracked: "unacked_inv m \<Longrightarrow> tracked m n \<Longrightarrow> tracked m (newest m n)"
proof (induction m n rule: newest.induct)
  case (1 m n)
  obtain x where x: "info_at m n = Some x" "info_ok (largest_sent_packet m) n x" by (rule tracked_info [OF 1(2,3)])
  show ?case
  proof (cases "n < retransmission x")
    case True
    then have "tracked m (retransmission x)" using x(2) 1(3) by (auto simp: info_ok_def tracked_def)
    then have "tracked m (newest m (retransmission x))" using 1(1) [OF x(1) True] 1(2) by blast
    then show ?thesis using x(1) True by (subst newest.simps) simp
  next
    case False
    then show ?thesis using x(1) 1(3) by (subst newest.simps) simp
  qed
qed

lemma follow_retransmissions_ok:
  "unacked_inv m \<Longrightarrow> info_at m n = Some x \<Longrightarrow> follow_retransmissions m n (retransmission x) = Some (newest m n)"
proof (induction m n arbitrary: x rule: newest.induct)
  case (1 m n)
  have "info_ok (largest_sent_packet m) n x" using tracked_info [OF 1(2) info_tracked [OF 1(2,3)]] 1(3) by auto
  note ok = this [unfolded info_ok_def]
  show ?case
  proof (cases "retransmission x = 0")
    case True
    then show ?thesis using 1(3) by (subst follow_retransmissions.simps, subst newest.simps) simp
  next
    case False
    then have r: "n < retransmission x" "tracked m (retransmission x)"
      using ok info_tracked [OF 1(2,3)] by (auto simp: tracked_def)
    obtain y where y: "info_at m (retransmission x) = Some y" "GetTransmissionInfo m (retransmission x) = Some y"
      by (rule tracked_info [OF 1(2) r(2)])
    have "follow_retransmissions m (retransmission x) (retransmission y) = Some (newest m (retransmission x))"
      by (rule 1(1) [OF 1(3) r(1) 1(2) y(1)])
    then show ?thesis using False y(2) 1(3) r(1) by (subst follow_retransmissions.simps, subst newest.simps) simp
  qed
qed

lemma count_spurious_ok: "unacked_inv m \<Longrightarrow> r = 0 \<or> tracked m r \<Longrightarrow> \<exists>st'. count_spurious m st r = Some st'"
proof (induction "largest_sent_packet m - r" arbitrary: r st rule: less_induct)
  case less
  show ?case
  proof (cases "r = 0")
    case False
    then have r: "tracked m r" using less.prems(2) by simp
    obtain x where x: "info_at m r = Some x" "GetTransmissionInfo m r = Some x" "info_ok (largest_sent_packet m) r x"
      by (rule tracked_info [OF less.prems(1) r])
    then have "\<exists>st'. count_spurious m (RecordOneSpuriousRetransmission st x) (retransmission x) = Some st'"
    proof (cases "retransmission x = 0")
      case True
      then show ?thesis by (subst count_spurious.simps) simp
    next
      case False
      then have "r < retransmission x" "retransmission x \<le> largest_sent_packet m" using x(3) by (auto simp: info_ok_def)
      then show ?thesis using less.hyps [of "retransmission x"] less.prems(1) r by (auto simp: tracked_def)
    qed
    then show ?thesis using False x(2) by (subst count_spurious.simps) simp
  qed (subst count_spurious.simps, simp)
qed

lemma SpuriousRetransmitDetected_ok:
  "unacked_inv m \<Longrightarrow> tracked m n \<Longrightarrow> \<exists>la'. SpuriousRetransmitDetected fx la m time rtt n = Some la'"
proof -
  assume "unacked_inv m" "tracked m n"
  then obtain x where "GetTransmissionInfo m n = Some x" by (rule tracked_info)
  then show ?thesis by (simp add: SpuriousRetransmitDetected_def Let_def)
qed

section \<open>The operations on one packet\<close>

lemma map_update_evolves:
  assumes "unacked_inv m" "unacked_inv m'" "observed_same m m'" "least_unacked m' = least_unacked m" "info_at m n = Some x"
    and "info_at m' = (info_at m)(n \<mapsto> y)" "bytes_sent y = bytes_sent x" "retransmittable_frames y = retransmittable_frames x"
    and "retransmission y = retransmission x" "has_crypto_handshake y = has_crypto_handshake x" "in_flight y \<longrightarrow> in_flight x"
  shows "evolves (if in_flight y then {} else {n} \<inter> flying m) {} m m' \<and> newest m' = newest m \<and> link_of m' = link_of m"
proof -
  have "size_of m' = size_of m" "handshakes m' = handshakes m" "frames_at (info_at m') = frames_at (info_at m)" "link_of m' = link_of m"
    using assms(5-10) by (auto simp: size_of_def handshakes_def frames_at_def link_of_def fun_eq_iff)
  moreover have "flying m' = (if in_flight y then flying m else flying m - {n})"
    using assms(5,6,11) by (auto simp: flying_def split: if_splits)
  moreover have "newest m' = newest m" using newest_same calculation(4) by blast
  ultimately show ?thesis using assms(2-4) by (auto simp: evolves_def)
qed

lemma RemoveFromInFlight_evolves:
  assumes "unacked_inv m" "tracked m n"
  shows "\<exists>m'. RemoveFromInFlight m n = Some m' \<and> evolves ({n} \<inter> flying m) {} m m' \<and> newest m' = newest m \<and> link_of m' = link_of m"
proof -
  obtain x where x: "info_at m n = Some x" by (rule tracked_info [OF assms])
  obtain m' where m': "RemoveFromInFlight m n = Some m'" "unacked_inv m'" "info_at m' = (info_at m)(n \<mapsto> x\<lparr>in_flight := False\<rparr>)"
    using RemoveFromInFlight_ok [OF assms x] by blast
  have "observed_same m m'" "least_unacked m' = least_unacked m"
    using m'(1) by (auto simp: RemoveFromInFlight_def observed_same_def set_info_def bind_eq_Some_conv split: if_splits)
  then show ?thesis using map_update_evolves [OF assms(1) m'(2) _ _ x m'(3)] m'(1) by simp
qed

lemma set_info_evolves:
  assumes "unacked_inv m" "tracked m n" "info_at m n = Some x"
    and "y = x\<lparr>ack_listeners := ls\<rparr> \<or> y = x\<lparr>is_unackable := True\<rparr>"
  shows "evolves {} {} m (set_info m n y) \<and> newest (set_info m n y) = newest m"
proof -
  have n: "least_unacked m \<le> n" "n < Suc (largest_sent_packet m)" using assms(2) by (auto simp: tracked_def)
  have i: "info_at (set_info m n y) = (info_at m)(n \<mapsto> y)"
    by (rule info_at_set_info [OF assms(1) [unfolded unacked_inv_def] n]) simp_all
  have "observed_same m (set_info m n y)" "least_unacked (set_info m n y) = least_unacked m"
    by (simp_all add: observed_same_def set_info_def)
  note e = map_update_evolves [OF assms(1) set_info_minor(1) [OF assms] this assms(3) i]
  have "(if in_flight y then {} else {n} \<inter> flying m) = {}" using assms(3,4) by (auto simp: flying_def)
  then show ?thesis using e assms(4) by auto
qed

lemma NotifyAndClearListeners_evolves:
  assumes "unacked_inv m" "tracked m n"
  shows "\<exists>m' calls. NotifyAndClearListeners m n delay = Some (m', calls) \<and> evolves {} {} m m' \<and> newest m' = newest m"
proof -
  obtain x where x: "info_at m n = Some x" "GetTransmissionInfo m n = Some x" by (rule tracked_info [OF assms])
  then show ?thesis
    using set_info_evolves [OF assms x(1), of "x\<lparr>ack_listeners := []\<rparr>" "[]"] by (simp add: NotifyAndClearListeners_def)
qed

lemma MarkPacketUnackable_evolves:
  assumes "unacked_inv m" "tracked m n"
  shows "\<exists>m'. MarkPacketUnackable m n = Some m' \<and> evolves {} {} m m' \<and> newest m' = newest m"
proof -
  obtain x where x: "info_at m n = Some x" "GetTransmissionInfo m n = Some x" by (rule tracked_info [OF assms])
  then show ?thesis
    using set_info_evolves [OF assms x(1), of "x\<lparr>is_unackable := True\<rparr>"] by (simp add: MarkPacketUnackable_def)
qed

lemma handshakes_set_info:
  assumes "GetTransmissionInfo m n = Some x" "has_crypto_handshake y \<longrightarrow> has_crypto_handshake x"
    and "unacked_packets m' = unacked_packets m" "least_unacked m' = least_unacked m"
  shows "handshakes (set_info m' n y) \<subseteq> handshakes m"
proof
  fix k
  assume "k \<in> handshakes (set_info m' n y)"
  moreover have "packet_index m' n = packet_index m n" by (simp add: packet_index_def assms(4))
  ultimately show "k \<in> handshakes m"
    using assms by (auto simp: handshakes_def info_at_def set_info_def GetTransmissionInfo_def nth_list_update split: if_splits)
qed

lemma RemoveRetransmittability_handshakes: "RemoveRetransmittability m n = Some m' \<Longrightarrow> handshakes m' \<subseteq> handshakes m"
proof (induction m n rule: RemoveRetransmittability.induct)
  case (1 m n)
  from 1(2) obtain x where x: "GetTransmissionInfo m n = Some x"
    by (subst (asm) RemoveRetransmittability.simps) (auto split: option.splits)
  show ?case
  proof (cases "retransmission x = 0")
    case True
    let ?m = "if has_crypto_handshake x then m\<lparr>pending_crypto_packet_count := sub64 (pending_crypto_packet_count m) 1\<rparr> else m"
    have "m' = set_info ?m n (x\<lparr>has_crypto_handshake := False, retransmittable_frames := DeleteFrames (retransmittable_frames x)\<rparr>)"
      using 1(2) x True by (subst (asm) RemoveRetransmittability.simps) (simp add: Let_def)
    then show ?thesis using handshakes_set_info [OF x, of _ ?m] by simp
  next
    case False
    then have "handshakes m' \<subseteq> handshakes (set_info m n (x\<lparr>retransmission := 0\<rparr>))"
      using 1(1) [OF x False] 1(2) x by (subst (asm) (2) RemoveRetransmittability.simps) simp
    also have "\<dots> \<subseteq> handshakes m" using x by (rule handshakes_set_info) simp_all
    finally show ?thesis .
  qed
qed

lemma RemoveRetransmittability_evolves:
  assumes "unacked_inv m" "tracked m n"
  shows "\<exists>m'. RemoveRetransmittability m n = Some m' \<and> evolves {} {newest m n} m m'"
proof -
  obtain m' where m': "RemoveRetransmittability m n = Some m'" "unacked_inv m'" "observed_same m m'" "least_unacked m' = least_unacked m"
    "keeps (info_at m) (info_at m')" "frames_at (info_at m') = (frames_at (info_at m))(newest m n := [])"
    using RemoveRetransmittability_ok [OF assms(1) [unfolded unacked_inv_def], of n] assms(2)
    by (auto simp: tracked_def unacked_inv_def observed_same_def)
  then show ?thesis
    using keeps_evolves [OF assms(1) m'(2-5) RemoveRetransmittability_handshakes [OF m'(1)], of "{newest m n}"] by (auto simp: fun_eq_iff)
qed

section \<open>Pending retransmissions\<close>

definition pending_ok :: "unacked_packet_map \<Rightarrow> (nat \<times> TransmissionType) list \<Rightarrow> bool" where
  "pending_ok m pending \<longleftrightarrow> distinct (map fst pending) \<and>
     (\<forall>(n, t)\<in>set pending. frames_at (info_at m) n \<noteq> [] \<and> (t = LOSS_RETRANSMISSION \<longrightarrow> n \<notin> flying m))"

lemma pending_ok_evolves:
  assumes "pending_ok m pending" "evolves D F m m'" "\<forall>p\<in>set pending. fst p \<notin> F"
  shows "pending_ok m' pending"
  using assms by (fastforce simp: pending_ok_def evolves_def)

lemma pending_ok_erase: "pending_ok m pending \<Longrightarrow> pending_ok m (erase_pending n pending)"
  by (auto simp: pending_ok_def erase_pending_def distinct_map_filter)

lemma erased_pending: "\<forall>p\<in>set (erase_pending n pending). fst p \<noteq> n"
  by (auto simp: erase_pending_def)

lemma MarkForRetransmission_ok:
  assumes "unacked_inv (packet_map s)" "frames_at (info_at (packet_map s)) n \<noteq> []" "pending_ok (packet_map s) (pending_retransmissions s)"
  shows "\<exists>m pending. MarkForRetransmission s n t = Some (s\<lparr>packet_map := m, pending_retransmissions := pending\<rparr>) \<and>
    evolves (if t = TLP_RETRANSMISSION \<or> t = RTO_RETRANSMISSION then {} else {n} \<inter> flying (packet_map s)) {} (packet_map s) m \<and>
    pending_ok m pending \<and> set (pending_retransmissions s) \<subseteq> set pending \<and> n \<in> fst ` set pending \<and> link_of m = link_of (packet_map s) \<and>
    pending = pending_retransmissions s @ (if n \<in> fst ` set (pending_retransmissions s) then [] else [(n, t)])"
proof -
  let ?m = "packet_map s" and ?keep = "t = TLP_RETRANSMISSION \<or> t = RTO_RETRANSMISSION" and ?p = "pending_retransmissions s"
  have n: "tracked ?m n" by (rule frames_tracked [OF assms(1,2)])
  then obtain x where x: "GetTransmissionInfo ?m n = Some x" by (rule tracked_info [OF assms(1)])
  obtain m' where m': "RemoveFromInFlight ?m n = Some m'" "evolves ({n} \<inter> flying ?m) {} ?m m'" "link_of m' = link_of ?m"
    using RemoveFromInFlight_evolves [OF assms(1) n] by blast
  define m where "m = (if ?keep then ?m else m')"
  have e: "evolves (if ?keep then {} else {n} \<inter> flying ?m) {} ?m m" using m'(2) evolves_refl [OF assms(1)] by (auto simp: m_def)
  have "(if t \<noteq> TLP_RETRANSMISSION \<and> t \<noteq> RTO_RETRANSMISSION then RemoveFromInFlight ?m n else Some ?m) = Some m" using m'(1) by (simp add: m_def)
  then have "MarkForRetransmission s n t = Some (s\<lparr>packet_map := m,
      pending_retransmissions := (if map_of ?p n \<noteq> None then ?p else ?p @ [(n, t)])\<rparr>)"
    using x by (simp add: MarkForRetransmission_def)
  moreover have "pending_ok m ?p" by (rule pending_ok_evolves [OF assms(3) e]) simp
  moreover have "pending_ok m (?p @ [(n, t)])" if "map_of ?p n = None"
  proof -
    have "n \<notin> fst ` set ?p" using that by (simp add: map_of_eq_None_iff)
    moreover have "frames_at (info_at m) n \<noteq> []" "t = LOSS_RETRANSMISSION \<longrightarrow> n \<notin> flying m" using e assms(2) by (auto simp: evolves_def)
    ultimately show ?thesis using \<open>pending_ok m ?p\<close> by (auto simp: pending_ok_def)
  qed
  ultimately show ?thesis
    using e m'(3) m_def
    by (intro exI [of _ m] exI [of _ "if map_of ?p n \<noteq> None then ?p else ?p @ [(n, t)]"] conjI)
       (auto simp: map_of_eq_None_iff)
qed

section \<open>Acknowledgements\<close>

lemma RecordSpuriousRetransmissions_ok:
  assumes "unacked_inv (packet_map s)" "tracked (packet_map s) (retransmission info)"
  shows "\<exists>st la. RecordSpuriousRetransmissions fx s now info = Some (s\<lparr>connection_stats := st, general_loss_algorithm := la\<rparr>)"
proof -
  let ?m = "packet_map s" and ?r = "retransmission info"
  obtain st where st: "count_spurious ?m (connection_stats s) ?r = Some st" using count_spurious_ok [OF assms(1)] assms(2) by blast
  obtain x where x: "GetTransmissionInfo ?m ?r = Some x" by (rule tracked_info [OF assms])
  obtain la where la: "SpuriousRetransmitDetected fx (general_loss_algorithm s) ?m now (rtt_state s) ?r = Some la"
    using SpuriousRetransmitDetected_ok [OF assms] by blast
  show ?thesis using st x la
    by (intro exI [of _ st] exI [of _ "if transmission_type x = LOSS_RETRANSMISSION then la else general_loss_algorithm s"])
       (simp add: RecordSpuriousRetransmissions_def)
qed

lemma handle_newest_ok:
  assumes "unacked_inv (packet_map s)" "tracked (packet_map s) n" "info_at (packet_map s) n = Some x" "m = packet_map s"
  shows "\<exists>m' st la calls E. handle_newest fx s n (newest m n) x delay now =
      Some (s\<lparr>packet_map := m', connection_stats := st, general_loss_algorithm := la\<rparr>, calls) \<and>
    evolves E {} m m' \<and> newest m' = newest m \<and> n \<notin> E \<and> E \<subseteq> handshakes m"
proof -
  have t: "tracked m (newest m n)" using newest_tracked [OF assms(1,2)] assms(4) by simp
  have inv: "unacked_inv m" using assms(1,4) by simp
  obtain m1 calls where m1: "NotifyAndClearListeners m (newest m n) delay = Some (m1, calls)" "evolves {} {} m m1" "newest m1 = newest m"
    using NotifyAndClearListeners_evolves [OF inv t, of delay] by blast
  show ?thesis
  proof (cases "newest m n = n")
    case True
    then have "handle_newest fx s n (newest m n) x delay now = Some (s\<lparr>packet_map := m1\<rparr>, NotifyStreamFramesAcked m x delay @ calls)"
      using m1(1) assms(4) by (simp add: handle_newest_def)
    then show ?thesis using m1(2,3)
      by (intro exI [of _ m1] exI [of _ "connection_stats s"] exI [of _ "general_loss_algorithm s"]
          exI [of _ "NotifyStreamFramesAcked m x delay @ calls"] exI [of _ "{}"]) simp
  next
    case False
    have "n < retransmission x" using False assms(3,4) by (subst (asm) newest.simps) (auto split: if_splits)
    moreover have "info_ok (largest_sent_packet m) n x" using tracked_info [OF assms(1,2)] assms(3,4) by auto
    ultimately have r: "tracked m (retransmission x)" using assms(2,4) by (auto simp: info_ok_def tracked_def)
    note inv1 = evolves_inv [OF m1(2)] and t1 = evolves_tracked [OF m1(2)]
    obtain st la where sp: "RecordSpuriousRetransmissions fx (s\<lparr>packet_map := m1\<rparr>) now x =
        Some (s\<lparr>packet_map := m1, connection_stats := st, general_loss_algorithm := la\<rparr>)"
      using RecordSpuriousRetransmissions_ok [of "s\<lparr>packet_map := m1\<rparr>" x fx now] inv1 t1 r by auto
    obtain y where y: "info_at m1 (newest m n) = Some y" "GetTransmissionInfo m1 (newest m n) = Some y"
      using tracked_info [OF inv1] t1 t by blast
    obtain m2 where m2: "RemoveFromInFlight m1 (newest m n) = Some m2" "evolves ({newest m n} \<inter> flying m1) {} m1 m2" "newest m2 = newest m1"
      using RemoveFromInFlight_evolves [OF inv1] t1 t by blast
    define m' where "m' = (if has_crypto_handshake y then m2 else m1)"
    define E where "E = (if has_crypto_handshake y then {newest m n} \<inter> flying m1 else {})"
    have "evolves E {} m m'" "newest m' = newest m"
      using evolves_trans [OF m1(2) m2(2)] m1(2,3) m2(3) by (auto simp: m'_def E_def)
    moreover have "E \<subseteq> handshakes m" "n \<notin> E" using y(1) m1(2) False by (auto simp: E_def evolves_def handshakes_def)
    moreover have "handle_newest fx s n (newest m n) x delay now =
        Some (s\<lparr>packet_map := m', connection_stats := st, general_loss_algorithm := la\<rparr>, calls @ NotifyStreamFramesAcked m1 y delay)"
      using m1(1) sp y(2) m2(1) False assms(4) by (simp add: handle_newest_def m'_def)
    ultimately show ?thesis by blast
  qed
qed

lemma MarkPacketHandled_ok:
  assumes "unacked_inv (packet_map s)" "tracked (packet_map s) n" "m = packet_map s"
  shows "\<exists>m' st la mtu calls E. MarkPacketHandled fx s n delay now =
      Some (s\<lparr>packet_map := m', pending_retransmissions := erase_pending (newest m n) (pending_retransmissions s),
              connection_stats := st, general_loss_algorithm := la, largest_mtu_acked := mtu\<rparr>, calls) \<and>
    evolves (E \<union> ({n} \<inter> flying m)) {newest m n} m m' \<and> n \<notin> E \<and> E \<subseteq> handshakes m"
proof -
  let ?s = "s\<lparr>pending_retransmissions := erase_pending (newest m n) (pending_retransmissions s)\<rparr>"
  obtain x where x: "info_at m n = Some x" "GetTransmissionInfo m n = Some x" by (rule tracked_info [OF assms(1,2), folded assms(3)])
  have f: "GetNewestRetransmission m n x = Some (newest m n)"
    using follow_retransmissions_ok [of m n x] x(1) assms(1,3) by (simp add: GetNewestRetransmission_def)
  obtain m1 st la calls E where h: "handle_newest fx ?s n (newest m n) x delay now =
      Some (?s\<lparr>packet_map := m1, connection_stats := st, general_loss_algorithm := la\<rparr>, calls)"
    "evolves E {} m m1" "newest m1 = newest m" "n \<notin> E" "E \<subseteq> handshakes m"
    using handle_newest_ok [of ?s n x m fx delay now] assms x(1) by auto
  have n: "tracked m1 n" using evolves_tracked [OF h(2)] assms(2,3) by simp
  have fl: "{n} \<inter> flying m1 = {n} \<inter> flying m" using h(2,4) by (auto simp: evolves_def)
  obtain m2 where m2: "RemoveFromInFlight m1 n = Some m2" "evolves ({n} \<inter> flying m) {} m1 m2" "newest m2 = newest m1"
    using RemoveFromInFlight_evolves [OF evolves_inv [OF h(2)] n] unfolding fl by blast
  obtain m3 where m3: "RemoveRetransmittability m2 n = Some m3" "evolves {} {newest m2 n} m2 m3"
    using RemoveRetransmittability_evolves [OF evolves_inv [OF m2(2)], of n] evolves_tracked [OF m2(2)] n by blast
  obtain m4 where m4: "MarkPacketUnackable m3 n = Some m4" "evolves {} {} m3 m4"
    using MarkPacketUnackable_evolves [OF evolves_inv [OF m3(2)], of n] evolves_tracked [OF m3(2)] evolves_tracked [OF m2(2)] n by blast
  have e: "evolves (E \<union> ({n} \<inter> flying m)) {newest m n} m m4"
    using evolves_trans [OF evolves_trans [OF h(2) m2(2)] evolves_trans [OF m3(2) m4(2)]] m2(3) h(3) by simp
  define mtu where "mtu = (if network_change_visitor s \<and> bytes_sent x > largest_mtu_acked s then bytes_sent x else largest_mtu_acked s)"
  have "\<exists>calls'. MarkPacketHandled fx s n delay now =
      Some (s\<lparr>packet_map := m4, pending_retransmissions := erase_pending (newest m n) (pending_retransmissions s),
              connection_stats := st, general_loss_algorithm := la, largest_mtu_acked := mtu\<rparr>, calls')"
    using x(2) f h(1) m2(1) m3(1) m4(1) assms(3) by (simp add: MarkPacketHandled_def mtu_def Let_def)
  then show ?thesis using e h(4,5) by blast
qed

text \<open>The acknowledged packets \<open>A\<close> are those of the frame in flight; \<open>C\<close> are other packets that leave the flight.\<close>

definition acks :: "bool \<Rightarrow> ack_frame \<Rightarrow> unacked_packet_map \<Rightarrow> nat \<Rightarrow> (nat \<times> nat) list \<Rightarrow> nat set \<Rightarrow> bool" where
  "acks skip_early frame m n A C \<longleftrightarrow> distinct (map fst A) \<and> fst ` set A \<inter> C = {} \<and> C \<subseteq> handshakes m \<and>
     (\<forall>(k, b)\<in>set A. n \<le> k \<and> k \<le> unat (ack_frame.largest_observed frame) \<and> pnq_Contains (packets frame) (of_nat k) \<and> b = size_of m k) \<and>
     (\<not> skip_early \<longrightarrow> (\<forall>k\<in>flying m. n \<le> k \<and> k \<le> unat (ack_frame.largest_observed frame) \<and> pnq_Contains (packets frame) (of_nat k)
        \<longrightarrow> k \<in> fst ` set A \<union> C))"

lemma acks_skip:
  assumes "acks skip_early frame m (Suc n) A C" "skip_early \<or> \<not> pnq_Contains (packets frame) (of_nat n)"
  shows "acks skip_early frame m n A C"
  using assms unfolding acks_def by (force simp: Suc_le_eq le_less)

lemma acks_step:
  assumes "evolves (E \<union> ({n} \<inter> flying m)) F m m'" "n \<notin> E" "E \<subseteq> handshakes m" "acks skip_early frame m' (Suc n) A C"
    and "n \<le> unat (ack_frame.largest_observed frame)" "pnq_Contains (packets frame) (of_nat n)"
    and "fst ` set A \<union> C \<subseteq> flying m'" "A' = (if n \<in> flying m then [(n, size_of m n)] else [])"
  shows "acks skip_early frame m n (A' @ A) (E \<union> C)"
proof -
  have e: "size_of m' = size_of m" "flying m' = flying m - (E \<union> ({n} \<inter> flying m))" "handshakes m' \<subseteq> handshakes m"
    using assms(1) by (auto simp: evolves_def)
  have "n \<notin> fst ` set A" using assms(4) by (fastforce simp: acks_def)
  moreover have "k \<in> fst ` set (A' @ A) \<union> (E \<union> C)"
    if "\<not> skip_early" "k \<in> flying m" "n \<le> k" "k \<le> unat (ack_frame.largest_observed frame)" "pnq_Contains (packets frame) (of_nat k)" for k
  proof (cases "k \<in> flying m'")
    case True
    then have "Suc n \<le> k" using that(2,3) e(2) by (cases "k = n") auto
    then show ?thesis using assms(4) that True by (auto simp: acks_def)
  next
    case False
    then show ?thesis using that(2) e(2) assms(8) by auto
  qed
  moreover have "fst ` set (A' @ A) \<inter> (E \<union> C) = {}"
    using assms(2,4,7,8) e(2) by (auto simp: acks_def split: if_splits)
  moreover have "\<forall>(k, b)\<in>set (A' @ A). n \<le> k \<and> k \<le> unat (ack_frame.largest_observed frame) \<and> pnq_Contains (packets frame) (of_nat k) \<and> b = size_of m k"
    using assms(4-6,8) e(1) by (auto simp: acks_def)
  ultimately show ?thesis using assms(3,4,8) e(3) by (auto simp: acks_def)
qed

text \<open>What the loop over the packets changes of the manager.\<close>

definition ack_update :: "sent_packet_manager \<Rightarrow> (nat \<times> nat) list \<Rightarrow> sent_packet_manager \<Rightarrow> bool" where
  "ack_update s A s' \<longleftrightarrow> (\<exists>m p st la mtu l k.
     s' = s\<lparr>packet_map := m, pending_retransmissions := p, connection_stats := st, general_loss_algorithm := la, largest_mtu_acked := mtu,
            packets_acked := packets_acked s @ A, largest_newly_acked := l, largest_packet_peer_knows_is_acked := k\<rparr> \<and>
     (l = largest_newly_acked s \<or> l \<le> largest_sent_packet (packet_map s)))"

lemma ack_update_refl: "ack_update s [] s"
  unfolding ack_update_def
  by (intro exI [of _ "packet_map s"] exI [of _ "pending_retransmissions s"] exI [of _ "connection_stats s"]
      exI [of _ "general_loss_algorithm s"] exI [of _ "largest_mtu_acked s"] exI [of _ "largest_newly_acked s"]
      exI [of _ "largest_packet_peer_knows_is_acked s"]) simp

lemma ack_update_trans:
  assumes "ack_update s A s'" "ack_update s' A' s''" "largest_sent_packet (packet_map s') = largest_sent_packet (packet_map s)"
  shows "ack_update s (A @ A') s''"
proof -
  obtain m p st la mtu l k where s': "s' = s\<lparr>packet_map := m, pending_retransmissions := p, connection_stats := st,
      general_loss_algorithm := la, largest_mtu_acked := mtu, packets_acked := packets_acked s @ A, largest_newly_acked := l,
      largest_packet_peer_knows_is_acked := k\<rparr>" "l = largest_newly_acked s \<or> l \<le> largest_sent_packet (packet_map s)"
    using assms(1) unfolding ack_update_def by blast
  obtain m' p' st' la' mtu' l' k' where s'': "s'' = s'\<lparr>packet_map := m', pending_retransmissions := p', connection_stats := st',
      general_loss_algorithm := la', largest_mtu_acked := mtu', packets_acked := packets_acked s' @ A', largest_newly_acked := l',
      largest_packet_peer_knows_is_acked := k'\<rparr>" "l' = largest_newly_acked s' \<or> l' \<le> largest_sent_packet (packet_map s')"
    using assms(2) unfolding ack_update_def by blast
  have "l' = largest_newly_acked s \<or> l' \<le> largest_sent_packet (packet_map s)"
    using s'(2) s''(2) assms(3) by (auto simp: s'(1))
  then show ?thesis unfolding ack_update_def
    by (intro exI [of _ m'] exI [of _ p'] exI [of _ st'] exI [of _ la'] exI [of _ mtu'] exI [of _ l'] exI [of _ k'] conjI)
       (simp add: s''(1) s'(1), assumption)
qed

lemma ack_packet_ok:
  assumes "unacked_inv (packet_map s)" "tracked (packet_map s) n" "pending_ok (packet_map s) (pending_retransmissions s)" "m = packet_map s"
    and "n \<le> unat (ack_frame.largest_observed frame)"
  shows "\<exists>s' calls. ack_packet fx skip_early s frame n now = Some (s', calls) \<and>
    pending_ok (packet_map s') (pending_retransmissions s') \<and>
    ((skip_early \<or> \<not> pnq_Contains (packets frame) (of_nat n)) \<and> s' = s \<or>
     (\<exists>E F. pnq_Contains (packets frame) (of_nat n) \<and> ack_update s (if n \<in> flying m then [(n, size_of m n)] else []) s' \<and>
        evolves (E \<union> ({n} \<inter> flying m)) F m (packet_map s') \<and> n \<notin> E \<and> E \<subseteq> handshakes m))"
proof -
  obtain x where x: "info_at m n = Some x" "GetTransmissionInfo m n = Some x" by (rule tracked_info [OF assms(1,2), folded assms(4)])
  show ?thesis
  proof (cases "skip_early \<and> is_unackable x \<or> \<not> pnq_Contains (packets frame) (of_nat n)")
    case True
    then have "ack_packet fx skip_early s frame n now = Some (s, [])" using x(2) assms(4) by (auto simp: ack_packet_def)
    then show ?thesis using True assms(3) by auto
  next
    case False
    define l where "l = (if in_flight x then largest_newly_acked s else if skip_early \<or> \<not> is_unackable x then n else largest_newly_acked s)"
    define k where "k = (if largest_acked x > 0 then max (largest_packet_peer_knows_is_acked s) (largest_acked x) else largest_packet_peer_knows_is_acked s)"
    define A where "A = (if n \<in> flying m then [(n, size_of m n)] else [])"
    have A: "A = (if in_flight x then [(n, bytes_sent x)] else [])" using x(1) by (auto simp: A_def flying_def size_of_def)
    define s1 where "s1 = s\<lparr>largest_packet_peer_knows_is_acked := k, packets_acked := packets_acked s @ A, largest_newly_acked := l\<rparr>"
    have "ack_packet fx skip_early s frame n now = MarkPacketHandled fx s1 n (ack_delay_time frame) now"
      using x(2) False assms(4) by (simp add: ack_packet_def A s1_def l_def k_def Let_def)
    moreover obtain m' st la mtu calls E where h: "MarkPacketHandled fx s1 n (ack_delay_time frame) now =
        Some (s1\<lparr>packet_map := m', pending_retransmissions := erase_pending (newest m n) (pending_retransmissions s1),
                connection_stats := st, general_loss_algorithm := la, largest_mtu_acked := mtu\<rparr>, calls)"
      "evolves (E \<union> ({n} \<inter> flying m)) {newest m n} m m'" "n \<notin> E" "E \<subseteq> handshakes m"
      using MarkPacketHandled_ok [of s1 n m fx "ack_delay_time frame" now] assms by (auto simp: s1_def)
    define s' where "s' = s1\<lparr>packet_map := m', pending_retransmissions := erase_pending (newest m n) (pending_retransmissions s1),
                connection_stats := st, general_loss_algorithm := la, largest_mtu_acked := mtu\<rparr>"
    have "pending_ok m' (erase_pending (newest m n) (pending_retransmissions s))"
      by (rule pending_ok_evolves [OF pending_ok_erase [OF assms(3) [folded assms(4)]] h(2)]) (use erased_pending in simp)
    moreover have "l = largest_newly_acked s \<or> l \<le> largest_sent_packet (packet_map s)" using assms(2) by (auto simp: l_def tracked_def)
    then have "ack_update s A s'" unfolding ack_update_def
      by (intro exI [of _ m'] exI [of _ "erase_pending (newest m n) (pending_retransmissions s)"] exI [of _ st] exI [of _ la] exI [of _ mtu]
          exI [of _ l] exI [of _ k] conjI) (simp add: s'_def s1_def, assumption)
    moreover have "packet_map s' = m'" "pending_retransmissions s' = erase_pending (newest m n) (pending_retransmissions s)"
      by (simp_all add: s'_def s1_def)
    ultimately show ?thesis using h(2-4) False unfolding h(1) s'_def [symmetric] A_def [symmetric]
      by (intro exI [of _ s'] exI [of _ calls] conjI disjI2 exI [of _ E] exI [of _ "{newest m n}"]) simp_all
  qed
qed

lemma tracked_Suc: "unacked_inv m \<Longrightarrow> n \<le> largest_sent_packet m \<Longrightarrow> add64 n 1 = Suc n"
  by (subst add64_id) (auto simp: unacked_inv_def map_inv_def)

lemma ack_packets_ok:
  "unacked_inv (packet_map s) \<Longrightarrow> pending_ok (packet_map s) (pending_retransmissions s) \<Longrightarrow> least_unacked (packet_map s) \<le> n \<Longrightarrow>
   n + k = Suc (largest_sent_packet (packet_map s)) \<Longrightarrow>
   \<exists>s' calls A C F. ack_packets fx skip_early k s frame n now = Some (s', calls) \<and> ack_update s A s' \<and>
     acks skip_early frame (packet_map s) n A C \<and> evolves (fst ` set A \<union> C) F (packet_map s) (packet_map s') \<and>
     pending_ok (packet_map s') (pending_retransmissions s')"
proof (induction k arbitrary: s n)
  case 0
  have "acks skip_early frame (packet_map s) n [] {}"
    using 0 by (auto simp: acks_def tracked_def dest: flying_tracked)
  then show ?case using 0 ack_update_refl evolves_refl by fastforce
next
  case (Suc k)
  let ?m = "packet_map s"
  have n: "tracked ?m n" using Suc.prems(3,4) by (simp add: tracked_def)
  show ?case
  proof (cases "n > unat (ack_frame.largest_observed frame)")
    case True
    then have "acks skip_early frame ?m n [] {}" by (auto simp: acks_def)
    then show ?thesis using True Suc.prems(1,2) ack_update_refl evolves_refl by fastforce
  next
    case False
    have a: "add64 n 1 = Suc n" using tracked_Suc [OF Suc.prems(1)] n by (simp add: tracked_def)
    obtain s1 calls where s1: "ack_packet fx skip_early s frame n now = Some (s1, calls)"
      "pending_ok (packet_map s1) (pending_retransmissions s1)"
      "(skip_early \<or> \<not> pnq_Contains (packets frame) (of_nat n)) \<and> s1 = s \<or>
       (\<exists>E F. pnq_Contains (packets frame) (of_nat n) \<and> ack_update s (if n \<in> flying ?m then [(n, size_of ?m n)] else []) s1 \<and>
        evolves (E \<union> ({n} \<inter> flying ?m)) F ?m (packet_map s1) \<and> n \<notin> E \<and> E \<subseteq> handshakes ?m)"
      using ack_packet_ok [OF Suc.prems(1) n Suc.prems(2) refl, of frame fx skip_early now] False by auto
    have e1: "\<exists>D F. evolves D F ?m (packet_map s1)" using s1(3) evolves_refl [OF Suc.prems(1)] by blast
    then have i1: "unacked_inv (packet_map s1)" "least_unacked (packet_map s1) = least_unacked ?m" "largest_sent_packet (packet_map s1) = largest_sent_packet ?m"
      by (auto simp: evolves_def observed_same_def)
    obtain s' calls' A C F where s': "ack_packets fx skip_early k s1 frame (Suc n) now = Some (s', calls')" "ack_update s1 A s'"
      "acks skip_early frame (packet_map s1) (Suc n) A C" "evolves (fst ` set A \<union> C) F (packet_map s1) (packet_map s')"
      "pending_ok (packet_map s') (pending_retransmissions s')"
      using Suc.IH [OF i1(1) s1(2), of "Suc n"] Suc.prems(3,4) i1(2,3) by auto
    have run: "ack_packets fx skip_early (Suc k) s frame n now = Some (s', calls @ calls')"
      using s1(1) s'(1) a False by simp
    from s1(3) show ?thesis
    proof (rule disjE)
      assume "(skip_early \<or> \<not> pnq_Contains (packets frame) (of_nat n)) \<and> s1 = s"
      then show ?thesis using run s'(2-5) acks_skip by blast
    next
      let ?A = "if n \<in> flying ?m then [(n, size_of ?m n)] else []"
      assume "\<exists>E F. pnq_Contains (packets frame) (of_nat n) \<and> ack_update s ?A s1 \<and>
        evolves (E \<union> ({n} \<inter> flying ?m)) F ?m (packet_map s1) \<and> n \<notin> E \<and> E \<subseteq> handshakes ?m"
      then obtain E F' where p: "pnq_Contains (packets frame) (of_nat n)" "ack_update s ?A s1"
        "evolves (E \<union> ({n} \<inter> flying ?m)) F' ?m (packet_map s1)" "n \<notin> E" "E \<subseteq> handshakes ?m" by blast
      have "fst ` set A \<union> C \<subseteq> flying (packet_map s1)" using s'(4) by (simp add: evolves_def)
      then have "acks skip_early frame ?m n (?A @ A) (E \<union> C)" using acks_step [OF p(3-5) s'(3) _ p(1) _ refl] False by simp
      moreover have "ack_update s (?A @ A) s'" by (rule ack_update_trans [OF p(2) s'(2) i1(3)])
      moreover have "E \<union> ({n} \<inter> flying ?m) \<union> (fst ` set A \<union> C) = fst ` set (?A @ A) \<union> (E \<union> C)" by auto
      then have "evolves (fst ` set (?A @ A) \<union> (E \<union> C)) (F' \<union> F) ?m (packet_map s')" using evolves_trans [OF p(3) s'(4)] by simp
      ultimately show ?thesis using run s'(5) by blast
    qed
  qed
qed

section \<open>Losses\<close>

lemma DetectLosses_flying:
  assumes "unacked_inv m" "largest \<le> largest_sent_packet m"
  shows "\<exists>la' lost. DetectLosses la m time rtt largest [] = Some (la', lost) \<and> distinct (map fst lost) \<and>
    (\<forall>(k, b)\<in>set lost. k \<in> flying m \<and> b = size_of m k)"
proof -
  obtain la' lost stop where d: "DetectLosses la m time rtt largest [] = Some (la', lost)"
    "detected la m time rtt largest (least_unacked m) stop (GetLossTimeout la') lost"
    using DetectLosses_detected [OF assms] by blast
  note set = detected_set [OF d(2)]
  have "k \<in> flying m \<and> b = size_of m k" if "(k, b) \<in> set lost" for k b
  proof -
    have "deemed_lost la m time rtt largest k" using that set(1) by force
    then obtain x where x: "info_at m k = Some x" "in_flight x" by (auto simp: deemed_lost_def)
    moreover have "b = bytes_sent x" using that d(2) x(1) by (fastforce simp: detected_def)
    ultimately show ?thesis by (simp add: flying_def size_of_def)
  qed
  moreover have "distinct (map fst lost)" using set(2) strict_sorted_iff by blast
  ultimately show ?thesis using d(1) by blast
qed

definition lost_update :: "sent_packet_manager \<Rightarrow> sent_packet_manager \<Rightarrow> bool" where
  "lost_update s s' \<longleftrightarrow> (\<exists>m p st. s' = s\<lparr>packet_map := m, pending_retransmissions := p, connection_stats := st\<rparr>)"

lemma lost_update_refl: "lost_update s s"
  unfolding lost_update_def
  by (intro exI [of _ "packet_map s"] exI [of _ "pending_retransmissions s"] exI [of _ "connection_stats s"]) simp

lemma lost_update_trans: "lost_update s s' \<Longrightarrow> lost_update s' s'' \<Longrightarrow> lost_update s s''"
  unfolding lost_update_def by fastforce

text \<open>One packet that is lost.\<close>

definition mark_one :: "sent_packet_manager \<Rightarrow> nat \<Rightarrow> transmission_info \<Rightarrow> sent_packet_manager option" where
  "mark_one s n x = (if retransmittable_frames x \<noteq> [] then MarkForRetransmission s n LOSS_RETRANSMISSION
     else map_option (\<lambda>m. s\<lparr>packet_map := m\<rparr>) (RemoveFromInFlight (packet_map s) n))"

lemma mark_one_ok:
  assumes "unacked_inv (packet_map s)" "pending_ok (packet_map s) (pending_retransmissions s)" "n \<in> flying (packet_map s)"
    and "info_at (packet_map s) n = Some x"
  shows "\<exists>s'. mark_one s n x = Some s' \<and> lost_update s s' \<and> evolves {n} {} (packet_map s) (packet_map s') \<and>
    pending_ok (packet_map s') (pending_retransmissions s') \<and> set (pending_retransmissions s) \<subseteq> set (pending_retransmissions s') \<and>
    (retransmittable_frames x \<noteq> [] \<longrightarrow> n \<in> fst ` set (pending_retransmissions s'))"
proof (cases "retransmittable_frames x = []")
  case True
  obtain m' where m': "RemoveFromInFlight (packet_map s) n = Some m'" "evolves {n} {} (packet_map s) m'"
    using RemoveFromInFlight_evolves [OF assms(1) flying_tracked [OF assms(1,3)]] assms(3) by auto
  have "lost_update s (s\<lparr>packet_map := m'\<rparr>)" unfolding lost_update_def
    by (intro exI [of _ m'] exI [of _ "pending_retransmissions s"] exI [of _ "connection_stats s"]) simp
  then show ?thesis using True m' pending_ok_evolves [OF assms(2) m'(2)] by (simp add: mark_one_def)
next
  case False
  have "frames_at (info_at (packet_map s)) n \<noteq> []" using assms(4) False by (simp add: frames_at_def)
  then obtain m p where m: "MarkForRetransmission s n LOSS_RETRANSMISSION = Some (s\<lparr>packet_map := m, pending_retransmissions := p\<rparr>)"
    "evolves {n} {} (packet_map s) m" "pending_ok m p" "set (pending_retransmissions s) \<subseteq> set p" "n \<in> fst ` set p"
    using MarkForRetransmission_ok [OF assms(1) _ assms(2), of n LOSS_RETRANSMISSION] assms(3) by auto
  have "lost_update s (s\<lparr>packet_map := m, pending_retransmissions := p\<rparr>)" unfolding lost_update_def
    by (intro exI [of _ m] exI [of _ p] exI [of _ "connection_stats s"]) simp
  then show ?thesis using False m by (simp add: mark_one_def)
qed

lemma mark_lost_ok:
  "unacked_inv (packet_map s) \<Longrightarrow> pending_ok (packet_map s) (pending_retransmissions s) \<Longrightarrow> distinct (map fst lost) \<Longrightarrow>
   fst ` set lost \<subseteq> flying (packet_map s) \<Longrightarrow>
   \<exists>s'. mark_lost s lost = Some s' \<and> lost_update s s' \<and> evolves (fst ` set lost) {} (packet_map s) (packet_map s') \<and>
     pending_ok (packet_map s') (pending_retransmissions s') \<and> set (pending_retransmissions s) \<subseteq> set (pending_retransmissions s') \<and>
     (\<forall>k\<in>fst ` set lost. frames_at (info_at (packet_map s)) k \<noteq> [] \<longrightarrow> k \<in> fst ` set (pending_retransmissions s'))"
proof (induction lost arbitrary: s)
  case Nil
  then show ?case using evolves_refl lost_update_refl by auto
next
  case (Cons p lost)
  let ?m = "packet_map s" and ?n = "fst p" and ?st = "connection_stats s"
  have n: "?n \<in> flying ?m" "tracked ?m ?n" using Cons.prems(1,4) flying_tracked by auto
  obtain x where x: "info_at ?m ?n = Some x" "GetTransmissionInfo ?m ?n = Some x" by (rule tracked_info [OF Cons.prems(1) n(2)])
  define s1 where "s1 = s\<lparr>connection_stats := ?st\<lparr>lost_packets_count := add64 (lost_packets_count ?st) 1\<rparr>\<rparr>"
  have s1: "packet_map s1 = ?m" "pending_retransmissions s1 = pending_retransmissions s" by (simp_all add: s1_def)
  have f: "frames_at (info_at ?m) ?n = retransmittable_frames x" using x(1) by (simp add: frames_at_def)
  have has: "HasRetransmittableFrames ?m ?n = Some (retransmittable_frames x \<noteq> [])" using x(2) by (simp add: HasRetransmittableFrames_def)
  have u1: "lost_update s s1" unfolding lost_update_def
    by (intro exI [of _ ?m] exI [of _ "pending_retransmissions s"] exI [of _ "connection_stats s1"]) (simp add: s1_def)
  obtain s2 where s2: "mark_one s1 ?n x = Some s2" "lost_update s1 s2" "evolves {?n} {} ?m (packet_map s2)"
    "pending_ok (packet_map s2) (pending_retransmissions s2)" "set (pending_retransmissions s) \<subseteq> set (pending_retransmissions s2)"
    "retransmittable_frames x \<noteq> [] \<longrightarrow> ?n \<in> fst ` set (pending_retransmissions s2)"
    using mark_one_ok [of s1 ?n x] Cons.prems(1,2) n(1) x(1) unfolding s1 by blast
  have "?n \<notin> fst ` set lost" "fst ` set lost \<subseteq> flying ?m" using Cons.prems(3,4) by auto
  moreover have "flying (packet_map s2) = flying ?m - {?n}" using s2(3) by (simp add: evolves_def)
  ultimately have "fst ` set lost \<subseteq> flying (packet_map s2)" by (simp add: subset_Diff_insert)
  moreover have "distinct (map fst lost)" using Cons.prems(3) by simp
  ultimately obtain s' where s': "mark_lost s2 lost = Some s'" "lost_update s2 s'" "evolves (fst ` set lost) {} (packet_map s2) (packet_map s')"
    "pending_ok (packet_map s') (pending_retransmissions s')" "set (pending_retransmissions s2) \<subseteq> set (pending_retransmissions s')"
    "\<forall>k\<in>fst ` set lost. frames_at (info_at (packet_map s2)) k \<noteq> [] \<longrightarrow> k \<in> fst ` set (pending_retransmissions s')"
    using Cons.IH [OF evolves_inv [OF s2(3)] s2(4)] by blast
  have "mark_lost s (p # lost) = mark_one s1 ?n x \<bind> (\<lambda>s. mark_lost s lost)"
    using has by (simp add: s1_def mark_one_def Let_def)
  then have "mark_lost s (p # lost) = Some s'" using s2(1) s'(1) by simp
  moreover have "evolves (fst ` set (p # lost)) {} ?m (packet_map s')" using evolves_trans [OF s2(3) s'(3)] by simp
  moreover have "k \<in> fst ` set (pending_retransmissions s')" if "k \<in> fst ` set (p # lost)" "frames_at (info_at ?m) k \<noteq> []" for k
    using that s2(3,6) s'(5,6) f by (auto simp: evolves_def)
  ultimately show ?case using lost_update_trans [OF lost_update_trans [OF u1 s2(2)] s'(2)] s'(4,5) s2(5) by blast
qed

text \<open>The packets \<open>L\<close> are reported as lost; those with frames wait for their retransmission.\<close>

definition losses :: "sent_packet_manager \<Rightarrow> sent_packet_manager \<Rightarrow> (nat \<times> nat) list \<Rightarrow> bool" where
  "losses s s' L \<longleftrightarrow>
    (\<exists>m p st la l. s' = s\<lparr>packet_map := m, pending_retransmissions := p, connection_stats := st, general_loss_algorithm := la,
       largest_newly_acked := l, packets_lost := L\<rparr> \<and> l \<le> largest_sent_packet (packet_map s)) \<and>
    distinct (map fst L) \<and> (\<forall>(k, b)\<in>set L. b = size_of (packet_map s) k) \<and>
    evolves (fst ` set L) {} (packet_map s) (packet_map s') \<and> pending_ok (packet_map s') (pending_retransmissions s') \<and>
    (\<forall>k\<in>fst ` set L. frames_at (info_at (packet_map s)) k \<noteq> [] \<longrightarrow> k \<in> fst ` set (pending_retransmissions s'))"

lemma InvokeLossDetection_ok:
  assumes "unacked_inv (packet_map s)" "pending_ok (packet_map s) (pending_retransmissions s)" "packets_lost s = []"
    and "largest_newly_acked s \<le> largest_sent_packet (packet_map s)" "fst ` set (packets_acked s) \<subseteq> {..largest_sent_packet (packet_map s)}"
  shows "\<exists>s' L. InvokeLossDetection s time = Some s' \<and> losses s s' L"
proof -
  let ?m = "packet_map s"
  define l where "l = (if packets_acked s \<noteq> [] then fst (last (packets_acked s)) else largest_newly_acked s)"
  have "fst (last (packets_acked s)) \<le> largest_sent_packet ?m" if "packets_acked s \<noteq> []"
  proof -
    have "fst (last (packets_acked s)) \<in> fst ` set (packets_acked s)" using that by simp
    then show ?thesis using assms(5) by blast
  qed
  then have l: "l \<le> largest_sent_packet ?m" using assms(4) by (simp add: l_def)
  obtain la L where L: "DetectLosses (general_loss_algorithm s) ?m time (rtt_state s) l [] = Some (la, L)" "distinct (map fst L)"
    "\<forall>(k, b)\<in>set L. k \<in> flying ?m \<and> b = size_of ?m k" using DetectLosses_flying [OF assms(1) l] by blast
  define s1 where "s1 = s\<lparr>largest_newly_acked := l, general_loss_algorithm := la, packets_lost := L\<rparr>"
  have m1: "packet_map s1 = ?m" "pending_retransmissions s1 = pending_retransmissions s" by (simp_all add: s1_def)
  have "InvokeLossDetection s time = mark_lost s1 L"
    using L(1) assms(3) by (auto simp: InvokeLossDetection_def l_def s1_def Let_def)
  moreover obtain s' where s': "mark_lost s1 L = Some s'" "lost_update s1 s'" "evolves (fst ` set L) {} ?m (packet_map s')"
    "pending_ok (packet_map s') (pending_retransmissions s')"
    "\<forall>k\<in>fst ` set L. frames_at (info_at ?m) k \<noteq> [] \<longrightarrow> k \<in> fst ` set (pending_retransmissions s')"
  proof -
    have "fst ` set L \<subseteq> flying ?m" using L(3) by auto
    then show thesis using mark_lost_ok [of s1 L] assms(1,2) L(2) that unfolding m1 by blast
  qed
  moreover obtain m p st where "s' = s1\<lparr>packet_map := m, pending_retransmissions := p, connection_stats := st\<rparr>"
    using s'(2) by (auto simp: lost_update_def)
  then have "s' = s\<lparr>packet_map := m, pending_retransmissions := p, connection_stats := st, general_loss_algorithm := la,
       largest_newly_acked := l, packets_lost := L\<rparr>" by (simp add: s1_def)
  then have "\<exists>m p st la l. s' = s\<lparr>packet_map := m, pending_retransmissions := p, connection_stats := st, general_loss_algorithm := la,
       largest_newly_acked := l, packets_lost := L\<rparr> \<and> l \<le> largest_sent_packet ?m" using l by blast
  moreover have "\<forall>(k, b)\<in>set L. b = size_of ?m k" using L(3) by auto
  ultimately have "losses s s' L" using L(2) by (simp add: losses_def)
  then show ?thesis using s'(1) \<open>InvokeLossDetection s time = mark_lost s1 L\<close> by auto
qed

section \<open>The invariant\<close>

text \<open>The round trip times stay far below the bounds of 64-bit integers.\<close>

definition rtt_fits :: "rtt_stats \<Rightarrow> bool" where
  "rtt_fits r \<longleftrightarrow> 0 \<le> smoothed_rtt r \<and> smoothed_rtt r \<le> 2 ^ 49 \<and> 0 \<le> latest_rtt r \<and> latest_rtt r \<le> 2 ^ 49 \<and>
     0 < initial_rtt_us r \<and> initial_rtt_us r < 2 ^ 49"

lemma UpdateRtt_fits:
  assumes "rtt_fits r" "d < 2 ^ 48" "0 \<le> a"
  shows "rtt_fits (UpdateRtt r d a now)"
proof (cases "valid_measurement (d, a, now)")
  case False
  then show ?thesis using assms(1) by (simp add: UpdateRtt_invalid)
next
  case True
  define x where "x = corrected_sample (d, a, now)"
  have x: "0 < x" "x \<le> 2 ^ 49 - 1" using True assms(2,3) by (auto simp: x_def corrected_sample_def valid_measurement_def)
  have "0 \<le> smoothed_rtt (UpdateRtt r d a now) \<and> smoothed_rtt (UpdateRtt r d a now) \<le> 2 ^ 49"
  proof (cases "smoothed_rtt r = 0")
    case True
    then show ?thesis using UpdateRtt_first(1) [OF \<open>valid_measurement (d, a, now)\<close> True] x by (simp add: x_def)
  next
    case False
    then have "smoothed_rtt (UpdateRtt r d a now) = (7 * smoothed_rtt r + 4) div 8 + (x + 4) div 8"
      using UpdateRtt_next(1) [OF True False] smoothed_update_eq [of "smoothed_rtt r" x] assms(1) x by (simp add: x_def rtt_fits_def)
    moreover have "0 \<le> (7 * smoothed_rtt r + 4) div 8 + (x + 4) div 8 \<and> (7 * smoothed_rtt r + 4) div 8 + (x + 4) div 8 \<le> 2 ^ 49 - 1 + 1"
      using assms(1) x by (intro smoothed_update_range) (simp_all add: rtt_fits_def)
    ultimately show ?thesis by simp
  qed
  moreover have "initial_rtt_us (UpdateRtt r d a now) = initial_rtt_us r" by (simp add: UpdateRtt_def Let_def)
  ultimately show ?thesis using UpdateRtt_min_latest(2) [OF True, of r] x assms(1) by (simp add: rtt_fits_def x_def)
qed

lemma rtt_fits_ops:
  "rtt_fits RttStats" "rtt_fits r \<Longrightarrow> rtt_fits (ExpireSmoothedMetrics r)" "rtt_fits r \<Longrightarrow> rtt_fits (rtt_OnConnectionMigration r)"
  "rtt_fits r \<Longrightarrow> us < 2 ^ 49 \<Longrightarrow> rtt_fits (set_initial_rtt_us r us)"
  by (auto simp: rtt_fits_def RttStats_def ExpireSmoothedMetrics_def rtt_OnConnectionMigration_def set_initial_rtt_us_def
      kInitialRttMs_def kNumMicrosPerMilli_def)

lemma FromBytesAndTimeDelta_ok:
  assumes "0 < d" "d \<le> 2 ^ 49"
  shows "\<exists>b. FromBytesAndTimeDelta w d = Some b"
proof -
  have "uint (word_of_int d :: uint64) = d" using assms by (simp add: uint_word_of_int)
  then have "(word_of_int d :: uint64) \<noteq> 0" using assms(1) by auto
  then show ?thesis by (simp add: FromBytesAndTimeDelta_def)
qed

lemma bandwidths_ok:
  assumes "rtt_fits r"
  shows "\<exists>b. BandwidthEstimate r alg = Some b" "\<exists>b. PacingRate r alg = Some b" "\<exists>b. pacing_PacingRate r ps alg = Some b"
proof -
  show "\<exists>b. BandwidthEstimate r alg = Some b"
    using FromBytesAndTimeDelta_ok [of "smoothed_rtt r"] assms by (auto simp: BandwidthEstimate_def rtt_fits_def)
  have "\<exists>b. FromBytesAndTimeDelta w (if smoothed_rtt r = 0 then initial_rtt_us r else smoothed_rtt r) = Some b" for w
    using FromBytesAndTimeDelta_ok assms by (auto simp: rtt_fits_def)
  then obtain b where "FromBytesAndTimeDelta (congestion_window alg) (if smoothed_rtt r = 0 then initial_rtt_us r else smoothed_rtt r) = Some b"
    by blast
  then show p: "\<exists>b. PacingRate r alg = Some b" by (simp add: PacingRate_def Let_def)
  then show "\<exists>b. pacing_PacingRate r ps alg = Some b" by (auto simp: pacing_PacingRate_def)
qed

definition manager_inv :: "sent_packet_manager \<Rightarrow> bool" where
  "manager_inv s \<longleftrightarrow> unacked_inv (packet_map s) \<and> pending_ok (packet_map s) (pending_retransmissions s) \<and>
     packets_acked s = [] \<and> packets_lost s = [] \<and> largest_newly_acked s \<le> largest_sent_packet (packet_map s) \<and> rtt_fits (rtt_state s)"

text \<open>What the connection ensures of a frame: it does not acknowledge a packet that was not sent, and the times
  are less than \<open>2 ^ 48\<close> microseconds apart.\<close>

definition ack_allowed :: "sent_packet_manager \<Rightarrow> ack_frame \<Rightarrow> QuicTime \<Rightarrow> bool" where
  "ack_allowed s frame receive_time \<longleftrightarrow>
     unat (ack_frame.largest_observed frame) \<le> largest_sent_packet (packet_map s) \<and> 0 \<le> ack_delay_time frame \<and>
     (case GetTransmissionInfo (packet_map s) (unat (ack_frame.largest_observed frame)) of
        None \<Rightarrow> True | Some info \<Rightarrow> receive_time - sent_time info < 2 ^ 48)"

lemma IsUnacked_ok: "unacked_inv m \<Longrightarrow> \<exists>b. IsUnacked m n = Some b \<and> (b \<longrightarrow> tracked m n)"
proof -
  assume inv: "unacked_inv m"
  then have a: "add64 (least_unacked m) (length (unacked_packets m)) = Suc (largest_sent_packet m)"
    by (subst add64_id) (auto simp: unacked_inv_def map_inv_def)
  show ?thesis
  proof (cases "tracked m n")
    case True
    then obtain x where "GetTransmissionInfo m n = Some x" by (rule tracked_info [OF inv])
    then show ?thesis using True by (intro exI [of _ "\<not> IsPacketUseless m n x"]) (simp add: IsUnacked_def a tracked_def)
  next
    case False
    then have "n < least_unacked m \<or> n \<ge> Suc (largest_sent_packet m)" by (auto simp: tracked_def)
    then show ?thesis by (intro exI [of _ False]) (simp add: IsUnacked_def a)
  qed
qed

lemma MaybeUpdateRTT_ok:
  assumes "manager_inv s" "ack_allowed s frame receive_time"
  shows "\<exists>rtt b. MaybeUpdateRTT s frame receive_time = Some (s\<lparr>rtt_state := rtt\<rparr>, b) \<and> rtt_fits rtt"
proof -
  let ?m = "packet_map s" and ?n = "unat (ack_frame.largest_observed frame)"
  have inv: "unacked_inv ?m" "rtt_fits (rtt_state s)" using assms(1) by (auto simp: manager_inv_def)
  obtain b where b: "IsUnacked ?m ?n = Some b" "b \<longrightarrow> tracked ?m ?n" using IsUnacked_ok [OF inv(1)] by blast
  have same: "s = s\<lparr>rtt_state := rtt_state s\<rparr>" by simp
  show ?thesis
  proof (cases b)
    case False
    then show ?thesis using b(1) inv(2) same by (intro exI [of _ "rtt_state s"] exI [of _ False]) (simp add: MaybeUpdateRTT_def Let_def)
  next
    case True
    then obtain x where x: "GetTransmissionInfo ?m ?n = Some x" using tracked_info [OF inv(1)] b(2) by blast
    show ?thesis
    proof (cases "sent_time x = 0")
      case True
      then show ?thesis using b(1) \<open>b\<close> x inv(2)
        by (intro exI [of _ "rtt_state s"] exI [of _ False]) (simp add: MaybeUpdateRTT_def Let_def)
    next
      case False
      have "rtt_fits (UpdateRtt (rtt_state s) (receive_time - sent_time x) (ack_delay_time frame) receive_time)"
        using UpdateRtt_fits [OF inv(2)] assms(2) x by (simp add: ack_allowed_def)
      then show ?thesis using b(1) \<open>b\<close> x False
        by (intro exI [of _ "UpdateRtt (rtt_state s) (receive_time - sent_time x) (ack_delay_time frame) receive_time"] exI [of _ True])
           (simp add: MaybeUpdateRTT_def Let_def)
    qed
  qed
qed

lemma UpdatePacketInformationReceivedByPeer_ok:
  "\<exists>k. UpdatePacketInformationReceivedByPeer s frame = Some (s\<lparr>least_packet_awaited_by_peer := k\<rparr>)"
  by (cases "pnq_Empty (packets frame)")
     (auto simp: UpdatePacketInformationReceivedByPeer_def pnq_Min_def)

lemma observed_evolves:
  assumes "unacked_inv m"
  shows "unacked_inv (IncreaseLargestObserved m n)" "info_at (IncreaseLargestObserved m n) = info_at m"
    "flying (IncreaseLargestObserved m n) = flying m" "size_of (IncreaseLargestObserved m n) = size_of m"
    "handshakes (IncreaseLargestObserved m n) = handshakes m" "bytes_in_flight (IncreaseLargestObserved m n) = bytes_in_flight m"
proof -
  show i: "info_at (IncreaseLargestObserved m n) = info_at m" by (rule info_at_cong) (simp_all add: IncreaseLargestObserved_def)
  show "unacked_inv (IncreaseLargestObserved m n)"
    using map_inv_frame [OF assms [unfolded unacked_inv_def], of "IncreaseLargestObserved m n"]
    by (simp add: unacked_inv_def IncreaseLargestObserved_def)
  show "flying (IncreaseLargestObserved m n) = flying m" "size_of (IncreaseLargestObserved m n) = size_of m"
    "handshakes (IncreaseLargestObserved m n) = handshakes m" unfolding flying_def size_of_def [abs_def] handshakes_def i by simp_all
  show "bytes_in_flight (IncreaseLargestObserved m n) = bytes_in_flight m" by (simp add: IncreaseLargestObserved_def)
qed

text \<open>What is collected of an acknowledgement: the packets acknowledged and lost, and those that leave the flight
  besides.\<close>

definition ack_collected :: "bool \<Rightarrow> sent_packet_manager \<Rightarrow> ack_frame \<Rightarrow> sent_packet_manager \<Rightarrow> nat set \<Rightarrow> bool" where
  "ack_collected skip_early s frame s' C \<longleftrightarrow>
     acks skip_early frame (packet_map s) (least_unacked (packet_map s)) (packets_acked s') C \<and>
     distinct (map fst (packets_lost s')) \<and> (\<forall>(k, b)\<in>set (packets_lost s'). b = size_of (packet_map s) k) \<and>
     (\<forall>k\<in>fst ` set (packets_lost s'). frames_at (info_at (packet_map s')) k \<noteq> [] \<longrightarrow> k \<in> fst ` set (pending_retransmissions s')) \<and>
     (\<exists>F. evolves (fst ` set (packets_acked s') \<union> C \<union> fst ` set (packets_lost s')) F
        (IncreaseLargestObserved (packet_map s) (unat (ack_frame.largest_observed frame))) (packet_map s')) \<and>
     fst ` set (packets_lost s') \<inter> (fst ` set (packets_acked s') \<union> C) = {}"

definition ack_processed :: "sent_packet_manager \<Rightarrow> sent_packet_manager \<Rightarrow> bool" where
  "ack_processed s s' \<longleftrightarrow> pending_ok (packet_map s') (pending_retransmissions s') \<and> rtt_fits (rtt_state s') \<and>
     largest_newly_acked s' \<le> largest_sent_packet (packet_map s)"

lemma process_ack_ok:
  assumes "manager_inv s" "ack_allowed s frame receive_time"
  shows "\<exists>s' b calls C. process_ack fx skip_early s frame receive_time now = Some (s', b, calls) \<and>
    ack_collected skip_early s frame s' C \<and> ack_processed s s'"
proof -
  let ?m = "packet_map s" and ?lo = "unat (ack_frame.largest_observed frame)"
  have inv: "unacked_inv ?m" "pending_ok ?m (pending_retransmissions s)" "packets_acked s = []" "packets_lost s = []"
    "largest_newly_acked s \<le> largest_sent_packet ?m" using assms(1) by (auto simp: manager_inv_def)
  let ?o = "IncreaseLargestObserved ?m ?lo"
  note o = observed_evolves [OF inv(1), of ?lo]
  have o': "least_unacked ?o = least_unacked ?m" "largest_sent_packet ?o = largest_sent_packet ?m" "unacked_packets ?o = unacked_packets ?m"
    by (simp_all add: IncreaseLargestObserved_def)
  obtain a where a: "UpdatePacketInformationReceivedByPeer s frame = Some (s\<lparr>least_packet_awaited_by_peer := a\<rparr>)"
    using UpdatePacketInformationReceivedByPeer_ok by blast
  let ?s1 = "s\<lparr>least_packet_awaited_by_peer := a\<rparr>"
  have "manager_inv ?s1" "ack_allowed ?s1 frame receive_time" using assms by (simp_all add: manager_inv_def ack_allowed_def)
  then obtain rtt b where r: "MaybeUpdateRTT ?s1 frame receive_time = Some (?s1\<lparr>rtt_state := rtt\<rparr>, b)" "rtt_fits rtt"
    using MaybeUpdateRTT_ok by blast
  define s2 where "s2 = s\<lparr>least_packet_awaited_by_peer := a, rtt_state := rtt, packet_map := ?o\<rparr>"
  have s2: "packet_map s2 = ?o" "pending_retransmissions s2 = pending_retransmissions s" "packets_acked s2 = []" "packets_lost s2 = []"
    "largest_newly_acked s2 = largest_newly_acked s" "rtt_state s2 = rtt" using inv(3,4) by (simp_all add: s2_def)
  have p2: "pending_ok ?o (pending_retransmissions s)" using inv(2) by (simp add: pending_ok_def o)
  have len: "least_unacked ?m + length (unacked_packets ?m) = Suc (largest_sent_packet ?m)" using inv(1) by (simp add: unacked_inv_def map_inv_def)
  obtain s3 calls A C F where s3: "HandleAckForSentPackets fx skip_early s2 frame now = Some (s3, calls)" "ack_update s2 A s3"
    "acks skip_early frame ?o (least_unacked ?m) A C" "evolves (fst ` set A \<union> C) F ?o (packet_map s3)"
    "pending_ok (packet_map s3) (pending_retransmissions s3)"
    using ack_packets_ok [of s2 "least_unacked ?m" "length (unacked_packets ?m)" fx skip_early frame now] o(1) p2 len
    by (auto simp: HandleAckForSentPackets_def s2 o')
  have u3: "packets_acked s3 = A" "packets_lost s3 = []" "rtt_state s3 = rtt" "largest_newly_acked s3 \<le> largest_sent_packet ?m"
    using s3(2) inv(5) by (auto simp: ack_update_def s2 o')
  have m3: "unacked_inv (packet_map s3)" "largest_sent_packet (packet_map s3) = largest_sent_packet ?m"
    using s3(4) o'(2) by (auto simp: evolves_def observed_same_def)
  have "fst ` set A \<subseteq> {..largest_sent_packet ?m}"
    using s3(4) flying_tracked [OF o(1)] o'(2) by (auto simp: evolves_def tracked_def)
  then obtain s4 L where s4: "InvokeLossDetection s3 receive_time = Some s4" and "losses s3 s4 L"
    using InvokeLossDetection_ok [OF m3(1) s3(5) u3(2), of receive_time, unfolded u3(1) m3(2), OF u3(4)] by blast
  note L = this(2) [unfolded losses_def m3(2)]
  have u4: "packets_acked s4 = A" "packets_lost s4 = L" "rtt_state s4 = rtt" "largest_newly_acked s4 \<le> largest_sent_packet ?m"
    using L u3 by auto
  have run: "process_ack fx skip_early s frame receive_time now = Some (s4, b, calls)"
    using a r(1) s3(1) s4 unfolding process_ack_def s2_def by (simp add: Let_def)
  have e4: "evolves (fst ` set L) {} (packet_map s3) (packet_map s4)" using L by simp
  have "evolves (fst ` set A \<union> C \<union> fst ` set L) (F \<union> {}) ?o (packet_map s4)" by (rule evolves_trans [OF s3(4) e4])
  moreover have "fst ` set L \<inter> (fst ` set A \<union> C) = {}" using s3(4) e4 by (auto simp: evolves_def)
  moreover have "acks skip_early frame ?m (least_unacked ?m) A C" using s3(3) by (simp add: acks_def o)
  moreover have "size_of (packet_map s3) = size_of ?m" "frames_at (info_at (packet_map s4)) = frames_at (info_at (packet_map s3))"
    using s3(4) e4 o(4) by (simp_all add: evolves_def)
  ultimately have "ack_collected skip_early s frame s4 C" using L unfolding ack_collected_def u4 by auto
  moreover have "ack_processed s s4" using L r(2) u4 by (simp add: ack_processed_def)
  ultimately show ?thesis using run by blast
qed

section \<open>The operations keep the invariant\<close>

lemma congestion_event_fields:
  "MaybeInvokeCongestionEvent s b prior time = (s', calls) \<Longrightarrow>
   packet_map s' = packet_map s \<and> pending_retransmissions s' = pending_retransmissions s \<and> rtt_state s' = rtt_state s \<and>
   largest_newly_acked s' = largest_newly_acked s \<and> packets_acked s' = [] \<and> packets_lost s' = []"
  by (auto simp: MaybeInvokeCongestionEvent_def Let_def split: if_splits prod.splits)

lemma trimmed_ok:
  assumes "unacked_inv m" "pending_ok m pending"
  shows "unacked_inv (RemoveObsoletePackets m)" "pending_ok (RemoveObsoletePackets m) pending" "flying (RemoveObsoletePackets m) = flying m"
    "largest_sent_packet (RemoveObsoletePackets m) = largest_sent_packet m" "bytes_in_flight (RemoveObsoletePackets m) = bytes_in_flight m"
proof -
  let ?m = "RemoveObsoletePackets m"
  note ro = RemoveObsoletePackets_ok [OF assms(1) [unfolded unacked_inv_def]]
  then show u: "largest_sent_packet ?m = largest_sent_packet m" by (simp add: observed_same_def)
  show inv: "unacked_inv ?m" using ro u by (simp add: unacked_inv_def)
  have k: "keeps (info_at m) (info_at ?m)" using ro trimmed_keeps by blast
  have "flight_inv (info_at m) (\<lambda>n. map_option bytes_sent (info_at m n)) (flying m)" by (auto simp: flight_inv_def flying_def)
  note fl = this flight_inv_keeps [OF this k]
  show f: "flying ?m = flying m" using fl(2) by (auto simp: flight_inv_def flying_def)
  show "pending_ok ?m pending" using assms(2) trimmed_frames [of m ?m] ro f by (simp add: pending_ok_def)
  show "bytes_in_flight ?m = bytes_in_flight m" using flight_bytes [OF assms(1) fl(1)] flight_bytes [OF inv fl(2)] by simp
qed

lemma undo_pending_ok:
  "unacked_inv m \<Longrightarrow> pending_ok m pending \<Longrightarrow>
   \<exists>m' pending'. undo_pending l m pending = Some (m', pending') \<and> unacked_inv m' \<and> pending_ok m' pending' \<and>
     largest_sent_packet m' = largest_sent_packet m"
proof (induction l m pending rule: undo_pending.induct)
  case (2 l m n t pending)
  show ?case
  proof (cases "n > l \<and> t = LOSS_RETRANSMISSION")
    case True
    have n: "tracked m n" "n \<notin> flying m" using frames_tracked [OF 2(2), of n] 2(3) True by (auto simp: pending_ok_def)
    obtain x where x: "info_at m n = Some x" by (rule tracked_info [OF 2(2) n(1)])
    then have "\<not> in_flight x" using n(2) by (auto simp: flying_def)
    then obtain m' where m': "RestoreToInFlight m n = Some m'" "unacked_inv m'" "info_at m' = (info_at m)(n \<mapsto> x\<lparr>in_flight := True\<rparr>)"
      using RestoreToInFlight_ok [OF 2(2) n(1) x] by blast
    have "largest_sent_packet m' = largest_sent_packet m"
      using m'(1) by (auto simp: RestoreToInFlight_def set_info_def bind_eq_Some_conv)
    moreover have f: "flying m' = insert n (flying m)" "frames_at (info_at m') = frames_at (info_at m)"
      using m'(3) x by (auto simp: flying_def frames_at_def)
    have "n \<notin> fst ` set pending" "pending_ok m pending" using 2(3) by (auto simp: pending_ok_def)
    then have "fst p \<noteq> n \<and> frames_at (info_at m) (fst p) \<noteq> [] \<and> (snd p = LOSS_RETRANSMISSION \<longrightarrow> fst p \<notin> flying m)" if "p \<in> set pending" for p
      using that by (cases p) (auto simp: pending_ok_def image_iff)
    then have "pending_ok m' pending" using \<open>pending_ok m pending\<close> by (simp add: pending_ok_def f split_beta)
    ultimately show ?thesis using 2(1) [OF True m'(1,2)] m'(1) True by simp
  next
    case False
    then show ?thesis using 2(2,3) by auto
  qed
qed simp

lemma reset_backoff_fields:
  "packet_map (reset_backoff s frame) = packet_map s" "pending_retransmissions (reset_backoff s frame) = pending_retransmissions s"
  "packets_acked (reset_backoff s frame) = packets_acked s" "packets_lost (reset_backoff s frame) = packets_lost s"
  "largest_newly_acked (reset_backoff s frame) = largest_newly_acked s"
  "rtt_fits (rtt_state s) \<Longrightarrow> rtt_fits (rtt_state (reset_backoff s frame))"
  by (simp_all add: reset_backoff_def Let_def rtt_fits_ops(2))

lemma OnIncomingAck_inv:
  assumes "manager_inv s" "ack_allowed s frame receive_time"
  shows "\<exists>s' calls. OnIncomingAck fx skip_early s frame receive_time now wall = Some (s', calls) \<and> manager_inv s'"
proof -
  obtain s1 b calls C where s1: "process_ack fx skip_early s frame receive_time now = Some (s1, b, calls)"
    "ack_collected skip_early s frame s1 C" "ack_processed s s1" using process_ack_ok [OF assms] by blast
  have u: "unacked_inv (packet_map s1)" "largest_sent_packet (packet_map s1) = largest_sent_packet (packet_map s)"
    using s1(2) by (auto simp: ack_collected_def evolves_def observed_same_def IncreaseLargestObserved_def)
  have p: "pending_ok (packet_map s1) (pending_retransmissions s1)" "rtt_fits (rtt_state s1)"
    "largest_newly_acked s1 \<le> largest_sent_packet (packet_map s)" using s1(3) by (simp_all add: ack_processed_def)
  define s2 where "s2 = (if consecutive_rto_count s1 > 0 \<and> \<not> use_new_rto s1 then s1\<lparr>packets_lost := []\<rparr> else s1)"
  obtain s3 calls' where s3: "MaybeInvokeCongestionEvent s2 b (bytes_in_flight (packet_map s)) receive_time = (s3, calls')"
    using prod.exhaust by blast
  have f3: "packet_map s3 = packet_map s1" "pending_retransmissions s3 = pending_retransmissions s1" "rtt_state s3 = rtt_state s1"
    "largest_newly_acked s3 = largest_newly_acked s1" "packets_acked s3 = []" "packets_lost s3 = []"
    using congestion_event_fields [OF s3] by (auto simp: s2_def)
  define s4 where "s4 = s3\<lparr>packet_map := RemoveObsoletePackets (packet_map s3)\<rparr>"
  obtain bw where bw: "BandwidthEstimate (rtt_state s4) (send_algorithm s4) = Some bw"
    using bandwidths_ok(1) [of "rtt_state s4"] p(2) by (auto simp: s4_def f3)
  define s5 where "s5 = s4\<lparr>sustained_bandwidth_recorder := RecordEstimate (sustained_bandwidth_recorder s4) (InRecovery (send_algorithm s4))
    (InSlowStart (send_algorithm s4)) bw receive_time wall (smoothed_rtt (rtt_state s4))\<rparr>"
  define s6 where "s6 = (if b then reset_backoff s5 frame else s5)"
  note tr = trimmed_ok [OF u(1) p(1)]
  have f6: "packet_map s6 = RemoveObsoletePackets (packet_map s1)" "pending_retransmissions s6 = pending_retransmissions s1"
    "packets_acked s6 = []" "packets_lost s6 = []" "largest_newly_acked s6 = largest_newly_acked s1" "rtt_fits (rtt_state s6)"
    using p(2) f3 by (auto simp: s6_def s5_def s4_def reset_backoff_fields)
  obtain m pending where m: "(if undo_pending_retransmits s6 then undo_pending (largest_newly_acked s6) (packet_map s6) (pending_retransmissions s6)
      else Some (packet_map s6, pending_retransmissions s6)) = Some (m, pending)" "unacked_inv m" "pending_ok m pending"
    "largest_sent_packet m = largest_sent_packet (packet_map s)"
    using undo_pending_ok [OF tr(1,2), of "largest_newly_acked s6"] tr(1,2,4) u(2) unfolding f6 by (cases "undo_pending_retransmits s6") auto
  have "OnIncomingAck fx skip_early s frame receive_time now wall =
      (if undo_pending_retransmits s6 then undo_pending (largest_newly_acked s6) (packet_map s6) (pending_retransmissions s6)
       else Some (packet_map s6, pending_retransmissions s6)) \<bind>
      (\<lambda>(m, pending). Some (s6\<lparr>packet_map := m, pending_retransmissions := pending\<rparr>, calls @ calls'))"
    using s1(1) s3 bw by (simp add: OnIncomingAck_def Let_def s2_def s4_def s5_def s6_def)
  then have "OnIncomingAck fx skip_early s frame receive_time now wall =
      Some (s6\<lparr>packet_map := m, pending_retransmissions := pending\<rparr>, calls @ calls')"
    unfolding m(1) by simp
  moreover have "manager_inv (s6\<lparr>packet_map := m, pending_retransmissions := pending\<rparr>)"
    using m(2-4) f6 p(3) by (simp add: manager_inv_def)
  ultimately show ?thesis by blast
qed

text \<open>A loop over the packets.\<close>

lemma for_packets_ok:
  assumes step: "\<And>n s x. I n s \<Longrightarrow> tracked (packet_map s) n \<Longrightarrow> info_at (packet_map s) n = Some x \<Longrightarrow> P s x \<Longrightarrow> \<exists>s'. f s n = Some s' \<and> I (Suc n) s'"
    and skip: "\<And>n s x. I n s \<Longrightarrow> info_at (packet_map s) n = Some x \<Longrightarrow> \<not> P s x \<Longrightarrow> I (Suc n) s"
    and inv: "\<And>n s. I n s \<Longrightarrow> unacked_inv (packet_map s) \<and> least_unacked (packet_map s) = l \<and> largest_sent_packet (packet_map s) = u"
  shows "I n s \<Longrightarrow> l \<le> n \<Longrightarrow> n + k = Suc u \<Longrightarrow> \<exists>s'. for_packets P f k s n = Some s' \<and> I (Suc u) s'"
proof (induction k arbitrary: n s)
  case 0
  then show ?case by simp
next
  case (Suc k)
  have i: "unacked_inv (packet_map s)" "tracked (packet_map s) n" "n \<le> largest_sent_packet (packet_map s)"
    using inv [OF Suc.prems(1)] Suc.prems(2,3) by (auto simp: tracked_def)
  obtain x where x: "info_at (packet_map s) n = Some x" "GetTransmissionInfo (packet_map s) n = Some x" by (rule tracked_info [OF i(1,2)])
  obtain s' where s': "(if P s x then f s n else Some s) = Some s'" "I (Suc n) s'"
    using step [OF Suc.prems(1) i(2) x(1)] skip [OF Suc.prems(1) x(1)] by (cases "P s x") auto
  have "\<exists>s''. for_packets P f k s' (Suc n) = Some s'' \<and> I (Suc u) s''" using Suc.IH [OF s'(2)] Suc.prems(2,3) by simp
  then show ?case using x(2) s'(1) tracked_Suc [OF i(1,3)] by simp
qed

lemma for_all_packets_ok:
  assumes "unacked_inv (packet_map s)" "I (least_unacked (packet_map s)) s"
    and "\<And>n s x. I n s \<Longrightarrow> tracked (packet_map s) n \<Longrightarrow> info_at (packet_map s) n = Some x \<Longrightarrow> P s x \<Longrightarrow> \<exists>s'. f s n = Some s' \<and> I (Suc n) s'"
    and "\<And>n s x. I n s \<Longrightarrow> info_at (packet_map s) n = Some x \<Longrightarrow> \<not> P s x \<Longrightarrow> I (Suc n) s"
    and "\<And>n s'. I n s' \<Longrightarrow> unacked_inv (packet_map s') \<and> least_unacked (packet_map s') = least_unacked (packet_map s) \<and>
        largest_sent_packet (packet_map s') = largest_sent_packet (packet_map s)"
  shows "\<exists>s'. for_all_packets P f s = Some s' \<and> I (Suc (largest_sent_packet (packet_map s))) s'"
proof -
  have "least_unacked (packet_map s) + length (unacked_packets (packet_map s)) = Suc (largest_sent_packet (packet_map s))"
    using assms(1) by (simp add: unacked_inv_def map_inv_def)
  then show ?thesis unfolding for_all_packets_def
    by (intro for_packets_ok [where I = I and l = "least_unacked (packet_map s)", OF assms(3-5) assms(2)]) auto
qed

text \<open>The state of a loop that retransmits or abandons packets.\<close>

definition sweeps :: "sent_packet_manager \<Rightarrow> sent_packet_manager \<Rightarrow> bool" where
  "sweeps s s' \<longleftrightarrow> manager_inv s' \<and> (\<exists>D F. evolves D F (packet_map s) (packet_map s'))"

lemma sweeps_inv:
  "sweeps s s' \<Longrightarrow> unacked_inv (packet_map s') \<and> least_unacked (packet_map s') = least_unacked (packet_map s) \<and>
     largest_sent_packet (packet_map s') = largest_sent_packet (packet_map s)"
  by (auto simp: sweeps_def manager_inv_def evolves_def observed_same_def)

lemma sweeps_refl: "manager_inv s \<Longrightarrow> sweeps s s"
  using evolves_refl by (auto simp: sweeps_def manager_inv_def)

lemma sweeps_step:
  assumes "sweeps s s'" "evolves D F (packet_map s') m" "pending_ok m pending"
  shows "sweeps s (s'\<lparr>packet_map := m, pending_retransmissions := pending\<rparr>)"
proof -
  obtain D' F' where "evolves D' F' (packet_map s) (packet_map s')" using assms(1) by (auto simp: sweeps_def)
  then have "evolves (D' \<union> D) (F' \<union> F) (packet_map s) m" by (rule evolves_trans [OF _ assms(2)])
  moreover have "largest_sent_packet m = largest_sent_packet (packet_map s')" using assms(2) by (simp add: evolves_def observed_same_def)
  ultimately show ?thesis using assms evolves_inv [OF assms(2)] by (auto simp: sweeps_def manager_inv_def)
qed

lemma sweeps_fields:
  "sweeps s s' \<Longrightarrow> sweeps s (s'\<lparr>pending_timer_transmission_count := c\<rparr>)"
  by (simp add: sweeps_def manager_inv_def)

lemma sweeps_mark:
  assumes "sweeps s s'" "info_at (packet_map s') n = Some x" "retransmittable_frames x \<noteq> []"
  shows "\<exists>s''. MarkForRetransmission s' n t = Some s'' \<and> sweeps s s''"
proof -
  have "unacked_inv (packet_map s')" "pending_ok (packet_map s') (pending_retransmissions s')"
    using assms(1) by (auto simp: sweeps_def manager_inv_def)
  moreover have "frames_at (info_at (packet_map s')) n \<noteq> []" using assms(2,3) by (simp add: frames_at_def)
  ultimately obtain m pending where "MarkForRetransmission s' n t = Some (s'\<lparr>packet_map := m, pending_retransmissions := pending\<rparr>)"
    "evolves (if t = TLP_RETRANSMISSION \<or> t = RTO_RETRANSMISSION then {} else {n} \<inter> flying (packet_map s')) {} (packet_map s') m" "pending_ok m pending"
    using MarkForRetransmission_ok [of s' n t] by blast
  then show ?thesis using sweeps_step [OF assms(1)] by blast
qed

lemma RetransmitUnackedPackets_inv:
  assumes "manager_inv s"
  shows "\<exists>s'. RetransmitUnackedPackets s t = Some s' \<and> sweeps s s'"
  unfolding RetransmitUnackedPackets_def
  by (rule for_all_packets_ok [where I = "\<lambda>n. sweeps s"])
     (use assms sweeps_refl sweeps_mark sweeps_inv in \<open>auto simp: manager_inv_def\<close>)

lemma sweeps_neuter:
  assumes "sweeps s s'" "tracked (packet_map s') n" "info_at (packet_map s') n = Some x" "retransmittable_frames x \<noteq> []"
  shows "\<exists>s''. neuter_packet s' n = Some s'' \<and> sweeps s s''"
proof -
  let ?m = "packet_map s'" and ?p = "erase_pending n (pending_retransmissions s')"
  have inv: "unacked_inv ?m" "pending_ok ?m (pending_retransmissions s')" using assms(1) by (auto simp: sweeps_def manager_inv_def)
  have "info_ok (largest_sent_packet ?m) n x" using tracked_info [OF inv(1) assms(2)] assms(3) by auto
  then have "newest ?m n = n" using assms(3,4) by (subst newest.simps) (auto simp: info_ok_def)
  moreover obtain m1 where m1: "RemoveFromInFlight ?m n = Some m1" "evolves ({n} \<inter> flying ?m) {} ?m m1" "newest m1 = newest ?m"
    using RemoveFromInFlight_evolves [OF inv(1) assms(2)] by blast
  ultimately obtain m2 where m2: "RemoveRetransmittability m1 n = Some m2" "evolves {} {n} m1 m2"
    using RemoveRetransmittability_evolves [OF evolves_inv [OF m1(2)], of n] evolves_tracked [OF m1(2)] assms(2) by auto
  note e = evolves_trans [OF m1(2) m2(2)]
  have "pending_ok m2 ?p" by (rule pending_ok_evolves [OF pending_ok_erase [OF inv(2)] e]) (use erased_pending in auto)
  then have "sweeps s (s'\<lparr>packet_map := m2, pending_retransmissions := ?p\<rparr>)" by (rule sweeps_step [OF assms(1) e])
  moreover have "neuter_packet s' n = Some (s'\<lparr>packet_map := m2, pending_retransmissions := ?p\<rparr>)"
    using m1(1) m2(1) by (simp add: neuter_packet_def)
  ultimately show ?thesis by blast
qed

lemma NeuterUnencryptedPackets_inv:
  assumes "manager_inv s"
  shows "\<exists>s'. NeuterUnencryptedPackets s = Some s' \<and> sweeps s s'"
  unfolding NeuterUnencryptedPackets_def
  by (rule for_all_packets_ok [where I = "\<lambda>n. sweeps s"])
     (use assms sweeps_refl sweeps_neuter sweeps_inv in \<open>auto simp: manager_inv_def\<close>)

lemma RetransmitCryptoPackets_inv:
  assumes "manager_inv s"
  shows "\<exists>s'. RetransmitCryptoPackets s = Some s' \<and> manager_inv s'"
proof -
  let ?s = "s\<lparr>consecutive_crypto_retransmission_count := add64 (consecutive_crypto_retransmission_count s) 1\<rparr>"
  have inv: "manager_inv ?s" using assms by (simp add: manager_inv_def)
  have "\<exists>s''. retransmit_crypto s' n = Some s'' \<and> sweeps ?s s''"
    if s': "sweeps ?s s'" "info_at (packet_map s') n = Some x" "retransmittable_frames x \<noteq> []" for s' n x
    using sweeps_mark [OF s', of HANDSHAKE_RETRANSMISSION] sweeps_fields by (auto simp: retransmit_crypto_def)
  then have "\<exists>s'. RetransmitCryptoPackets s = Some s' \<and> sweeps ?s s'"
    unfolding RetransmitCryptoPackets_def
    by (intro for_all_packets_ok [where I = "\<lambda>n. sweeps ?s"])
       (use inv sweeps_refl [OF inv] sweeps_inv [of ?s] in \<open>auto simp: manager_inv_def\<close>)
  then show ?thesis by (auto simp: sweeps_def)
qed

lemma retransmit_probe_ok:
  "manager_inv s \<Longrightarrow> least_unacked (packet_map s) \<le> n \<Longrightarrow> n + k = Suc (largest_sent_packet (packet_map s)) \<Longrightarrow>
   \<exists>s' b. retransmit_probe k s n = Some (s', b) \<and> manager_inv s'"
proof (induction k arbitrary: n)
  case (Suc k)
  have i: "unacked_inv (packet_map s)" "tracked (packet_map s) n" "n \<le> largest_sent_packet (packet_map s)"
    using Suc.prems by (auto simp: tracked_def manager_inv_def)
  obtain x where x: "info_at (packet_map s) n = Some x" "GetTransmissionInfo (packet_map s) n = Some x" by (rule tracked_info [OF i(1,2)])
  show ?case
  proof (cases "\<not> in_flight x \<or> retransmittable_frames x = []")
    case True
    then show ?thesis using Suc x(2) tracked_Suc [OF i(1,3)] by simp
  next
    case False
    then obtain s' where "MarkForRetransmission s n TLP_RETRANSMISSION = Some s'" "sweeps s s'"
      using sweeps_mark [OF sweeps_refl [OF Suc.prems(1)] x(1)] by blast
    then show ?thesis using False x(2) by (auto simp: sweeps_def)
  qed
qed auto

lemma MaybeRetransmitTailLossProbe_inv:
  assumes "manager_inv s"
  shows "\<exists>s' b. MaybeRetransmitTailLossProbe s = Some (s', b) \<and> manager_inv s'"
proof -
  have "least_unacked (packet_map s) + length (unacked_packets (packet_map s)) = Suc (largest_sent_packet (packet_map s))"
    using assms by (simp add: manager_inv_def unacked_inv_def map_inv_def)
  then show ?thesis using retransmit_probe_ok [OF assms le_refl] assms by (auto simp: MaybeRetransmitTailLossProbe_def)
qed

section \<open>Retransmission timeouts\<close>

text \<open>The packets with frames below \<open>n\<close>, the oldest first; the entries that some packets add to the queue,
  which holds a packet only once; and the state of the loop before packet \<open>n\<close>.\<close>

definition framed :: "unacked_packet_map \<Rightarrow> nat \<Rightarrow> nat list" where
  "framed m n = filter (\<lambda>k. frames_at (info_at m) k \<noteq> []) [0..<n]"

definition newly_queued :: "(nat \<times> TransmissionType) list \<Rightarrow> TransmissionType \<Rightarrow> nat list \<Rightarrow> (nat \<times> TransmissionType) list" where
  "newly_queued pending t ns = map (\<lambda>k. (k, t)) (filter (\<lambda>k. k \<notin> fst ` set pending) ns)"

definition rto_state :: "sent_packet_manager \<Rightarrow> nat \<Rightarrow> sent_packet_manager \<Rightarrow> bool" where
  "rto_state s n s' \<longleftrightarrow> manager_inv s' \<and> link_of (packet_map s') = link_of (packet_map s) \<and>
     (\<exists>D. evolves D {} (packet_map s) (packet_map s') \<and>
        D = {k \<in> flying (packet_map s). k < n \<and> frames_at (info_at (packet_map s)) k = [] \<and> link_of (packet_map s) k = Some 0}) \<and>
     pending_timer_transmission_count s' = min kMaxRetransmissionsOnTimeout (length (framed (packet_map s) n)) \<and>
     pending_retransmissions s' = pending_retransmissions s @
       newly_queued (pending_retransmissions s) RTO_RETRANSMISSION (take kMaxRetransmissionsOnTimeout (framed (packet_map s) n)) \<and>
     consecutive_rto_count s' = consecutive_rto_count s \<and> first_rto_transmission s' = first_rto_transmission s"

lemma framed_Suc: "framed m (Suc n) = framed m n @ (if frames_at (info_at m) n \<noteq> [] then [n] else [])"
  by (simp add: framed_def)

lemma framed_less: "n \<notin> set (framed m n)"
  by (simp add: framed_def)

lemma newly_queued_append: "newly_queued p t (xs @ ys) = newly_queued p t xs @ newly_queued p t ys"
  by (simp add: newly_queued_def)

lemma queued_iff: "k \<in> fst ` set (p @ newly_queued p t ns) \<longleftrightarrow> k \<in> fst ` set p \<or> k \<in> set ns"
proof -
  have "fst ` set (newly_queued p t ns) = {k \<in> set ns. k \<notin> fst ` set p}" by (auto simp: newly_queued_def image_image)
  then show ?thesis unfolding set_append image_Un by blast
qed

lemma queue_next:
  "n \<notin> set ns \<Longrightarrow> p @ newly_queued p t ns @ (if n \<in> fst ` set (p @ newly_queued p t ns) then [] else [(n, t)]) =
    p @ newly_queued p t (ns @ [n])"
  unfolding queued_iff newly_queued_append by (simp add: newly_queued_def)

definition abandoned :: "unacked_packet_map \<Rightarrow> nat \<Rightarrow> nat set" where
  "abandoned m n = {k \<in> flying m. k < n \<and> frames_at (info_at m) k = [] \<and> link_of m k = Some 0}"

lemma rto_state_info:
  assumes "rto_state s n s'" "info_at (packet_map s') n = Some x"
  shows "frames_at (info_at (packet_map s)) n = retransmittable_frames x" "link_of (packet_map s) n = Some (retransmission x)"
    "in_flight x \<longleftrightarrow> n \<in> flying (packet_map s)" "evolves (abandoned (packet_map s) n) {} (packet_map s) (packet_map s')"
proof -
  show e: "evolves (abandoned (packet_map s) n) {} (packet_map s) (packet_map s')" using assms(1) by (auto simp: rto_state_def abandoned_def)
  then have "frames_at (info_at (packet_map s')) = frames_at (info_at (packet_map s))" by (simp add: evolves_def)
  then show "frames_at (info_at (packet_map s)) n = retransmittable_frames x" using assms(2) by (metis frames_at_def option.simps(5))
  have "link_of (packet_map s') = link_of (packet_map s)" using assms(1) by (simp add: rto_state_def)
  then show "link_of (packet_map s) n = Some (retransmission x)" using assms(2) by (metis link_of_def option.simps(9))
  have "n \<in> flying (packet_map s') \<longleftrightarrow> n \<in> flying (packet_map s)" using e by (auto simp: evolves_def abandoned_def)
  then show "in_flight x \<longleftrightarrow> n \<in> flying (packet_map s)" using assms(2) by (auto simp: flying_def)
qed

text \<open>A packet without frames, and one with frames.\<close>

lemma rto_packet_abandon:
  assumes "rto_state s n s'" "tracked (packet_map s') n" "info_at (packet_map s') n = Some x" "retransmittable_frames x = []"
  shows "\<exists>s''. rto_packet s' n = Some s'' \<and> rto_state s (Suc n) s''"
proof -
  let ?m = "packet_map s" and ?m' = "packet_map s'" and ?drop = "in_flight x \<and> retransmission x = 0"
  have s': "manager_inv s'" "link_of ?m' = link_of ?m" using assms(1) by (auto simp: rto_state_def)
  have inv: "unacked_inv ?m'" "pending_ok ?m' (pending_retransmissions s')" using s'(1) by (auto simp: manager_inv_def)
  have x: "GetTransmissionInfo ?m' n = Some x" using tracked_info [OF inv(1) assms(2)] assms(3) by auto
  note i = rto_state_info [OF assms(1,3)]
  obtain m1 where m1: "RemoveFromInFlight ?m' n = Some m1" "evolves ({n} \<inter> flying ?m') {} ?m' m1" "link_of m1 = link_of ?m'"
    using RemoveFromInFlight_evolves [OF inv(1) assms(2)] by blast
  define m2 where "m2 = (if ?drop then m1 else ?m')"
  have "{n} \<inter> flying ?m' = {n} \<inter> flying ?m" using i(4) by (auto simp: evolves_def abandoned_def)
  moreover have "abandoned ?m (Suc n) = (if ?drop then abandoned ?m n \<union> ({n} \<inter> flying ?m) else abandoned ?m n)"
    using i(1-3) assms(4) by (auto simp: abandoned_def less_Suc_eq)
  ultimately have e: "evolves (abandoned ?m (Suc n)) {} ?m m2" "link_of m2 = link_of ?m"
    using evolves_trans [OF i(4) m1(2)] s'(2) i(4) m1(3) by (auto simp: m2_def)
  have "pending_ok m2 (pending_retransmissions s')" using pending_ok_evolves [OF inv(2) m1(2)] inv(2) by (simp add: m2_def)
  moreover have "unacked_inv m2" "largest_sent_packet m2 = largest_sent_packet ?m'"
    using e(1) i(4) by (simp_all add: evolves_def observed_same_def)
  ultimately have "manager_inv (s'\<lparr>packet_map := m2\<rparr>)" using s'(1) by (simp add: manager_inv_def)
  then have "rto_state s (Suc n) (s'\<lparr>packet_map := m2\<rparr>)"
    using e assms(1,4) i(1) framed_Suc [of ?m n] by (simp add: rto_state_def abandoned_def)
  moreover have "rto_packet s' n = Some (s'\<lparr>packet_map := m2\<rparr>)" using x assms(4) m1(1) by (simp add: rto_packet_def m2_def)
  ultimately show ?thesis by blast
qed

lemma rto_packet_mark:
  assumes "rto_state s n s'" "tracked (packet_map s') n" "info_at (packet_map s') n = Some x" "retransmittable_frames x \<noteq> []"
  shows "\<exists>s''. rto_packet s' n = Some s'' \<and> rto_state s (Suc n) s''"
proof -
  let ?m = "packet_map s" and ?m' = "packet_map s'" and ?c = "pending_timer_transmission_count s'" and ?p = "pending_retransmissions s"
  have s': "manager_inv s'" "link_of ?m' = link_of ?m" "?c = min kMaxRetransmissionsOnTimeout (length (framed ?m n))"
    "consecutive_rto_count s' = consecutive_rto_count s" "first_rto_transmission s' = first_rto_transmission s"
    "pending_retransmissions s' = ?p @ newly_queued ?p RTO_RETRANSMISSION (take kMaxRetransmissionsOnTimeout (framed ?m n))"
    using assms(1) by (auto simp: rto_state_def)
  have inv: "unacked_inv ?m'" "pending_ok ?m' (pending_retransmissions s')" using s'(1) by (auto simp: manager_inv_def)
  have x: "GetTransmissionInfo ?m' n = Some x" using tracked_info [OF inv(1) assms(2)] assms(3) by auto
  note i = rto_state_info [OF assms(1,3)]
  have "frames_at (info_at ?m') n \<noteq> []" using assms(3,4) by (simp add: frames_at_def)
  then obtain m1 p where m1: "MarkForRetransmission s' n RTO_RETRANSMISSION = Some (s'\<lparr>packet_map := m1, pending_retransmissions := p\<rparr>)"
    "evolves {} {} ?m' m1" "pending_ok m1 p" "link_of m1 = link_of ?m'"
    "p = pending_retransmissions s' @ (if n \<in> fst ` set (pending_retransmissions s') then [] else [(n, RTO_RETRANSMISSION)])"
    using MarkForRetransmission_ok [OF inv(1) _ inv(2), of n RTO_RETRANSMISSION] by auto
  define s1 where "s1 = (if ?c < kMaxRetransmissionsOnTimeout
    then s'\<lparr>packet_map := m1, pending_retransmissions := p, pending_timer_transmission_count := ?c + 1\<rparr> else s')"
  have "rto_packet s' n = Some s1" using x assms(4) m1(1) by (simp add: rto_packet_def s1_def)
  moreover have "abandoned ?m (Suc n) = abandoned ?m n" using i(1) assms(4) by (auto simp: abandoned_def less_Suc_eq)
  then have "evolves (abandoned ?m (Suc n)) {} ?m (packet_map s1)" "link_of (packet_map s1) = link_of ?m"
    using evolves_trans [OF i(4) m1(2)] s'(2) i(4) m1(4) by (auto simp: s1_def)
  moreover have "manager_inv s1" using s'(1) m1(2,3) by (auto simp: s1_def manager_inv_def evolves_def observed_same_def)
  moreover have f: "framed ?m (Suc n) = framed ?m n @ [n]" using framed_Suc [of ?m n] i(1) assms(4) by simp
  moreover have "pending_retransmissions s1 =
      ?p @ newly_queued ?p RTO_RETRANSMISSION (take kMaxRetransmissionsOnTimeout (framed ?m (Suc n)))"
  proof (cases "?c < kMaxRetransmissionsOnTimeout")
    case True
    then have "take kMaxRetransmissionsOnTimeout (framed ?m n) = framed ?m n"
      "take kMaxRetransmissionsOnTimeout (framed ?m (Suc n)) = framed ?m n @ [n]" using s'(3) by (simp_all add: f)
    then show ?thesis using True queue_next [OF framed_less] m1(5) s'(6) by (simp add: s1_def)
  next
    case False
    then have "kMaxRetransmissionsOnTimeout \<le> length (framed ?m n)" using s'(3) by simp
    then show ?thesis using False s'(6) by (simp add: s1_def f)
  qed
  ultimately show ?thesis using s'(3-5) by (intro exI [of _ s1]) (auto simp: rto_state_def s1_def abandoned_def)
qed

lemma rto_packet_ok:
  "rto_state s n s' \<Longrightarrow> tracked (packet_map s') n \<Longrightarrow> info_at (packet_map s') n = Some x \<Longrightarrow>
   \<exists>s''. rto_packet s' n = Some s'' \<and> rto_state s (Suc n) s''"
  using rto_packet_abandon rto_packet_mark by blast

lemma RetransmitRtoPackets_ok:
  assumes "manager_inv s" "pending_timer_transmission_count s = 0"
  shows "\<exists>s1. for_all_packets (\<lambda>s info. True) rto_packet s = Some s1 \<and> rto_state s (Suc (largest_sent_packet (packet_map s))) s1"
proof -
  let ?m = "packet_map s"
  have inv: "unacked_inv ?m" using assms(1) by (simp add: manager_inv_def)
  have f: "framed ?m (least_unacked ?m) = []" using frames_tracked [OF inv] by (force simp: framed_def tracked_def filter_empty_conv)
  have d: "{k \<in> flying ?m. k < least_unacked ?m \<and> frames_at (info_at ?m) k = [] \<and> link_of ?m k = Some 0} = {}"
    using flying_tracked [OF inv] by (force simp: tracked_def)
  have "rto_state s (least_unacked ?m) s" unfolding rto_state_def f d using assms evolves_refl [OF inv] by (simp add: newly_queued_def)
  then show ?thesis
    by (intro for_all_packets_ok [where I = "rto_state s"] inv)
       (use rto_packet_ok in \<open>auto simp: rto_state_def manager_inv_def evolves_def observed_same_def\<close>)
qed

lemma RetransmitRtoPackets_inv:
  assumes "manager_inv s" "pending_timer_transmission_count s = 0"
  shows "\<exists>s'. RetransmitRtoPackets s = Some s' \<and> manager_inv s'"
proof -
  obtain s1 where "for_all_packets (\<lambda>s info. True) rto_packet s = Some s1" "manager_inv s1"
    using RetransmitRtoPackets_ok [OF assms] by (auto simp: rto_state_def)
  then show ?thesis by (auto simp: RetransmitRtoPackets_def manager_inv_def Let_def)
qed

lemma loss_timeout_inv:
  assumes "manager_inv s"
  shows "\<exists>s'. InvokeLossDetection s now = Some s' \<and> manager_inv (fst (MaybeInvokeCongestionEvent s' False prior now))"
proof -
  obtain s1 L where s1: "InvokeLossDetection s now = Some s1" "losses s s1 L"
    using InvokeLossDetection_ok [of s now] assms by (auto simp: manager_inv_def)
  obtain s2 calls where s2: "MaybeInvokeCongestionEvent s1 False prior now = (s2, calls)" using prod.exhaust by blast
  have "unacked_inv (packet_map s1)" "largest_sent_packet (packet_map s1) = largest_sent_packet (packet_map s)"
    "pending_ok (packet_map s1) (pending_retransmissions s1)" "largest_newly_acked s1 \<le> largest_sent_packet (packet_map s)"
    "rtt_state s1 = rtt_state s"
    using s1(2) by (auto simp: losses_def evolves_def observed_same_def)
  then have "manager_inv s2" using congestion_event_fields [OF s2] assms by (simp add: manager_inv_def)
  then show ?thesis using s1(1) s2 by simp
qed

lemma manager_OnRetransmissionTimeout_inv:
  assumes "manager_inv s" "pending_timer_transmission_count s = 0"
  shows "\<exists>s' calls. manager_OnRetransmissionTimeout s now = Some (s', calls) \<and> manager_inv s'"
proof -
  have st: "manager_inv (s\<lparr>connection_stats := st\<rparr>)" for st using assms(1) by (simp add: manager_inv_def)
  show ?thesis
  proof (cases "GetRetransmissionMode s")
    case RTO_MODE
    let ?st = "(connection_stats s)\<lparr>rto_count := add64 (rto_count (connection_stats s)) 1\<rparr>"
    obtain s' where "RetransmitRtoPackets (s\<lparr>connection_stats := ?st\<rparr>) = Some s'" "manager_inv s'"
      using RetransmitRtoPackets_inv [OF st, of ?st] assms(2) by auto
    then show ?thesis using RTO_MODE by (simp add: manager_OnRetransmissionTimeout_def Let_def)
  next
    case TLP_MODE
    then show ?thesis using assms(1) by (simp add: manager_OnRetransmissionTimeout_def Let_def manager_inv_def)
  next
    case HANDSHAKE_MODE
    let ?st = "(connection_stats s)\<lparr>crypto_retransmit_count := add64 (crypto_retransmit_count (connection_stats s)) 1\<rparr>"
    obtain s' where "RetransmitCryptoPackets (s\<lparr>connection_stats := ?st\<rparr>) = Some s'" "manager_inv s'"
      using RetransmitCryptoPackets_inv [OF st, of ?st] by blast
    then show ?thesis using HANDSHAKE_MODE by (simp add: manager_OnRetransmissionTimeout_def Let_def)
  next
    case LOSS_MODE
    let ?st = "(connection_stats s)\<lparr>loss_timeout_count := add64 (loss_timeout_count (connection_stats s)) 1\<rparr>"
    obtain s' where "InvokeLossDetection (s\<lparr>connection_stats := ?st\<rparr>) now = Some s'"
      "manager_inv (fst (MaybeInvokeCongestionEvent s' False (bytes_in_flight (packet_map s)) now))"
      using loss_timeout_inv [OF st, of ?st] by blast
    then show ?thesis using LOSS_MODE
      by (cases "MaybeInvokeCongestionEvent s' False (bytes_in_flight (packet_map s)) now")
         (simp add: manager_OnRetransmissionTimeout_def Let_def)
  qed
qed

section \<open>Sending\<close>

lemma AddSentPacket_pending:
  assumes "unacked_inv m" "packet_ok m p old" "pending_ok m pending" "old \<noteq> 0 \<longrightarrow> (\<forall>q\<in>set pending. fst q \<noteq> old)"
  shows "\<exists>m' p' calls. AddSentPacket m p old t time fly = Some (m', p', calls) \<and> unacked_inv m' \<and> pending_ok m' pending \<and>
    largest_sent_packet m \<le> largest_sent_packet m'"
proof -
  let ?n = "packet_number p" and ?u = "largest_sent_packet m"
  obtain m' p' calls f x where a: "AddSentPacket m p old t time fly = Some (m', p', calls)" "unacked_inv m'" "info_at m' = f(?n \<mapsto> x)"
    "keeps (\<lambda>k. if ?u < k \<and> k < ?n then Some skip_info else info_at m k) f" "frames_at (info_at m') = frames_sent m p old"
    using AddSentPacket_ok [OF assms(1,2), of t time fly] by blast
  have n: "?u < ?n" using assms(2) by (simp add: packet_ok_def)
  have "tracked m' ?n" using info_tracked [OF a(2)] a(3) by simp
  then have "?u \<le> largest_sent_packet m'" using n by (simp add: tracked_def)
  moreover have "frames_at (info_at m') (fst q) \<noteq> [] \<and> (snd q = LOSS_RETRANSMISSION \<longrightarrow> fst q \<notin> flying m')" if q: "q \<in> set pending" for q
  proof -
    have fr: "frames_at (info_at m) (fst q) \<noteq> []" "snd q = LOSS_RETRANSMISSION \<longrightarrow> fst q \<notin> flying m"
      using assms(3) q by (auto simp: pending_ok_def)
    have t: "fst q \<le> ?u" "fst q \<noteq> ?n" using frames_tracked [OF assms(1) fr(1)] n by (auto simp: tracked_def)
    have "frames_at (info_at m') (fst q) = frames_at (info_at m) (fst q)"
      using a(5) t assms(4) q by (auto simp: frames_sent_def Let_def)
    moreover have "fst q \<in> flying m" if "fst q \<in> flying m'"
      using that a(3,4) t by (fastforce simp: flying_def keeps_def)
    ultimately show ?thesis using fr by auto
  qed
  then have "pending_ok m' pending" using assms(3) by (simp add: pending_ok_def split_beta)
  ultimately show ?thesis using a(1,2) by blast
qed

lemma pacing_OnPacketSent_ok:
  "rtt_fits rtt \<Longrightarrow> \<exists>ps' alg' fly. pacing_OnPacketSent rtt ps alg time flight n bytes r = Some (ps', alg', fly)"
proof -
  assume "rtt_fits rtt"
  note ok = bandwidths_ok(3) [OF this]
  obtain alg' fly where o: "OnPacketSent alg n bytes r = (alg', fly)" using prod.exhaust by blast
  obtain b where "pacing_PacingRate rtt (if flight = 0 \<and> \<not> InRecovery alg'
      then ps\<lparr>burst_tokens := min kInitialUnpacedBurst (ucast (congestion_window alg' div kDefaultTCPMSS))\<rparr> else ps) alg' = Some b"
    using ok by blast
  then show ?thesis using o unfolding pacing_OnPacketSent_def Let_def by auto
qed

lemma controller_OnPacketSent_ok:
  assumes "rtt_fits (rtt_state s)"
  shows "\<exists>ps alg fly. controller_OnPacketSent s p time r = Some (s\<lparr>pacing_state := ps, send_algorithm := alg\<rparr>, fly)"
proof -
  let ?b = "of_nat (bytes_in_flight (packet_map s))" and ?n = "of_nat (packet_number p)" and ?len = "of_nat (encrypted_length p)"
  obtain ps alg fly where p: "pacing_OnPacketSent (rtt_state s) (pacing_state s) (send_algorithm s) time ?b ?n ?len r = Some (ps, alg, fly)"
    using pacing_OnPacketSent_ok [OF assms] by blast
  obtain alg' fly' where o: "OnPacketSent (send_algorithm s) ?n ?len r = (alg', fly')" using prod.exhaust by blast
  show ?thesis
  proof (cases "using_pacing s")
    case True
    then show ?thesis using p by (auto simp: controller_OnPacketSent_def)
  next
    case False
    then have "controller_OnPacketSent s p time r = Some (s\<lparr>pacing_state := pacing_state s, send_algorithm := alg'\<rparr>, fly')"
      using o by (simp add: controller_OnPacketSent_def)
    then show ?thesis by blast
  qed
qed

lemma manager_OnPacketSent_inv:
  assumes "manager_inv s" "packet_ok (packet_map s) p old"
  shows "\<exists>s' fly calls. manager_OnPacketSent s p old time t r = Some (s', fly, calls) \<and> manager_inv s'"
proof -
  let ?m = "packet_map s"
  define pending where "pending = (if old \<noteq> 0 then erase_pending old (pending_retransmissions s) else pending_retransmissions s)"
  define s1 where "s1 = s\<lparr>pending_retransmissions := pending, pending_timer_transmission_count := pending_timer_transmission_count s - 1\<rparr>"
  have s1_eq: "(let s = (if old \<noteq> 0 then s\<lparr>pending_retransmissions := erase_pending old (pending_retransmissions s)\<rparr> else s);
      s = (if pending_timer_transmission_count s > 0
        then s\<lparr>pending_timer_transmission_count := pending_timer_transmission_count s - 1\<rparr> else s) in f s) = f s1" for f :: "sent_packet_manager \<Rightarrow> 'a"
    by (auto simp: s1_def pending_def Let_def intro!: arg_cong [where f = f] sent_packet_manager.equality)
  have pok: "pending_ok ?m pending" "old \<noteq> 0 \<longrightarrow> (\<forall>q\<in>set pending. fst q \<noteq> old)"
    using assms(1) pending_ok_erase erased_pending by (auto simp: manager_inv_def pending_def)
  have "rtt_fits (rtt_state s1)" using assms(1) by (simp add: manager_inv_def s1_def)
  then obtain ps alg fly where al: "controller_OnPacketSent s1 p time r = Some (s1\<lparr>pacing_state := ps, send_algorithm := alg\<rparr>, fly)"
    using controller_OnPacketSent_ok by blast
  have "unacked_inv ?m" using assms(1) by (simp add: manager_inv_def)
  then obtain m' p' calls where a: "AddSentPacket ?m p old t time fly = Some (m', p', calls)" "unacked_inv m'" "pending_ok m' pending"
    "largest_sent_packet ?m \<le> largest_sent_packet m'" using AddSentPacket_pending [OF _ assms(2) pok] by blast
  have "manager_OnPacketSent s p old time t r = Some (s1\<lparr>pacing_state := ps, send_algorithm := alg, packet_map := m'\<rparr>, fly, map Notify calls)"
    using al a(1) unfolding manager_OnPacketSent_def s1_eq by (simp add: s1_def)
  moreover have "manager_inv (s1\<lparr>pacing_state := ps, send_algorithm := alg, packet_map := m'\<rparr>)"
    using assms(1) a(2-4) by (simp add: manager_inv_def s1_def)
  ultimately show ?thesis by blast
qed

lemma those_filter:
  "(\<And>q. q \<in> set qs \<Longrightarrow> f q = Some (g q)) \<Longrightarrow> \<exists>bs. those (map f qs) = Some bs \<and> map fst (filter snd (zip qs bs)) = filter g qs"
proof (induction qs)
  case (Cons q qs)
  then obtain bs where "those (map f qs) = Some bs" "map fst (filter snd (zip qs bs)) = filter g qs" by auto
  then show ?case using Cons.prems [of q] by (intro exI [of _ "g q # bs"]) simp
qed simp

lemma manager_CancelRetransmissionsForStream_inv:
  assumes "manager_inv s"
  shows "\<exists>s' calls. manager_CancelRetransmissionsForStream s sid = Some (s', calls) \<and> manager_inv s'"
proof -
  let ?m = "packet_map s" and ?p = "pending_retransmissions s"
  have inv: "unacked_inv ?m" "pending_ok ?m ?p" using assms by (auto simp: manager_inv_def)
  obtain m' calls where m': "CancelRetransmissionsForStream ?m sid = Some (m', calls)" "unacked_inv m'" "observed_same ?m m'"
    "least_unacked m' = least_unacked ?m" "keeps (info_at ?m) (info_at m')"
    using CancelRetransmissionsForStream_ok [OF inv(1), of sid] by blast
  have "HasRetransmittableFrames m' n = Some (frames_at (info_at m') n \<noteq> [])" if "(n, t) \<in> set ?p" for n t
  proof -
    have "tracked ?m n" using frames_tracked [OF inv(1)] inv(2) that by (auto simp: pending_ok_def)
    then have "tracked m' n" using m'(3,4) by (simp add: tracked_def observed_same_def)
    then obtain x where "info_at m' n = Some x" "GetTransmissionInfo m' n = Some x" by (rule tracked_info [OF m'(2)])
    then show ?thesis by (simp add: HasRetransmittableFrames_def frames_at_def)
  qed
  then obtain keep where keep: "those (map (\<lambda>(n, t). HasRetransmittableFrames m' n) ?p) = Some keep"
    "map fst (filter snd (zip ?p keep)) = filter (\<lambda>q. frames_at (info_at m') (fst q) \<noteq> []) ?p"
    using those_filter [of ?p "\<lambda>(n, t). HasRetransmittableFrames m' n" "\<lambda>q. frames_at (info_at m') (fst q) \<noteq> []"] by auto
  have "n \<in> flying ?m" if "n \<in> flying m'" for n using that m'(5) by (fastforce simp: flying_def keeps_def)
  then have "pending_ok m' (filter (\<lambda>q. frames_at (info_at m') (fst q) \<noteq> []) ?p)"
    using inv(2) by (auto simp: pending_ok_def distinct_map_filter)
  then show ?thesis using m'(1-3) keep assms
    by (simp add: manager_CancelRetransmissionsForStream_def manager_inv_def observed_same_def)
qed

section \<open>Reachable states\<close>

datatype manager_op =
    PacketSent serialized_packet nat QuicTime TransmissionType HasRetransmittableData
  | IncomingAck ack_frame QuicTime QuicTime int
  | TimerExpired QuicTime
  | TailLossProbe
  | TimeUntilSendAsked QuicTime
  | NeuterUnencrypted
  | RetransmitUnacked TransmissionType
  | CancelRetransmissions QuicStreamId
  | Migration PeerAddressChangeType
  | Resume "int option" int int bool
  | ConfirmHandshake
  | NumOpenStreams nat
  | MaxPacingRate QuicBandwidth
  | NewSendAlgorithm tcp_cubic_sender
  | NewStreamNotifier "nat option"
  | NewNetworkChangeVisitor

text \<open>The two flags are arguments.\<close>

primrec manager_step :: "bool \<Rightarrow> bool \<Rightarrow> sent_packet_manager \<Rightarrow> manager_op \<Rightarrow> sent_packet_manager option" where
  "manager_step fx sk s (PacketSent p old time t r) = map_option fst (manager_OnPacketSent s p old time t r)"
| "manager_step fx sk s (IncomingAck frame receive_time now wall) = map_option fst (OnIncomingAck fx sk s frame receive_time now wall)"
| "manager_step fx sk s (TimerExpired now) = map_option fst (manager_OnRetransmissionTimeout s now)"
| "manager_step fx sk s TailLossProbe = map_option fst (MaybeRetransmitTailLossProbe s)"
| "manager_step fx sk s (TimeUntilSendAsked now) = Some (fst (manager_TimeUntilSend s now))"
| "manager_step fx sk s NeuterUnencrypted = NeuterUnencryptedPackets s"
| "manager_step fx sk s (RetransmitUnacked t) = RetransmitUnackedPackets s t"
| "manager_step fx sk s (CancelRetransmissions sid) = map_option fst (manager_CancelRetransmissionsForStream s sid)"
| "manager_step fx sk s (Migration t) = Some (manager_OnConnectionMigration s t)"
| "manager_step fx sk s (Resume ms bw max_bw use_max) = Some (ResumeConnectionState s ms bw max_bw use_max)"
| "manager_step fx sk s ConfirmHandshake = Some (SetHandshakeConfirmed s)"
| "manager_step fx sk s (NumOpenStreams n) = Some (SetNumOpenStreams s n)"
| "manager_step fx sk s (MaxPacingRate rate) = Some (SetMaxPacingRate s rate)"
| "manager_step fx sk s (NewSendAlgorithm alg) = Some (SetSendAlgorithm s alg)"
| "manager_step fx sk s (NewStreamNotifier notifier) = Some (manager_SetStreamNotifier s notifier)"
| "manager_step fx sk s NewNetworkChangeVisitor = Some (SetNetworkChangeVisitor s)"

text \<open>What the connection ensures: packet numbers increase, acknowledgements are of packets that were sent, and the
  timer does not expire while transmissions it caused are waiting.\<close>

primrec manager_allowed :: "sent_packet_manager \<Rightarrow> manager_op \<Rightarrow> bool" where
  "manager_allowed s (PacketSent p old time t r) \<longleftrightarrow> packet_ok (packet_map s) p old"
| "manager_allowed s (IncomingAck frame receive_time now wall) \<longleftrightarrow> ack_allowed s frame receive_time"
| "manager_allowed s (TimerExpired now) \<longleftrightarrow> pending_timer_transmission_count s = 0"
| "manager_allowed s TailLossProbe \<longleftrightarrow> True"
| "manager_allowed s (TimeUntilSendAsked now) \<longleftrightarrow> True"
| "manager_allowed s NeuterUnencrypted \<longleftrightarrow> True"
| "manager_allowed s (RetransmitUnacked t) \<longleftrightarrow> True"
| "manager_allowed s (CancelRetransmissions sid) \<longleftrightarrow> True"
| "manager_allowed s (Migration t) \<longleftrightarrow> True"
| "manager_allowed s (Resume ms bw max_bw use_max) \<longleftrightarrow> True"
| "manager_allowed s ConfirmHandshake \<longleftrightarrow> True"
| "manager_allowed s (NumOpenStreams n) \<longleftrightarrow> True"
| "manager_allowed s (MaxPacingRate rate) \<longleftrightarrow> True"
| "manager_allowed s (NewSendAlgorithm alg) \<longleftrightarrow> True"
| "manager_allowed s (NewStreamNotifier notifier) \<longleftrightarrow> True"
| "manager_allowed s NewNetworkChangeVisitor \<longleftrightarrow> True"

inductive manager_reachable :: "bool \<Rightarrow> bool \<Rightarrow> sent_packet_manager \<Rightarrow> bool" for fx sk where
  start: "manager_reachable fx sk (QuicSentPacketManager st alg loss)"
| step: "manager_reachable fx sk s \<Longrightarrow> manager_allowed s x \<Longrightarrow> manager_step fx sk s x = Some s' \<Longrightarrow> manager_reachable fx sk s'"

lemma manager_minor_inv:
  assumes "manager_inv s"
  shows "manager_inv (fst (manager_TimeUntilSend s now))" "manager_inv (manager_OnConnectionMigration s t)"
    "manager_inv (ResumeConnectionState s ms bw max_bw use_max)" "manager_inv (SetHandshakeConfirmed s)" "manager_inv (SetNumOpenStreams s n)"
    "manager_inv (SetMaxPacingRate s rate)" "manager_inv (SetSendAlgorithm s alg)" "manager_inv (SetNetworkChangeVisitor s)"
proof -
  show "manager_inv (fst (manager_TimeUntilSend s now))"
    using assms by (auto simp: manager_TimeUntilSend_def manager_inv_def Let_def split: prod.split)
  show "manager_inv (manager_OnConnectionMigration s t)"
    using assms by (auto simp: manager_OnConnectionMigration_def manager_inv_def rtt_fits_ops(3))
  show "manager_inv (ResumeConnectionState s ms bw max_bw use_max)"
    using assms by (auto simp: ResumeConnectionState_def manager_inv_def Let_def kMinInitialRoundTripTimeUs_def
        kMaxInitialRoundTripTimeUs_def kNumMicrosPerMilli_def kNumMicrosPerSecond_def intro!: rtt_fits_ops(4) split: option.split)
qed (use assms in \<open>simp_all add: manager_inv_def SetHandshakeConfirmed_def SetNumOpenStreams_def SetMaxPacingRate_def SetSendAlgorithm_def
      SetNetworkChangeVisitor_def\<close>)

lemma manager_notifier_inv: "manager_inv s \<Longrightarrow> manager_inv (manager_SetStreamNotifier s notifier)"
proof -
  assume inv: "manager_inv s"
  let ?m = "SetStreamNotifier (packet_map s) notifier"
  have i: "info_at ?m = info_at (packet_map s)" by (rule info_at_cong) (simp_all add: SetStreamNotifier_def)
  have "unacked_inv ?m"
    using map_inv_frame [of _ _ _ "packet_map s" ?m] inv by (simp add: manager_inv_def unacked_inv_def SetStreamNotifier_def)
  moreover have "largest_sent_packet ?m = largest_sent_packet (packet_map s)" by (simp add: SetStreamNotifier_def)
  ultimately show ?thesis using inv i
    by (simp add: manager_inv_def manager_SetStreamNotifier_def pending_ok_def flying_def)
qed

lemma manager_step_inv:
  assumes "manager_inv s" "manager_allowed s x"
  shows "\<exists>s'. manager_step fx sk s x = Some s' \<and> manager_inv s'"
proof (cases x)
  case (PacketSent p old time t r)
  then show ?thesis using manager_OnPacketSent_inv [OF assms(1), of p old time t r] assms(2) by auto
next
  case (IncomingAck frame receive_time now wall)
  then show ?thesis using OnIncomingAck_inv [OF assms(1), of frame receive_time fx sk now wall] assms(2) by auto
next
  case (TimerExpired now)
  then show ?thesis using manager_OnRetransmissionTimeout_inv [OF assms(1), of now] assms(2) by auto
next
  case TailLossProbe
  then show ?thesis using MaybeRetransmitTailLossProbe_inv [OF assms(1)] by auto
next
  case NeuterUnencrypted
  then show ?thesis using NeuterUnencryptedPackets_inv [OF assms(1)] by (auto simp: sweeps_def)
next
  case (RetransmitUnacked t)
  then show ?thesis using RetransmitUnackedPackets_inv [OF assms(1), of t] by (auto simp: sweeps_def)
next
  case (CancelRetransmissions sid)
  then show ?thesis using manager_CancelRetransmissionsForStream_inv [OF assms(1), of sid] by auto
qed (use manager_minor_inv [OF assms(1)] manager_notifier_inv [OF assms(1)] in simp_all)

lemma manager_reachable_inv: "manager_reachable fx sk s \<Longrightarrow> manager_inv s"
proof (induction rule: manager_reachable.induct)
  case (start st alg loss)
  have "unacked_inv QuicUnackedPacketMap" using reachable_inv [OF reachable.start] by blast
  then show ?case by (simp add: manager_inv_def QuicSentPacketManager_def pending_ok_def rtt_fits_ops(1))
next
  case (step s x s')
  then show ?case using manager_step_inv [of s x fx sk] by auto
qed

section \<open>Properties\<close>

text \<open>A manager that has sent a handshake packet.\<close>

definition example_start :: sent_packet_manager where
  "example_start = QuicSentPacketManager
     \<lparr>bytes_spuriously_retransmitted = 0, packets_spuriously_retransmitted = 0, lost_packets_count = 0, crypto_retransmit_count = 0,
      loss_timeout_count = 0, tlp_count = 0, rto_count = 0\<rparr> (TcpCubicSenderBytes False 32 2000 example_stats) kNack"

definition example_manager :: sent_packet_manager where
  "example_manager = the (manager_step False False example_start
     (PacketSent (example_packet 2 [PING_FRAME]) 0 1 NOT_RETRANSMISSION HAS_RETRANSMITTABLE_DATA))"

lemma example_manager_reachable: "manager_reachable False False example_manager"
proof -
  let ?x = "PacketSent (example_packet 2 [PING_FRAME]) 0 1 NOT_RETRANSMISSION HAS_RETRANSMITTABLE_DATA"
  have r: "manager_reachable False False example_start" unfolding example_start_def by (rule manager_reachable.start)
  have a: "manager_allowed example_start ?x"
    by (simp add: packet_ok_def example_packet_def example_start_def QuicSentPacketManager_def QuicUnackedPacketMap_def)
  obtain s' where s': "manager_step False False example_start ?x = Some s'" using manager_step_inv [OF manager_reachable_inv [OF r] a] by blast
  then have "example_manager = s'" by (auto simp: example_manager_def)
  then show ?thesis using manager_reachable.step [OF r a s'] by simp
qed

lemma example_manager_fields:
  "packet_map example_manager = example_map" "pending_retransmissions example_manager = []" "pending_timer_transmission_count example_manager = 0"
proof -
  obtain p' calls where a: "AddSentPacket QuicUnackedPacketMap (example_packet 2 [PING_FRAME]) 0 NOT_RETRANSMISSION 1 True = Some (example_map, p', calls)"
    using example_step(1) by auto
  obtain alg where "OnPacketSent (send_algorithm example_start) 2 1350 HAS_RETRANSMITTABLE_DATA = (alg, True)"
    by (simp add: OnPacketSent_def Let_def)
  then have "controller_OnPacketSent example_start (example_packet 2 [PING_FRAME]) 1 HAS_RETRANSMITTABLE_DATA =
      Some (example_start\<lparr>send_algorithm := alg\<rparr>, True)"
    by (simp add: controller_OnPacketSent_def example_packet_def example_start_def QuicSentPacketManager_def)
  moreover have "packet_map example_start = QuicUnackedPacketMap" "pending_retransmissions example_start = []"
    "pending_timer_transmission_count example_start = 0" by (simp_all add: example_start_def QuicSentPacketManager_def)
  ultimately show "packet_map example_manager = example_map" "pending_retransmissions example_manager = []"
    "pending_timer_transmission_count example_manager = 0"
    using a by (simp_all add: example_manager_def manager_OnPacketSent_def Let_def)
qed


lemma handshakes_counted:
  assumes "unacked_inv m" "n \<in> handshakes m"
  shows "HasPendingCryptoPackets m"
proof -
  obtain x where x: "info_at m n = Some x" "has_crypto_handshake x" using assms(2) by (auto simp: handshakes_def)
  have "crypto_weight x \<le> weight_sum crypto_weight (info_at m)"
    using weight_le_sum [of "info_at m" n x crypto_weight] x(1) map_inv_finite assms(1) by (auto simp: unacked_inv_def)
  then show ?thesis using x(2) assms(1) by (simp add: HasPendingCryptoPackets_def crypto_weight_def unacked_inv_def map_inv_def)
qed




text \<open>The bytes of the packets reported.\<close>

lemma reported_bytes:
  assumes "distinct (map fst X)" "\<forall>(k, b)\<in>set X. b = size_of m k"
  shows "(\<Sum>n\<in>fst ` set X. size_of m n) = sum_list (map snd X)"
proof -
  have "(\<Sum>n\<in>fst ` set X. size_of m n) = sum_list (map (size_of m) (map fst X))"
    using sum_list_distinct_conv_sum_set [OF assms(1), of "size_of m"] by simp
  also have "map (size_of m) (map fst X) = map snd X" using assms(2) by auto
  finally show ?thesis .
qed

lemma ack_collected_facts:
  assumes "ack_collected sk s frame s' C" "unacked_inv (packet_map s)"
  defines "m \<equiv> packet_map s" and "A \<equiv> packets_acked s'" and "L \<equiv> packets_lost s'"
  shows "bytes_in_flight m = bytes_in_flight (packet_map s') + sum_list (map snd A) + sum_list (map snd L) + (\<Sum>n\<in>C. size_of m n)"
    "C \<subseteq> handshakes m" "distinct (map fst (A @ L))" "fst ` set A \<union> C \<union> fst ` set L \<subseteq> flying m"
    "\<forall>(k, b)\<in>set A. pnq_Contains (packets frame) (of_nat k) \<and> b = size_of m k"
    "\<not> sk \<longrightarrow> (\<forall>n\<in>flying m. n \<le> unat (ack_frame.largest_observed frame) \<and> pnq_Contains (packets frame) (of_nat n)
        \<longrightarrow> n \<in> fst ` set A \<union> C)"
    "\<forall>n\<in>fst ` set L. frames_at (info_at (packet_map s')) n \<noteq> [] \<longrightarrow> n \<in> fst ` set (pending_retransmissions s')"
proof -
  note ac = assms(1) [unfolded ack_collected_def acks_def, folded assms(3-5)]
  have A: "distinct (map fst A)" "fst ` set A \<inter> C = {}" "\<forall>(k, b)\<in>set A. b = size_of m k"
    and L: "distinct (map fst L)" "fst ` set L \<inter> (fst ` set A \<union> C) = {}" "\<forall>(k, b)\<in>set L. b = size_of m k"
    using ac by auto
  let ?o = "IncreaseLargestObserved m (unat (ack_frame.largest_observed frame))"
  note o = observed_evolves [OF assms(2), folded m_def]
  obtain F where e: "evolves (fst ` set A \<union> C \<union> fst ` set L) F ?o (packet_map s')" using ac by auto
  then show sub: "fst ` set A \<union> C \<union> fst ` set L \<subseteq> flying m" using o(3) by (simp add: evolves_def)
  have fin: "finite C" by (rule finite_subset [OF _ flying_finite [OF assms(2), folded m_def]]) (use sub in simp)
  have "(\<Sum>n\<in>fst ` set A \<union> C \<union> fst ` set L. size_of m n) = (\<Sum>n\<in>fst ` set A \<union> C. size_of m n) + (\<Sum>n\<in>fst ` set L. size_of m n)"
    by (rule sum.union_disjoint) (use fin L(2) in \<open>simp_all add: Int_commute\<close>)
  also have "(\<Sum>n\<in>fst ` set A \<union> C. size_of m n) = (\<Sum>n\<in>fst ` set A. size_of m n) + (\<Sum>n\<in>C. size_of m n)"
    by (rule sum.union_disjoint) (use fin A(2) in simp_all)
  finally show "bytes_in_flight m = bytes_in_flight (packet_map s') + sum_list (map snd A) + sum_list (map snd L) + (\<Sum>n\<in>C. size_of m n)"
    using evolves_bytes [OF o(1) e] o(4,6) reported_bytes [OF A(1,3)] reported_bytes [OF L(1,3)] by simp
  show "C \<subseteq> handshakes m" using ac by simp
  show "distinct (map fst (A @ L))" using A(1) L(1,2) by auto
  show "\<forall>(k, b)\<in>set A. pnq_Contains (packets frame) (of_nat k) \<and> b = size_of m k" using ac by auto
  show "\<not> sk \<longrightarrow> (\<forall>n\<in>flying m. n \<le> unat (ack_frame.largest_observed frame) \<and> pnq_Contains (packets frame) (of_nat n)
        \<longrightarrow> n \<in> fst ` set A \<union> C)"
    using ac flying_tracked [OF assms(2), folded m_def] by (simp add: tracked_def)
  show "\<forall>n\<in>fst ` set L. frames_at (info_at (packet_map s')) n \<noteq> [] \<longrightarrow> n \<in> fst ` set (pending_retransmissions s')" using ac by simp
qed

text \<open>An acknowledgement of the packet sent.\<close>

definition example_ack :: ack_frame where
  "example_ack = \<lparr>ack_frame.largest_observed = 2, ack_delay_time = 0, received_packet_times = [],
     packets = pnq_Add (PacketNumberQueue True) 2\<rparr>"

lemma example_sent_time: "GetTransmissionInfo example_map 2 = Some x \<Longrightarrow> sent_time x = 1"
  by (auto simp: example_map_def example_packet_def AddSentPacket_def QuicUnackedPacketMap_def QuicTransmissionInfo_def
      empty_QuicTransmissionInfo_def skip_packets.simps add64_def sub64_def Let_def GetTransmissionInfo_def packet_index_def)

text \<open>C13: An acknowledgement is accounted for exactly: the bytes in flight before it are those after it, those
  reported to the controller as acknowledged, those reported as lost, and those of superseded handshake
  packets.  No packet is reported twice; exactly the packets of the frame that are in flight are
  acknowledged, and lost packets that still have frames wait for their retransmission.\<close>

theorem ack_accounts_for_flight:
  assumes "manager_reachable fx sk s" "ack_allowed s frame receive_time"
  shows "\<exists>s' rtt_updated calls C. process_ack fx sk s frame receive_time now = Some (s', rtt_updated, calls) \<and>
    bytes_in_flight (packet_map s) = bytes_in_flight (packet_map s') + sum_list (map snd (packets_acked s')) +
      sum_list (map snd (packets_lost s')) + (\<Sum>n\<in>C. size_of (packet_map s) n) \<and>
    C \<subseteq> handshakes (packet_map s) \<and> (\<not> HasPendingCryptoPackets (packet_map s) \<longrightarrow> C = {}) \<and>
    distinct (map fst (packets_acked s' @ packets_lost s')) \<and>
    (\<forall>(n, b)\<in>set (packets_acked s'). n \<in> flying (packet_map s) \<and> b = size_of (packet_map s) n \<and> pnq_Contains (packets frame) (of_nat n)) \<and>
    (\<not> sk \<longrightarrow> (\<forall>n\<in>flying (packet_map s). n \<le> unat (ack_frame.largest_observed frame) \<and> pnq_Contains (packets frame) (of_nat n)
        \<longrightarrow> n \<in> fst ` set (packets_acked s') \<union> C)) \<and>
    (\<forall>n\<in>fst ` set (packets_lost s'). n \<in> flying (packet_map s) \<and>
       (frames_at (info_at (packet_map s')) n \<noteq> [] \<longrightarrow> n \<in> fst ` set (pending_retransmissions s')))"
proof -
  let ?m = "packet_map s"
  have inv: "manager_inv s" "unacked_inv ?m" using manager_reachable_inv [OF assms(1)] by (simp_all add: manager_inv_def)
  obtain s' b calls C where p: "process_ack fx sk s frame receive_time now = Some (s', b, calls)" "ack_collected sk s frame s' C"
    using process_ack_ok [OF inv(1) assms(2)] by blast
  let ?A = "packets_acked s'" and ?L = "packets_lost s'"
  note c = ack_collected_facts [OF p(2) inv(2)]
  have "\<not> HasPendingCryptoPackets ?m \<longrightarrow> C = {}" using handshakes_counted [OF inv(2)] c(2) by (meson ex_in_conv subset_iff)
  moreover have "\<forall>(n, b)\<in>set ?A. n \<in> flying ?m \<and> b = size_of ?m n \<and> pnq_Contains (packets frame) (of_nat n)"
    using c(4,5) by (auto simp: image_subset_iff)
  moreover have "\<forall>n\<in>fst ` set ?L. n \<in> flying ?m \<and> (frames_at (info_at (packet_map s')) n \<noteq> [] \<longrightarrow> n \<in> fst ` set (pending_retransmissions s'))"
    using c(4,7) by auto
  ultimately show ?thesis using p(1) c(1-3,6) by (intro exI [of _ s'] exI [of _ b] exI [of _ calls] exI [of _ C] conjI) simp_all
qed

theorem ack_accounts_for_flight_witness:
  "\<exists>s' rtt_updated calls C. process_ack False False example_manager example_ack 7 8 = Some (s', rtt_updated, calls) \<and>
    1350 = bytes_in_flight (packet_map s') + sum_list (map snd (packets_acked s')) + sum_list (map snd (packets_lost s')) +
      (\<Sum>n\<in>C. size_of example_map n)"
proof -
  have "bytes_in_flight example_map = 1350" using flight_bytes reachable_inv [OF example_reachable] by auto
  moreover obtain x where "info_at example_map 2 = Some x" "GetTransmissionInfo example_map 2 = Some x"
    using tracked_info [of example_map 2] reachable_inv [OF example_reachable] by (auto simp: tracked_def example_step)
  then have "ack_allowed example_manager example_ack 7"
    by (simp add: ack_allowed_def example_ack_def example_manager_fields example_step example_sent_time)
  ultimately show ?thesis using ack_accounts_for_flight [OF example_manager_reachable, of example_ack 7 8]
    unfolding example_manager_fields(1) by auto
qed

text \<open>C18: A retransmission timeout puts the two oldest packets that have frames, or all of them if there are
  fewer, at the end of the queue of pending retransmissions (a packet that is in the queue already stays where
  it is), oldest first, and changes nothing else in the queue; it lets as many transmissions through as it took
  packets.  It abandons exactly the packets in flight that have no frames and no retransmission; all other
  packets stay in flight, and all frames stay with their packets.  The count of timeouts grows if and only if
  there is something to retransmit.  The managers are those reached by runs of the operations, with no timer
  transmission pending.\<close>

theorem RetransmitRtoPackets_queues:
  assumes "manager_reachable fx sk s" "pending_timer_transmission_count s = 0"
  shows "\<exists>s'. RetransmitRtoPackets s = Some s' \<and>
    pending_retransmissions s' = pending_retransmissions s @
      newly_queued (pending_retransmissions s) RTO_RETRANSMISSION
        (take 2 (filter (\<lambda>n. frames_at (info_at (packet_map s)) n \<noteq> []) [0..<Suc (largest_sent_packet (packet_map s))])) \<and>
    pending_timer_transmission_count s' = min 2 (card {n. frames_at (info_at (packet_map s)) n \<noteq> []}) \<and>
    flying (packet_map s') = flying (packet_map s) -
      {n. frames_at (info_at (packet_map s)) n = [] \<and> link_of (packet_map s) n = Some 0} \<and>
    frames_at (info_at (packet_map s')) = frames_at (info_at (packet_map s)) \<and>
    consecutive_rto_count s' = (if \<exists>n. frames_at (info_at (packet_map s)) n \<noteq> [] then add64 (consecutive_rto_count s) 1 else consecutive_rto_count s)"
proof -
  let ?m = "packet_map s" and ?u = "largest_sent_packet (packet_map s)"
  have inv: "manager_inv s" "unacked_inv ?m" using manager_reachable_inv [OF assms(1)] by (simp_all add: manager_inv_def)
  have all: "set (framed ?m (Suc ?u)) = {n. frames_at (info_at ?m) n \<noteq> []}" "distinct (framed ?m (Suc ?u))"
    using frames_tracked [OF inv(2)] by (auto simp: framed_def tracked_def less_Suc_eq_le simp del: upt_Suc)
  then have len: "length (framed ?m (Suc ?u)) = card {n. frames_at (info_at ?m) n \<noteq> []}" using distinct_card by fastforce
  obtain s1 where s1: "for_all_packets (\<lambda>s info. True) rto_packet s = Some s1" "rto_state s (Suc ?u) s1"
    using RetransmitRtoPackets_ok [OF inv(1) assms(2)] by blast
  have "flying (packet_map s1) = flying ?m - {n. frames_at (info_at ?m) n = [] \<and> link_of ?m n = Some 0}"
    using s1(2) flying_tracked [OF inv(2)] by (auto simp: rto_state_def evolves_def tracked_def less_Suc_eq_le)
  moreover have "frames_at (info_at (packet_map s1)) = frames_at (info_at ?m)" using s1(2) by (auto simp: rto_state_def evolves_def)
  moreover have c: "pending_timer_transmission_count s1 = min 2 (card {n. frames_at (info_at ?m) n \<noteq> []})"
    "consecutive_rto_count s1 = consecutive_rto_count s"
    using s1(2) len by (simp_all add: rto_state_def kMaxRetransmissionsOnTimeout_def)
  moreover have "pending_retransmissions s1 = pending_retransmissions s @ newly_queued (pending_retransmissions s) RTO_RETRANSMISSION
      (take 2 (filter (\<lambda>n. frames_at (info_at ?m) n \<noteq> []) [0..<Suc ?u]))"
    using s1(2) by (simp add: rto_state_def kMaxRetransmissionsOnTimeout_def framed_def)
  moreover have "pending_timer_transmission_count s1 > 0 \<longleftrightarrow> (\<exists>n. frames_at (info_at ?m) n \<noteq> [])"
    using c(1) finite_set [of "framed ?m (Suc ?u)"] unfolding all(1) by (auto simp: card_gt_0_iff)
  ultimately show ?thesis using s1(1) by (auto simp: RetransmitRtoPackets_def Let_def)
qed

theorem RetransmitRtoPackets_queues_witness:
  "\<exists>s'. RetransmitRtoPackets example_manager = Some s' \<and> frames_at (info_at (packet_map s')) 2 = [PING_FRAME]"
  using RetransmitRtoPackets_queues [OF example_manager_reachable example_manager_fields(3)] example_step(5)
  by (auto simp: example_manager_fields(1))

end
