(* ===== verification/Retransmission_Timer.thy ===== *)
theory Retransmission_Timer
  imports Manager_Invariant
begin

text \<open>
  The timer of the manager of sent packets, \<^verbatim>\<open>GetRetransmissionTime\<close> and the delays of
  \<^verbatim>\<open>src/model/net/quic/core/quic_sent_packet_manager.cc\<close>, as modelled in the theory \<open>Sent_Packet_Manager\<close>.

  The theory shows the bounds of the delays and the exponential back off, and that the timer is set whenever
  retransmittable data is in flight.
\<close>

section \<open>Arithmetic\<close>

lemma ToMilliseconds_eq: "0 \<le> d \<Longrightarrow> ToMilliseconds d = d div 1000"
  by (simp add: ToMilliseconds_def signed_divide_int_def sgn_if)

lemma div_thousand: "1000 * (d div 1000) \<le> (d :: int) \<and> d < 1000 * (d div 1000) + 1000"
  using mult_div_mod_eq [of 1000 d] pos_mod_sign [of 1000 d] pos_mod_bound [of 1000 d] by linarith

lemma ToMilliseconds_bounds:
  "ToMilliseconds d < 200 \<longleftrightarrow> d < 200000" "0 \<le> d \<Longrightarrow> ToMilliseconds d > 60000 \<longleftrightarrow> d \<ge> 60001000"
  "0 \<le> d \<Longrightarrow> 0 \<le> ToMilliseconds d \<and> ToMilliseconds d \<le> d"
proof -
  show "ToMilliseconds d < 200 \<longleftrightarrow> d < 200000"
  proof (cases "0 \<le> d")
    case False
    then have "ToMilliseconds d \<le> 0" by (simp add: ToMilliseconds_def signed_divide_int_def sgn_if)
    then show ?thesis using False by simp
  next
    case True
    show ?thesis unfolding ToMilliseconds_eq [OF True] using div_thousand [of d] by linarith
  qed
  show "ToMilliseconds d > 60000 \<longleftrightarrow> d \<ge> 60001000" if "0 \<le> d"
    unfolding ToMilliseconds_eq [OF that] using div_thousand [of d] by linarith
  show "0 \<le> ToMilliseconds d \<and> ToMilliseconds d \<le> d" if "0 \<le> d"
    unfolding ToMilliseconds_eq [OF that] using that div_thousand [of d] by linarith
qed

lemma double_times_int_half:
  assumes "0 \<le> c" "0 \<le> i" "c * i < 2 ^ 53" "i < 2 ^ 53"
  shows "double_times_int (of_int c / 2) i = c * i div 2"
proof -
  have h: "pow2 (- 1) = 1 / 2" by (simp add: pow2_def power_int_def)
  have i: "double_round (of_int i) = of_int i" unfolding double_round_def by (rule fround_int) (use assms in simp)
  have "double_round (of_int (c * i) * pow2 (- 1)) = of_int (c * i) * pow2 (- 1)"
    unfolding double_round_def by (rule fround_int_scaled) (use assms in simp)
  then have r: "double_round (of_int c / 2 * of_int i) = of_int (c * i) / of_int 2" by (simp add: h)
  have "0 \<le> (of_int (c * i) / of_int 2 :: rat)" using assms by simp
  then show ?thesis using floor_divide_of_int_eq [of "c * i" 2, where 'a = rat] unfolding double_times_int_def i r to_integer_def by simp
qed

section \<open>The delays\<close>

definition base_delay :: "sent_packet_manager \<Rightarrow> QuicTimeDelta" where
  "base_delay s = (if smoothed_rtt (rtt_state s) = 0 then 500000
     else max 200000 (smoothed_rtt (rtt_state s) + 4 * mean_deviation (rtt_state s)))"

lemma GetRetransmissionDelay_eq:
  "GetRetransmissionDelay s =
     (let d = base_delay s * 2 ^ min (consecutive_rto_count s) 10 in if d \<ge> 60001000 then 60000000 else d)"
proof -
  let ?d = "smoothed_rtt (rtt_state s) + 4 * mean_deviation (rtt_state s)"
  have b: "(if smoothed_rtt (rtt_state s) = 0 then FromMilliseconds kDefaultRetransmissionTimeMs
      else if ToMilliseconds ?d < kMinRetransmissionTimeMs then FromMilliseconds kMinRetransmissionTimeMs else ?d) = base_delay s"
    by (auto simp: base_delay_def FromMilliseconds_def kDefaultRetransmissionTimeMs_def kMinRetransmissionTimeMs_def ToMilliseconds_bounds(1))
  have "0 \<le> base_delay s * 2 ^ min (consecutive_rto_count s) 10" by (simp add: base_delay_def)
  note m = ToMilliseconds_bounds(2) [OF this]
  show ?thesis unfolding GetRetransmissionDelay_def Let_def b kMaxRetransmissions_def
    by (simp add: m kMaxRetransmissionTimeMs_def FromMilliseconds_def)
qed

lemma retransmission_delay_min: "200000 \<le> GetRetransmissionDelay s"
proof -
  have "200000 * 1 \<le> base_delay s * 2 ^ min (consecutive_rto_count s) 10"
    by (rule mult_mono) (simp_all add: base_delay_def le_max_iff_disj)
  then show ?thesis unfolding GetRetransmissionDelay_eq Let_def by simp
qed

text \<open>C28: The delay of a retransmission timeout is at least 200 milliseconds and below 60.001 seconds, and each
  timeout in a row doubles it, up to sixty seconds and ten times.\<close>

theorem retransmission_delay_backoff:
  "200000 \<le> GetRetransmissionDelay s \<and> GetRetransmissionDelay s < 60001000 \<and>
   GetRetransmissionDelay (s\<lparr>consecutive_rto_count := Suc (consecutive_rto_count s)\<rparr>) =
     (if consecutive_rto_count s \<ge> 10 then GetRetransmissionDelay s
      else if 2 * GetRetransmissionDelay s \<ge> 60001000 then 60000000 else 2 * GetRetransmissionDelay s)"
proof -
  have b: "200000 \<le> base_delay s" "base_delay (s\<lparr>consecutive_rto_count := k\<rparr>) = base_delay s" for k by (simp_all add: base_delay_def)
  define p :: int where "p = 2 ^ min (consecutive_rto_count s) 10"
  define d where "d = base_delay s * p"
  have "1 \<le> p" by (simp add: p_def)
  then have d: "200000 \<le> d" using b(1) mult_mono [of 200000 "base_delay s" 1 p] by (simp add: d_def)
  have "(2 :: int) ^ min (Suc (consecutive_rto_count s)) 10 = (if consecutive_rto_count s \<ge> 10 then p else 2 * p)"
  proof (cases "consecutive_rto_count s \<ge> 10")
    case True
    then have "min (Suc (consecutive_rto_count s)) 10 = 10" "min (consecutive_rto_count s) 10 = 10" by linarith+
    then show ?thesis using True by (simp only: p_def if_True)
  next
    case False
    then have "min (Suc (consecutive_rto_count s)) 10 = Suc (consecutive_rto_count s)" "min (consecutive_rto_count s) 10 = consecutive_rto_count s"
      by linarith+
    then show ?thesis using False by (simp only: p_def if_False power_Suc)
  qed
  then have "base_delay s * 2 ^ min (Suc (consecutive_rto_count s)) 10 = (if consecutive_rto_count s \<ge> 10 then d else 2 * d)"
    by (simp only: d_def split: if_split) (simp add: mult.left_commute)
  then have "GetRetransmissionDelay (s\<lparr>consecutive_rto_count := Suc (consecutive_rto_count s)\<rparr>) =
      (let d = (if consecutive_rto_count s \<ge> 10 then d else 2 * d) in if d \<ge> 60001000 then 60000000 else d)"
    unfolding GetRetransmissionDelay_eq b(2) by (simp del: power_Suc)
  moreover have "GetRetransmissionDelay s = (if d \<ge> 60001000 then 60000000 else d)"
    unfolding GetRetransmissionDelay_eq by (simp only: Let_def d_def p_def)
  ultimately show ?thesis using d by (cases "consecutive_rto_count s \<ge> 10") (simp_all add: Let_def)
qed

lemma srtt_fits: "rtt_fits r \<Longrightarrow> 0 < srtt_or_initial r \<and> srtt_or_initial r \<le> 2 ^ 49"
  by (auto simp: rtt_fits_def srtt_or_initial_def)

lemma GetTailLossProbeDelay_min:
  assumes "rtt_fits (rtt_state s)"
  shows "10000 \<le> GetTailLossProbeDelay s"
proof -
  have r: "0 < srtt_or_initial (rtt_state s)" using srtt_fits [OF assms] by simp
  have "0 \<le> delta_times_double x (3 / 2)" if "0 < x" for x
  proof -
    have "0 \<le> double_round (double_round (of_int x) * (3 / 2))"
      using that unfolding double_round_def by (intro fround_nonneg mult_nonneg_nonneg) simp_all
    then show ?thesis by (simp add: delta_times_double_def llround_def)
  qed
  then show ?thesis using r
    by (auto simp: GetTailLossProbeDelay_def Let_def FromMilliseconds_def kMinTailLossProbeTimeoutMs_def kMinRetransmissionTimeMs_def
        signed_divide_int_def le_max_iff_disj)
qed

lemma GetCryptoRetransmissionDelay_ok:
  assumes "rtt_fits (rtt_state s)" "consecutive_crypto_retransmission_count s \<le> 20"
  shows "\<exists>d. GetCryptoRetransmissionDelay s = Some d \<and> 10000 * 2 ^ consecutive_crypto_retransmission_count s \<le> d"
proof -
  let ?c = "consecutive_crypto_retransmission_count s" and ?ms = "ToMilliseconds (srtt_or_initial (rtt_state s))"
  have r: "0 < srtt_or_initial (rtt_state s)" "srtt_or_initial (rtt_state s) \<le> 2 ^ 49" using srtt_fits [OF assms(1)] by simp_all
  have ms: "0 \<le> ?ms" "?ms < 2 ^ 40"
    using r ToMilliseconds_eq [of "srtt_or_initial (rtt_state s)"] div_thousand [of "srtt_or_initial (rtt_state s)"] by simp_all
  have h: "double_times_int (3 / 2) ?ms = 3 * ?ms div 2" using double_times_int_half [of 3 ?ms] ms by simp
  define d where "d = (if conservative_handshake_retransmits s then max kConservativeMinHandshakeTimeoutMs (2 * ?ms)
    else max kMinHandshakeTimeoutMs (double_times_int (3 / 2) ?ms))"
  have "3 * ?ms div 2 \<le> 3 * ?ms" using ms(1) by linarith
  then have d: "10 \<le> d" "d < 2 ^ 42"
    using ms h by (auto simp: d_def kConservativeMinHandshakeTimeoutMs_def kMaxDelayedAckTimeMs_def kMinHandshakeTimeoutMs_def)
  have p: "(1 :: int) \<le> 2 ^ ?c" "(2 :: int) ^ ?c \<le> 2 ^ 20" by simp (rule power_increasing [OF assms(2)], simp)
  have "d * 2 ^ ?c \<le> d * 2 ^ 20" using p(2) d(1) by (intro mult_left_mono) simp_all
  also have "\<dots> < 2 ^ 63" using d(2) by simp
  finally have "GetCryptoRetransmissionDelay s = Some (FromMilliseconds (d * 2 ^ ?c))"
    using assms(2) by (simp add: GetCryptoRetransmissionDelay_def Let_def d_def)
  moreover have "10 * 2 ^ ?c \<le> d * 2 ^ ?c" using d(1) by (intro mult_right_mono) simp_all
  ultimately show ?thesis by (auto simp: FromMilliseconds_def)
qed

lemma example_unacked: "HasUnackedRetransmittableFrames example_map"
  by (simp add: HasUnackedRetransmittableFrames_def example_map_def example_packet_def AddSentPacket_def QuicUnackedPacketMap_def
      QuicTransmissionInfo_def empty_QuicTransmissionInfo_def skip_packets.simps add64_def Let_def)

lemma example_crypto_count: "consecutive_crypto_retransmission_count example_manager = 0"
proof -
  have "\<exists>alg. OnPacketSent (send_algorithm example_start) 2 1350 HAS_RETRANSMITTABLE_DATA = (alg, True)"
    by (simp add: OnPacketSent_def Let_def)
  then show ?thesis using example_step(1)
    by (auto simp: example_manager_def manager_OnPacketSent_def controller_OnPacketSent_def example_packet_def example_start_def
        QuicSentPacketManager_def Let_def)
qed

section \<open>The timer\<close>

text \<open>C19: Whenever retransmittable data is in flight, no transmission of the timer waits and handshake data was
  retransmitted at most 20 times in a row (so that the doubling stays within the integers), the timer is set:
  for handshake data at least ten milliseconds ahead, doubled with every retransmission; to the time of the
  loss detection if it waits; for a tail loss probe not into the past; and for a timeout at least 200
  milliseconds after the last packet in flight was sent, and not before a probe would be due.\<close>

theorem retransmission_timer_set:
  assumes "manager_reachable fx sk s" "HasInFlightPackets (packet_map s)" "HasUnackedRetransmittableFrames (packet_map s)"
    and "pending_timer_transmission_count s = 0" "consecutive_crypto_retransmission_count s \<le> 20"
  shows "\<exists>t. GetRetransmissionTime s now = Some t \<and>
    (case GetRetransmissionMode s of
       HANDSHAKE_MODE \<Rightarrow> now + 10000 * 2 ^ consecutive_crypto_retransmission_count s \<le> t
     | LOSS_MODE \<Rightarrow> t = GetLossTimeout (general_loss_algorithm s) \<and> t \<noteq> 0
     | TLP_MODE \<Rightarrow> now \<le> t \<and> GetLastPacketSentTime (packet_map s) + 10000 \<le> t
     | RTO_MODE \<Rightarrow> GetLastPacketSentTime (packet_map s) + 200000 \<le> t \<and>
         GetLastPacketSentTime (packet_map s) + GetTailLossProbeDelay s \<le> t)"
proof -
  have fits: "rtt_fits (rtt_state s)" using manager_reachable_inv [OF assms(1)] by (simp add: manager_inv_def)
  obtain d where d: "GetCryptoRetransmissionDelay s = Some d" "10000 * 2 ^ consecutive_crypto_retransmission_count s \<le> d"
    using GetCryptoRetransmissionDelay_ok [OF fits assms(5)] by blast
  have l: "GetRetransmissionMode s = LOSS_MODE \<Longrightarrow> GetLossTimeout (general_loss_algorithm s) \<noteq> 0"
    by (auto simp: GetRetransmissionMode_def split: if_splits)
  have t: "10000 \<le> GetTailLossProbeDelay s" by (rule GetTailLossProbeDelay_min [OF fits])
  have r: "200000 \<le> GetRetransmissionDelay s" by (rule retransmission_delay_min)
  show ?thesis
    by (cases "GetRetransmissionMode s")
       (use assms(2-4) d l t r in \<open>simp_all add: GetRetransmissionTime_def Let_def le_max_iff_disj\<close>)
qed

theorem retransmission_timer_set_witness:
  "\<exists>t. GetRetransmissionTime example_manager 5 = Some t \<and>
    (GetRetransmissionMode example_manager = HANDSHAKE_MODE \<longrightarrow> 10005 \<le> t)"
proof -
  have "bytes_in_flight example_map = 1350" using flight_bytes reachable_inv [OF example_reachable] by auto
  then have f: "HasInFlightPackets (packet_map example_manager)" by (simp add: HasInFlightPackets_def example_manager_fields)
  have "HasUnackedRetransmittableFrames (packet_map example_manager)"
    unfolding example_manager_fields by (rule example_unacked)
  moreover have "consecutive_crypto_retransmission_count example_manager = 0" by (rule example_crypto_count)
  ultimately show ?thesis
    using retransmission_timer_set [OF example_manager_reachable f _ example_manager_fields(3), of 5]
    by (cases "GetRetransmissionMode example_manager") auto
qed

end
