(* ===== verification/Lru_Cache.thy ===== *)
theory Lru_Cache
  imports Quic_Prelude "HOL-Library.Monad_Syntax"
begin

text \<open>
  The LRU cache of \<^verbatim>\<open>src/model/net/tools/quic/quic_simple_dispatcher.h\<close> (the class
  template \<open>LRUCache\<close>; \<^verbatim>\<open>src/model/net/tools/mapreduce/lrucache.h\<close> is an older copy
  that nothing includes): a hash map from keys to nodes of a doubly linked list between two sentinel nodes, most recently used first.
  The nodes live in an explicit heap, so that the pointer surgery of \<open>attach\<close> and
  \<open>detach\<close> is modelled assignment by assignment; dereferencing a pointer that is null or
  was never written is the error value \<open>None\<close>.
\<close>

section \<open>The heap of nodes\<close>

text \<open>
  The addresses the constructor allocates: the two sentinels and the array \<open>entries_\<close>.
  A pointer field of a freshly allocated node is \<open>Uninit\<close>.
\<close>

datatype addr = HeadNode | TailNode | Entry nat

datatype ptr = Null | Uninit | Ref addr

record ('k, 'd) node =
  nd_key :: 'k
  nd_data :: 'd
  nd_prev :: ptr
  nd_next :: ptr

type_synonym ('k, 'd) heap = "addr \<rightharpoonup> ('k, 'd) node"

text \<open>The counter of misses, an \<^verbatim>\<open>int\<close> that nothing but \<^verbatim>\<open>getCount\<close> reads, is a natural: it stands for less than \<open>2 ^ 31\<close>
  misses.\<close>

record ('k, 'd) lru_cache =
  miss_count :: nat
  lru_hashmap :: "'k \<rightharpoonup> ptr"
  lru_free_entries :: "ptr list"
  lru_head :: ptr
  lru_tail :: ptr
  lru_heap :: "('k, 'd) heap"

fun deref :: "('k, 'd) heap \<Rightarrow> ptr \<Rightarrow> ('k, 'd) node option" where
  "deref h (Ref a) = h a"
| "deref h Null = None"
| "deref h Uninit = None"

definition update_node ::
  "(('k, 'd) node \<Rightarrow> ('k, 'd) node) \<Rightarrow> ('k, 'd) heap \<Rightarrow> ptr \<Rightarrow> ('k, 'd) heap option" where
  "update_node f h p = (case p of
     Ref a \<Rightarrow> (case h a of Some n \<Rightarrow> Some (h(a \<mapsto> f n)) | None \<Rightarrow> None)
   | _ \<Rightarrow> None)"

section \<open>The operations\<close>

text \<open>The constructor; \<open>k0\<close> and \<open>d0\<close> are the default-constructed key and value.\<close>

definition LRUCache :: "'k \<Rightarrow> 'd \<Rightarrow> nat \<Rightarrow> ('k, 'd) lru_cache" where
  "LRUCache k0 d0 cap =
     (let fresh = \<lparr>nd_key = k0, nd_data = d0, nd_prev = Uninit, nd_next = Uninit\<rparr>
      in \<lparr>miss_count = 0,
          lru_hashmap = Map.empty,
          lru_free_entries = map (\<lambda>i. Ref (Entry i)) [0..<cap],
          lru_head = Ref HeadNode,
          lru_tail = Ref TailNode,
          lru_heap = (\<lambda>a. case a of
              HeadNode \<Rightarrow> Some (fresh\<lparr>nd_prev := Null, nd_next := Ref TailNode\<rparr>)
            | TailNode \<Rightarrow> Some (fresh\<lparr>nd_prev := Ref HeadNode, nd_next := Null\<rparr>)
            | Entry i \<Rightarrow> if i < cap then Some fresh else None)\<rparr>)"

definition attach :: "('k, 'd) lru_cache \<Rightarrow> ptr \<Rightarrow> ('k, 'd) lru_cache option" where
  "attach s node = do {
     hd \<leftarrow> deref (lru_heap s) (lru_head s);
     h1 \<leftarrow> update_node (nd_next_update (\<lambda>_. nd_next hd)) (lru_heap s) node;
     h2 \<leftarrow> update_node (nd_next_update (\<lambda>_. node)) h1 (lru_head s);
     n \<leftarrow> deref h2 node;
     h3 \<leftarrow> update_node (nd_prev_update (\<lambda>_. node)) h2 (nd_next n);
     h4 \<leftarrow> update_node (nd_prev_update (\<lambda>_. lru_head s)) h3 node;
     Some (s\<lparr>lru_heap := h4\<rparr>) }"

definition detach :: "('k, 'd) lru_cache \<Rightarrow> ptr \<Rightarrow> ('k, 'd) lru_cache option" where
  "detach s node = do {
     n \<leftarrow> deref (lru_heap s) node;
     h1 \<leftarrow> update_node (nd_next_update (\<lambda>_. nd_next n)) (lru_heap s) (nd_prev n);
     n1 \<leftarrow> deref h1 node;
     h2 \<leftarrow> update_node (nd_prev_update (\<lambda>_. nd_prev n1)) h1 (nd_next n1);
     Some (s\<lparr>lru_heap := h2\<rparr>) }"

text \<open>\<open>hashmap_[key]\<close>: a missing key is inserted with a null pointer.\<close>

definition hashmap_at :: "('k, 'd) lru_cache \<Rightarrow> 'k \<Rightarrow> ptr \<times> ('k, 'd) lru_cache" where
  "hashmap_at s key = (case lru_hashmap s key of
     Some p \<Rightarrow> (p, s)
   | None \<Rightarrow> (Null, s\<lparr>lru_hashmap := (lru_hashmap s)(key \<mapsto> Null)\<rparr>))"

definition fill_node ::
  "('k, 'd) lru_cache \<Rightarrow> ptr \<Rightarrow> 'k \<Rightarrow> 'd \<Rightarrow> ('k, 'd) lru_cache option" where
  "fill_node s node key data = do {
     h \<leftarrow> update_node (\<lambda>n. n\<lparr>nd_key := key, nd_data := data\<rparr>) (lru_heap s) node;
     Some (s\<lparr>lru_heap := h\<rparr>) }"

definition Put :: "('k, 'd) lru_cache \<Rightarrow> 'k \<Rightarrow> 'd \<Rightarrow> ('k, 'd) lru_cache option" where
  "Put s key data =
     (let (node, s) = hashmap_at s key
      in if node \<noteq> Null then do {
           s \<leftarrow> detach s node;
           s \<leftarrow> fill_node s node key data;
           attach s node }
         else do {
           (node, s) \<leftarrow>
             (if lru_free_entries s = [] then do {
                tl \<leftarrow> deref (lru_heap s) (lru_tail s);
                let node = nd_prev tl;
                s \<leftarrow> detach s node;
                n \<leftarrow> deref (lru_heap s) node;
                Some (node, s\<lparr>lru_hashmap := (lru_hashmap s)(nd_key n := None)\<rparr>) }
              else Some (last (lru_free_entries s),
                         s\<lparr>lru_free_entries := butlast (lru_free_entries s)\<rparr>));
           s \<leftarrow> fill_node s node key data;
           let s = s\<lparr>lru_hashmap := (lru_hashmap s)(key \<mapsto> node)\<rparr>;
           attach s node })"

text \<open>\<open>Get\<close> returns its flag and the out parameter \<open>value\<close>, unchanged on a miss.\<close>

definition Get ::
  "('k, 'd) lru_cache \<Rightarrow> 'k \<Rightarrow> 'd \<Rightarrow> (('k, 'd) lru_cache \<times> bool \<times> 'd) option" where
  "Get s key value =
     (let (node, s) = hashmap_at s key
      in if node \<noteq> Null then do {
           s \<leftarrow> detach s node;
           s \<leftarrow> attach s node;
           n \<leftarrow> deref (lru_heap s) node;
           Some (s, True, nd_data n) }
         else Some (s\<lparr>miss_count := miss_count s + 1\<rparr>, False, value))"

definition getCount :: "('k, 'd) lru_cache \<Rightarrow> nat" where
  "getCount s = miss_count s"

section \<open>The specification: an association list, most recently used first\<close>

definition spec_put :: "nat \<Rightarrow> ('k \<times> 'd) list \<Rightarrow> 'k \<Rightarrow> 'd \<Rightarrow> ('k \<times> 'd) list" where
  "spec_put cap kvs key data =
     (key, data) #
       (if key \<in> fst ` set kvs then filter (\<lambda>p. fst p \<noteq> key) kvs
        else if length kvs < cap then kvs
        else butlast kvs)"

definition spec_get :: "('k \<times> 'd) list \<Rightarrow> 'k \<Rightarrow> ('k \<times> 'd) list \<times> 'd option" where
  "spec_get kvs key = (case map_of kvs key of
     None \<Rightarrow> (kvs, None)
   | Some d \<Rightarrow> ((key, d) # filter (\<lambda>p. fst p \<noteq> key) kvs, Some d))"

section \<open>Doubly linked lists\<close>

definition nxt :: "('k, 'd) heap \<Rightarrow> addr \<Rightarrow> ptr" where
  "nxt h a = (case h a of Some n \<Rightarrow> nd_next n | None \<Rightarrow> Uninit)"

definition prv :: "('k, 'd) heap \<Rightarrow> addr \<Rightarrow> ptr" where
  "prv h a = (case h a of Some n \<Rightarrow> nd_prev n | None \<Rightarrow> Uninit)"

fun linked :: "(addr \<Rightarrow> ptr) \<Rightarrow> (addr \<Rightarrow> ptr) \<Rightarrow> addr list \<Rightarrow> bool" where
  "linked f g (a # b # as) \<longleftrightarrow> f a = Ref b \<and> g b = Ref a \<and> linked f g (b # as)"
| "linked f g _ \<longleftrightarrow> True"

lemma linked_append:
  "P \<noteq> [] \<Longrightarrow> Q \<noteq> [] \<Longrightarrow>
   linked f g (P @ Q) \<longleftrightarrow>
     linked f g P \<and> linked f g Q \<and> f (last P) = Ref (hd Q) \<and> g (hd Q) = Ref (last P)"
proof (induction P rule: induct_list012)
  case (2 a)
  then show ?case by (cases Q) auto
qed auto

lemma linked_upd_next [simp]:
  "a \<notin> set (butlast as) \<Longrightarrow> linked (f(a := v)) g as = linked f g as"
  by (induction as rule: induct_list012) auto

lemma linked_upd_prev [simp]:
  "a \<notin> set (tl as) \<Longrightarrow> linked f (g(a := v)) as = linked f g as"
  by (induction as rule: induct_list012) auto

lemma linked_upd_next_notin [simp]:
  "a \<notin> set as \<Longrightarrow> linked (f(a := v)) g as = linked f g as"
  by (meson in_set_butlastD linked_upd_next)

lemma linked_upd_prev_notin [simp]:
  "a \<notin> set as \<Longrightarrow> linked f (g(a := v)) as = linked f g as"
  by (induction as rule: induct_list012) auto

lemma linked_remove:
  assumes "distinct (P @ x # Q)" and "P \<noteq> []" and "Q \<noteq> []" and "linked f g (P @ x # Q)"
  shows "linked (f(last P := Ref (hd Q))) (g(hd Q := Ref (last P))) (P @ Q)"
    and "g x = Ref (last P)" and "f x = Ref (hd Q)"
proof -
  from assms have l: "linked f g P" "linked f g Q" "g x = Ref (last P)" "f x = Ref (hd Q)"
    using linked_append [of P "x # Q" f g] linked_append [of "[x]" Q f g] by auto
  obtain P' p where P: "P = P' @ [p]" using assms(2) by (cases P rule: rev_cases) auto
  obtain q Q' where Q: "Q = q # Q'" using assms(3) by (cases Q) auto
  show "linked (f(last P := Ref (hd Q))) (g(hd Q := Ref (last P))) (P @ Q)"
    using l assms(1) by (auto simp: P Q linked_append simp del: append_assoc)
  show "g x = Ref (last P)" "f x = Ref (hd Q)" by (fact l)+
qed

lemma linked_insert:
  assumes "distinct (a # L)" and "L \<noteq> []" and "x \<notin> set (a # L)" and "linked f g (a # L)"
  shows "linked (f(x := Ref (hd L), a := Ref x)) (g(hd L := Ref x, x := Ref a)) (a # x # L)"
  using assms by (cases L) auto

text \<open>
  A heap seen through three projections: the next pointers, the previous pointers and the
  stored pairs. A field assignment changes one of them at one address.
\<close>

definition kv :: "('k, 'd) heap \<Rightarrow> addr \<rightharpoonup> 'k \<times> 'd" where
  "kv h a = map_option (\<lambda>n. (nd_key n, nd_data n)) (h a)"

lemma kv_None [simp]: "kv h a = None \<longleftrightarrow> h a = None"
  by (simp add: kv_def)

lemma dom_kv [simp]: "dom (kv h) = dom h"
  by (auto simp: dom_def)

lemma kv_eq_dom: "kv h' = kv h \<Longrightarrow> dom h' = dom h"
  by (metis dom_kv)

lemma set_next_node:
  assumes "a \<in> dom h"
  obtains h' where "update_node (nd_next_update (\<lambda>_. v)) h (Ref a) = Some h'"
    and "nxt h' = (nxt h)(a := v)" and "prv h' = prv h" and "kv h' = kv h"
proof -
  from assms obtain n where "h a = Some n" by auto
  then show thesis
    by (intro that [of "h(a \<mapsto> n\<lparr>nd_next := v\<rparr>)"])
      (auto simp: update_node_def nxt_def prv_def kv_def fun_eq_iff)
qed

lemma set_prev_node:
  assumes "a \<in> dom h"
  obtains h' where "update_node (nd_prev_update (\<lambda>_. v)) h (Ref a) = Some h'"
    and "nxt h' = nxt h" and "prv h' = (prv h)(a := v)" and "kv h' = kv h"
proof -
  from assms obtain n where "h a = Some n" by auto
  then show thesis
    by (intro that [of "h(a \<mapsto> n\<lparr>nd_prev := v\<rparr>)"])
      (auto simp: update_node_def nxt_def prv_def kv_def fun_eq_iff)
qed

lemma deref_node:
  assumes "a \<in> dom h"
  obtains n where "deref h (Ref a) = Some n" and "nd_next n = nxt h a" and "nd_prev n = prv h a"
    and "kv h a = Some (nd_key n, nd_data n)"
  using assms by (auto simp: nxt_def prv_def kv_def)

lemma fill_node_spec:
  assumes "a \<in> dom (lru_heap s)"
  obtains h where "fill_node s (Ref a) key data = Some (s\<lparr>lru_heap := h\<rparr>)"
    and "nxt h = nxt (lru_heap s)" and "prv h = prv (lru_heap s)"
    and "kv h = (kv (lru_heap s))(a \<mapsto> (key, data))"
proof -
  from assms obtain n where "lru_heap s a = Some n" by auto
  then show thesis
    by (intro that [of "(lru_heap s)(a \<mapsto> n\<lparr>nd_key := key, nd_data := data\<rparr>)"])
      (auto simp: fill_node_def update_node_def nxt_def prv_def kv_def fun_eq_iff)
qed

lemma detach_spec:
  assumes l: "linked (nxt (lru_heap s)) (prv (lru_heap s)) (P @ x # Q)"
    and d: "distinct (P @ x # Q)" and ne: "P \<noteq> []" "Q \<noteq> []"
    and dom: "set (P @ x # Q) \<subseteq> dom (lru_heap s)"
  obtains h where "detach s (Ref x) = Some (s\<lparr>lru_heap := h\<rparr>)"
    and "linked (nxt h) (prv h) (P @ Q)" and "kv h = kv (lru_heap s)"
proof -
  let ?h = "lru_heap s"
  note rm = linked_remove [OF d ne l]
  have in_dom: "x \<in> dom ?h" "last P \<in> dom ?h" "hd Q \<in> dom ?h"
    using dom last_in_set [OF ne(1)] hd_in_set [OF ne(2)] by auto
  obtain n where n: "deref ?h (Ref x) = Some n" "nd_next n = Ref (hd Q)" "nd_prev n = Ref (last P)"
    using deref_node [OF in_dom(1)] rm(2,3) by metis
  obtain h1 where h1: "update_node (nd_next_update (\<lambda>_. Ref (hd Q))) ?h (Ref (last P)) = Some h1"
    "nxt h1 = (nxt ?h)(last P := Ref (hd Q))" "prv h1 = prv ?h" "kv h1 = kv ?h"
    using set_next_node [OF in_dom(2)] by metis
  have dom1: "dom h1 = dom ?h" by (rule kv_eq_dom) (fact h1)
  have "last P \<noteq> x" using d ne by auto
  then obtain n1 where n1: "deref h1 (Ref x) = Some n1" "nd_next n1 = Ref (hd Q)"
    "nd_prev n1 = Ref (last P)"
    using deref_node [of x h1] in_dom(1) h1(2,3) rm(2,3) dom1 by (metis fun_upd_other)
  obtain h2 where h2: "update_node (nd_prev_update (\<lambda>_. Ref (last P))) h1 (Ref (hd Q)) = Some h2"
    "nxt h2 = nxt h1" "prv h2 = (prv h1)(hd Q := Ref (last P))" "kv h2 = kv h1"
    using set_prev_node [of "hd Q" h1] in_dom(3) dom1 by metis
  have "detach s (Ref x) = Some (s\<lparr>lru_heap := h2\<rparr>)"
    by (simp add: detach_def n h1(1) n1 h2(1) del: deref.simps)
  then show thesis
    using that rm(1) h1 h2 by simp
qed

lemma attach_spec:
  assumes l: "linked (nxt (lru_heap s)) (prv (lru_heap s)) (HeadNode # L)"
    and d: "distinct (HeadNode # x # L)" and ne: "L \<noteq> []"
    and dom: "set (HeadNode # x # L) \<subseteq> dom (lru_heap s)"
    and hd: "lru_head s = Ref HeadNode"
  obtains h where "attach s (Ref x) = Some (s\<lparr>lru_heap := h\<rparr>)"
    and "linked (nxt h) (prv h) (HeadNode # x # L)" and "kv h = kv (lru_heap s)"
proof -
  let ?h = "lru_heap s"
  have in_dom: "HeadNode \<in> dom ?h" "x \<in> dom ?h" "hd L \<in> dom ?h"
    using dom hd_in_set [OF ne] by auto
  have fst: "nxt ?h HeadNode = Ref (hd L)" using l ne by (cases L) auto
  have neq: "x \<noteq> HeadNode" "hd L \<noteq> x" "hd L \<noteq> HeadNode" using d ne by (cases L; auto)+
  obtain n0 where n0: "deref ?h (Ref HeadNode) = Some n0" "nd_next n0 = Ref (hd L)"
    using deref_node [OF in_dom(1)] fst by metis
  obtain h1 where h1: "update_node (nd_next_update (\<lambda>_. Ref (hd L))) ?h (Ref x) = Some h1"
    "nxt h1 = (nxt ?h)(x := Ref (hd L))" "prv h1 = prv ?h" "kv h1 = kv ?h"
    using set_next_node [OF in_dom(2)] by metis
  have dom1: "dom h1 = dom ?h" by (rule kv_eq_dom) (fact h1)
  obtain h2 where h2: "update_node (nd_next_update (\<lambda>_. Ref x)) h1 (Ref HeadNode) = Some h2"
    "nxt h2 = (nxt h1)(HeadNode := Ref x)" "prv h2 = prv h1" "kv h2 = kv h1"
    using set_next_node [of HeadNode h1] in_dom(1) dom1 by metis
  have dom2: "dom h2 = dom ?h" using dom1 h2(4) kv_eq_dom by metis
  obtain n where n: "deref h2 (Ref x) = Some n" "nd_next n = Ref (hd L)"
    using deref_node [of x h2] in_dom(2) dom2 h1(2) h2(2) neq by (metis fun_upd_other fun_upd_same)
  obtain h3 where h3: "update_node (nd_prev_update (\<lambda>_. Ref x)) h2 (Ref (hd L)) = Some h3"
    "nxt h3 = nxt h2" "prv h3 = (prv h2)(hd L := Ref x)" "kv h3 = kv h2"
    using set_prev_node [of "hd L" h2] in_dom(3) dom2 by metis
  have dom3: "dom h3 = dom ?h" using dom2 h3(4) kv_eq_dom by metis
  obtain h4 where h4: "update_node (nd_prev_update (\<lambda>_. Ref HeadNode)) h3 (Ref x) = Some h4"
    "nxt h4 = nxt h3" "prv h4 = (prv h3)(x := Ref HeadNode)" "kv h4 = kv h3"
    using set_prev_node [of x h3] in_dom(2) dom3 by metis
  have "attach s (Ref x) = Some (s\<lparr>lru_heap := h4\<rparr>)"
    by (simp add: attach_def hd n0 h1(1) h2(1) n h3(1) h4(1) del: deref.simps)
  moreover have "linked (nxt h4) (prv h4) (HeadNode # x # L)"
    using linked_insert [of HeadNode L x "nxt ?h" "prv ?h"] d ne l neq(1)
    by (simp add: h1 h2 h3 h4)
  ultimately show thesis
    using that h1(4) h2(4) h3(4) h4(4) by simp
qed

section \<open>The representation invariant\<close>

text \<open>
  \<open>chain\<close>: the nodes \<open>xs\<close> stand between the sentinels, in this order. \<open>indexed\<close>: the hash
  map sends a key to the node of \<open>xs\<close> that stores it and to nothing else (null apart).
\<close>

definition chain :: "nat \<Rightarrow> ('k, 'd) lru_cache \<Rightarrow> addr list \<Rightarrow> bool" where
  "chain cap s xs \<longleftrightarrow>
     lru_head s = Ref HeadNode \<and> lru_tail s = Ref TailNode \<and>
     linked (nxt (lru_heap s)) (prv (lru_heap s)) (HeadNode # xs @ [TailNode]) \<and>
     dom (lru_heap s) = {HeadNode, TailNode} \<union> Entry ` {..<cap} \<and>
     distinct xs \<and> set xs \<subseteq> Entry ` {..<cap}"

definition key_at :: "('k, 'd) lru_cache \<Rightarrow> addr \<Rightarrow> 'k" where
  "key_at s a = fst (the (kv (lru_heap s) a))"

definition indexed :: "('k, 'd) lru_cache \<Rightarrow> addr list \<Rightarrow> bool" where
  "indexed s xs \<longleftrightarrow>
     (\<forall>k a. lru_hashmap s k = Some (Ref a) \<longleftrightarrow> a \<in> set xs \<and> key_at s a = k) \<and>
     (\<forall>k. lru_hashmap s k \<noteq> Some Uninit)"

definition lru_rep :: "nat \<Rightarrow> ('k, 'd) lru_cache \<Rightarrow> addr list \<Rightarrow> addr list \<Rightarrow> bool" where
  "lru_rep cap s xs fs \<longleftrightarrow>
     chain cap s xs \<and> indexed s xs \<and> inj_on (key_at s) (set xs) \<and>
     lru_free_entries s = map Ref fs \<and> distinct (xs @ fs) \<and> set (xs @ fs) = Entry ` {..<cap}"

definition contents :: "('k, 'd) lru_cache \<Rightarrow> addr list \<Rightarrow> ('k \<times> 'd) list" where
  "contents s xs = map (\<lambda>a. the (kv (lru_heap s) a)) xs"

lemma chain_detach:
  assumes "chain cap s (ys @ x # zs)"
  obtains h where "detach s (Ref x) = Some (s\<lparr>lru_heap := h\<rparr>)"
    and "chain cap (s\<lparr>lru_heap := h\<rparr>) (ys @ zs)" and "kv h = kv (lru_heap s)"
proof -
  let ?P = "HeadNode # ys" and ?Q = "zs @ [TailNode]"
  have "linked (nxt (lru_heap s)) (prv (lru_heap s)) (?P @ x # ?Q)" "distinct (?P @ x # ?Q)"
    "set (?P @ x # ?Q) \<subseteq> dom (lru_heap s)"
    using assms by (auto simp: chain_def)
  from detach_spec [OF this(1,2) _ _ this(3)]
  obtain h where h: "detach s (Ref x) = Some (s\<lparr>lru_heap := h\<rparr>)" "kv h = kv (lru_heap s)"
    "linked (nxt h) (prv h) (?P @ ?Q)" by blast
  from kv_eq_dom [OF h(2)] show thesis
    using assms h by (intro that [of h]) (auto simp: chain_def)
qed

lemma chain_attach:
  assumes "chain cap s xs" and "x \<in> Entry ` {..<cap}" and "x \<notin> set xs"
  obtains h where "attach s (Ref x) = Some (s\<lparr>lru_heap := h\<rparr>)"
    and "chain cap (s\<lparr>lru_heap := h\<rparr>) (x # xs)" and "kv h = kv (lru_heap s)"
proof -
  have "linked (nxt (lru_heap s)) (prv (lru_heap s)) (HeadNode # xs @ [TailNode])"
    "distinct (HeadNode # x # xs @ [TailNode])"
    "set (HeadNode # x # xs @ [TailNode]) \<subseteq> dom (lru_heap s)" "lru_head s = Ref HeadNode"
    using assms by (auto simp: chain_def)
  from attach_spec [OF this(1,2) _ this(3,4)]
  obtain h where h: "attach s (Ref x) = Some (s\<lparr>lru_heap := h\<rparr>)" "kv h = kv (lru_heap s)"
    "linked (nxt h) (prv h) (HeadNode # x # xs @ [TailNode])" by blast
  from kv_eq_dom [OF h(2)] show thesis
    using assms h by (intro that [of h]) (auto simp: chain_def)
qed

lemma chain_fill:
  assumes "chain cap s xs" and "x \<in> Entry ` {..<cap}"
  obtains h where "fill_node s (Ref x) key data = Some (s\<lparr>lru_heap := h\<rparr>)"
    and "chain cap (s\<lparr>lru_heap := h\<rparr>) xs" and "kv h = (kv (lru_heap s))(x \<mapsto> (key, data))"
proof -
  have x: "x \<in> dom (lru_heap s)" using assms by (auto simp: chain_def)
  obtain h where h: "fill_node s (Ref x) key data = Some (s\<lparr>lru_heap := h\<rparr>)"
    "nxt h = nxt (lru_heap s)" "prv h = prv (lru_heap s)"
    "kv h = (kv (lru_heap s))(x \<mapsto> (key, data))"
    by (rule fill_node_spec [OF x])
  from h(4) have "dom h = insert x (dom (lru_heap s))" by (metis dom_kv dom_fun_upd option.distinct(1))
  then have "dom h = dom (lru_heap s)" using x by auto
  then show thesis
    using assms h by (intro that [of h]) (auto simp: chain_def)
qed

section \<open>Refinement of the specification\<close>

lemma frame_simps [lru_simps, simp]:
  "key_at (s\<lparr>lru_hashmap := m\<rparr>) = key_at s"
  "key_at (s\<lparr>lru_free_entries := f\<rparr>) = key_at s"
  "key_at (s\<lparr>miss_count := c\<rparr>) = key_at s"
  "contents (s\<lparr>lru_hashmap := m\<rparr>) = contents s"
  "contents (s\<lparr>lru_free_entries := f\<rparr>) = contents s"
  "contents (s\<lparr>miss_count := c\<rparr>) = contents s"
  "chain cap (s\<lparr>lru_hashmap := m\<rparr>) = chain cap s"
  "chain cap (s\<lparr>lru_free_entries := f\<rparr>) = chain cap s"
  "chain cap (s\<lparr>miss_count := c\<rparr>) = chain cap s"
  by (simp_all add: key_at_def contents_def chain_def fun_eq_iff)

lemma kv_frame:
  assumes "kv h = kv (lru_heap s)"
  shows "key_at (s\<lparr>lru_heap := h\<rparr>) = key_at s" and "contents (s\<lparr>lru_heap := h\<rparr>) = contents s"
  using assms by (simp_all add: key_at_def contents_def fun_eq_iff)

lemma fst_contents: "fst ` set (contents s xs) = key_at s ` set xs"
  by (auto simp: contents_def key_at_def image_image)

lemma contents_append [simp]:
  "contents s (xs @ ys) = contents s xs @ contents s ys"
  "contents s (x # xs) = the (kv (lru_heap s) x) # contents s xs"
  "contents s [] = []"
  by (simp_all add: contents_def)

lemma length_contents [simp]: "length (contents s xs) = length xs"
  by (simp add: contents_def)

lemma filter_contents_all:
  "k \<notin> key_at s ` set xs \<Longrightarrow> filter (\<lambda>p. fst p \<noteq> k) (contents s xs) = contents s xs"
  by (induction xs) (auto simp: key_at_def)

lemma filter_contents:
  assumes "inj_on (key_at s) (set (ys @ x # zs))" and "distinct (ys @ x # zs)"
  shows "filter (\<lambda>p. fst p \<noteq> key_at s x) (contents s (ys @ x # zs)) = contents s (ys @ zs)"
proof -
  have "key_at s x \<notin> key_at s ` set ys" "key_at s x \<notin> key_at s ` set zs"
    using assms by (auto dest: inj_onD)
  then show ?thesis
    by (simp add: filter_contents_all) (simp add: key_at_def)
qed

lemma map_of_contents:
  "inj_on (key_at s) (set xs) \<Longrightarrow> x \<in> set xs \<Longrightarrow>
   map_of (contents s xs) (key_at s x) = Some (snd (the (kv (lru_heap s) x)))"
proof (induction xs)
  case (Cons a xs)
  then show ?case
    by (cases "a = x") (auto simp: key_at_def inj_on_def)
qed simp

lemma hashmap_at_rep:
  assumes rep: "lru_rep cap s xs fs" and at: "hashmap_at s key = (p, s')"
  shows "lru_rep cap s' xs fs" and "contents s' = contents s" and "key_at s' = key_at s"
    and "miss_count s' = miss_count s"
    and "p \<noteq> Null \<longleftrightarrow> key \<in> fst ` set (contents s xs)"
    and "p \<noteq> Null \<Longrightarrow> \<exists>x \<in> set xs. p = Ref x \<and> key_at s x = key"
    and "lru_heap s' = lru_heap s"
proof -
  have s': "s' = s \<or> s' = s\<lparr>lru_hashmap := (lru_hashmap s)(key \<mapsto> Null)\<rparr> \<and> lru_hashmap s key = None"
    using at by (auto simp: hashmap_at_def split: option.splits)
  then show "lru_rep cap s' xs fs"
    using rep by (auto simp: lru_rep_def indexed_def split: if_splits) (metis option.distinct(1))
  show "contents s' = contents s" "key_at s' = key_at s" "miss_count s' = miss_count s"
    "lru_heap s' = lru_heap s"
    using s' by auto
  have ix: "\<And>a. lru_hashmap s key = Some (Ref a) \<longleftrightarrow> a \<in> set xs \<and> key_at s a = key"
    "lru_hashmap s key \<noteq> Some Uninit"
    using rep by (auto simp: lru_rep_def indexed_def)
  show hit: "p \<noteq> Null \<Longrightarrow> \<exists>x \<in> set xs. p = Ref x \<and> key_at s x = key"
    using at ix by (cases p) (auto simp: hashmap_at_def split: option.splits)
  have "key \<in> key_at s ` set xs \<Longrightarrow> p \<noteq> Null"
    using at ix(1) by (auto simp: hashmap_at_def split: option.splits)
  with hit show "p \<noteq> Null \<longleftrightarrow> key \<in> fst ` set (contents s xs)"
    by (auto simp: fst_contents)
qed

lemma Get_refines:
  assumes rep: "lru_rep cap s xs fs"
  obtains s' xs' where "lru_rep cap s' xs' fs"
    and "contents s' xs' = fst (spec_get (contents s xs) key)"
    and "Get s key value =
           Some (s', case snd (spec_get (contents s xs) key) of
                       None \<Rightarrow> (False, value) | Some d \<Rightarrow> (True, d))"
    and "getCount s' = getCount s + (if snd (spec_get (contents s xs) key) = None then 1 else 0)"
proof -
  obtain p t where at: "hashmap_at s key = (p, t)" by (cases "hashmap_at s key")
  note t = hashmap_at_rep [OF rep at]
  show thesis
  proof (cases "p = Null")
    case True
    then have "map_of (contents s xs) key = None" using t(5) by (simp add: map_of_eq_None_iff)
    then have "spec_get (contents s xs) key = (contents s xs, None)" by (simp add: spec_get_def)
    then show thesis
      using True t(1-4) at
      by (intro that [of "t\<lparr>miss_count := miss_count t + 1\<rparr>" xs])
        (auto simp: Get_def getCount_def lru_rep_def indexed_def)
  next
    case False
    with t(6) obtain x where x: "x \<in> set xs" "p = Ref x" "key_at s x = key" by blast
    then obtain ys zs where xs: "xs = ys @ x # zs" by (meson split_list)
    have ch: "chain cap t (ys @ x # zs)" and inj: "inj_on (key_at s) (set (ys @ x # zs))"
      and dist: "distinct (ys @ x # zs)" and xe: "x \<in> Entry ` {..<cap}"
      using t(1,3) xs by (auto simp: lru_rep_def)
    obtain h1 where h1: "detach t (Ref x) = Some (t\<lparr>lru_heap := h1\<rparr>)"
      "chain cap (t\<lparr>lru_heap := h1\<rparr>) (ys @ zs)" "kv h1 = kv (lru_heap t)"
      by (rule chain_detach [OF ch])
    have "x \<notin> set (ys @ zs)" using dist by auto
    then obtain h2 where h2: "attach (t\<lparr>lru_heap := h1\<rparr>) (Ref x) = Some (t\<lparr>lru_heap := h2\<rparr>)"
      "chain cap (t\<lparr>lru_heap := h2\<rparr>) (x # ys @ zs)" "kv h2 = kv (lru_heap t)"
      using chain_attach [OF h1(2) xe] h1(3) by auto
    have xd: "x \<in> dom h2" using h2(2) xe by (auto simp: chain_def)
    obtain n where n: "deref h2 (Ref x) = Some n" "kv h2 x = Some (nd_key n, nd_data n)"
      using deref_node [OF xd] by metis
    have "map_of (contents s xs) key = Some (nd_data n)"
      using map_of_contents [of s xs x] inj x xs n(2) h2(3) t(7) by simp
    moreover have "filter (\<lambda>p. fst p \<noteq> key) (contents s xs) = contents s (ys @ zs)"
      using filter_contents [OF inj dist] x(3) xs by simp
    ultimately have get:
      "spec_get (contents s xs) key = ((key, nd_data n) # contents s (ys @ zs), Some (nd_data n))"
      by (simp add: spec_get_def)
    show thesis
    proof (rule that [of "t\<lparr>lru_heap := h2\<rparr>" "x # ys @ zs"])
      show "lru_rep cap (t\<lparr>lru_heap := h2\<rparr>) (x # ys @ zs) fs"
        using t(1) h2(2) xs by (auto simp: lru_rep_def indexed_def kv_frame [OF h2(3)])
      have "the (kv (lru_heap t) x) = (key, nd_data n)"
        using n(2) h2(3) x(3) t(7) by (simp add: key_at_def)
      then show "contents (t\<lparr>lru_heap := h2\<rparr>) (x # ys @ zs) = fst (spec_get (contents s xs) key)"
        by (simp add: get kv_frame [OF h2(3)] t(2)) (simp add: t(7))
      show "Get s key value = Some (t\<lparr>lru_heap := h2\<rparr>, case snd (spec_get (contents s xs) key) of
          None \<Rightarrow> (False, value) | Some d \<Rightarrow> (True, d))"
        using h1(1) h2(1) n(1) by (simp add: Get_def at x(2) get del: deref.simps)
    qed (simp add: getCount_def get t(4))
  qed
qed

text \<open>
  Both branches of \<open>Put\<close> end by storing the pair in a detached node and attaching it; on a
  hit the hash map already sends the key to that node.
\<close>

lemma store_and_attach:
  assumes ch: "chain cap t ws" and inj: "inj_on (key_at t) (set ws)"
    and x: "x \<in> Entry ` {..<cap}" and new: "key \<notin> key_at t ` set ws"
    and ix: "\<And>k a. k \<noteq> key \<Longrightarrow>
               lru_hashmap t k = Some (Ref a) \<longleftrightarrow> a \<in> set ws \<and> key_at t a = k"
      "\<And>k. lru_hashmap t k \<noteq> Some Uninit"
    and fs: "lru_free_entries t = map Ref fs" "distinct (x # ws @ fs)"
      "set (x # ws @ fs) = Entry ` {..<cap}"
  obtains t1 t' where "fill_node t (Ref x) key data = Some t1" "lru_hashmap t1 = lru_hashmap t"
    and "attach (t1\<lparr>lru_hashmap := (lru_hashmap t)(key \<mapsto> Ref x)\<rparr>) (Ref x) = Some t'"
    and "lru_rep cap t' (x # ws) fs" and "contents t' (x # ws) = (key, data) # contents t ws"
    and "miss_count t' = miss_count t"
proof -
  obtain h1 where h1: "fill_node t (Ref x) key data = Some (t\<lparr>lru_heap := h1\<rparr>)"
    "chain cap (t\<lparr>lru_heap := h1\<rparr>) ws" "kv h1 = (kv (lru_heap t))(x \<mapsto> (key, data))"
    by (rule chain_fill [OF ch x])
  let ?t2 = "t\<lparr>lru_heap := h1, lru_hashmap := (lru_hashmap t)(key \<mapsto> Ref x)\<rparr>"
  have "chain cap ?t2 ws" "x \<notin> set ws" using h1(2) fs(2) by simp_all
  then obtain h2 where h2: "attach ?t2 (Ref x) = Some (?t2\<lparr>lru_heap := h2\<rparr>)"
    "chain cap (?t2\<lparr>lru_heap := h2\<rparr>) (x # ws)" "kv h2 = kv (lru_heap ?t2)"
    using chain_attach x by metis
  let ?t' = "?t2\<lparr>lru_heap := h2\<rparr>"
  have kv2: "kv h2 = (kv (lru_heap t))(x \<mapsto> (key, data))" using h1(3) h2(3) by simp
  have key: "key_at ?t' a = (if a = x then key else key_at t a)" for a
    by (simp add: key_at_def kv2)
  have "contents ?t' ws = contents t ws"
    using \<open>x \<notin> set ws\<close> by (auto simp: contents_def kv2)
  then have "contents ?t' (x # ws) = (key, data) # contents t ws"
    by (simp add: kv2)
  moreover have "indexed ?t' (x # ws)"
    unfolding indexed_def key using ix new \<open>x \<notin> set ws\<close> by auto
  moreover have "inj_on (key_at ?t') (set (x # ws))"
    unfolding inj_on_def key using inj new \<open>x \<notin> set ws\<close> by (auto dest: inj_onD)
  ultimately show thesis
    using that [of "t\<lparr>lru_heap := h1\<rparr>" ?t'] h1(1) h2(1,2) fs by (simp add: lru_rep_def)
qed

lemma Put_hit:
  assumes rep: "lru_rep cap s xs fs" and hit: "key \<in> fst ` set (contents s xs)"
  obtains s' xs' where "Put s key data = Some s'" and "lru_rep cap s' xs' fs"
    and "contents s' xs' = (key, data) # filter (\<lambda>p. fst p \<noteq> key) (contents s xs)"
    and "miss_count s' = miss_count s"
proof -
  obtain p t where at: "hashmap_at s key = (p, t)" by (cases "hashmap_at s key")
  note t = hashmap_at_rep [OF rep at]
  from t(5,6) hit obtain x where x: "x \<in> set xs" "p = Ref x" "key_at s x = key" by blast
  then obtain ys zs where xs: "xs = ys @ x # zs" by (meson split_list)
  have ch: "chain cap t (ys @ x # zs)" and inj: "inj_on (key_at s) (set (ys @ x # zs))"
    and dist: "distinct (ys @ x # zs)" and xe: "x \<in> Entry ` {..<cap}"
    and ix: "\<And>k a. lru_hashmap t k = Some (Ref a) \<longleftrightarrow> a \<in> set xs \<and> key_at s a = k"
      "\<And>k. lru_hashmap t k \<noteq> Some Uninit"
    and fs: "lru_free_entries t = map Ref fs" "distinct (x # (ys @ zs) @ fs)"
      "set (x # (ys @ zs) @ fs) = Entry ` {..<cap}"
    using t(1,3) xs by (auto simp: lru_rep_def indexed_def)
  obtain h1 where h1: "detach t (Ref x) = Some (t\<lparr>lru_heap := h1\<rparr>)"
    "chain cap (t\<lparr>lru_heap := h1\<rparr>) (ys @ zs)" "kv h1 = kv (lru_heap t)"
    by (rule chain_detach [OF ch])
  let ?t = "t\<lparr>lru_heap := h1\<rparr>"
  have key: "key_at ?t = key_at s" "contents ?t = contents s"
    by (simp_all add: kv_frame [OF h1(3)] t)
  have "inj_on (key_at ?t) (set (ys @ zs))" "key \<notin> key_at ?t ` set (ys @ zs)"
    using inj dist x(3) by (auto simp: key inj_on_def)
  then obtain t1 t' where t': "fill_node ?t (Ref x) key data = Some t1"
    "lru_hashmap t1 = lru_hashmap ?t"
    "attach (t1\<lparr>lru_hashmap := (lru_hashmap ?t)(key \<mapsto> Ref x)\<rparr>) (Ref x) = Some t'"
    "lru_rep cap t' (x # ys @ zs) fs" "contents t' (x # ys @ zs) = (key, data) # contents ?t (ys @ zs)"
    "miss_count t' = miss_count ?t"
    using ix fs x(3) xs by (elim store_and_attach [OF h1(2) _ xe, of key fs]) (auto simp: key)
  have "lru_hashmap t key = Some (Ref x)" using ix(1) x by blast
  then have "t1\<lparr>lru_hashmap := (lru_hashmap ?t)(key \<mapsto> Ref x)\<rparr> = t1"
    using t'(2) by (simp add: fun_upd_idem)
  with t'(3) have "attach t1 (Ref x) = Some t'" by simp
  then have "Put s key data = Some t'"
    using h1(1) t'(1) by (simp add: Put_def at x(2))
  moreover have "contents t' (x # ys @ zs) = (key, data) # filter (\<lambda>p. fst p \<noteq> key) (contents s xs)"
    using t'(5) filter_contents [OF inj dist] x(3) xs key(2) by metis
  ultimately show thesis
    using t'(4,6) t(4) that by simp
qed

lemma Put_miss_free:
  assumes rep: "lru_rep cap s xs fs" and miss: "key \<notin> fst ` set (contents s xs)"
    and free: "fs = gs @ [x]"
  obtains s' where "Put s key data = Some s'" and "lru_rep cap s' (x # xs) gs"
    and "contents s' (x # xs) = (key, data) # contents s xs" and "miss_count s' = miss_count s"
proof -
  obtain p t where at: "hashmap_at s key = (p, t)" by (cases "hashmap_at s key")
  note t = hashmap_at_rep [OF rep at]
  have p: "p = Null" using t(5) miss by blast
  let ?t = "t\<lparr>lru_free_entries := map Ref gs\<rparr>"
  have ch: "chain cap ?t xs" and inj: "inj_on (key_at ?t) (set xs)"
    and xe: "x \<in> Entry ` {..<cap}" and new: "key \<notin> key_at ?t ` set xs"
    and ix: "\<And>k a. lru_hashmap ?t k = Some (Ref a) \<longleftrightarrow> a \<in> set xs \<and> key_at ?t a = k"
      "\<And>k. lru_hashmap ?t k \<noteq> Some Uninit"
    and fs: "lru_free_entries ?t = map Ref gs" "distinct (x # xs @ gs)"
      "set (x # xs @ gs) = Entry ` {..<cap}"
    using t(1,3) miss free by (auto simp: lru_rep_def indexed_def fst_contents)
  obtain t1 t' where t': "fill_node ?t (Ref x) key data = Some t1"
    "lru_hashmap t1 = lru_hashmap ?t"
    "attach (t1\<lparr>lru_hashmap := (lru_hashmap ?t)(key \<mapsto> Ref x)\<rparr>) (Ref x) = Some t'"
    "lru_rep cap t' (x # xs) gs" "contents t' (x # xs) = (key, data) # contents ?t xs"
    "miss_count t' = miss_count ?t"
    by (rule store_and_attach [OF ch inj xe new ix fs])
  have "lru_free_entries t = map Ref gs @ [Ref x]" using t(1) free by (simp add: lru_rep_def)
  then have "Put s key data = Some t'"
    using t'(1-3) by (simp add: Put_def at p)
  then show thesis
    using t'(4-6) t(2,4) that by simp
qed

lemma Put_miss_evict:
  assumes rep: "lru_rep cap s xs []" and miss: "key \<notin> fst ` set (contents s xs)"
    and full: "xs = ys @ [x]"
  obtains s' where "Put s key data = Some s'" and "lru_rep cap s' (x # ys) []"
    and "contents s' (x # ys) = (key, data) # contents s ys" and "miss_count s' = miss_count s"
proof -
  obtain p t where at: "hashmap_at s key = (p, t)" by (cases "hashmap_at s key")
  note t = hashmap_at_rep [OF rep at]
  have p: "p = Null" using t(5) miss by blast
  have new: "key \<notin> key_at t ` set xs" using miss by (simp add: fst_contents t(3))
  have inj: "inj_on (key_at t) (set xs)"
    and ix: "\<And>k a. lru_hashmap t k = Some (Ref a) \<longleftrightarrow> a \<in> set xs \<and> key_at t a = k"
      "\<And>k. lru_hashmap t k \<noteq> Some Uninit"
    using t(1) unfolding lru_rep_def indexed_def by blast+
  have ch: "chain cap t (ys @ x # [])"
    and fs: "lru_free_entries t = map Ref []" "distinct (x # ys @ [])"
      "set (x # ys @ []) = Entry ` {..<cap}"
    using t(1) full by (auto simp: lru_rep_def)
  then have xe: "x \<in> Entry ` {..<cap}" by auto
  have tl: "lru_tail t = Ref TailNode" "TailNode \<in> dom (lru_heap t)"
    "prv (lru_heap t) TailNode = Ref x"
    using ch linked_append [of "HeadNode # ys @ [x]" "[TailNode]"] by (auto simp: chain_def)
  obtain n where n: "deref (lru_heap t) (Ref TailNode) = Some n" "nd_prev n = Ref x"
    using deref_node [OF tl(2)] tl(3) by metis
  obtain h1 where h1: "detach t (Ref x) = Some (t\<lparr>lru_heap := h1\<rparr>)"
    "chain cap (t\<lparr>lru_heap := h1\<rparr>) (ys @ [])" "kv h1 = kv (lru_heap t)"
    by (rule chain_detach [OF ch])
  have "x \<in> dom h1" using h1(2) xe by (auto simp: chain_def)
  then obtain m where m: "deref h1 (Ref x) = Some m" "nd_key m = key_at t x"
    using deref_node [of x h1] h1(3) by (metis fst_conv key_at_def option.sel)
  let ?t = "t\<lparr>lru_heap := h1, lru_hashmap := (lru_hashmap t)(key_at t x := None)\<rparr>"
  note key = kv_frame [OF h1(3)]
  have ch': "chain cap ?t ys" using h1(2) by simp
  have "x \<notin> set ys" using fs(2) by simp
  have new': "key \<notin> key_at ?t ` set ys" and inj': "inj_on (key_at ?t) (set ys)"
    using new inj full by (auto simp: key inj_on_def)
  have ix': "\<And>k a. lru_hashmap ?t k = Some (Ref a) \<longleftrightarrow> a \<in> set ys \<and> key_at ?t a = k"
    "\<And>k. lru_hashmap ?t k \<noteq> Some Uninit"
    using ix full inj \<open>x \<notin> set ys\<close> by (auto simp: key inj_on_def split: if_splits)
  have fs': "lru_free_entries ?t = map Ref []" using fs(1) by simp
  obtain t1 t' where t': "fill_node ?t (Ref x) key data = Some t1"
    "lru_hashmap t1 = lru_hashmap ?t"
    "attach (t1\<lparr>lru_hashmap := (lru_hashmap ?t)(key \<mapsto> Ref x)\<rparr>) (Ref x) = Some t'"
    "lru_rep cap t' (x # ys) []" "contents t' (x # ys) = (key, data) # contents ?t ys"
    "miss_count t' = miss_count ?t"
    by (rule store_and_attach [OF ch' inj' xe new' ix' fs' fs(2,3)])
  have "Put s key data = Some t'"
    using t'(1-3) fs(1) tl(1) n h1(1) m by (simp add: Put_def at p del: deref.simps)
  then show thesis
    using t'(4-6) t(2,4) by (simp add: key that)
qed

lemma rep_length:
  assumes "lru_rep cap s xs fs"
  shows "length xs + length fs = cap"
proof -
  have "card (set (xs @ fs)) = card (Entry ` {..<cap})" "distinct (xs @ fs)"
    using assms by (simp_all only: lru_rep_def)
  moreover have "card (Entry ` {..<cap}) = cap" by (simp add: card_image inj_on_def)
  ultimately show ?thesis by (metis distinct_card length_append)
qed

lemma Put_refines:
  assumes rep: "lru_rep cap s xs fs" and cap: "0 < cap"
  obtains s' xs' fs' where "Put s key data = Some s'" and "lru_rep cap s' xs' fs'"
    and "contents s' xs' = spec_put cap (contents s xs) key data" and "getCount s' = getCount s"
proof (cases "key \<in> fst ` set (contents s xs)")
  case True
  obtain s' xs' where *: "Put s key data = Some s'" "lru_rep cap s' xs' fs"
    "contents s' xs' = (key, data) # filter (\<lambda>p. fst p \<noteq> key) (contents s xs)"
    "miss_count s' = miss_count s"
    by (rule Put_hit [OF rep True])
  with True show ?thesis
    by (intro that [OF *(1,2)]) (simp_all add: spec_put_def getCount_def)
next
  case False
  note len = rep_length [OF rep]
  show ?thesis
  proof (cases fs rule: rev_cases)
    case Nil
    with len cap obtain ys x where xs: "xs = ys @ [x]" by (cases xs rule: rev_cases) auto
    from rep Nil have rep': "lru_rep cap s xs []" by simp
    obtain s' where *: "Put s key data = Some s'" "lru_rep cap s' (x # ys) []"
      "contents s' (x # ys) = (key, data) # contents s ys" "miss_count s' = miss_count s"
      by (rule Put_miss_evict [OF rep' False xs])
    from Nil len False xs have "spec_put cap (contents s xs) key data = (key, data) # contents s ys"
      by (simp add: spec_put_def)
    with * show ?thesis
      by (intro that [OF *(1,2)]) (simp_all add: getCount_def)
  next
    case (snoc gs x)
    obtain s' where *: "Put s key data = Some s'" "lru_rep cap s' (x # xs) gs"
      "contents s' (x # xs) = (key, data) # contents s xs" "miss_count s' = miss_count s"
      by (rule Put_miss_free [OF rep False snoc])
    from snoc len False have "spec_put cap (contents s xs) key data = (key, data) # contents s xs"
      by (simp add: spec_put_def)
    with * show ?thesis
      by (intro that [OF *(1,2)]) (simp_all add: getCount_def)
  qed
qed

section \<open>The cache as an interface\<close>

text \<open>
  What a client of the cache relies on: every operation succeeds on a valid cache of positive
  capacity and acts on the stored pairs as the specification says.
\<close>

locale lru_interface =
  fixes put :: "'c \<Rightarrow> 'k \<Rightarrow> 'd \<Rightarrow> 'c option"
    and get :: "'c \<Rightarrow> 'k \<Rightarrow> 'd \<Rightarrow> ('c \<times> bool \<times> 'd) option"
    and represents :: "nat \<Rightarrow> 'c \<Rightarrow> ('k \<times> 'd) list \<Rightarrow> bool"
  assumes put_ok: "0 < cap \<Longrightarrow> represents cap c kvs \<Longrightarrow>
      \<exists>c'. put c k d = Some c' \<and> represents cap c' (spec_put cap kvs k d)"
    and get_ok: "represents cap c kvs \<Longrightarrow>
      \<exists>c'. get c k v = Some (c', case snd (spec_get kvs k) of
              None \<Rightarrow> (False, v) | Some d \<Rightarrow> (True, d)) \<and>
           represents cap c' (fst (spec_get kvs k))"
    and rep_bound: "represents cap c kvs \<Longrightarrow> length kvs \<le> cap \<and> distinct (map fst kvs)"
begin

lemma get_hit:
  assumes "represents cap c kvs" and "map_of kvs k = Some d"
  shows "\<exists>c'. get c k v = Some (c', True, d) \<and>
              represents cap c' ((k, d) # filter (\<lambda>p. fst p \<noteq> k) kvs)"
  using get_ok [OF assms(1), of k v] assms(2) by (simp add: spec_get_def)

lemma get_miss:
  assumes "represents cap c kvs" and "map_of kvs k = None"
  shows "\<exists>c'. get c k v = Some (c', False, v) \<and> represents cap c' kvs"
  using get_ok [OF assms(1), of k v] assms(2) by (simp add: spec_get_def)

text \<open>A client that stores a sequence of pairs.\<close>

fun put_list :: "'c \<Rightarrow> ('k \<times> 'd) list \<Rightarrow> 'c option" where
  "put_list c [] = Some c"
| "put_list c ((k, d) # ps) = Option.bind (put c k d) (\<lambda>c'. put_list c' ps)"

lemma put_list_ok:
  assumes "0 < cap" and "represents cap c kvs"
  shows "\<exists>c'. put_list c ps = Some c' \<and>
              represents cap c' (fold (\<lambda>(k, d) kvs. spec_put cap kvs k d) ps kvs)"
  using assms(2)
proof (induction ps arbitrary: c kvs)
  case (Cons p ps)
  obtain k d where p: "p = (k, d)" by (cases p)
  from put_ok [OF assms(1) Cons.prems] obtain c' where "put c k d = Some c'"
    "represents cap c' (spec_put cap kvs k d)" by blast
  then show ?case using Cons.IH p by simp
qed simp

end

definition lru_represents :: "nat \<Rightarrow> ('k, 'd) lru_cache \<Rightarrow> ('k \<times> 'd) list \<Rightarrow> bool" where
  "lru_represents cap s kvs \<longleftrightarrow> (\<exists>xs fs. lru_rep cap s xs fs \<and> kvs = contents s xs)"

lemma LRUCache_represents: "lru_represents cap (LRUCache k0 d0 cap) []"
proof -
  let ?s = "LRUCache k0 d0 cap"
  have "a \<in> dom (lru_heap ?s) \<longleftrightarrow> a \<in> {HeadNode, TailNode} \<union> Entry ` {..<cap}" for a
    by (cases a) (auto simp: LRUCache_def Let_def split: if_splits)
  then have "dom (lru_heap ?s) = {HeadNode, TailNode} \<union> Entry ` {..<cap}" by blast
  then have "lru_rep cap ?s [] (map Entry [0..<cap])"
    by (auto simp: lru_rep_def chain_def indexed_def LRUCache_def Let_def nxt_def prv_def
        distinct_map inj_on_def)
  moreover have "contents ?s [] = []" by simp
  ultimately show ?thesis unfolding lru_represents_def by metis
qed
interpretation lru: lru_interface Put Get lru_represents
proof
  fix cap c kvs k d
  assume "0 < (cap::nat)" "lru_represents cap c kvs"
  then show "\<exists>c'. Put c k d = Some c' \<and> lru_represents cap c' (spec_put cap kvs k d)"
    unfolding lru_represents_def by (metis Put_refines)
next
  fix cap c kvs k v
  assume "lru_represents cap c kvs"
  then show "\<exists>c'. Get c k v = Some (c', case snd (spec_get kvs k) of
      None \<Rightarrow> (False, v) | Some d \<Rightarrow> (True, d)) \<and> lru_represents cap c' (fst (spec_get kvs k))"
    unfolding lru_represents_def by (metis Get_refines)
next
  fix cap c kvs
  assume "lru_represents cap c kvs"
  then obtain xs fs where rep: "lru_rep cap c xs fs" and kvs: "kvs = contents c xs"
    by (auto simp: lru_represents_def)
  have "map fst kvs = map (key_at c) xs" by (simp add: kvs contents_def key_at_def)
  moreover have "distinct xs" "inj_on (key_at c) (set xs)" using rep by (auto simp: lru_rep_def)
  ultimately show "length kvs \<le> cap \<and> distinct (map fst kvs)"
    using rep_length [OF rep] by (simp add: kvs distinct_map)
qed

section \<open>Sequences of operations\<close>

datatype ('k, 'd) lru_op = PutOp 'k 'd | GetOp 'k

text \<open>
  A run returns what the \<open>Get\<close>s returned, in order: \<open>Some\<close> of the value found, or \<open>None\<close>
  for the result \<open>false\<close>.
\<close>

fun lru_run ::
  "'d \<Rightarrow> ('k, 'd) lru_cache \<Rightarrow> ('k, 'd) lru_op list \<Rightarrow> ('d option list \<times> ('k, 'd) lru_cache) option"
where
  "lru_run v s [] = Some ([], s)"
| "lru_run v s (PutOp k d # ops) = do { s \<leftarrow> Put s k d; lru_run v s ops }"
| "lru_run v s (GetOp k # ops) = do {
     (s, found, d) \<leftarrow> Get s k v;
     (outs, s) \<leftarrow> lru_run v s ops;
     Some ((if found then Some d else None) # outs, s) }"

fun spec_run ::
  "nat \<Rightarrow> ('k \<times> 'd) list \<Rightarrow> ('k, 'd) lru_op list \<Rightarrow> 'd option list \<times> ('k \<times> 'd) list"
where
  "spec_run cap kvs [] = ([], kvs)"
| "spec_run cap kvs (PutOp k d # ops) = spec_run cap (spec_put cap kvs k d) ops"
| "spec_run cap kvs (GetOp k # ops) =
     (let (kvs, r) = spec_get kvs k; (outs, kvs) = spec_run cap kvs ops in (r # outs, kvs))"

lemma lru_run_represents:
  assumes "0 < cap" and "lru_represents cap s kvs"
  shows "\<exists>s'. lru_run v s ops = Some (fst (spec_run cap kvs ops), s') \<and>
              lru_represents cap s' (snd (spec_run cap kvs ops))"
  using assms(2)
proof (induction ops arbitrary: s kvs)
  case (Cons op ops)
  show ?case
  proof (cases op)
    case (PutOp k d)
    then show ?thesis using lru.put_ok [OF assms(1) Cons.prems, of k d] Cons.IH by fastforce
  next
    case (GetOp k)
    then show ?thesis
      using lru.get_ok [OF Cons.prems, of k v] Cons.IH
      by (fastforce simp: spec_get_def split: option.splits prod.splits)
  qed
qed simp

text \<open>C1: From the constructor on, with a positive capacity, no sequence of \<open>Put\<close>s and
  \<open>Get\<close>s dereferences a null or uninitialised pointer, and every \<open>Get\<close> returns what the
  association list in recency order returns; the pairs the final heap holds are that list.\<close>

theorem lru_run_refines:
  assumes "0 < cap"
  shows "\<exists>s. lru_run d0 (LRUCache k0 d0 cap) ops = Some (fst (spec_run cap [] ops), s) \<and>
             lru_represents cap s (snd (spec_run cap [] ops))"
  by (rule lru_run_represents [OF assms LRUCache_represents])

theorem lru_run_refines_witness:
  "\<exists>s. lru_run (0::nat) (LRUCache '''' 0 2)
        [PutOp ''a'' 1, PutOp ''b'' 2, GetOp ''a'', PutOp ''c'' 3, GetOp ''b'', GetOp ''a''] =
      Some ([Some 1, None, Some 1], s)"
  using lru_run_refines [of 2 "0::nat" "''''"
      "[PutOp ''a'' 1, PutOp ''b'' 2, GetOp ''a'', PutOp ''c'' 3, GetOp ''b'', GetOp ''a'']"]
  by (auto simp: spec_put_def spec_get_def)

text \<open>After any sequence of operations the cache holds at most \<open>cap\<close> pairs, one per key, and
  a \<open>Put\<close> followed by a \<open>Get\<close> of the same key returns the value stored.\<close>

theorem lru_put_get:
  assumes "0 < cap" and "lru_run d0 (LRUCache k0 d0 cap) ops = Some (outs, s)"
  shows "\<exists>kvs s' s''. lru_represents cap s kvs \<and> length kvs \<le> cap \<and> distinct (map fst kvs) \<and>
           Put s key data = Some s' \<and> Get s' key v = Some (s'', True, data)"
proof -
  obtain kvs where kvs: "lru_represents cap s kvs"
    using lru_run_represents [OF assms(1) LRUCache_represents, of d0 k0 d0 ops] assms(2) by auto
  obtain s' where "Put s key data = Some s'" "lru_represents cap s' (spec_put cap kvs key data)"
    using lru.put_ok [OF assms(1) kvs] by blast
  then show ?thesis
    using kvs lru.rep_bound [OF kvs] lru.get_hit [of cap s' _ key data v]
    by (fastforce simp: spec_put_def)
qed

theorem lru_put_get_witness:
  "\<exists>outs s s' s''. lru_run (0::nat) (LRUCache (0::nat) 0 1) [PutOp 5 7, GetOp 5] = Some (outs, s) \<and>
      Put s 6 8 = Some s' \<and> Get s' 6 0 = Some (s'', True, 8)"
proof -
  obtain outs s where "lru_run (0::nat) (LRUCache (0::nat) 0 1) [PutOp 5 7, GetOp 5] = Some (outs, s)"
    using lru_run_represents [OF _ LRUCache_represents [of 1 "0::nat" "0::nat"]] by fastforce
  then show ?thesis using lru_put_get [of 1 0 0 "[PutOp 5 7, GetOp 5]" outs s 6 8 0] by fastforce
qed

text \<open>A cache constructed with capacity zero cannot be written: the first \<open>Put\<close> takes the
  head sentinel for the node to evict and writes through its null \<open>prev\<close> pointer.\<close>

lemma lru_zero_capacity: "Put (LRUCache k0 d0 0) key data = None"
  by (simp add: Put_def LRUCache_def hashmap_at_def detach_def update_node_def Let_def)

lemma Get_fresh:
  assumes "lru_represents cap s []"
  shows "\<exists>s'. Get s k v = Some (s', False, v) \<and> lru_represents cap s' [] \<and>
           dom (lru_hashmap s') = insert k (dom (lru_hashmap s))"
proof -
  obtain p t where at: "hashmap_at s k = (p, t)" by (cases "hashmap_at s k")
  from assms obtain fs where rep: "lru_rep cap s [] fs" by (auto simp: lru_represents_def contents_def)
  have "p = Null" using hashmap_at_rep(5) [OF rep at] by simp
  moreover have "dom (lru_hashmap t) = insert k (dom (lru_hashmap s))"
    using at by (auto simp: hashmap_at_def split: option.splits)
  ultimately show ?thesis
    using lru.get_miss [OF assms, of k v] at by (auto simp: Get_def)
qed

lemma lru_gets_fresh:
  "lru_represents cap s [] \<Longrightarrow>
   \<exists>s'. lru_run v s (map GetOp ks) = Some (replicate (length ks) None, s') \<and>
     dom (lru_hashmap s') = dom (lru_hashmap s) \<union> set ks \<and> lru_represents cap s' []"
proof (induction ks arbitrary: s)
  case (Cons k ks)
  from Get_fresh [OF Cons.prems, of k v] obtain s' where "Get s k v = Some (s', False, v)"
    "lru_represents cap s' []" "dom (lru_hashmap s') = insert k (dom (lru_hashmap s))" by blast
  with Cons.IH [of s'] show ?case by auto
qed simp

text \<open>The hash map is not bounded by the capacity: after looking up keys that are not stored,
  it has an entry for each of them, although no pair is held.\<close>

theorem lru_hashmap_growth:
  "\<exists>s. lru_run d0 (LRUCache k0 d0 cap) (map GetOp ks) = Some (replicate (length ks) None, s) \<and>
       lru_represents cap s [] \<and> dom (lru_hashmap s) = set ks"
proof -
  have "dom (lru_hashmap (LRUCache k0 d0 cap)) = {}" by (simp add: LRUCache_def Let_def)
  then show ?thesis using lru_gets_fresh [OF LRUCache_represents [of cap k0 d0], of d0 ks] by auto
qed

end
