(* ===== verification/Conn_Stats_Query.thy ===== *)
theory Conn_Stats_Query
  imports Lru_Cache
begin

text \<open>
  The statistics store of \<^verbatim>\<open>src/model/net/tools/quic/quic_simple_dispatcher.cc\<close>: the class
  \<open>ConnectionStatsQuery\<close>, which loads per-cluster connection statistics and the clusters of
  recent clients from two files into two LRU caches and answers queries by client address.
  The type \<open>'v\<close> stands for C's \<open>double\<close> and the parameter \<open>atof\<close> for the conversion the
  code calls; nothing below depends on either.
\<close>

section \<open>Text files\<close>

definition newline :: char where
  "newline = CHR 0x0A"

text \<open>
  \<open>getline\<close> until it fails: a piece ends at the delimiter or at the end of the input, and an
  empty rest yields no piece.
\<close>

function split :: "char \<Rightarrow> string \<Rightarrow> string list" where
  "split flag s =
     (if s = [] then []
      else takeWhile (\<lambda>c. c \<noteq> flag) s # split flag (drop 1 (dropWhile (\<lambda>c. c \<noteq> flag) s)))"
  by pat_completeness auto
termination
proof (relation "measure (length \<circ> snd)")
  fix flag :: char and s :: string
  assume "s \<noteq> []"
  then show "((flag, drop 1 (dropWhile (\<lambda>c. c \<noteq> flag) s)), flag, s) \<in> measure (length \<circ> snd)"
    using length_dropWhile_le [of "\<lambda>c. c \<noteq> flag" s] by (cases s) auto
qed simp

declare split.simps [simp del]

text \<open>An input file stream: its bytes, the get position and the two error bits.\<close>

record ifstream =
  fs_bytes :: string
  fs_pos :: int
  fs_fail :: bool
  fs_eof :: bool

definition open_ate :: "string \<Rightarrow> ifstream" where
  "open_ate bytes = \<lparr>fs_bytes = bytes, fs_pos = int (length bytes), fs_fail = False, fs_eof = False\<rparr>"

definition fs_good :: "ifstream \<Rightarrow> bool" where
  "fs_good f \<longleftrightarrow> \<not> fs_fail f \<and> \<not> fs_eof f"

definition seekg_cur :: "int \<Rightarrow> ifstream \<Rightarrow> ifstream" where
  "seekg_cur off f =
     (let f = f\<lparr>fs_eof := False\<rparr>
      in if fs_fail f then f
         else if fs_pos f + off < 0 then f\<lparr>fs_fail := True\<rparr>
         else f\<lparr>fs_pos := fs_pos f + off\<rparr>)"

definition seekg_beg :: "int \<Rightarrow> ifstream \<Rightarrow> ifstream" where
  "seekg_beg off f =
     (let f = f\<lparr>fs_eof := False\<rparr>
      in if fs_fail f then f
         else if off < 0 then f\<lparr>fs_fail := True\<rparr>
         else f\<lparr>fs_pos := off\<rparr>)"

definition fs_clear :: "ifstream \<Rightarrow> ifstream" where
  "fs_clear f = f\<lparr>fs_fail := False, fs_eof := False\<rparr>"

text \<open>\<open>peek\<close> returns \<open>None\<close> for \<open>EOF\<close>; a stream that is not good becomes a failed one.\<close>

definition peek :: "ifstream \<Rightarrow> char option \<times> ifstream" where
  "peek f =
     (if \<not> fs_good f then (None, f\<lparr>fs_fail := True\<rparr>)
      else if nat (fs_pos f) < length (fs_bytes f) then (Some (fs_bytes f ! nat (fs_pos f)), f)
      else (None, f\<lparr>fs_eof := True\<rparr>))"

definition tellg :: "ifstream \<Rightarrow> int \<times> ifstream" where
  "tellg f = (if fs_good f then (fs_pos f, f) else (- 1, f\<lparr>fs_fail := True\<rparr>))"

text \<open>The conversion of a stream position to \<open>int\<close>.\<close>

definition to_int32 :: "int \<Rightarrow> int" where
  "to_int32 x = signed_take_bit 31 x"

section \<open>Reading the last lines of a file\<close>

text \<open>
  The inner \<open>while\<close> of \<open>Initialize\<close>: step back until the next byte is a newline or the stream
  is at its beginning. One unit of fuel is one test of the guard; \<open>None\<close> is running out of it.
\<close>

fun seek_newline :: "nat \<Rightarrow> ifstream \<Rightarrow> int \<Rightarrow> (ifstream \<times> int) option" where
  "seek_newline 0 f nCurentPos = None"
| "seek_newline (Suc fuel) f nCurentPos =
     (let (c, f) = peek f
      in if c = Some newline then Some (f, nCurentPos)
         else let (p, f) = tellg f;
                  nCurentPos = to_int32 p
              in if nCurentPos = 0 then Some (f, nCurentPos)
                 else seek_newline fuel (seekg_cur (- 1) f) nCurentPos)"

fun seek_lines :: "nat \<Rightarrow> nat \<Rightarrow> ifstream \<Rightarrow> int \<Rightarrow> (ifstream \<times> int) option" where
  "seek_lines fuel 0 f nCurentPos = Some (f, nCurentPos)"
| "seek_lines fuel (Suc n) f nCurentPos =
     (case seek_newline fuel f nCurentPos of
        None \<Rightarrow> None
      | Some (f, nCurentPos) \<Rightarrow>
          if nCurentPos = 0 then Some (f, nCurentPos)
          else seek_lines fuel n (seekg_cur (- 1) f) nCurentPos)"

definition seek_tail :: "nat \<Rightarrow> nat \<Rightarrow> string \<Rightarrow> ifstream option" where
  "seek_tail fuel sz bytes =
     (case seek_lines fuel sz (seekg_cur (- 2) (open_ate bytes)) (- 2) of
        None \<Rightarrow> None
      | Some (f, nCurentPos) \<Rightarrow>
          Some (if nCurentPos = 0 then seekg_beg 0 (fs_clear f) else seekg_cur 2 f))"

text \<open>The lines the final \<open>getline\<close> loop reads from a stream.\<close>

definition read_lines :: "ifstream \<Rightarrow> string list" where
  "read_lines f = (if fs_good f then split newline (drop (nat (fs_pos f)) (fs_bytes f)) else [])"

section \<open>The class\<close>

record 'v stats_query =
  sq_size :: nat
  sq_clusterNum :: nat
  cluster_to_stats :: "(string, 'v list) lru_cache"
  ip_to_cluster :: "(string, string) lru_cache"

definition ConnectionStatsQuery :: "nat \<Rightarrow> nat \<Rightarrow> 'v stats_query" where
  "ConnectionStatsQuery sz clusterNum =
     \<lparr>sq_size = sz, sq_clusterNum = clusterNum,
      cluster_to_stats = LRUCache [] [] clusterNum, ip_to_cluster = LRUCache [] [] sz\<rparr>"

text \<open>The default constructor uses the default member values.\<close>

definition ConnectionStatsQuery_default :: "'v stats_query" where
  "ConnectionStatsQuery_default = ConnectionStatsQuery 2000 100"

definition vec_at :: "'a list \<Rightarrow> nat \<Rightarrow> 'a option" where
  "vec_at xs i = (if i < length xs then Some (xs ! i) else None)"

text \<open>The columns of a line of statistics: minimum, maximum and mean of each statistic in turn.\<close>

fun stat_columns ::
  "(string \<Rightarrow> 'v) \<Rightarrow> string list \<Rightarrow> string list \<Rightarrow> string list \<Rightarrow> nat \<Rightarrow> nat \<Rightarrow> 'v list option" where
  "stat_columns atof sv1 sv2 sv3 i 0 = Some []"
| "stat_columns atof sv1 sv2 sv3 i (Suc n) = do {
     a \<leftarrow> vec_at sv1 i;
     b \<leftarrow> vec_at sv2 i;
     c \<leftarrow> vec_at sv3 i;
     rest \<leftarrow> stat_columns atof sv1 sv2 sv3 (Suc i) n;
     Some (atof a # atof b # atof c # rest) }"

definition parse_stats_line :: "(string \<Rightarrow> 'v) \<Rightarrow> string \<Rightarrow> (string \<times> 'v list) option" where
  "parse_stats_line atof s = do {
     let sv = split CHR '';'' s;
     p1 \<leftarrow> vec_at sv 0;
     p2 \<leftarrow> vec_at sv 1;
     p3 \<leftarrow> vec_at sv 2;
     let sv1 = split CHR '','' p1;
     let sv2 = split CHR '','' p2;
     let sv3 = split CHR '','' p3;
     clusterID \<leftarrow> vec_at sv1 0;
     stats \<leftarrow> stat_columns atof (tl sv1) sv2 sv3 0 (length sv3);
     Some (clusterID, stats) }"

fun load_stats ::
  "(string \<Rightarrow> 'v) \<Rightarrow> (string, 'v list) lru_cache \<Rightarrow> string list \<Rightarrow> (string, 'v list) lru_cache option"
where
  "load_stats atof c [] = Some c"
| "load_stats atof c (s # ss) = do {
     (clusterID, stats) \<leftarrow> parse_stats_line atof s;
     c \<leftarrow> Put c clusterID stats;
     load_stats atof c ss }"

fun load_ips ::
  "(string, string) lru_cache \<Rightarrow> string list \<Rightarrow> (string, string) lru_cache option" where
  "load_ips c [] = Some c"
| "load_ips c (s # ss) = do {
     let ip_clusterID = split CHR '','' s;
     ip \<leftarrow> vec_at ip_clusterID 0;
     clusterID \<leftarrow> vec_at ip_clusterID 1;
     c \<leftarrow> Put c ip clusterID;
     load_ips c ss }"

text \<open>\<open>Initialize\<close> on the contents of the two files, both of which could be opened.\<close>

definition Initialize ::
  "(string \<Rightarrow> 'v) \<Rightarrow> nat \<Rightarrow> 'v stats_query \<Rightarrow> string \<Rightarrow> string \<Rightarrow> 'v stats_query option" where
  "Initialize atof fuel q clusterStats clusterToIP = do {
     c1 \<leftarrow> load_stats atof (cluster_to_stats q) (split newline clusterStats);
     f \<leftarrow> seek_tail fuel (sq_size q) clusterToIP;
     c2 \<leftarrow> load_ips (ip_to_cluster q) (read_lines f);
     Some (q\<lparr>cluster_to_stats := c1, ip_to_cluster := c2\<rparr>) }"

definition Query ::
  "'v stats_query \<Rightarrow> string \<Rightarrow> 'v list \<Rightarrow> ('v stats_query \<times> bool \<times> 'v list) option" where
  "Query q ip stats = do {
     (c, found, clusterID) \<leftarrow> Get (ip_to_cluster q) ip [];
     let q = q\<lparr>ip_to_cluster := c\<rparr>;
     if \<not> found then Some (q, False, stats)
     else do {
       (c, found, stats) \<leftarrow> Get (cluster_to_stats q) clusterID stats;
       let q = q\<lparr>cluster_to_stats := c\<rparr>;
       Some (q, found, stats) } }"

section \<open>The tail of a file\<close>

definition unlines :: "string list \<Rightarrow> string" where
  "unlines ls = concat (map (\<lambda>l. l @ [newline]) ls)"

lemma unlines_simps [simp]:
  "unlines [] = []" "unlines (l # ls) = l @ newline # unlines ls"
  "unlines (ls @ ms) = unlines ls @ unlines ms"
  by (simp_all add: unlines_def)

lemma split_newline_unlines:
  "\<forall>l \<in> set ls. newline \<notin> set l \<Longrightarrow> split newline (unlines ls) = ls"
proof (induction ls)
  case Nil
  then show ?case by (simp add: split.simps)
next
  case (Cons l ls)
  from Cons.prems have "takeWhile (\<lambda>c. c \<noteq> newline) (l @ newline # unlines ls) = l"
    "dropWhile (\<lambda>c. c \<noteq> newline) (l @ newline # unlines ls) = newline # unlines ls"
    by (simp_all add: takeWhile_append dropWhile_append)
  with Cons show ?case by (simp add: split.simps [of newline "l @ newline # unlines ls"])
qed

definition at_pos :: "string \<Rightarrow> int \<Rightarrow> ifstream" where
  "at_pos bytes p = \<lparr>fs_bytes = bytes, fs_pos = p, fs_fail = False, fs_eof = False\<rparr>"

lemma at_pos_simps [simp]:
  "0 \<le> p + d \<Longrightarrow> seekg_cur d (at_pos bytes p) = at_pos bytes (p + d)"
  "nat p < length bytes \<Longrightarrow> peek (at_pos bytes p) = (Some (bytes ! nat p), at_pos bytes p)"
  "tellg (at_pos bytes p) = (p, at_pos bytes p)"
  "seekg_beg 0 (fs_clear (at_pos bytes p)) = at_pos bytes 0"
  "fs_good (at_pos bytes p)"
  "read_lines (at_pos bytes p) = split newline (drop (nat p) bytes)"
  "open_ate bytes = at_pos bytes (int (length bytes))"
  by (simp_all add: at_pos_def seekg_cur_def peek_def tellg_def seekg_beg_def fs_clear_def
      fs_good_def read_lines_def open_ate_def)

lemma to_int32_id [simp]: "0 \<le> p \<Longrightarrow> p < 2 ^ 31 \<Longrightarrow> to_int32 p = p"
  by (simp add: to_int32_def signed_take_bit_int_eq_self)

lemma seek_newline_found:
  assumes "length bytes < 2 ^ 31" and "p < length bytes" and "q \<le> p" and "bytes ! q = newline"
    and "\<forall>i. q < i \<and> i \<le> p \<longrightarrow> bytes ! i \<noteq> newline" and "p - q < fuel"
  shows "seek_newline fuel (at_pos bytes (int p)) n =
           Some (at_pos bytes (int q), if q = p then n else int q + 1)"
  using assms(2-6)
proof (induction fuel arbitrary: p n)
  case (Suc fuel)
  show ?case
  proof (cases "q = p")
    case False
    with Suc.prems obtain r where r: "p = Suc r" "q \<le> r" by (cases p) auto
    have "nat (1 + int r) = Suc r" by simp
    with r Suc.prems False assms(1) show ?thesis
      using Suc.IH [of r "int p"] by auto
  qed (use Suc.prems in simp)
qed simp

lemma seek_newline_start:
  assumes "length bytes < 2 ^ 31" and "p < length bytes"
    and "\<forall>i \<le> p. bytes ! i \<noteq> newline" and "p < fuel"
  shows "seek_newline fuel (at_pos bytes (int p)) n = Some (at_pos bytes 0, 0)"
  using assms(2-4)
proof (induction fuel arbitrary: p n)
  case (Suc fuel)
  show ?case
  proof (cases p)
    case (Suc r)
    with Suc.prems assms(1) show ?thesis using Suc.IH [of r "int p"] by simp
  qed (use Suc.prems in simp)
qed simp

text \<open>
  The outer loop on a file of lines, the first of them not empty: when the lines \<open>ls\<close> are
  still before the position, the position is one byte before the newline that ends them.
\<close>

lemma seek_lines_unlines:
  assumes "length bytes < 2 ^ 31" and "length bytes < fuel"
    and "ls \<noteq> []" and "hd ls \<noteq> []" and "\<forall>l \<in> set ls. newline \<notin> set l"
    and "bytes = unlines ls @ rest" and "n \<noteq> 0"
  shows "\<exists>f m. seek_lines fuel sz (at_pos bytes (int (length (unlines ls)) - 2)) n = Some (f, m) \<and>
           (if m = 0 then seekg_beg 0 (fs_clear f) else seekg_cur 2 f) =
             at_pos bytes (int (length (unlines (take (length ls - sz) ls))))"
  using assms(3-7)
proof (induction sz arbitrary: ls rest n)
  case 0
  then have "2 \<le> length (unlines ls)" by (cases ls) (auto simp: Suc_le_eq)
  with 0 show ?case by simp
next
  case (Suc sz)
  obtain ks l where ls: "ls = ks @ [l]" using Suc.prems(1) by (cases ls rule: rev_cases) auto
  have nl: "newline \<notin> set l" using Suc.prems(3) ls by simp
  show ?case
  proof (cases "ks = []")
    case True
    then have b: "bytes = l @ newline # rest" "l \<noteq> []" using Suc.prems ls by auto
    then have "i < length l" if "i \<le> length l - 1" for i using that by (cases l) auto
    then have "seek_newline fuel (at_pos bytes (int (length l - 1))) n = Some (at_pos bytes 0, 0)"
      using assms(1,2) b nl by (intro seek_newline_start) (auto simp: nth_append in_set_conv_nth)
    with b True ls show ?thesis by (cases l) auto
  next
    case False
    let ?q = "length (unlines ks) - 1" and ?p = "length (unlines ks) + length l - 1"
    have hd: "hd ks \<noteq> []" using Suc.prems(2) ls False by simp
    then have two: "2 \<le> length (unlines ks)" using False by (cases ks) (auto simp: Suc_le_eq)
    obtain js k where ks: "ks = js @ [k]" using False by (cases ks rule: rev_cases) auto
    have b: "bytes = unlines ks @ l @ newline # rest" using Suc.prems(4) ls by simp
    have "unlines ks ! ?q = newline" by (simp add: ks nth_append)
    moreover have "?q < length (unlines ks)" using two by linarith
    ultimately have q: "bytes ! ?q = newline" using b by (simp add: nth_append)
    have between: "\<forall>i. ?q < i \<and> i \<le> ?p \<longrightarrow> bytes ! i \<noteq> newline"
      using nl two by (auto simp: b nth_append in_set_conv_nth)
    have pos: "int (length (unlines ls)) - 2 = int ?p" using two ls by simp
    have "seek_newline fuel (at_pos bytes (int ?p)) n =
            Some (at_pos bytes (int ?q), if ?q = ?p then n else int ?q + 1)"
      using assms(1,2) b q between two by (intro seek_newline_found) auto
    moreover have "(if ?q = ?p then n else int ?q + 1) \<noteq> 0" using Suc.prems(5) by auto
    moreover have "int ?q - 1 = int (length (unlines ks)) - 2" using two by simp
    moreover have "\<exists>f m. seek_lines fuel sz (at_pos bytes (int (length (unlines ks)) - 2)) n' = Some (f, m) \<and>
        (if m = 0 then seekg_beg 0 (fs_clear f) else seekg_cur 2 f) =
          at_pos bytes (int (length (unlines (take (length ks - sz) ks))))" if "n' \<noteq> 0" for n'
      using Suc.IH [OF False hd _ b that] Suc.prems(3) ls by simp
    ultimately show ?thesis using two ls by (simp add: pos)
  qed
qed

lemma seek_tail_ends:
  assumes "length (unlines ls) < 2 ^ 31" and "length (unlines ls) < fuel"
    and "ls \<noteq> []" and "hd ls \<noteq> []" and "\<forall>l \<in> set ls. newline \<notin> set l"
  shows "\<exists>f. seek_tail fuel sz (unlines ls) = Some f \<and> read_lines f = drop (length ls - sz) ls"
proof -
  let ?n = "length ls - sz"
  have two: "2 \<le> length (unlines ls)" using assms(3,4) by (cases ls) (auto simp: Suc_le_eq)
  have un: "unlines ls = unlines (take ?n ls) @ unlines (drop ?n ls)"
    by (simp flip: unlines_simps(3))
  obtain f m where fm: "seek_lines fuel sz (at_pos (unlines ls) (int (length (unlines ls)) - 2)) (- 2)
      = Some (f, m)"
    "(if m = 0 then seekg_beg 0 (fs_clear f) else seekg_cur 2 f) =
      at_pos (unlines ls) (int (length (unlines (take ?n ls))))"
    using seek_lines_unlines [OF assms, of "[]" "- 2" sz] by auto
  have "split newline (unlines (drop ?n ls)) = drop ?n ls"
    using assms(5) by (intro split_newline_unlines) (auto dest: in_set_dropD)
  then have "read_lines (at_pos (unlines ls) (int (length (unlines (take ?n ls))))) = drop ?n ls"
    by (simp, subst un) simp
  with fm two show ?thesis by (simp add: seek_tail_def)
qed

text \<open>C23: On a file of less than 2 GB of lines whose first line is not empty, the backwards scan of \<open>Initialize\<close>
  ends, and the lines read afterwards are exactly the last \<open>size_\<close> lines of the file (all of
  them when there are fewer).\<close>

theorem seek_tail_last_lines:
  assumes "length (unlines ls) < 2 ^ 31" and "length (unlines ls) < fuel"
    and "ls \<noteq> []" and "hd ls \<noteq> []" and "\<forall>l \<in> set ls. newline \<notin> set l"
  shows "\<exists>f. seek_tail fuel sz (unlines ls) = Some f \<and> read_lines f = drop (length ls - sz) ls"
  by (rule seek_tail_ends [OF assms])

theorem seek_tail_last_lines_witness:
  "\<exists>f. seek_tail 20 2 (unlines [''a,1'', ''b,2'', ''c,3'']) = Some f \<and>
       read_lines f = [''b,2'', ''c,3'']"
  using seek_tail_last_lines [of "[''a,1'', ''b,2'', ''c,3'']" 20 2] by (simp add: newline_def)

lemma seek_newline_failed: "fs_fail f \<Longrightarrow> seek_newline fuel f n = None"
proof (induction fuel arbitrary: f n)
  case (Suc fuel)
  have "to_int32 (- 1) \<noteq> 0" by (simp add: to_int32_def)
  with Suc show ?case by (simp add: peek_def tellg_def fs_good_def seekg_cur_def)
qed simp

text \<open>C38: On a file of fewer than two bytes the initial seek fails and, as soon as one line is
  wanted, the scan never ends: no amount of fuel suffices.\<close>

theorem seek_tail_short_file:
  assumes "length bytes < 2" and "0 < sz"
  shows "seek_tail fuel sz bytes = None"
  using assms by (cases sz) (simp_all add: seek_tail_def open_ate_def seekg_cur_def seek_newline_failed
      del: at_pos_simps)

theorem seek_tail_short_file_witness: "\<forall>fuel. seek_tail fuel 2000 [] = None"
  using seek_tail_short_file [of "[]" 2000] by simp

section \<open>Loading and querying\<close>

abbreviation puts :: "nat \<Rightarrow> ('k \<times> 'd) list \<Rightarrow> ('k \<times> 'd) list \<Rightarrow> ('k \<times> 'd) list" where
  "puts cap \<equiv> fold (\<lambda>(k, d) kvs. spec_put cap kvs k d)"

lemma length_spec_put: "length (spec_put cap kvs k d) \<le> Suc (length kvs)"
  by (simp add: spec_put_def)

lemma map_of_spec_put:
  "length kvs < cap \<Longrightarrow> map_of (spec_put cap kvs k d) = (map_of kvs)(k \<mapsto> d)"
  by (auto simp: spec_put_def fun_eq_iff)

text \<open>Storing no more pairs than the cache has entries evicts nothing.\<close>

lemma map_of_puts:
  "length kvs + length ps \<le> cap \<Longrightarrow> map_of (puts cap ps kvs) = map_of kvs ++ map_of (rev ps)"
proof (induction ps arbitrary: kvs)
  case (Cons p ps)
  obtain k d where p: "p = (k, d)" by (cases p)
  have "length (spec_put cap kvs k d) + length ps \<le> cap"
    using Cons.prems length_spec_put [of cap kvs k d] by simp
  from Cons.IH [OF this] Cons.prems show ?case
    by (auto simp: p map_of_spec_put fun_eq_iff map_add_def split: option.splits)
qed simp

lemma load_stats_puts:
  assumes "0 < cap" and "lru_represents cap c kvs"
    and "map (parse_stats_line atof) ss = map Some rows"
  shows "\<exists>c'. load_stats atof c ss = Some c' \<and> lru_represents cap c' (puts cap rows kvs)"
  using assms(2,3)
proof (induction ss arbitrary: c kvs rows)
  case (Cons s ss)
  then obtain k d rs where rows: "rows = (k, d) # rs" "parse_stats_line atof s = Some (k, d)"
    "map (parse_stats_line atof) ss = map Some rs" by (cases rows) auto
  from lru.put_ok [OF assms(1) Cons.prems(1), of k d] obtain c' where "Put c k d = Some c'"
    "lru_represents cap c' (spec_put cap kvs k d)" by blast
  with Cons.IH [OF this(2) rows(3)] rows show ?case by simp
qed simp

lemma split_append:
  "flag \<notin> set a \<Longrightarrow> split flag (a @ flag # b) = a # split flag b"
  by (subst split.simps) (simp add: takeWhile_append dropWhile_append)

lemma split_single: "flag \<notin> set a \<Longrightarrow> a \<noteq> [] \<Longrightarrow> split flag a = [a]"
proof -
  assume "flag \<notin> set a" "a \<noteq> []"
  then have t: "takeWhile (\<lambda>c. c \<noteq> flag) a = a" and d: "dropWhile (\<lambda>c. c \<noteq> flag) a = []"
    by (auto simp: takeWhile_eq_all_conv dropWhile_eq_Nil_conv)
  from \<open>a \<noteq> []\<close> show ?thesis
    by (simp add: split.simps [of flag a] t d split.simps [of flag "[]"])
qed

definition ip_line :: "string \<times> string \<Rightarrow> string" where
  "ip_line p = fst p @ CHR '','' # snd p"

definition good_ip :: "string \<times> string \<Rightarrow> bool" where
  "good_ip p \<longleftrightarrow> CHR '','' \<notin> set (fst p) \<and> CHR '','' \<notin> set (snd p) \<and> snd p \<noteq> [] \<and>
     newline \<notin> set (fst p) \<and> newline \<notin> set (snd p)"

lemma load_ips_puts:
  assumes "0 < cap" and "lru_represents cap c kvs" and "\<forall>p \<in> set ips. good_ip p"
  shows "\<exists>c'. load_ips c (map ip_line ips) = Some c' \<and> lru_represents cap c' (puts cap ips kvs)"
  using assms(2,3)
proof (induction ips arbitrary: c kvs)
  case (Cons p ips)
  then have "split CHR '','' (ip_line p) = [fst p, snd p]"
    by (simp add: ip_line_def good_ip_def split_append split_single)
  moreover from lru.put_ok [OF assms(1) Cons.prems(1)] obtain c' where "Put c (fst p) (snd p) = Some c'"
    "lru_represents cap c' (spec_put cap kvs (fst p) (snd p))" by blast
  ultimately show ?case
    using Cons.IH [of c'] Cons.prems(2) by (cases p) (simp add: vec_at_def)
qed simp

text \<open>What a query store holds: the pairs in the two caches.\<close>

definition query_holds ::
  "'v stats_query \<Rightarrow> (string \<times> string) list \<Rightarrow> (string \<times> 'v list) list \<Rightarrow> bool" where
  "query_holds q ips clusters \<longleftrightarrow>
     lru_represents (sq_size q) (ip_to_cluster q) ips \<and>
     lru_represents (sq_clusterNum q) (cluster_to_stats q) clusters"

definition lookup_stats ::
  "(string \<rightharpoonup> string) \<Rightarrow> (string \<rightharpoonup> 'v list) \<Rightarrow> string \<Rightarrow> 'v list \<Rightarrow> bool \<times> 'v list" where
  "lookup_stats ips clusters ip stats = (case ips ip of
     None \<Rightarrow> (False, stats)
   | Some c \<Rightarrow> (case clusters c of None \<Rightarrow> (False, stats) | Some v \<Rightarrow> (True, v)))"

lemma Query_holds:
  assumes "query_holds q ips clusters"
  shows "\<exists>q' ips' clusters'. Query q ip stats =
           Some (q', lookup_stats (map_of ips) (map_of clusters) ip stats) \<and>
           query_holds q' ips' clusters' \<and> map_of ips' = map_of ips \<and> map_of clusters' = map_of clusters"
proof -
  have i: "lru_represents (sq_size q) (ip_to_cluster q) ips"
    and c: "lru_represents (sq_clusterNum q) (cluster_to_stats q) clusters"
    using assms by (simp_all add: query_holds_def)
  have get: "map_of ((k, d) # filter (\<lambda>p. fst p \<noteq> k) kvs) = map_of kvs" if "map_of kvs k = Some d"
    for k kvs and d :: "'x"
    using that by (auto simp: fun_eq_iff)
  show ?thesis
  proof (cases "map_of ips ip")
    case None
    then obtain i' where "Get (ip_to_cluster q) ip [] = Some (i', False, [])"
      "lru_represents (sq_size q) i' ips" using lru.get_miss [OF i None] by blast
    with None c show ?thesis
      by (auto simp: Query_def lookup_stats_def query_holds_def
          intro!: exI [of _ ips] exI [of _ clusters])
  next
    case (Some cl)
    obtain i' where i': "Get (ip_to_cluster q) ip [] = Some (i', True, cl)"
      "lru_represents (sq_size q) i' ((ip, cl) # filter (\<lambda>p. fst p \<noteq> ip) ips)"
      using lru.get_hit [OF i Some] by blast
    show ?thesis
    proof (cases "map_of clusters cl")
      case None
      then obtain c' where "Get (cluster_to_stats q) cl stats = Some (c', False, stats)"
        "lru_represents (sq_clusterNum q) c' clusters" using lru.get_miss [OF c None] by blast
      with i' Some None get [OF Some] show ?thesis
        by (auto simp: Query_def lookup_stats_def query_holds_def intro!: exI [of _ clusters]
            exI [of _ "(ip, cl) # filter (\<lambda>p. fst p \<noteq> ip) ips"])
    next
      case (Some v)
      then obtain c' where "Get (cluster_to_stats q) cl stats = Some (c', True, v)"
        "lru_represents (sq_clusterNum q) c' ((cl, v) # filter (\<lambda>p. fst p \<noteq> cl) clusters)"
        using lru.get_hit [OF c Some] by blast
      with i' Some \<open>map_of ips ip = Some cl\<close> get show ?thesis
        by (auto simp: Query_def lookup_stats_def query_holds_def fun_eq_iff
            intro!: exI [of _ "(ip, cl) # filter (\<lambda>p. fst p \<noteq> ip) ips"]
            exI [of _ "(cl, v) # filter (\<lambda>p. fst p \<noteq> cl) clusters"])
    qed
  qed
qed

lemma Initialize_holds:
  fixes atof :: "string \<Rightarrow> 'v"
  assumes "0 < sz" and "0 < cn"
    and rows: "map (parse_stats_line atof) (split newline stats_file) = map Some rows"
    and ips: "ips \<noteq> []" "\<forall>p \<in> set ips. good_ip p"
    and len: "length (unlines (map ip_line ips)) < 2 ^ 31" "length (unlines (map ip_line ips)) < fuel"
  shows "\<exists>q. Initialize atof fuel (ConnectionStatsQuery sz cn) stats_file (unlines (map ip_line ips))
               = Some q \<and>
             query_holds q (puts sz (drop (length ips - sz) ips) []) (puts cn rows [])"
proof -
  let ?q = "ConnectionStatsQuery sz cn :: 'v stats_query" and ?ls = "map ip_line ips"
  have "lru_represents cn (cluster_to_stats ?q) []" "lru_represents sz (ip_to_cluster ?q) []"
    by (simp_all add: ConnectionStatsQuery_def LRUCache_represents)
  note rep = this
  obtain c1 where c1: "load_stats atof (cluster_to_stats ?q) (split newline stats_file) = Some c1"
    "lru_represents cn c1 (puts cn rows [])"
    using load_stats_puts [OF assms(2) rep(1) rows] by blast
  have "?ls \<noteq> []" "hd ?ls \<noteq> []" "\<forall>l \<in> set ?ls. newline \<notin> set l"
    using ips by (auto simp: ip_line_def good_ip_def newline_def hd_map)
  then obtain f where f: "seek_tail fuel sz (unlines ?ls) = Some f"
    "read_lines f = map ip_line (drop (length ips - sz) ips)"
    using seek_tail_ends [OF len] by (auto simp: drop_map)
  have "\<forall>p \<in> set (drop (length ips - sz) ips). good_ip p" using ips(2) by (auto dest: in_set_dropD)
  then obtain c2 where c2: "load_ips (ip_to_cluster ?q) (read_lines f) = Some c2"
    "lru_represents sz c2 (puts sz (drop (length ips - sz) ips) [])"
    using load_ips_puts [OF assms(1) rep(2)] f(2) by metis
  have "sq_size ?q = sz" "sq_clusterNum ?q = cn" by (simp_all add: ConnectionStatsQuery_def)
  with c1 c2 f(1) show ?thesis by (simp add: Initialize_def query_holds_def)
qed

text \<open>C3: End to end. After \<open>Initialize\<close> has read well-formed files, with at most \<open>clusterNum_\<close>
  rows of statistics, at least one address line and less than 2 GB of them, a query for an address returns the statistics of the cluster that the
  last of the final \<open>size_\<close> address lines gives it, taken from that cluster's last row, and
  reports failure exactly when there is no such line or row.\<close>

theorem Query_after_Initialize:
  assumes "0 < sz" and "0 < cn"
    and "map (parse_stats_line atof) (split newline stats_file) = map Some rows" and "length rows \<le> cn"
    and "ips \<noteq> []" and "\<forall>p \<in> set ips. good_ip p"
    and "length (unlines (map ip_line ips)) < 2 ^ 31" and "length (unlines (map ip_line ips)) < fuel"
  shows "\<exists>q q'. Initialize atof fuel (ConnectionStatsQuery sz cn) stats_file (unlines (map ip_line ips))
           = Some q \<and>
         Query q ip stats = Some (q', lookup_stats (map_of (rev (drop (length ips - sz) ips)))
                                        (map_of (rev rows)) ip stats)"
proof -
  obtain q where q: "Initialize atof fuel (ConnectionStatsQuery sz cn) stats_file
      (unlines (map ip_line ips)) = Some q"
    "query_holds q (puts sz (drop (length ips - sz) ips) []) (puts cn rows [])"
    using Initialize_holds [OF assms(1-3,5-8)] by blast
  have "map_of (puts sz (drop (length ips - sz) ips) []) = map_of (rev (drop (length ips - sz) ips))"
    "map_of (puts cn rows []) = map_of (rev rows)"
    using assms(4) map_of_puts [of "[]" rows cn] map_of_puts [of "[]" "drop (length ips - sz) ips" sz]
    by simp_all
  with Query_holds [OF q(2), of ip stats] q(1) show ?thesis by auto
qed

theorem Query_after_Initialize_witness:
  "\<exists>q q'. Initialize id 40 (ConnectionStatsQuery 2 1) ''7,a,b;c,d;e,f''
            (unlines (map ip_line [(''x'', ''9''), (''y'', ''8''), (''x'', ''7'')])) = Some q \<and>
          Query q ''x'' [] = Some (q', True, [''a'', ''c'', ''e'', ''b'', ''d'', ''f''])"
proof -
  let ?ips = "[(''x'', ''9''), (''y'', ''8''), (''x'', ''7'')]"
  have rows: "map (parse_stats_line id) (split newline ''7,a,b;c,d;e,f'') =
      map Some [(''7'', [''a'', ''c'', ''e'', ''b'', ''d'', ''f''])]"
    by (simp add: split.simps newline_def parse_stats_line_def vec_at_def numeral_eq_Suc)
  show ?thesis
    using Query_after_Initialize [OF _ _ rows, of 2 1 ?ips 40 "''x''" "[]"]
    by (auto simp: good_ip_def newline_def ip_line_def lookup_stats_def)
qed

section \<open>The layout of a row of statistics\<close>

text \<open>
  The enumeration \<open>connectionStatsIndex\<close>: 33 statistics, each with its minimum, maximum and
  mean, in this order.
\<close>

datatype conn_stat =
    BYTES_SENT | PACKETS_SENT | STREAM_BYTES_SENT | PACKETS_DISCARDED | BYTES_RECEIVED
  | PACKETS_RECEIVED | PACKETS_PROCESSED | STREAM_BYTES_RECEIVED | BYTES_RETRANSMITTED
  | PACKETS_RETRANSMITTED | BYTES_SPURIOUSLY_RETRANSMITTED | PACKETS_SPURIOUSLY_RETRANSMITTED
  | PACKETS_LOST | SLOWSTART_PACKETS_SENT | SLOWSTART_PACKETS_LOST | SLOWSTART_BYTES_LOST
  | PACKETS_DROPPED | CRYPTO_RETRANSMIT_COUNT | LOSS_TIMEOUT_COUNT | TLP_COUNT | RTO_COUNT
  | MIN_RTT_US | SRTT_US | MAX_PACKET_SIZE | MAX_RECEIVED_PACKET_SIZE | ESTIMATED_BANDWIDTH
  | PACKETS_REORDERED | MAX_SEQUENCE_REORDERING | MAX_TIME_REORDERING_US | TCP_LOSS_EVENTS
  | CONNECTION_CREATION_TIME | BLOCKED_FRAMES_RECEIVED | BLOCKED_FRAMES_SENT

datatype stat_agg = STAT_MIN | STAT_MAX | STAT_MEAN

definition conn_stats :: "conn_stat list" where
  "conn_stats =
     [BYTES_SENT, PACKETS_SENT, STREAM_BYTES_SENT, PACKETS_DISCARDED, BYTES_RECEIVED,
      PACKETS_RECEIVED, PACKETS_PROCESSED, STREAM_BYTES_RECEIVED, BYTES_RETRANSMITTED,
      PACKETS_RETRANSMITTED, BYTES_SPURIOUSLY_RETRANSMITTED, PACKETS_SPURIOUSLY_RETRANSMITTED,
      PACKETS_LOST, SLOWSTART_PACKETS_SENT, SLOWSTART_PACKETS_LOST, SLOWSTART_BYTES_LOST,
      PACKETS_DROPPED, CRYPTO_RETRANSMIT_COUNT, LOSS_TIMEOUT_COUNT, TLP_COUNT, RTO_COUNT,
      MIN_RTT_US, SRTT_US, MAX_PACKET_SIZE, MAX_RECEIVED_PACKET_SIZE, ESTIMATED_BANDWIDTH,
      PACKETS_REORDERED, MAX_SEQUENCE_REORDERING, MAX_TIME_REORDERING_US, TCP_LOSS_EVENTS,
      CONNECTION_CREATION_TIME, BLOCKED_FRAMES_RECEIVED, BLOCKED_FRAMES_SENT]"

fun index_of :: "'a list \<Rightarrow> 'a \<Rightarrow> nat" where
  "index_of [] x = 0"
| "index_of (y # ys) x = (if x = y then 0 else Suc (index_of ys x))"

definition connectionStatsIndex :: "conn_stat \<Rightarrow> stat_agg \<Rightarrow> nat" where
  "connectionStatsIndex s a = 3 * index_of conn_stats s + index_of [STAT_MIN, STAT_MAX, STAT_MEAN] a"

lemma stat_columns_nth:
  assumes "stat_columns atof sv1 sv2 sv3 i n = Some stats"
  shows "length stats = 3 * n \<and>
    (\<forall>j < n. stats ! (3 * j) = atof (sv1 ! (i + j)) \<and> stats ! (3 * j + 1) = atof (sv2 ! (i + j)) \<and>
             stats ! (3 * j + 2) = atof (sv3 ! (i + j)))"
  using assms
proof (induction n arbitrary: i stats)
  case (Suc n)
  then obtain rest where rest: "stat_columns atof sv1 sv2 sv3 (Suc i) n = Some rest"
    "stats = atof (sv1 ! i) # atof (sv2 ! i) # atof (sv3 ! i) # rest"
    by (auto simp: vec_at_def split: if_splits bind_splits)
  note IH = Suc.IH [OF rest(1)]
  have "stats ! (3 * j) = atof (sv1 ! (i + j)) \<and> stats ! (3 * j + 1) = atof (sv2 ! (i + j)) \<and>
      stats ! (3 * j + 2) = atof (sv3 ! (i + j))" if "j < Suc n" for j
    using IH that rest(2) by (cases j) (auto simp: nth_Cons')
  then show ?case using IH rest(2) by simp
qed simp

lemma index_of_conn_stats: "index_of conn_stats s < 33"
  by (cases s) (simp_all add: conn_stats_def)

text \<open>The vector a line of statistics is parsed into agrees with the enumeration the
  dispatcher indexes it with: entry \<open>S_MIN\<close>, \<open>S_MAX\<close> or \<open>S_MEAN\<close> is the column of statistic
  \<open>S\<close> in the first section (after the cluster's name), the second or the third. Index
  \<open>MIN_RTT_US_MEAN\<close> is 65 and \<open>ESTIMATED_BANDWIDTH_MAX\<close> 76; a line with 33 columns has all 99
  entries.\<close>

theorem parse_stats_layout:
  assumes "parse_stats_line atof s = Some (clusterID, stats)"
    and "k = index_of conn_stats st" and "k < length (split CHR '','' (split CHR '';'' s ! 2))"
  shows "stats ! connectionStatsIndex st STAT_MIN = atof (split CHR '','' (split CHR '';'' s ! 0) ! Suc k) \<and>
         stats ! connectionStatsIndex st STAT_MAX = atof (split CHR '','' (split CHR '';'' s ! 1) ! k) \<and>
         stats ! connectionStatsIndex st STAT_MEAN = atof (split CHR '','' (split CHR '';'' s ! 2) ! k) \<and>
         length stats = 3 * length (split CHR '','' (split CHR '';'' s ! 2)) \<and>
         connectionStatsIndex MIN_RTT_US STAT_MEAN = 65 \<and>
         connectionStatsIndex ESTIMATED_BANDWIDTH STAT_MAX = 76"
proof -
  let ?sv = "\<lambda>i. split CHR '','' (split CHR '';'' s ! i)"
  from assms(1) have cols: "stat_columns atof (tl (?sv 0)) (?sv 1) (?sv 2) 0 (length (?sv 2)) = Some stats"
    and ne: "?sv 0 \<noteq> []"
    by (auto simp: parse_stats_line_def vec_at_def Let_def split: if_splits bind_splits)
  have "k < length (?sv 2)" using assms(3) .
  moreover from cols have "k < length (tl (?sv 0))"
  proof -
    have "stat_columns atof sv1 sv2 sv3 i n = Some r \<Longrightarrow> k < n \<Longrightarrow> i + k < length sv1"
      for sv1 sv2 sv3 i n k r
      by (induction n arbitrary: i k r)
        (auto simp: vec_at_def less_Suc_eq_0_disj split: if_splits bind_splits, force)
    from this [OF cols calculation] show ?thesis by simp
  qed
  ultimately show ?thesis
    using stat_columns_nth [OF cols] ne assms(2)
    by (simp add: connectionStatsIndex_def nth_tl) (simp add: conn_stats_def)
qed

theorem parse_stats_layout_witness:
  "\<exists>stats. parse_stats_line id ''7,a,b;c,d;e,f'' = Some (''7'', stats) \<and>
     stats ! connectionStatsIndex PACKETS_SENT STAT_MAX = ''d'' \<and> length stats = 6"
proof -
  have p: "parse_stats_line id ''7,a,b;c,d;e,f'' =
      Some (''7'', [''a'', ''c'', ''e'', ''b'', ''d'', ''f''])"
    by (simp add: split.simps parse_stats_line_def vec_at_def numeral_eq_Suc)
  have k: "1 = index_of conn_stats PACKETS_SENT" by (simp add: conn_stats_def)
  have l: "(1::nat) < length (split CHR '','' (split CHR '';'' ''7,a,b;c,d;e,f'' ! 2))"
    by (simp add: split.simps numeral_eq_Suc)
  from p parse_stats_layout [OF p k l] show ?thesis
    by (simp add: split.simps numeral_eq_Suc)
qed

end
