(* ===== verification/Session_Warm_Start.thy ===== *)
theory Session_Warm_Start
  imports Conn_Stats_Query Tcp_Cubic_Sender
begin

text \<open>
  \<^verbatim>\<open>QuicSimpleDispatcher\<close> of \<^verbatim>\<open>src/model/net/tools/quic/quic_simple_dispatcher.cc\<close> apart from the
  query store: a new session takes its initial window and round trip time from the statistics of the
  client's cluster.  A \<^verbatim>\<open>double\<close> is a rational; the conversion to \<^verbatim>\<open>int64_t\<close> cuts the fraction off.
  \<^const>\<open>None\<close> stands for an access beyond the end of the vector of statistics and for a call through
  the null pointer that \<^verbatim>\<open>dynamic_cast\<close> yields when another congestion controller is in use.
\<close>

section \<open>Creation of a session\<close>

definition kInitialCongestionWindow :: uint64 where "kInitialCongestionWindow = 32"
definition kDefaultMaxCongestionWindowPackets :: uint64 where "kDefaultMaxCongestionWindowPackets = 2000"

text \<open>The bandwidth of the statistics is in kilobits per second.\<close>

definition stats_bandwidth :: "rat \<Rightarrow> QuicBandwidth" where
  "stats_bandwidth x = FromBitsPerSecond (to_integer (double_round (1000 * x)))"

definition apply_stats :: "rat list \<Rightarrow> tcp_cubic_sender \<Rightarrow> rtt_stats \<Rightarrow> (tcp_cubic_sender \<times> rtt_stats) option" where
  "apply_stats st s rtt = do {
     bw_max \<leftarrow> vec_at st (connectionStatsIndex ESTIMATED_BANDWIDTH STAT_MAX);
     rtt_max \<leftarrow> vec_at st (connectionStatsIndex MIN_RTT_US STAT_MAX);
     let s = SetInitialCongestionWindowFromBandwidthAndRttPublic s (stats_bandwidth bw_max) (to_integer rtt_max);
     rtt_mean \<leftarrow> vec_at st (connectionStatsIndex MIN_RTT_US STAT_MEAN);
     let s = SetCongestionWindowFromBandwidthAndRttPublic s (stats_bandwidth bw_max) (to_integer rtt_mean);
     bw_mean \<leftarrow> vec_at st (connectionStatsIndex ESTIMATED_BANDWIDTH STAT_MEAN);
     let s = SetMinSlowstartExitWindowFromBandwidthAndRttPublic s (stats_bandwidth bw_mean) (to_integer rtt_mean);
     let rtt = set_initial_rtt_us rtt (to_integer rtt_mean);
     srtt \<leftarrow> vec_at st (connectionStatsIndex SRTT_US STAT_MEAN);
     let rtt = set_initial_srtt_us rtt (to_integer srtt);
     Some (s, rtt) }"

text \<open>
  The part of \<^verbatim>\<open>CreateQuicSession\<close> that changes the connection: its controller, if it is a
  \<^verbatim>\<open>TcpCubicSenderBytes\<close>, and its round trip time estimator.
\<close>

definition CreateQuicSession ::
  "rat stats_query \<Rightarrow> string \<Rightarrow> tcp_cubic_sender option \<Rightarrow> rtt_stats \<Rightarrow>
   (rat stats_query \<times> tcp_cubic_sender option \<times> rtt_stats) option" where
  "CreateQuicSession q clientIp sendAlgorithm rtt = do {
     (q, found, st) \<leftarrow> Query q clientIp [];
     if found then
       (case sendAlgorithm of
          None \<Rightarrow> None
        | Some s \<Rightarrow> (case apply_stats st s rtt of None \<Rightarrow> None | Some (s, rtt) \<Rightarrow> Some (q, Some s, rtt)))
     else Some (q, sendAlgorithm, rtt) }"

text \<open>The controller of a new connection, before its options are known.\<close>

definition new_sender :: "sender_stats \<Rightarrow> tcp_cubic_sender" where
  "new_sender st = TcpCubicSenderBytes False kInitialCongestionWindow kDefaultMaxCongestionWindowPackets st"

section \<open>Counting of stream resets\<close>

type_synonym 'e rst_error_map = "'e \<rightharpoonup> int"

definition GetRstErrorCount :: "'e rst_error_map \<Rightarrow> 'e \<Rightarrow> int" where
  "GetRstErrorCount m error_code = (case m error_code of None \<Rightarrow> 0 | Some n \<Rightarrow> n)"

definition OnRstStreamReceived :: "'e rst_error_map \<Rightarrow> 'e \<Rightarrow> 'e rst_error_map" where
  "OnRstStreamReceived m error_code =
     (case m error_code of None \<Rightarrow> m(error_code \<mapsto> 1) | Some n \<Rightarrow> m(error_code \<mapsto> n + 1))"

lemma GetRstErrorCount_run:
  "GetRstErrorCount (foldl OnRstStreamReceived Map.empty es) e = int (count_list es e)"
  by (induction es rule: rev_induct)
    (auto simp: GetRstErrorCount_def OnRstStreamReceived_def split: option.splits)

section \<open>The warm start keeps the window within its limits\<close>

lemma limited_window_range:
  assumes "fresh_sender s" "uint (max_congestion_window s) \<ge> 292000"
  shows "min_congestion_window s \<le> limited_window s w" "uint (limited_window s w) < uint (max_congestion_window s) + 1460"
proof -
  show "min_congestion_window s \<le> limited_window s w"
    by (simp add: limited_window_def)
  have "uint (min_congestion_window s) \<le> uint (max_congestion_window s)"
    using assms(1) by (simp add: fresh_sender_def window_inv_def word_le_def)
  moreover have "uint (min w (kMaxResumptionCongestionWindow * kDefaultTCPMSS)) \<le> 292000"
    by (simp add: min_def kMaxResumptionCongestionWindow_def kDefaultTCPMSS_def word_le_def)
  ultimately show "uint (limited_window s w) < uint (max_congestion_window s) + 1460"
    using assms(2) by (simp add: limited_window_def max_def)
qed

lemma fresh_initial:
  assumes "fresh_sender s" "min_congestion_window s \<le> w" "uint w < uint (max_congestion_window s) + 1460"
  shows "fresh_sender (s\<lparr>initial_tcp_congestion_window := w\<rparr>)"
  using assms by (simp add: fresh_sender_def window_inv_def)

lemma apply_stats_result:
  assumes "apply_stats st s rtt = Some (s', rtt')"
  obtains b0 t0 t1 e i r where
    "s' = s\<lparr>initial_tcp_congestion_window := limited_window s (ToBytesPerPeriod b0 t0),
            congestion_window := limited_window s (ToBytesPerPeriod b0 t1), min_slow_start_exit_window := e\<rparr>"
    "rtt' = set_initial_srtt_us (set_initial_rtt_us rtt i) r"
proof -
  obtain bw_max rtt_max rtt_mean bw_mean srtt where
    s': "s' = SetMinSlowstartExitWindowFromBandwidthAndRttPublic (SetCongestionWindowFromBandwidthAndRttPublic
      (SetInitialCongestionWindowFromBandwidthAndRttPublic s (stats_bandwidth bw_max) (to_integer rtt_max))
      (stats_bandwidth bw_max) (to_integer rtt_mean)) (stats_bandwidth bw_mean) (to_integer rtt_mean)"
    and rtt': "rtt' = set_initial_srtt_us (set_initial_rtt_us rtt (to_integer rtt_mean)) (to_integer srtt)"
    using assms by (auto simp: apply_stats_def Let_def bind_eq_Some_conv)
  show ?thesis
    by (rule that [OF _ rtt']) (simp add: s' SetInitialCongestionWindowFromBandwidthAndRttPublic_def
      SetCongestionWindowFromBandwidthAndRttPublic_def SetMinSlowstartExitWindowFromBandwidthAndRttPublic_def
      limited_window_def)
qed

lemma RttStats_rtt_pos:
  "rtt = set_initial_srtt_us (set_initial_rtt_us RttStats i) r \<Longrightarrow> 0 < initial_rtt_us rtt \<and> 0 \<le> smoothed_rtt rtt"
  by (simp add: set_initial_srtt_us_def set_initial_rtt_us_def RttStats_def kInitialRttMs_def kNumMicrosPerMilli_def)

lemma apply_stats_fresh:
  assumes "fresh_sender s" "uint (max_congestion_window s) \<ge> 292000" "apply_stats st s rtt = Some (s', rtt')"
  shows "fresh_sender s'"
proof -
  obtain b0 t0 t1 e i r where s': "s' = s\<lparr>initial_tcp_congestion_window := limited_window s (ToBytesPerPeriod b0 t0),
            congestion_window := limited_window s (ToBytesPerPeriod b0 t1), min_slow_start_exit_window := e\<rparr>"
    using apply_stats_result [OF assms(3)] by metis
  have "fresh_sender (s\<lparr>initial_tcp_congestion_window := limited_window s (ToBytesPerPeriod b0 t0)\<rparr>)"
    using limited_window_range [OF assms(1,2)] by (intro fresh_initial assms(1))
  then have "fresh_sender (s\<lparr>initial_tcp_congestion_window := limited_window s (ToBytesPerPeriod b0 t0)\<rparr>
      \<lparr>congestion_window := limited_window s (ToBytesPerPeriod b0 t1)\<rparr>)"
    by (rule fresh_cwnd) (use limited_window_range [OF assms(1,2)] in simp_all)
  then show ?thesis
    unfolding s' by (rule fresh_frame) simp_all
qed

lemma fresh_new_sender: "fresh_sender (new_sender st)" "uint (max_congestion_window (new_sender st)) \<ge> 292000"
proof -
  show "fresh_sender (new_sender st)"
    unfolding new_sender_def kInitialCongestionWindow_def kDefaultMaxCongestionWindowPackets_def
    by (rule fresh_TcpCubicSenderBytes) (simp_all add: word_le_def)
  show "uint (max_congestion_window (new_sender st)) \<ge> 292000"
    by (simp add: new_sender_def TcpCubicSenderBytes_def kDefaultMaxCongestionWindowPackets_def kDefaultTCPMSS_def)
qed

lemma CreateQuicSession_cases:
  assumes "CreateQuicSession q ip (Some s) rtt = Some (q', Some s', rtt')"
  obtains "s' = s" "rtt' = rtt" | st where "apply_stats st s rtt = Some (s', rtt')"
  using assms by (auto simp: CreateQuicSession_def bind_eq_Some_conv split: if_splits option.splits)

text \<open>The indices the dispatcher reads.\<close>

lemma stats_indices:
  "connectionStatsIndex MIN_RTT_US STAT_MAX = 64" "connectionStatsIndex MIN_RTT_US STAT_MEAN = 65"
  "connectionStatsIndex SRTT_US STAT_MEAN = 68" "connectionStatsIndex ESTIMATED_BANDWIDTH STAT_MAX = 76"
  "connectionStatsIndex ESTIMATED_BANDWIDTH STAT_MEAN = 77"
  by (simp_all add: connectionStatsIndex_def conn_stats_def)

lemma apply_stats_None: "apply_stats st s rtt = None \<longleftrightarrow> length st < 78"
  unfolding apply_stats_def stats_indices vec_at_def Let_def by auto

section \<open>Properties\<close>

text \<open>
  C6: A session warm-started from the stored statistics behaves: whatever the statistics are, its
  first window and the window it falls back to on migration have between 2 and 200 segments, its
  initial round trip time is positive, and with any connection options (the large slow start reduction
  aside) the window stays within its limits and the sender is never stuck, for every run of events in which less
  than 4 GB are acknowledged.
\<close>

theorem warm_start_safe:
  assumes "CreateQuicSession q ip (Some (new_sender st)) RttStats = Some (q', Some s, rtt)"
    and "\<not> has_option config kSSLR" "run_bytes es < 2 ^ 32" "bytes_in_flight < kDefaultTCPMSS"
    and "t = sender_run (SetFromConfig s config perspective) es"
  shows "2 * 1460 \<le> uint (congestion_window s) \<and> uint (congestion_window s) \<le> 200 * 1460 \<and>
         2 * 1460 \<le> uint (initial_tcp_congestion_window s) \<and> uint (initial_tcp_congestion_window s) \<le> 200 * 1460 \<and>
         0 < initial_rtt_us rtt \<and> 0 \<le> smoothed_rtt rtt \<and>
         min_congestion_window t \<le> congestion_window t \<and>
         uint (congestion_window t) < uint (max_congestion_window t) + 1460 \<and>
         TimeUntilSend t bytes_in_flight = 0"
proof -
  let ?s0 = "new_sender st"
  have w: "2920 \<le> uint (limited_window ?s0 w) \<and> uint (limited_window ?s0 w) \<le> 292000" for w
    by (simp add: limited_window_def new_sender_def TcpCubicSenderBytes_def kDefaultMinimumCongestionWindow_def
        kMaxResumptionCongestionWindow_def kDefaultTCPMSS_def max_def min_def word_le_def)
  have s: "fresh_sender s \<and> 2920 \<le> uint (congestion_window s) \<and> uint (congestion_window s) \<le> 292000 \<and>
    2920 \<le> uint (initial_tcp_congestion_window s) \<and> uint (initial_tcp_congestion_window s) \<le> 292000 \<and>
    0 < initial_rtt_us rtt \<and> 0 \<le> smoothed_rtt rtt"
    using assms(1)
  proof (cases rule: CreateQuicSession_cases)
    case 1
    then show ?thesis
      using fresh_new_sender [of st]
      by (simp add: RttStats_def kInitialRttMs_def kNumMicrosPerMilli_def)
        (simp add: new_sender_def TcpCubicSenderBytes_def kInitialCongestionWindow_def kDefaultTCPMSS_def)
  next
    case (2 sts)
    have "0 < initial_rtt_us rtt \<and> 0 \<le> smoothed_rtt rtt"
      using apply_stats_result [OF 2]
      by (metis (no_types, lifting) RttStats_rtt_pos)
    moreover from apply_stats_result [OF 2] obtain b0 t0 t1 e where
      "s = ?s0\<lparr>initial_tcp_congestion_window := limited_window ?s0 (ToBytesPerPeriod b0 t0),
            congestion_window := limited_window ?s0 (ToBytesPerPeriod b0 t1), min_slow_start_exit_window := e\<rparr>"
      by metis
    ultimately show ?thesis
      using apply_stats_fresh [OF fresh_new_sender 2] w by simp
  qed
  have "window_inv (0 + run_bytes es) t"
    unfolding assms(5) using s assms(2,3) fresh_SetFromConfig [of s config perspective]
    by (intro sender_run_inv) (simp_all add: fresh_sender_def)
  then show ?thesis
    using s assms(4) by (auto simp: window_inv_def TimeUntilSend_def prr_TimeUntilSend_def kMaxSegmentSize_def
        intro: order_less_le_trans)
qed

text \<open>
  C35: Creating a session never fails for a client whose cluster has a full row of statistics, or that
  is not known; it reads beyond the end of the vector exactly if the row found has fewer than the 78
  entries (26 columns) that the indices it uses require.
\<close>

theorem CreateQuicSession_fails:
  assumes "query_holds q ips clusters"
  shows "CreateQuicSession q ip (Some s) rtt = None \<longleftrightarrow>
         (let (found, st) = lookup_stats (map_of ips) (map_of clusters) ip [] in found \<and> length st < 78)"
proof -
  obtain q' where "Query q ip [] = Some (q', lookup_stats (map_of ips) (map_of clusters) ip [])"
    using Query_holds [OF assms] by blast
  then show ?thesis
    using apply_stats_None [of "snd (lookup_stats (map_of ips) (map_of clusters) ip [])" s rtt]
    by (auto simp: CreateQuicSession_def split_beta split: option.splits prod.splits)
qed

lemma example_query: "\<exists>q. query_holds q [(''x'', ''7'')] [(''7'', replicate 99 (50000::rat))]"
proof -
  let ?q = "ConnectionStatsQuery 2 1 :: rat stats_query"
  have rep: "lru_represents 1 (cluster_to_stats ?q) []" "lru_represents 2 (ip_to_cluster ?q) []"
    by (simp_all add: ConnectionStatsQuery_def LRUCache_represents)
  obtain c where "lru_represents 1 c (spec_put 1 [] ''7'' (replicate 99 (50000::rat)))"
    using lru.put_ok [OF _ rep(1), of "''7''" "replicate 99 50000"] by auto
  moreover obtain i where "lru_represents 2 i (spec_put 2 [] ''x'' ''7'')"
    using lru.put_ok [OF _ rep(2), of "''x''" "''7''"] by auto
  ultimately have "query_holds (?q\<lparr>cluster_to_stats := c, ip_to_cluster := i\<rparr>) [(''x'', ''7'')] [(''7'', replicate 99 50000)]"
    by (simp add: query_holds_def ConnectionStatsQuery_def spec_put_def)
  then show ?thesis ..
qed

theorem CreateQuicSession_fails_witness:
  "\<exists>q. query_holds q [(''x'', ''7'')] [(''7'', replicate 99 (50000::rat))] \<and>
       CreateQuicSession q ''x'' (Some (new_sender example_stats)) RttStats \<noteq> None"
proof -
  obtain q where q: "query_holds q [(''x'', ''7'')] [(''7'', replicate 99 (50000::rat))]"
    using example_query by blast
  show ?thesis
    using q CreateQuicSession_fails [OF q, of "''x''" "new_sender example_stats" RttStats]
    by (intro exI [of _ q]) (simp add: lookup_stats_def)
qed

theorem warm_start_safe_witness:
  "\<exists>q q' s rtt. query_holds q [(''x'', ''7'')] [(''7'', replicate 99 (50000::rat))] \<and>
     CreateQuicSession q ''x'' (Some (new_sender example_stats)) RttStats = Some (q', Some s, rtt) \<and>
     2 * 1460 \<le> uint (congestion_window s) \<and> uint (congestion_window s) \<le> 200 * 1460"
proof -
  obtain q where q: "query_holds q [(''x'', ''7'')] [(''7'', replicate 99 (50000::rat))]"
    using example_query by blast
  then obtain q' where qq: "Query q ''x'' [] = Some (q', True, replicate 99 50000)"
    using Query_holds [OF q, of "''x''" "[]"] by (auto simp: lookup_stats_def)
  obtain s rtt where "apply_stats (replicate 99 50000) (new_sender example_stats) RttStats = Some (s, rtt)"
    using apply_stats_None [of "replicate 99 50000" "new_sender example_stats" RttStats] by fastforce
  then have c: "CreateQuicSession q ''x'' (Some (new_sender example_stats)) RttStats = Some (q', Some s, rtt)"
    using qq by (simp add: CreateQuicSession_def)
  show ?thesis
    using q c warm_start_safe [OF c, of None "[]" 0]
    by (intro exI conjI) (auto simp: has_option_def run_bytes_def kDefaultTCPMSS_def)
qed

end
