(* ===== verification/Windowed_Filter.thy ===== *)
theory Windowed_Filter
  imports Quic_Time
begin

text \<open>
  The estimate of the best sample in a moving window, \<^verbatim>\<open>WindowedFilter\<close> of
  \<^verbatim>\<open>src/model/net/quic/core/congestion_control/windowed_filter.h\<close>, over any type of samples
  and times in microseconds.
\<close>

section \<open>Operations\<close>

definition MinFilter :: "'a::linorder \<Rightarrow> 'a \<Rightarrow> bool" where "MinFilter lhs rhs \<longleftrightarrow> lhs \<le> rhs"
definition MaxFilter :: "'a::linorder \<Rightarrow> 'a \<Rightarrow> bool" where "MaxFilter lhs rhs \<longleftrightarrow> lhs \<ge> rhs"

record 'a wf_sample =
  sample :: 'a
  stime :: QuicTime

record 'a windowed_filter =
  window_length :: QuicTimeDelta
  zero_value :: 'a
  estimate0 :: "'a wf_sample"
  estimate1 :: "'a wf_sample"
  estimate2 :: "'a wf_sample"

definition Sample :: "'a \<Rightarrow> QuicTime \<Rightarrow> 'a wf_sample" where
  "Sample v t = \<lparr>sample = v, stime = t\<rparr>"

definition WindowedFilter :: "QuicTimeDelta \<Rightarrow> 'a \<Rightarrow> QuicTime \<Rightarrow> 'a windowed_filter" where
  "WindowedFilter w zero t0 =
     \<lparr>window_length = w, zero_value = zero, estimate0 = Sample zero t0, estimate1 = Sample zero t0,
      estimate2 = Sample zero t0\<rparr>"

definition wf_Reset :: "'a windowed_filter \<Rightarrow> 'a \<Rightarrow> QuicTime \<Rightarrow> 'a windowed_filter" where
  "wf_Reset f new_sample new_time =
     f\<lparr>estimate0 := Sample new_sample new_time, estimate1 := Sample new_sample new_time,
       estimate2 := Sample new_sample new_time\<rparr>"

definition wf_Update ::
  "('a \<Rightarrow> 'a \<Rightarrow> bool) \<Rightarrow> 'a windowed_filter \<Rightarrow> 'a \<Rightarrow> QuicTime \<Rightarrow> 'a windowed_filter" where
  "wf_Update Compare f new_sample new_time =
     (if sample (estimate0 f) = zero_value f \<or> Compare new_sample (sample (estimate0 f)) \<or>
         new_time - stime (estimate2 f) > window_length f
      then wf_Reset f new_sample new_time
      else
        let f = (if Compare new_sample (sample (estimate1 f)) then
                   f\<lparr>estimate1 := Sample new_sample new_time, estimate2 := Sample new_sample new_time\<rparr>
                 else if Compare new_sample (sample (estimate2 f)) then
                   f\<lparr>estimate2 := Sample new_sample new_time\<rparr>
                 else f)
        in if new_time - stime (estimate0 f) > window_length f then
             let f = f\<lparr>estimate0 := estimate1 f, estimate1 := estimate2 f, estimate2 := Sample new_sample new_time\<rparr>
             in if new_time - stime (estimate0 f) > window_length f
                then f\<lparr>estimate0 := estimate1 f, estimate1 := estimate2 f\<rparr> else f
           else if sample (estimate1 f) = sample (estimate0 f) \<and>
                   new_time - stime (estimate1 f) > drop_bit 2 (window_length f) then
             f\<lparr>estimate1 := Sample new_sample new_time, estimate2 := Sample new_sample new_time\<rparr>
           else if sample (estimate2 f) = sample (estimate1 f) \<and>
                   new_time - stime (estimate2 f) > drop_bit 1 (window_length f) then
             f\<lparr>estimate2 := Sample new_sample new_time\<rparr>
           else f)"

definition GetBest :: "'a windowed_filter \<Rightarrow> 'a" where "GetBest f = sample (estimate0 f)"
definition GetSecondBest :: "'a windowed_filter \<Rightarrow> 'a" where "GetSecondBest f = sample (estimate1 f)"
definition GetThirdBest :: "'a windowed_filter \<Rightarrow> 'a" where "GetThirdBest f = sample (estimate2 f)"

section \<open>The contract of the comparison\<close>

text \<open>The samples given to a filter, oldest first.\<close>

type_synonym 'a wf_history = "('a \<times> QuicTime) list"

fun wf_run :: "('a \<Rightarrow> 'a \<Rightarrow> bool) \<Rightarrow> 'a windowed_filter \<Rightarrow> 'a wf_history \<Rightarrow> 'a windowed_filter" where
  "wf_run Compare f [] = f"
| "wf_run Compare f (x # xs) = wf_run Compare (wf_Update Compare f (fst x) (snd x)) xs"

text \<open>An estimate is a sample of the history that no later sample improves on.\<close>

definition best_since :: "('a \<Rightarrow> 'a \<Rightarrow> bool) \<Rightarrow> 'a wf_history \<Rightarrow> 'a wf_sample \<Rightarrow> bool" where
  "best_since Compare hist e \<longleftrightarrow>
     (\<exists>before after. hist = before @ (sample e, stime e) # after \<and> (\<forall>x\<in>set after. Compare (sample e) (fst x)))"

definition wf_inv :: "('a \<Rightarrow> 'a \<Rightarrow> bool) \<Rightarrow> 'a wf_history \<Rightarrow> 'a windowed_filter \<Rightarrow> bool" where
  "wf_inv Compare hist f \<longleftrightarrow>
     best_since Compare hist (estimate0 f) \<and> best_since Compare hist (estimate1 f) \<and>
     best_since Compare hist (estimate2 f) \<and>
     Compare (GetBest f) (GetSecondBest f) \<and> Compare (GetSecondBest f) (GetThirdBest f) \<and>
     stime (estimate0 f) \<le> stime (estimate1 f) \<and> stime (estimate1 f) \<le> stime (estimate2 f) \<and>
     stime (estimate2 f) \<le> snd (last hist) \<and> snd (last hist) - stime (estimate0 f) \<le> window_length f"

text \<open>The estimates after the new sample \<open>v\<close> at time \<open>t\<close> has replaced worse ones.\<close>

definition absorbed :: "('a \<Rightarrow> 'a \<Rightarrow> bool) \<Rightarrow> 'a wf_history \<Rightarrow> 'a \<Rightarrow> QuicTime \<Rightarrow> 'a windowed_filter \<Rightarrow> bool" where
  "absorbed Compare hist v t g \<longleftrightarrow>
     best_since Compare (hist @ [(v, t)]) (estimate0 g) \<and> best_since Compare (hist @ [(v, t)]) (estimate1 g) \<and>
     best_since Compare (hist @ [(v, t)]) (estimate2 g) \<and>
     Compare (sample (estimate0 g)) (sample (estimate1 g)) \<and>
     Compare (sample (estimate1 g)) (sample (estimate2 g)) \<and> Compare (sample (estimate2 g)) v \<and>
     stime (estimate0 g) \<le> stime (estimate1 g) \<and> stime (estimate1 g) \<le> stime (estimate2 g) \<and>
     stime (estimate2 g) \<le> t \<and> t - stime (estimate2 g) \<le> window_length g"

locale sample_order =
  fixes Compare :: "'a \<Rightarrow> 'a \<Rightarrow> bool"
  assumes refl: "Compare x x"
    and trans: "Compare x y \<Longrightarrow> Compare y z \<Longrightarrow> Compare x z"
    and total: "Compare x y \<or> Compare y x"
begin

lemma best_since_new: "best_since Compare (hist @ [(v, t)]) (Sample v t)"
  unfolding best_since_def Sample_def by (rule exI [of _ hist], rule exI [of _ "[]"]) simp

lemma best_since_keep:
  assumes "best_since Compare hist e" "Compare (sample e) v"
  shows "best_since Compare (hist @ [(v, t)]) e"
proof -
  obtain before after where "hist = before @ (sample e, stime e) # after"
    "\<forall>x\<in>set after. Compare (sample e) (fst x)"
    using assms(1) by (auto simp: best_since_def)
  then show ?thesis
    unfolding best_since_def using assms(2) by (intro exI [of _ before] exI [of _ "after @ [(v, t)]"]) auto
qed

lemma worse: "\<not> Compare x y \<Longrightarrow> Compare y x"
  using total by blast

lemma reset_inv: "0 \<le> window_length f \<Longrightarrow> wf_inv Compare (hist @ [(v, t)]) (wf_Reset f v t)"
  by (simp add: wf_inv_def wf_Reset_def best_since_new GetBest_def GetSecondBest_def GetThirdBest_def refl)
    (simp add: Sample_def)

lemma absorbed_replaced:
  assumes "wf_inv Compare hist f" "0 \<le> window_length f" "snd (last hist) \<le> t"
    and "\<not> Compare v (sample (estimate0 f))" "t - stime (estimate2 f) \<le> window_length f"
  shows "absorbed Compare hist v t
    (if Compare v (sample (estimate1 f)) then f\<lparr>estimate1 := Sample v t, estimate2 := Sample v t\<rparr>
     else if Compare v (sample (estimate2 f)) then f\<lparr>estimate2 := Sample v t\<rparr> else f)"
proof -
  have f: "best_since Compare hist (estimate0 f)" "best_since Compare hist (estimate1 f)"
    "best_since Compare hist (estimate2 f)" "Compare (sample (estimate0 f)) (sample (estimate1 f))"
    "Compare (sample (estimate1 f)) (sample (estimate2 f))" "stime (estimate0 f) \<le> stime (estimate1 f)"
    "stime (estimate1 f) \<le> stime (estimate2 f)" "stime (estimate2 f) \<le> t"
    using assms(1,3) by (auto simp: wf_inv_def GetBest_def GetSecondBest_def GetThirdBest_def)
  note e0 = worse [OF assms(4)]
  have v: "sample (Sample v t) = v" "stime (Sample v t) = t"
    by (simp_all add: Sample_def)
  consider "Compare v (sample (estimate1 f))"
    | "\<not> Compare v (sample (estimate1 f))" "Compare v (sample (estimate2 f))"
    | "\<not> Compare v (sample (estimate1 f))" "\<not> Compare v (sample (estimate2 f))"
    by blast
  then show ?thesis
  proof cases
    case 1
    then show ?thesis
      using f assms(2) e0 by (simp add: absorbed_def best_since_new best_since_keep refl v)
  next
    case 2
    then show ?thesis
      using f assms(2) e0 worse [OF 2(1)] by (simp add: absorbed_def best_since_new best_since_keep refl v)
  next
    case 3
    then show ?thesis
      using f assms(5) e0 worse [OF 3(1)] worse [OF 3(2)] by (simp add: absorbed_def best_since_keep)
  qed
qed

lemma absorbed_inv:
  assumes "absorbed Compare hist v t g" "t - stime (estimate0 g) \<le> window_length g"
  shows "wf_inv Compare (hist @ [(v, t)]) g"
  using assms by (simp add: absorbed_def wf_inv_def GetBest_def GetSecondBest_def GetThirdBest_def)

lemma absorbed_shift:
  assumes "absorbed Compare hist v t g" "0 \<le> window_length g"
  shows "absorbed Compare hist v t (g\<lparr>estimate0 := estimate1 g, estimate1 := estimate2 g, estimate2 := Sample v t\<rparr>)"
  using assms by (auto simp: absorbed_def best_since_new) (auto simp: Sample_def refl)

lemma absorbed_shift_again:
  assumes "absorbed Compare hist v t g"
  shows "absorbed Compare hist v t (g\<lparr>estimate0 := estimate1 g, estimate1 := estimate2 g\<rparr>)"
  using assms by (auto simp: absorbed_def refl)

lemma absorbed_refresh:
  assumes "absorbed Compare hist v t g" "0 \<le> window_length g"
  shows "absorbed Compare hist v t (g\<lparr>estimate1 := Sample v t, estimate2 := Sample v t\<rparr>)"
    and "absorbed Compare hist v t (g\<lparr>estimate2 := Sample v t\<rparr>)"
proof -
  have g: "Compare (sample (estimate0 g)) (sample (estimate1 g))" "Compare (sample (estimate1 g)) (sample (estimate2 g))"
    "Compare (sample (estimate2 g)) v"
    using assms(1) by (simp_all add: absorbed_def)
  have "Compare (sample (estimate1 g)) v"
    by (rule trans [OF g(2,3)])
  moreover have "Compare (sample (estimate0 g)) v"
    by (rule trans [OF g(1) calculation])
  ultimately show "absorbed Compare hist v t (g\<lparr>estimate1 := Sample v t, estimate2 := Sample v t\<rparr>)"
    "absorbed Compare hist v t (g\<lparr>estimate2 := Sample v t\<rparr>)"
    using assms by (auto simp: absorbed_def best_since_new refl) (auto simp: Sample_def refl)
qed

lemma update_inv:
  assumes inv: "wf_inv Compare hist f" and w: "0 \<le> window_length f" and t: "snd (last hist) \<le> t"
  shows "wf_inv Compare (hist @ [(v, t)]) (wf_Update Compare f v t)"
proof (cases "sample (estimate0 f) = zero_value f \<or> Compare v (sample (estimate0 f)) \<or>
         t - stime (estimate2 f) > window_length f")
  case True
  then have "wf_Update Compare f v t = wf_Reset f v t"
    by (simp add: wf_Update_def)
  then show ?thesis
    by (simp add: reset_inv w)
next
  case False
  define g where "g = (if Compare v (sample (estimate1 f)) then f\<lparr>estimate1 := Sample v t, estimate2 := Sample v t\<rparr>
    else if Compare v (sample (estimate2 f)) then f\<lparr>estimate2 := Sample v t\<rparr> else f)"
  have g: "absorbed Compare hist v t g"
    unfolding g_def by (rule absorbed_replaced) (use inv w t False in auto)
  have wg: "window_length g = window_length f"
    by (simp add: g_def)
  let ?g1 = "g\<lparr>estimate0 := estimate1 g, estimate1 := estimate2 g, estimate2 := Sample v t\<rparr>"
  have "wf_Update Compare f v t =
     (if t - stime (estimate0 g) > window_length g then
        (if t - stime (estimate0 ?g1) > window_length ?g1
         then ?g1\<lparr>estimate0 := estimate1 ?g1, estimate1 := estimate2 ?g1\<rparr> else ?g1)
      else if sample (estimate1 g) = sample (estimate0 g) \<and> t - stime (estimate1 g) > drop_bit 2 (window_length g)
      then g\<lparr>estimate1 := Sample v t, estimate2 := Sample v t\<rparr>
      else if sample (estimate2 g) = sample (estimate1 g) \<and> t - stime (estimate2 g) > drop_bit 1 (window_length g)
      then g\<lparr>estimate2 := Sample v t\<rparr> else g)"
    using False unfolding wf_Update_def g_def [symmetric] Let_def by (simp only: if_False simp_thms)
  moreover have "t - stime (estimate0 (?g1\<lparr>estimate0 := estimate1 ?g1, estimate1 := estimate2 ?g1\<rparr>)) \<le> window_length ?g1"
    using g by (simp add: absorbed_def)
  ultimately show ?thesis
    using g w absorbed_shift [OF g] absorbed_shift_again [OF absorbed_shift [OF g]] absorbed_refresh [OF g]
    by (auto intro!: absorbed_inv simp: wg)
qed

lemma update_window: "window_length (wf_Update Compare f v t) = window_length f"
  by (simp add: wf_Update_def wf_Reset_def Let_def)

lemma run_window: "window_length (wf_run Compare f xs) = window_length f"
  by (induction xs arbitrary: f) (simp_all add: update_window)

lemma run_inv_append:
  assumes "wf_inv Compare hist f" "0 \<le> window_length f" "sorted (map snd (hist @ xs))" "hist \<noteq> []"
  shows "wf_inv Compare (hist @ xs) (wf_run Compare f xs)"
  using assms
proof (induction xs arbitrary: hist f)
  case (Cons x xs)
  have "snd (last hist) \<le> snd x"
    using Cons.prems(3,4) by (auto simp: sorted_append)
  from update_inv [OF Cons.prems(1,2) this, of "fst x"]
  have "wf_inv Compare (hist @ [x]) (wf_Update Compare f (fst x) (snd x))"
    by simp
  from Cons.IH [OF this] Cons.prems show ?case
    by (simp add: update_window)
qed simp

lemma run_inv:
  assumes "0 \<le> w" "sorted (map snd hist)" "hist \<noteq> []"
  shows "wf_inv Compare hist (wf_run Compare (WindowedFilter w zero t0) hist)"
proof -
  obtain x xs where h: "hist = x # xs"
    using assms(3) by (cases hist) auto
  define f where "f = wf_Update Compare (WindowedFilter w zero t0) (fst x) (snd x)"
  have f: "f = wf_Reset (WindowedFilter w zero t0) (fst x) (snd x)"
    by (simp add: f_def wf_Update_def WindowedFilter_def Sample_def)
  have "wf_inv Compare [x] f"
    using reset_inv [of "WindowedFilter w zero t0" "[]" "fst x" "snd x"] assms(1)
    by (simp add: f WindowedFilter_def)
  moreover have "window_length f = w"
    by (simp add: f wf_Reset_def WindowedFilter_def)
  ultimately show ?thesis
    using run_inv_append [of "[x]" f xs] assms by (simp add: h f_def [symmetric])
qed

lemma run_best:
  assumes "0 \<le> w" "sorted (map snd hist)" "hist \<noteq> []"
    and "f = wf_run Compare (WindowedFilter w zero t0) hist"
  shows "best_since Compare hist (estimate0 f) \<and> snd (last hist) - stime (estimate0 f) \<le> w \<and>
         Compare (GetBest f) (GetSecondBest f) \<and> Compare (GetSecondBest f) (GetThirdBest f) \<and>
         stime (estimate0 f) \<le> stime (estimate1 f) \<and> stime (estimate1 f) \<le> stime (estimate2 f)"
  using run_inv [OF assms(1-3), of zero t0]
  by (simp add: wf_inv_def assms(4) run_window) (simp add: WindowedFilter_def)

end

interpretation min_filter: sample_order "MinFilter :: 'a::linorder \<Rightarrow> 'a \<Rightarrow> bool"
  by unfold_locales (auto simp: MinFilter_def)

interpretation max_filter: sample_order "MaxFilter :: 'a::linorder \<Rightarrow> 'a \<Rightarrow> bool"
  by unfold_locales (auto simp: MaxFilter_def)

section \<open>Properties\<close>

text \<open>
  C34: After any samples with non-decreasing times, the best estimate of a maximum (or minimum)
  filter is a sample no older than the window, every sample given after it is at most (at least) as
  large, and the three estimates are ordered by value and by age.
\<close>

theorem WindowedFilter_best:
  fixes zero :: "'a::linorder"
  assumes "0 \<le> w" "sorted (map snd hist)" "hist \<noteq> []"
    and "Compare = MaxFilter \<or> Compare = MinFilter" and "f = wf_run Compare (WindowedFilter w zero t0) hist"
  shows "best_since Compare hist (estimate0 f) \<and> snd (last hist) - stime (estimate0 f) \<le> w \<and>
         Compare (GetBest f) (GetSecondBest f) \<and> Compare (GetSecondBest f) (GetThirdBest f) \<and>
         stime (estimate0 f) \<le> stime (estimate1 f) \<and> stime (estimate1 f) \<le> stime (estimate2 f)"
  using assms(4) max_filter.run_best [OF assms(1-3)] min_filter.run_best [OF assms(1-3)] assms(5) by metis

theorem WindowedFilter_best_witness:
  "best_since MaxFilter [(5, 1), (3, 2), (4::int, 20)]
     (estimate0 (wf_run MaxFilter (WindowedFilter 10 0 0) [(5, 1), (3, 2), (4, 20)]))"
  using WindowedFilter_best [of 10 "[(5, 1), (3, 2), (4::int, 20)]" MaxFilter _ 0 0] by simp

end
