(* ===== verification/Flow_Controller.thy ===== *)
theory Flow_Controller
  imports Quic_Prelude Float_Model
begin

text \<open>
  Flow control of a stream or of the session: \<^verbatim>\<open>QuicFlowController\<close> of
  \<^verbatim>\<open>src/model/net/quic/core/quic_flow_controller.cc\<close>.  Offsets are 64-bit words.  The frames and
  the close of the connection it asks the connection for are returned as events; the time and the
  smoothed round trip time it reads from the connection are arguments.  A stream's controller may
  call the session's, which is then part of the state.
\<close>

section \<open>State and events\<close>

definition kConnectionLevelId :: QuicStreamId where "kConnectionLevelId = 0"
definition kStreamReceiveWindowLimit :: QuicByteCount where
  "kStreamReceiveWindowLimit = 16 * 1024 * 1024"
definition kSessionReceiveWindowLimit :: QuicByteCount where
  "kSessionReceiveWindowLimit = 24 * 1024 * 1024"
definition kSessionFlowControlMultiplier :: rat where "kSessionFlowControlMultiplier = 3 / 2"

record flow_controller =
  fc_id :: QuicStreamId
  bytes_sent :: QuicByteCount
  send_window_offset :: QuicStreamOffset
  bytes_consumed :: QuicByteCount
  highest_received_byte_offset :: QuicStreamOffset
  receive_window_offset :: QuicStreamOffset
  receive_window_size :: QuicByteCount
  receive_window_size_limit :: QuicByteCount
  auto_tune_receive_window :: bool
  last_blocked_send_window_offset :: QuicStreamOffset
  prev_window_update_time :: QuicTime

datatype fc_event = SentBlocked QuicStreamId | SentWindowUpdate QuicStreamId QuicStreamOffset
  | ClosedSentTooMuchData QuicByteCount

definition QuicFlowController ::
  "QuicStreamId \<Rightarrow> QuicStreamOffset \<Rightarrow> QuicStreamOffset \<Rightarrow> bool \<Rightarrow> flow_controller" where
  "QuicFlowController i send_offset receive_offset auto_tune =
     \<lparr>fc_id = i, bytes_sent = 0, send_window_offset = send_offset, bytes_consumed = 0,
      highest_received_byte_offset = 0, receive_window_offset = receive_offset,
      receive_window_size = receive_offset,
      receive_window_size_limit =
        (if i = kConnectionLevelId then kSessionReceiveWindowLimit else kStreamReceiveWindowLimit),
      auto_tune_receive_window = auto_tune, last_blocked_send_window_offset = 0,
      prev_window_update_time = 0\<rparr>"

section \<open>Sending\<close>

definition SendWindowSize :: "flow_controller \<Rightarrow> uint64" where
  "SendWindowSize fc =
     (if bytes_sent fc > send_window_offset fc then 0 else send_window_offset fc - bytes_sent fc)"

definition IsBlocked :: "flow_controller \<Rightarrow> bool" where
  "IsBlocked fc \<longleftrightarrow> SendWindowSize fc = 0"

definition AddBytesSent :: "flow_controller \<Rightarrow> QuicByteCount \<Rightarrow> flow_controller \<times> fc_event list" where
  "AddBytesSent fc n =
     (if bytes_sent fc + n > send_window_offset fc then
        let fc = fc\<lparr>bytes_sent := send_window_offset fc\<rparr>
        in (fc, [ClosedSentTooMuchData (send_window_offset fc - (bytes_sent fc + n))])
      else (fc\<lparr>bytes_sent := bytes_sent fc + n\<rparr>, []))"

definition UpdateSendWindowOffset :: "flow_controller \<Rightarrow> QuicStreamOffset \<Rightarrow> flow_controller \<times> bool" where
  "UpdateSendWindowOffset fc new_send_window_offset =
     (if new_send_window_offset \<le> send_window_offset fc then (fc, False)
      else let was_previously_blocked = IsBlocked fc
           in (fc\<lparr>send_window_offset := new_send_window_offset\<rparr>, was_previously_blocked))"

definition MaybeSendBlocked :: "flow_controller \<Rightarrow> flow_controller \<times> fc_event list" where
  "MaybeSendBlocked fc =
     (if SendWindowSize fc = 0 \<and> last_blocked_send_window_offset fc < send_window_offset fc
      then (fc\<lparr>last_blocked_send_window_offset := send_window_offset fc\<rparr>, [SentBlocked (fc_id fc)])
      else (fc, []))"

section \<open>Receiving\<close>

definition UpdateHighestReceivedOffset :: "flow_controller \<Rightarrow> QuicStreamOffset \<Rightarrow> flow_controller \<times> bool" where
  "UpdateHighestReceivedOffset fc new_offset =
     (if new_offset \<le> highest_received_byte_offset fc then (fc, False)
      else (fc\<lparr>highest_received_byte_offset := new_offset\<rparr>, True))"

definition FlowControlViolation :: "flow_controller \<Rightarrow> bool" where
  "FlowControlViolation fc \<longleftrightarrow> highest_received_byte_offset fc > receive_window_offset fc"

definition SendWindowUpdate :: "flow_controller \<Rightarrow> fc_event list" where
  "SendWindowUpdate fc = [SentWindowUpdate (fc_id fc) (receive_window_offset fc)]"

definition IncreaseWindowSize :: "flow_controller \<Rightarrow> flow_controller" where
  "IncreaseWindowSize fc =
     (let fc = fc\<lparr>receive_window_size := receive_window_size fc * 2\<rparr>
      in fc\<lparr>receive_window_size := min (receive_window_size fc) (receive_window_size_limit fc)\<rparr>)"

definition UpdateReceiveWindowOffsetAndSendWindowUpdate ::
  "flow_controller \<Rightarrow> QuicStreamOffset \<Rightarrow> flow_controller \<times> fc_event list" where
  "UpdateReceiveWindowOffsetAndSendWindowUpdate fc available_window =
     (let fc = fc\<lparr>receive_window_offset :=
                 receive_window_offset fc + (receive_window_size fc - available_window)\<rparr>
      in (fc, SendWindowUpdate fc))"

definition EnsureWindowAtLeast :: "flow_controller \<Rightarrow> QuicByteCount \<Rightarrow> flow_controller \<times> fc_event list" where
  "EnsureWindowAtLeast fc window_size =
     (if receive_window_size_limit fc \<ge> window_size then (fc, [])
      else let available_window = receive_window_offset fc - bytes_consumed fc;
               fc = IncreaseWindowSize fc
           in UpdateReceiveWindowOffsetAndSendWindowUpdate fc available_window)"

definition WindowUpdateThreshold :: "flow_controller \<Rightarrow> QuicByteCount" where
  "WindowUpdateThreshold fc = receive_window_size fc div 2"

text \<open>The session window asked for: a product in single precision, cut off to an integer.\<close>

definition session_window_for :: "QuicByteCount \<Rightarrow> QuicByteCount" where
  "session_window_for w =
     word_of_int (to_integer (float_round
       (kSessionFlowControlMultiplier * float_round (of_int (uint w)))))"

definition MaybeIncreaseMaxWindowSize ::
  "QuicTime \<Rightarrow> QuicTimeDelta \<Rightarrow> flow_controller \<Rightarrow> flow_controller option \<Rightarrow>
     flow_controller \<times> flow_controller option \<times> fc_event list" where
  "MaybeIncreaseMaxWindowSize now rtt fc session =
     (let prev = prev_window_update_time fc;
          fc = fc\<lparr>prev_window_update_time := now\<rparr>
      in if prev = 0 then (fc, session, [])
         else if \<not> auto_tune_receive_window fc then (fc, session, [])
         else if rtt = 0 then (fc, session, [])
         else let since_last = now - prev; two_rtt = 2 * rtt
              in if since_last \<ge> two_rtt then (fc, session, [])
                 else let old_window = receive_window_size fc;
                          fc = IncreaseWindowSize fc
                      in if receive_window_size fc > old_window
                         then case session of
                             None \<Rightarrow> (fc, None, [])
                           | Some sfc \<Rightarrow>
                               let (sfc, evs) = EnsureWindowAtLeast sfc
                                     (session_window_for (receive_window_size fc))
                               in (fc, Some sfc, evs)
                         else (fc, session, []))"

definition MaybeSendWindowUpdate ::
  "QuicTime \<Rightarrow> QuicTimeDelta \<Rightarrow> flow_controller \<Rightarrow> flow_controller option \<Rightarrow>
     flow_controller \<times> flow_controller option \<times> fc_event list" where
  "MaybeSendWindowUpdate now rtt fc session =
     (let available_window = receive_window_offset fc - bytes_consumed fc;
          threshold = WindowUpdateThreshold fc;
          fc = (if prev_window_update_time fc = 0 then fc\<lparr>prev_window_update_time := now\<rparr> else fc)
      in if available_window \<ge> threshold then (fc, session, [])
         else let (fc, session, evs) = MaybeIncreaseMaxWindowSize now rtt fc session;
                  (fc, evs') = UpdateReceiveWindowOffsetAndSendWindowUpdate fc available_window
              in (fc, session, evs @ evs'))"

definition AddBytesConsumed ::
  "QuicTime \<Rightarrow> QuicTimeDelta \<Rightarrow> flow_controller \<Rightarrow> flow_controller option \<Rightarrow> QuicByteCount \<Rightarrow>
     flow_controller \<times> flow_controller option \<times> fc_event list" where
  "AddBytesConsumed now rtt fc session n =
     MaybeSendWindowUpdate now rtt (fc\<lparr>bytes_consumed := bytes_consumed fc + n\<rparr>) session"

definition UpdateReceiveWindowSize :: "flow_controller \<Rightarrow> QuicStreamOffset \<Rightarrow> flow_controller" where
  "UpdateReceiveWindowSize fc sz =
     (if receive_window_size fc \<noteq> receive_window_offset fc then fc
      else fc\<lparr>receive_window_size := sz, receive_window_offset := sz\<rparr>)"

definition set_receive_window_size_limit :: "flow_controller \<Rightarrow> QuicByteCount \<Rightarrow> flow_controller" where
  "set_receive_window_size_limit fc limit = fc\<lparr>receive_window_size_limit := limit\<rparr>"

section \<open>The receive window\<close>

text \<open>
  The receive invariant: what was consumed lies inside the offered window, whose open part is
  never larger than the window size, which stays below its limit.  The limit is below \<open>2^63\<close>
  bytes, so that doubling does not wrap.
\<close>

definition receive_inv :: "flow_controller \<Rightarrow> bool" where
  "receive_inv fc \<longleftrightarrow> unat (bytes_consumed fc) \<le> unat (receive_window_offset fc) \<and>
     unat (receive_window_offset fc) \<le> unat (bytes_consumed fc) + unat (receive_window_size fc) \<and>
     unat (receive_window_size fc) \<le> unat (receive_window_size_limit fc) \<and>
     unat (receive_window_size_limit fc) < 2 ^ 63"

lemma unat_min: "unat (min a b) = min (unat a) (unat b)" for a b :: "'a::len word"
  by (simp add: min_def word_le_nat_alt)

lemma unat_double: "unat w < 2 ^ 63 \<Longrightarrow> unat (w * 2) = 2 * unat w" for w :: uint64
  by (simp add: unat_word_ariths)

lemma unat_add_no_wrap: "unat a + unat b < 2 ^ LENGTH('a) \<Longrightarrow> unat (a + b) = unat a + unat b"
  for a b :: "'a::len word"
  using unat_add_lem by blast

lemma IncreaseWindowSize_grows:
  assumes "receive_inv fc"
  shows "\<exists>sz. IncreaseWindowSize fc = fc\<lparr>receive_window_size := sz\<rparr> \<and>
    unat sz = min (2 * unat (receive_window_size fc)) (unat (receive_window_size_limit fc)) \<and>
    unat (receive_window_size fc) \<le> unat sz \<and> unat sz \<le> unat (receive_window_size_limit fc)"
proof -
  have "unat (receive_window_size fc * 2) = 2 * unat (receive_window_size fc)"
    using assms by (intro unat_double) (simp add: receive_inv_def)
  then show ?thesis
    using assms
    by (intro exI [of _ "min (receive_window_size fc * 2) (receive_window_size_limit fc)"])
      (simp add: IncreaseWindowSize_def unat_min receive_inv_def)
qed

text \<open>After an update the whole window is open again.\<close>

lemma UpdateReceiveWindow_opens:
  assumes "receive_inv fc" "unat (bytes_consumed fc) + unat (receive_window_size fc) < 2 ^ 64"
    and "UpdateReceiveWindowOffsetAndSendWindowUpdate fc (receive_window_offset fc - bytes_consumed fc) = (fc', evs)"
  shows "\<exists>off. fc' = fc\<lparr>receive_window_offset := off\<rparr> \<and> receive_inv fc' \<and>
    unat off = unat (bytes_consumed fc) + unat (receive_window_size fc) \<and>
    evs = [SentWindowUpdate (fc_id fc) off]"
proof -
  have "receive_window_offset fc + (receive_window_size fc - (receive_window_offset fc - bytes_consumed fc)) =
      bytes_consumed fc + receive_window_size fc"
    by simp
  then have "fc' = fc\<lparr>receive_window_offset := bytes_consumed fc + receive_window_size fc\<rparr>"
    "evs = [SentWindowUpdate (fc_id fc) (receive_window_offset fc')]"
    using assms(3) by (auto simp: UpdateReceiveWindowOffsetAndSendWindowUpdate_def SendWindowUpdate_def Let_def)
  moreover have "unat (bytes_consumed fc + receive_window_size fc) = unat (bytes_consumed fc) + unat (receive_window_size fc)"
    using assms(2) by (intro unat_add_no_wrap) simp
  ultimately show ?thesis
    using assms(1) by (intro exI [of _ "bytes_consumed fc + receive_window_size fc"]) (simp add: receive_inv_def)
qed

lemma EnsureWindowAtLeast_keeps:
  assumes "receive_inv fc" "unat (bytes_consumed fc) + unat (receive_window_size_limit fc) < 2 ^ 64"
    and "EnsureWindowAtLeast fc n = (fc', evs)"
  shows "receive_inv fc' \<and> receive_window_offset fc \<le> receive_window_offset fc' \<and>
    receive_window_size fc \<le> receive_window_size fc'"
proof (cases "receive_window_size_limit fc \<ge> n")
  case True
  then show ?thesis
    using assms by (simp add: EnsureWindowAtLeast_def)
next
  case False
  obtain sz where sz: "IncreaseWindowSize fc = fc\<lparr>receive_window_size := sz\<rparr>"
    "unat (receive_window_size fc) \<le> unat sz" "unat sz \<le> unat (receive_window_size_limit fc)"
    using IncreaseWindowSize_grows [OF assms(1)] by blast
  have inv: "receive_inv (fc\<lparr>receive_window_size := sz\<rparr>)"
    using assms(1) sz by (simp add: receive_inv_def)
  have "UpdateReceiveWindowOffsetAndSendWindowUpdate (fc\<lparr>receive_window_size := sz\<rparr>)
      (receive_window_offset (fc\<lparr>receive_window_size := sz\<rparr>) - bytes_consumed (fc\<lparr>receive_window_size := sz\<rparr>)) = (fc', evs)"
    using assms(3) False sz(1) by (simp add: EnsureWindowAtLeast_def Let_def)
  from UpdateReceiveWindow_opens [OF inv _ this] show ?thesis
    using assms(1,2) sz by (auto simp: receive_inv_def word_le_nat_alt)
qed

text \<open>Auto-tuning touches only the window size of the stream, and may grow it.\<close>

lemma MaybeIncrease_stream:
  assumes "receive_inv fc" "MaybeIncreaseMaxWindowSize now rtt fc session = (fc', session', evs)"
  shows "\<exists>sz. fc' = fc\<lparr>prev_window_update_time := now, receive_window_size := sz\<rparr> \<and>
    unat (receive_window_size fc) \<le> unat sz \<and> unat sz \<le> unat (receive_window_size_limit fc)"
proof -
  let ?fc = "fc\<lparr>prev_window_update_time := now\<rparr>"
  have "receive_inv ?fc"
    using assms(1) by (simp add: receive_inv_def)
  from IncreaseWindowSize_grows [OF this] obtain sz where
    sz: "IncreaseWindowSize ?fc = ?fc\<lparr>receive_window_size := sz\<rparr>"
      "unat (receive_window_size fc) \<le> unat sz" "unat sz \<le> unat (receive_window_size_limit fc)"
    by auto
  have "fc' = ?fc \<or> fc' = IncreaseWindowSize ?fc"
    using assms(2)
    by (auto simp: MaybeIncreaseMaxWindowSize_def Let_def split: if_splits option.splits prod.splits)
  then show ?thesis
  proof
    assume "fc' = ?fc"
    then show ?thesis
      using assms(1) by (intro exI [of _ "receive_window_size fc"]) (simp add: receive_inv_def)
  next
    assume "fc' = IncreaseWindowSize ?fc"
    then show ?thesis
      using sz by (intro exI [of _ sz]) simp
  qed
qed

lemma MaybeSendWindowUpdate_opens:
  assumes "receive_inv fc" "unat (bytes_consumed fc) + unat (receive_window_size_limit fc) < 2 ^ 64"
    and "MaybeSendWindowUpdate now rtt fc session = (fc', session', evs)"
  shows "receive_inv fc' \<and> bytes_consumed fc' = bytes_consumed fc \<and>
    receive_window_offset fc \<le> receive_window_offset fc' \<and>
    unat (receive_window_size fc') div 2 \<le> unat (receive_window_offset fc') - unat (bytes_consumed fc') \<and>
    (evs = [] \<and> receive_window_offset fc' = receive_window_offset fc \<or>
     evs \<noteq> [] \<and> last evs = SentWindowUpdate (fc_id fc) (receive_window_offset fc'))"
proof -
  define t where "t = (if prev_window_update_time fc = 0 then now else prev_window_update_time fc)"
  let ?fc = "fc\<lparr>prev_window_update_time := t\<rparr>"
  have fc: "(if prev_window_update_time fc = 0 then fc\<lparr>prev_window_update_time := now\<rparr> else fc) = ?fc"
    by (simp add: t_def)
  have av: "unat (receive_window_offset fc - bytes_consumed fc) = unat (receive_window_offset fc) - unat (bytes_consumed fc)"
    using assms(1) by (simp add: receive_inv_def unat_sub word_le_nat_alt)
  have inv: "receive_inv ?fc"
    using assms(1) by (simp add: receive_inv_def)
  show ?thesis
  proof (cases "receive_window_offset fc - bytes_consumed fc \<ge> WindowUpdateThreshold fc")
    case True
    then have "fc' = ?fc" "evs = []"
      using assms(3) by (simp_all add: MaybeSendWindowUpdate_def Let_def fc)
    moreover have "unat (receive_window_size fc) div 2 \<le> unat (receive_window_offset fc) - unat (bytes_consumed fc)"
      using True av by (simp add: word_le_nat_alt WindowUpdateThreshold_def unat_div)
    ultimately show ?thesis
      using inv by simp
  next
    case False
    obtain fc1 s1 e1 where m: "MaybeIncreaseMaxWindowSize now rtt ?fc session = (fc1, s1, e1)"
      by (cases "MaybeIncreaseMaxWindowSize now rtt ?fc session")
    obtain sz where fc1: "fc1 = ?fc\<lparr>prev_window_update_time := now, receive_window_size := sz\<rparr>"
      "unat (receive_window_size fc) \<le> unat sz" "unat sz \<le> unat (receive_window_size_limit fc)"
      using MaybeIncrease_stream [OF inv m] by auto
    obtain e2 where u: "UpdateReceiveWindowOffsetAndSendWindowUpdate fc1
        (receive_window_offset fc1 - bytes_consumed fc1) = (fc', e2)" "evs = e1 @ e2"
      using assms(3) False m by (auto simp: MaybeSendWindowUpdate_def Let_def fc fc1(1) split: prod.splits)
    have "receive_inv fc1" "unat (bytes_consumed fc1) + unat (receive_window_size fc1) < 2 ^ 64"
      using assms(1,2) fc1 by (auto simp: receive_inv_def)
    from UpdateReceiveWindow_opens [OF this u(1)] show ?thesis
      using assms(1) fc1 u(2) by (auto simp: receive_inv_def word_le_nat_alt)
  qed
qed

lemma AddBytesConsumed_opens:
  assumes "receive_inv fc" "unat (bytes_consumed fc) + unat n \<le> unat (receive_window_offset fc)"
    and "unat (receive_window_offset fc) + unat (receive_window_size_limit fc) < 2 ^ 64"
    and "AddBytesConsumed now rtt fc session n = (fc', session', evs)"
  shows "receive_inv fc' \<and> bytes_consumed fc' = bytes_consumed fc + n \<and>
    receive_window_offset fc \<le> receive_window_offset fc' \<and>
    unat (receive_window_size fc') div 2 \<le> unat (receive_window_offset fc') - unat (bytes_consumed fc') \<and>
    (evs = [] \<and> receive_window_offset fc' = receive_window_offset fc \<or>
     evs \<noteq> [] \<and> last evs = SentWindowUpdate (fc_id fc) (receive_window_offset fc'))"
proof -
  let ?fc = "fc\<lparr>bytes_consumed := bytes_consumed fc + n\<rparr>"
  have n: "unat (bytes_consumed fc + n) = unat (bytes_consumed fc) + unat n"
    using assms(2,3) by (intro unat_add_no_wrap) simp
  then have "receive_inv ?fc" "unat (bytes_consumed ?fc) + unat (receive_window_size_limit ?fc) < 2 ^ 64"
    using assms(1-3) by (auto simp: receive_inv_def)
  from MaybeSendWindowUpdate_opens [OF this, of now rtt session fc' session' evs] show ?thesis
    using assms(4) by (auto simp: AddBytesConsumed_def)
qed

section \<open>Properties\<close>

text \<open>
  C16: Consuming received data, no more than the window allowed the peer to send and while offsets do not reach
  \<open>2 ^ 64\<close>, keeps the receive window consistent: the offset never moves back, at
  least half of the window is open afterwards, the window stays within its limit, and a
  \<open>WINDOW_UPDATE\<close> with the new offset is sent whenever the offset moves.
\<close>

theorem AddBytesConsumed_window:
  assumes "receive_inv fc" "unat (bytes_consumed fc) + unat n \<le> unat (receive_window_offset fc)"
    and "unat (receive_window_offset fc) + unat (receive_window_size_limit fc) < 2 ^ 64"
    and "AddBytesConsumed now rtt fc session n = (fc', session', evs)"
  shows "receive_inv fc' \<and> bytes_consumed fc' = bytes_consumed fc + n \<and>
    receive_window_offset fc \<le> receive_window_offset fc' \<and>
    unat (receive_window_size fc') div 2 \<le> unat (receive_window_offset fc') - unat (bytes_consumed fc') \<and>
    (evs = [] \<and> receive_window_offset fc' = receive_window_offset fc \<or>
     evs \<noteq> [] \<and> last evs = SentWindowUpdate (fc_id fc) (receive_window_offset fc'))"
  by (rule AddBytesConsumed_opens [OF assms])

theorem AddBytesConsumed_window_witness:
  "\<exists>fc' session' evs.
    AddBytesConsumed 10 5 (QuicFlowController 5 1000 1000 True) None 600 = (fc', session', evs) \<and>
    receive_inv fc' \<and> receive_window_offset (QuicFlowController 5 1000 1000 True) \<le> receive_window_offset fc'"
proof -
  let ?fc = "QuicFlowController 5 1000 1000 True"
  obtain fc' session' evs where r: "AddBytesConsumed 10 5 ?fc None 600 = (fc', session', evs)"
    by (cases "AddBytesConsumed 10 5 ?fc None 600")
  have "receive_inv ?fc" "unat (bytes_consumed ?fc) + unat (600 :: uint64) \<le> unat (receive_window_offset ?fc)"
    "unat (receive_window_offset ?fc) + unat (receive_window_size_limit ?fc) < 2 ^ 64"
    by (simp_all add: receive_inv_def QuicFlowController_def kConnectionLevelId_def kStreamReceiveWindowLimit_def)
  from AddBytesConsumed_window [OF this r] r show ?thesis
    by blast
qed

text \<open>A sender: what it does with its controller, one call after the other.\<close>

datatype send_op = OpSent QuicByteCount | OpWindowUpdate QuicStreamOffset | OpMaybeBlocked

fun send_step :: "send_op \<Rightarrow> flow_controller \<Rightarrow> flow_controller \<times> fc_event list" where
  "send_step (OpSent n) fc = AddBytesSent fc n"
| "send_step (OpWindowUpdate off) fc = (fst (UpdateSendWindowOffset fc off), [])"
| "send_step OpMaybeBlocked fc = MaybeSendBlocked fc"

fun send_run :: "send_op list \<Rightarrow> flow_controller \<Rightarrow> flow_controller \<times> fc_event list" where
  "send_run [] fc = (fc, [])"
| "send_run (op # ops) fc =
     (let (fc, evs) = send_step op fc; (fc, evs') = send_run ops fc in (fc, evs @ evs'))"

definition send_inv :: "flow_controller \<Rightarrow> bool" where
  "send_inv fc \<longleftrightarrow> bytes_sent fc \<le> send_window_offset fc \<and>
     last_blocked_send_window_offset fc \<le> send_window_offset fc"

lemma send_step_keeps:
  assumes "send_inv fc" "send_step op fc = (fc', evs)"
  shows "send_inv fc' \<and> send_window_offset fc \<le> send_window_offset fc' \<and>
    last_blocked_send_window_offset fc \<le> last_blocked_send_window_offset fc' \<and> fc_id fc' = fc_id fc \<and>
    (SentBlocked i \<in> set evs \<longrightarrow>
      last_blocked_send_window_offset fc < last_blocked_send_window_offset fc' \<and>
      length (filter (\<lambda>e. e = SentBlocked i) evs) = 1)"
  using assms
  by (cases op) (auto simp: send_inv_def AddBytesSent_def UpdateSendWindowOffset_def MaybeSendBlocked_def
      Let_def not_le not_less split: if_splits)

text \<open>
  Counts over a run: how often the send window moved, how many bytes were handed to the controller
  and how many \<open>BLOCKED\<close> frames were sent.
\<close>

fun window_moves :: "send_op list \<Rightarrow> flow_controller \<Rightarrow> nat" where
  "window_moves [] fc = 0"
| "window_moves (op # ops) fc =
     (let fc' = fst (send_step op fc)
      in (if send_window_offset fc < send_window_offset fc' then 1 else 0) + window_moves ops fc')"

fun total_sent :: "send_op list \<Rightarrow> nat" where
  "total_sent [] = 0"
| "total_sent (OpSent n # ops) = unat n + total_sent ops"
| "total_sent (_ # ops) = total_sent ops"

definition blocked_frames :: "QuicStreamId \<Rightarrow> fc_event list \<Rightarrow> nat" where
  "blocked_frames i evs = length (filter (\<lambda>e. e = SentBlocked i) evs)"

definition may_block :: "flow_controller \<Rightarrow> nat" where
  "may_block fc = (if last_blocked_send_window_offset fc < send_window_offset fc then 1 else 0)"

lemma blocked_step:
  assumes "send_inv fc" "send_step op fc = (fc', evs)"
  shows "blocked_frames i evs + may_block fc' \<le>
    (if send_window_offset fc < send_window_offset fc' then 1 else 0) + may_block fc"
  using assms
  by (cases op) (auto simp: send_inv_def AddBytesSent_def UpdateSendWindowOffset_def MaybeSendBlocked_def
      blocked_frames_def may_block_def Let_def split: if_splits)

lemma send_run_keeps:
  assumes "send_inv fc" "send_run ops fc = (fc', evs)"
  shows "send_inv fc' \<and> send_window_offset fc \<le> send_window_offset fc' \<and>
    blocked_frames i evs \<le> window_moves ops fc + may_block fc"
  using assms
proof (induction ops arbitrary: fc evs)
  case Nil
  then show ?case
    by (simp add: blocked_frames_def)
next
  case (Cons op ops)
  obtain fc1 e1 e2 where s: "send_step op fc = (fc1, e1)" "send_run ops fc1 = (fc', e2)" "evs = e1 @ e2"
    using Cons.prems(2) by (auto split: prod.splits)
  have step: "send_inv fc1" "send_window_offset fc \<le> send_window_offset fc1"
    using send_step_keeps [OF Cons.prems(1) s(1)] by blast+
  have "blocked_frames i e2 \<le> window_moves ops fc1 + may_block fc1" "send_inv fc'"
    "send_window_offset fc1 \<le> send_window_offset fc'"
    using Cons.IH [of fc1 e2] step s(2) by auto
  then show ?case
    using blocked_step [OF Cons.prems(1) s(1), of i] step s by (auto simp: blocked_frames_def)
qed

lemma send_run_total:
  assumes "send_run ops fc = (fc', evs)" "\<forall>x. ClosedSentTooMuchData x \<notin> set evs"
    and "unat (bytes_sent fc) + total_sent ops < 2 ^ 64"
  shows "unat (bytes_sent fc') = unat (bytes_sent fc) + total_sent ops"
  using assms
proof (induction ops arbitrary: fc evs)
  case (Cons op ops)
  obtain fc1 e1 e2 where s: "send_step op fc = (fc1, e1)" "send_run ops fc1 = (fc', e2)" "evs = e1 @ e2"
    using Cons.prems(1) by (auto split: prod.splits)
  have "unat (bytes_sent fc1) + total_sent ops = unat (bytes_sent fc) + total_sent (op # ops)"
  proof (cases op)
    case (OpSent n)
    have "unat (bytes_sent fc + n) = unat (bytes_sent fc) + unat n"
      using Cons.prems(3) OpSent by (intro unat_add_no_wrap) simp
    then show ?thesis
      using s Cons.prems(2) OpSent by (auto simp: AddBytesSent_def Let_def split: if_splits)
  qed (use s in \<open>auto simp: UpdateSendWindowOffset_def MaybeSendBlocked_def split: if_splits\<close>)
  then show ?case
    using Cons.IH [OF s(2)] Cons.prems(2,3) s(3) by simp
qed simp

text \<open>
  C30: A sender of less than \<open>2 ^ 64\<close> bytes whose connection is not closed by its controller has sent no more bytes than the send
  window offset allows, the offset never decreases, and it sends at most one \<open>BLOCKED\<close> frame
  per send window offset.
\<close>

theorem send_window_respected:
  assumes "send_run ops (QuicFlowController i send_offset receive_offset auto) = (fc, evs)"
    and "\<forall>x. ClosedSentTooMuchData x \<notin> set evs" "total_sent ops < 2 ^ 64"
  shows "total_sent ops \<le> unat (send_window_offset fc) \<and> send_offset \<le> send_window_offset fc \<and>
    blocked_frames i evs \<le> window_moves ops (QuicFlowController i send_offset receive_offset auto) + 1"
proof -
  let ?fc = "QuicFlowController i send_offset receive_offset auto"
  have inv: "send_inv ?fc"
    by (simp add: send_inv_def QuicFlowController_def)
  have "unat (bytes_sent fc) = total_sent ops"
    using send_run_total [OF assms(1,2)] assms(3) by (simp add: QuicFlowController_def)
  then show ?thesis
    using send_run_keeps [OF inv assms(1), of i]
    by (auto simp: send_inv_def word_le_nat_alt may_block_def QuicFlowController_def split: if_splits)
qed

theorem send_window_respected_witness:
  "\<exists>fc evs. send_run [OpSent 10, OpMaybeBlocked, OpMaybeBlocked, OpWindowUpdate 20, OpSent 5]
      (QuicFlowController 3 10 100 False) = (fc, evs) \<and> 15 \<le> unat (send_window_offset fc)"
proof -
  let ?ops = "[OpSent 10, OpMaybeBlocked, OpMaybeBlocked, OpWindowUpdate 20, OpSent 5]"
  let ?fc = "QuicFlowController 3 10 100 False"
  obtain fc evs where r: "send_run ?ops ?fc = (fc, evs)"
    by (cases "send_run ?ops ?fc")
  have "snd (send_run ?ops ?fc) = [SentBlocked 3]"
    by (simp add: QuicFlowController_def AddBytesSent_def MaybeSendBlocked_def UpdateSendWindowOffset_def
        SendWindowSize_def IsBlocked_def)
  then have "\<forall>x. ClosedSentTooMuchData x \<notin> set evs"
    using r by simp
  moreover have "total_sent ?ops = 15"
    by simp
  ultimately show ?thesis
    using send_window_respected [OF r] r by auto
qed

text \<open>
  \<open>UpdateSendWindowOffset\<close> reports true exactly when the controller was blocked and, its
  offset having grown, no longer is; \<open>AddBytesSent\<close> beyond the window closes the connection and
  leaves the controller blocked.
\<close>

theorem send_window_unblocking:
  assumes "send_inv fc" "unat (bytes_sent fc) + unat n < 2 ^ 64"
  shows "snd (UpdateSendWindowOffset fc off) = (IsBlocked fc \<and> \<not> IsBlocked (fst (UpdateSendWindowOffset fc off))) \<and>
    (unat (send_window_offset fc) < unat (bytes_sent fc) + unat n \<longleftrightarrow> snd (AddBytesSent fc n) \<noteq> []) \<and>
    (snd (AddBytesSent fc n) \<noteq> [] \<longrightarrow> IsBlocked (fst (AddBytesSent fc n)))"
proof -
  have "unat (bytes_sent fc + n) = unat (bytes_sent fc) + unat n"
    using assms(2) by (intro unat_add_no_wrap) simp
  then show ?thesis
    using assms(1)
    by (auto simp: UpdateSendWindowOffset_def IsBlocked_def SendWindowSize_def AddBytesSent_def send_inv_def
        Let_def word_less_nat_alt word_le_nat_alt)
qed

theorem send_window_unblocking_witness:
  "snd (UpdateSendWindowOffset (fst (AddBytesSent (QuicFlowController 3 10 100 False) 10)) 20)"
proof -
  let ?fc = "fst (AddBytesSent (QuicFlowController 3 10 100 False) 10)"
  have "send_inv ?fc" "unat (bytes_sent ?fc) + unat (0 :: uint64) < 2 ^ 64" "IsBlocked ?fc"
    "\<not> IsBlocked (fst (UpdateSendWindowOffset ?fc 20))"
    by (simp_all add: send_inv_def QuicFlowController_def AddBytesSent_def IsBlocked_def SendWindowSize_def
        UpdateSendWindowOffset_def)
  then show ?thesis
    using send_window_unblocking [of ?fc 0 20] by blast
qed

lemma session_window_for_bound:
  assumes "unat w \<le> unat kStreamReceiveWindowLimit"
  shows "session_window_for w \<le> kSessionReceiveWindowLimit"
proof -
  define r :: rat where "r = of_int (uint w)"
  define a where "a = fround 24 r"
  define b where "b = fround 24 (3 / 2 * a)"
  have pows: "pow2 24 = 16777216" "pow2 23 = 8388608" "pow2 (24 + int 24) = 281474976710656"
    "pow2 (23 + int 24) = 140737488355328"
    by (simp_all add: pow2_numeral)
  have "uint w \<le> 16777216"
    using assms unfolding word_le_nat_alt [symmetric] by (simp add: kStreamReceiveWindowLimit_def word_le_def)
  then have r: "r \<le> 16777216" "0 \<le> r"
    unfolding r_def by (metis of_int_le_iff of_int_numeral, simp only: of_int_0_le_iff uint_ge_0)
  have "a \<le> of_int 1 * pow2 24"
    unfolding a_def by (rule fround_le) (use r pows in simp_all)
  then have a: "a \<le> 16777216" "0 \<le> a"
    using r(2) by (simp_all add: pows a_def fround_nonneg)
  have "b \<le> of_int 3 * pow2 23"
    unfolding b_def by (rule fround_le) (use a pows in simp_all)
  then have b: "b \<le> 25165824" "0 \<le> b"
    using a(2) by (simp_all add: pows b_def fround_nonneg)
  then have "\<lfloor>b\<rfloor> \<le> 25165824" "0 \<le> \<lfloor>b\<rfloor>"
    by linarith+
  moreover from this have "\<lfloor>b\<rfloor> mod 2 ^ 64 = \<lfloor>b\<rfloor>"
    by (intro mod_pos_pos_trivial) simp_all
  moreover have "session_window_for w = word_of_int \<lfloor>b\<rfloor>"
    using b(2) unfolding session_window_for_def to_integer_def float_round_def kSessionFlowControlMultiplier_def
    by (simp only: r_def [symmetric] a_def [symmetric] b_def [symmetric] if_True)
  ultimately have "uint (session_window_for w) \<le> 25165824"
    by (simp add: uint_word_of_int)
  then show ?thesis
    by (simp add: word_le_def kSessionReceiveWindowLimit_def)
qed
text \<open>
  C36: \<open>EnsureWindowAtLeast\<close> compares the asked size with the limit and not with the current size
  of the window: with the default limits a growing stream window never moves the session window,
  however small that is.
\<close>

theorem session_window_never_grows:
  assumes "receive_inv fc" "receive_window_size_limit fc = kStreamReceiveWindowLimit"
    and "receive_window_size_limit session = kSessionReceiveWindowLimit"
    and "MaybeIncreaseMaxWindowSize now rtt fc (Some session) = (fc', session', evs)"
  shows "session' = Some session \<and> evs = []"
proof -
  have "unat (receive_window_size fc') \<le> unat (receive_window_size_limit fc)"
    using MaybeIncrease_stream [OF assms(1,4)] by auto
  then have "session_window_for (receive_window_size fc') \<le> kSessionReceiveWindowLimit"
    by (intro session_window_for_bound) (simp add: assms(2))
  moreover have "session' = Some session \<and> evs = [] \<or>
      (\<exists>s. EnsureWindowAtLeast session (session_window_for (receive_window_size fc')) = (s, evs) \<and> session' = Some s)"
    using assms(4) by (auto simp: MaybeIncreaseMaxWindowSize_def Let_def split: if_splits prod.splits)
  ultimately show ?thesis
    using assms(3) by (auto simp: EnsureWindowAtLeast_def)
qed

theorem session_window_never_grows_witness:
  "\<exists>fc' session' evs.
    MaybeIncreaseMaxWindowSize 20 50 ((QuicFlowController 5 1000 16384 True)\<lparr>prev_window_update_time := 10\<rparr>)
      (Some (QuicFlowController 0 1000 16384 True)) = (fc', session', evs) \<and>
    session' = Some (QuicFlowController 0 1000 16384 True) \<and> evs = []"
proof -
  let ?fc = "(QuicFlowController 5 1000 16384 True)\<lparr>prev_window_update_time := 10\<rparr>"
  let ?s = "QuicFlowController 0 1000 16384 True"
  obtain fc' session' evs where r: "MaybeIncreaseMaxWindowSize 20 50 ?fc (Some ?s) = (fc', session', evs)"
    by (cases "MaybeIncreaseMaxWindowSize 20 50 ?fc (Some ?s)")
  have "receive_inv ?fc" "receive_window_size_limit ?fc = kStreamReceiveWindowLimit"
    "receive_window_size_limit ?s = kSessionReceiveWindowLimit"
    by (simp_all add: receive_inv_def QuicFlowController_def kConnectionLevelId_def kStreamReceiveWindowLimit_def)
  from session_window_never_grows [OF this r] r show ?thesis
    by blast
qed

end
