(* ===== verification/Spec2Isabelle.thy ===== *)
theory Spec2Isabelle
  imports Stream_Sequencer_Buffer Stream_Send_Buffer Retransmission_Timer Session_Warm_Start Windowed_Filter Packet_Number_Queue Data_Codec Flow_Controller
begin

text \<open>
  \<^bold>\<open>Verification of the QUIC module for ns-3 with connection statistics.\<close>

  The program under \<^verbatim>\<open>src/\<close> is the QUIC stack of Chromium made into a module of the ns-3 simulator.  A server
  reads two files with statistics of earlier connections, finds those of the cluster that the address of a client
  belongs to, and starts the congestion controller of the new session with them.

  \<^bold>\<open>Conventions.\<close>  A class is a record and a method a function on it that returns the new record.  The value
  \<open>None\<close> stands for undefined behaviour of the C++ code (an access outside of a container, a null
  pointer, a division by zero) and for a loop that makes no progress; a theorem that an operation
  returns \<open>Some\<close> is a theorem that this does not happen.  Unsigned integers are words, or naturals
  with \<^const>\<open>add64\<close> and \<^const>\<open>sub64\<close> in place of the 64-bit operations.  Times are integers, in microseconds.
  Floating point numbers are rationals that are rounded after each operation.  Calls of other objects
  that return nothing are lists of outputs.  Flags are arguments.  \<^verbatim>\<open>DCHECK\<close>, \<^verbatim>\<open>QUIC_BUG\<close> and logging have no
  effect, as in a release build.

  \<^bold>\<open>Prelude.\<close>  \<open>Quic_Prelude\<close>: integer types, 64-bit arithmetic on naturals, and the locale
  \<open>simulation\<close> with its lemma on runs, which the reassembly buffer interprets.  \<open>Float_Model\<close>:
  rounding to \<^verbatim>\<open>float\<close> and \<^verbatim>\<open>double\<close>.  \<open>Quic_Time\<close>: \<^verbatim>\<open>quic_time.h\<close>, \<^verbatim>\<open>quic_bandwidth.{h,cc}\<close>.  \<open>Quic_Tag\<close>:
  \<^verbatim>\<open>quic_tag.cc\<close>.

  \<^bold>\<open>Statistics and warm start\<close> (\<^verbatim>\<open>model/net/tools/quic/quic_simple_dispatcher.{h,cc}\<close>).
  \<^item> \<open>Lru_Cache\<close>: the class \<^verbatim>\<open>LRUCache\<close> on an explicit heap.  It refines a list of pairs in order of use.
  \<^item> \<open>Conn_Stats_Query\<close>: \<^verbatim>\<open>ConnStatsQuery\<close>, reading the ends of two files.  The backwards scan ends, and a query
    returns the statistics of the cluster of the client.
  \<^item> \<open>Session_Warm_Start\<close>: \<^verbatim>\<open>QuicSimpleDispatcher::CreateQuicSession\<close>.  Whatever statistics are stored, a session
    starts with a window and a round trip time in bounds, unless a row is too short, which is read out of bounds.

  \<^bold>\<open>Streams.\<close>
  \<^item> \<open>Data_Codec\<close>: \<^verbatim>\<open>quic_data_writer.{h,cc}\<close>, \<^verbatim>\<open>quic_data_reader.{h,cc}\<close>.  What is written is read back, and a
    failure leaves the reader at the end and, but for the length of a string, the writer as it was.
  \<^item> \<open>Stream_Send_Buffer\<close>: \<^verbatim>\<open>quic_stream_send_buffer.{h,cc}\<close>.  Data can be written until it is acknowledged.
  \<^item> \<open>Stream_Sequencer_Buffer\<close>: \<^verbatim>\<open>quic_stream_sequencer_buffer.{h,cc}\<close>.  The circular buffer refines a partial
    function from offsets to bytes.
  \<^item> \<open>Flow_Controller\<close>: \<^verbatim>\<open>quic_flow_controller.{h,cc}\<close>.  Windows stay consistent and are respected.
  \<^item> This theory: the send buffer, the data writer and the reassembly buffer together deliver the stream that was
    saved, whatever the network does with the frames.

  \<^bold>\<open>Acknowledgements.\<close>
  \<^item> \<open>Interval_Set\<close>: \<^verbatim>\<open>model/net/base/interval.h\<close>, \<^verbatim>\<open>interval_set.h\<close>, as operations on sets.
  \<^item> \<open>Packet_Number_Queue\<close>: \<^verbatim>\<open>frames/quic_ack_frame.{h,cc}\<close>.  The two representations agree.
  \<^item> \<open>Unacked_Packet_Map\<close>: \<^verbatim>\<open>quic_unacked_packet_map.{h,cc}\<close>.  In all reachable states the bytes in flight are right,
    retransmissions move frames and acknowledgements free them.
  \<^item> \<open>Loss_Detection\<close>: \<^verbatim>\<open>general_loss_algorithm.{h,cc}\<close>, over that map and the round trip times.
  \<^item> \<open>Sent_Packet_Manager\<close>: \<^verbatim>\<open>quic_sent_packet_manager.{h,cc}\<close>, which composes the map, the queue of an ack frame, loss
    detection, pacing and the controller, and \<^verbatim>\<open>quic_sustained_bandwidth_recorder.{h,cc}\<close>.  \<open>Manager_Invariant\<close>: in all
    reachable states every operation succeeds, pending retransmissions have frames, and the bytes reported to the
    controller are those that leave the flight.  \<open>Retransmission_Timer\<close>: the delays and when the timer is set.

  \<^bold>\<open>Congestion control\<close> (\<^verbatim>\<open>model/net/quic/core/congestion_control\<close>).
  \<^item> \<open>Rtt_Stats\<close>, \<open>Hybrid_Slow_Start\<close>, \<open>Prr_Sender\<close>, \<open>Windowed_Filter\<close>, \<open>Cubic_Bytes\<close>: the classes of
    these names, with bounds on their estimates and rates.
  \<^item> \<open>Tcp_Cubic_Sender\<close>: \<^verbatim>\<open>tcp_cubic_sender_base\<close> and \<^verbatim>\<open>tcp_cubic_sender_bytes\<close>, which use them.  The window stays
    within its limits in every run, is cut once per window, and a sender is never stuck.
  \<^item> \<open>Pacing_Sender\<close>: \<^verbatim>\<open>pacing_sender.{h,cc}\<close> over that controller.  Packets are spread over time at its rate.

  \<^bold>\<open>Bounds.\<close>  Stream offsets are at most \<open>2 ^ 62\<close> where a sum must not wrap; what a frame beyond can
  do is shown by a run at the end of \<open>Stream_Sequencer_Buffer\<close>.  A reassembly buffer has more than one block of 8 KB and at
  most \<open>2 ^ 32\<close> bytes; the stack uses 16 MB.  Packet numbers are below \<open>2 ^ 48\<close>, as with packet
  numbers of six bytes on the wire, and packets below \<open>2 ^ 16\<close> bytes, so that the bytes in flight fit in 64 bits.  The
  window of the controller is followed until 4 GB are acknowledged, a recovery period until 2 GB are, and round trip
  times are below \<open>2 ^ 22\<close> microseconds where the smoothed value is, so that products and \<^verbatim>\<open>float\<close> arithmetic stay exact
  enough; each theorem states its bounds.  The scan
  of a file and the difference of interval sets have fuel, and the theorems on them show an amount that is enough.

  \<^bold>\<open>Not modelled.\<close>  The connection, the sessions, \<^verbatim>\<open>QuicSentPacketManager::SetFromConfig\<close>, the framer and the
  packet creator, which compose the parts above; the cryptographic handshake and BoringSSL; the BBR and the
  packet-counting CUBIC controllers; the event loop, sockets and files except for the bytes read; the ns-3
  adapters, which call classes of ns-3 that are not part of the sources; and \<^verbatim>\<open>base\<close>, \<^verbatim>\<open>http\<close>, \<^verbatim>\<open>spdy\<close>, \<^verbatim>\<open>disk_cache\<close> and the
  other libraries of Chromium that the module carries along.
\<close>

section \<open>A stream from the sender's buffer to the receiver's reads\<close>

text \<open>The payload of a stream frame of \<open>n\<close> bytes at an offset, as the send buffer writes it into a packet.\<close>

definition frame_payload :: "send_buffer \<Rightarrow> nat \<Rightarrow> nat \<Rightarrow> uint8 list option" where
  "frame_payload b offset n =
     (let (w, ok) = WriteStreamData b offset n (QuicDataWriter n (replicate n 0) NETWORK_BYTE_ORDER) in
      if ok then Some (payload w) else None)"

text \<open>What happens at the receiver: a frame arrives that was written after some history of the sender, or
  the application reads.\<close>

datatype transport_event =
    Arrival "send_buffer_op list" nat nat QuicTime
  | Reading "nat list"

primrec event_op :: "nat \<Rightarrow> transport_event \<Rightarrow> buffer_op option" where
  "event_op k (Arrival ys offset n now) = do {
     b \<leftarrow> send_buffer_run k QuicStreamSendBuffer ys;
     data \<leftarrow> frame_payload b offset n;
     Some (Receive offset data now)
   }"
| "event_op k (Reading lens) = Some (Read lens)"

text \<open>The sender wrote the frame at a time when none of its bytes was acknowledged.\<close>

primrec event_ok :: "send_buffer_op list \<Rightarrow> transport_event \<Rightarrow> bool" where
  "event_ok xs (Arrival ys offset n now) \<longleftrightarrow> (\<exists>zs. xs = ys @ zs) \<and> 0 < n \<and> offset + n \<le> length (saved_stream ys) \<and>
     {offset..<offset + n} \<inter> acked_offsets ys = {}"
| "event_ok xs (Reading lens) \<longleftrightarrow> True"

lemma frame_payload_eq:
  assumes "send_buffer_inv S R b" "{offset..<offset + n} \<inter> R = {}" "offset + n \<le> length S" "0 < n"
  shows "frame_payload b offset n = Some (take n (drop offset S))"
proof -
  let ?w = "QuicDataWriter n (replicate n 0) NETWORK_BYTE_ORDER"
  have "writer_inv ?w" "n \<le> capacity ?w - written ?w" "payload ?w = []"
    by (simp_all add: writer_inv_def QuicDataWriter_def payload_def)
  then show ?thesis using send_buffer_inv_writes [OF assms, of ?w] by (auto simp: frame_payload_def)
qed

lemma event_op_ok:
  assumes "0 < k" "history_ok 0 {} xs" "event_ok xs e" "\<forall>i<length (saved_stream xs). S i = saved_stream xs ! i"
  shows "\<exists>x. event_op k e = Some x \<and> op_fits x \<and> op_of_stream S x"
proof (cases e)
  case (Arrival ys offset n now)
  then obtain zs where xs: "xs = ys @ zs" and r: "0 < n" "offset + n \<le> length (saved_stream ys)"
    "{offset..<offset + n} \<inter> acked_offsets ys = {}" using assms(3) by auto
  obtain b where b: "send_buffer_run k QuicStreamSendBuffer ys = Some b" "send_buffer_inv (saved_stream ys) (acked_offsets ys) b"
    using send_buffer_run_inv [OF assms(1) send_buffer_inv_empty, of ys] history_ok_prefix [of 0 "{}" ys zs] assms(2) xs by auto
  have s: "saved_stream xs = saved_stream ys @ saved_stream zs" by (simp add: xs saved_stream_def)
  let ?d = "take n (drop offset (saved_stream ys))"
  have d: "length ?d = n" using r(2) by simp
  have "?d = map S [offset..<offset + n]"
    using r(2) assms(4) by (intro nth_equalityI) (auto simp: s nth_append)
  then have "op_of_stream S (Receive offset ?d now)" unfolding op_of_stream.simps d .
  moreover have "op_fits (Receive offset ?d now)" using b(2) r(2) by (simp add: send_buffer_inv_def)
  ultimately show ?thesis using Arrival b frame_payload_eq [OF b(2) r(3,2,1)] by auto
qed simp

text \<open>C2: A stream survives the network: whatever the application saves and however the frames are cut,
  retransmitted, reordered, duplicated or lost, the bytes the peer's application reads are the first bytes
  that were saved, in order; and once each saved byte has arrived in an accepted frame and nothing is
  left to read, they are all of them.  Frames carry data that was saved and, when they were written, not yet
  acknowledged; each byte is acknowledged at most once, at most \<open>2 ^ 62\<close> bytes are saved, and the receiver's
  buffer has more than 8 KB and at most 4 GB.\<close>

theorem stream_transport:
  assumes "0 < k" "history_ok 0 {} xs" "\<forall>e\<in>set es. event_ok xs e" "kBlockSizeBytes < c" "c \<le> 2 ^ 32"
  shows "\<exists>ops b b' outs. those (map (event_op k) es) = Some ops \<and> QuicStreamSequencerBuffer c = Some b \<and>
     op_run buffer_step b ops = Some (b', outs) \<and>
     concat (map result_bytes outs) = take (BytesConsumed b') (saved_stream xs) \<and>
     ((\<forall>i<length (saved_stream xs). accepted (zip ops outs) i) \<and> ReadableBytes b' = Some 0 \<longrightarrow>
        concat (map result_bytes outs) = saved_stream xs)"
proof -
  let ?ext = "\<lambda>S. \<forall>i<length (saved_stream xs). S i = saved_stream xs ! i"
  have ok: "\<exists>ops. those (map (event_op k) es) = Some ops \<and> (\<forall>x\<in>set ops. op_fits x \<and> op_of_stream S x)" if "?ext S" for S
    using event_op_ok [OF assms(1,2) _ that] assms(3) by (intro those_map_ok) blast
  let ?S = "\<lambda>i. saved_stream xs ! i"
  obtain ops where ops: "those (map (event_op k) es) = Some ops" "\<forall>x\<in>set ops. op_fits x \<and> op_of_stream ?S x"
    using ok [of ?S] by auto
  obtain b b' outs r where b: "QuicStreamSequencerBuffer c = Some b" "op_run buffer_step b ops = Some (b', outs)"
    "ReadableBytes b' = Some r" "\<forall>n. (\<forall>i<n. accepted (zip ops outs) i) \<longrightarrow> n \<le> BytesConsumed b' + r"
    using sequencer_run_delivers [OF assms(4,5) ops(2)] by blast
  have "concat (map result_bytes outs) = map S [0..<BytesConsumed b']" if S: "?ext S" for S
  proof -
    have "\<forall>x\<in>set ops. op_fits x \<and> op_of_stream S x" using ok [OF S] ops(1) by auto
    then show ?thesis using sequencer_run_delivers [OF assms(4,5)] b(1,2) by fastforce
  qed
  then have t: "BytesConsumed b' \<le> length (saved_stream xs) \<and> concat (map result_bytes outs) = take (BytesConsumed b') (saved_stream xs)"
    by (rule prefix_of_extensions [of _ _ _ 0 "1 :: uint8"]) simp_all
  moreover have "concat (map result_bytes outs) = saved_stream xs"
    if "\<forall>i<length (saved_stream xs). accepted (zip ops outs) i" "r = 0"
    using b(4) that t by auto
  ultimately show ?thesis using ops(1) b(1,2,3) by auto
qed

theorem stream_transport_witness:
  "\<exists>ops b b' outs. those (map (event_op 4) [Arrival [Save [[1, 2, 3], [4, 5, 6]] 1 5] 2 3 7, Reading [9],
       Arrival [Save [[1, 2, 3], [4, 5, 6]] 1 5, send_buffer_op.Acked 2 3] 0 2 8, Reading [9]]) = Some ops \<and>
     QuicStreamSequencerBuffer 20000 = Some b \<and> op_run buffer_step b ops = Some (b', outs) \<and>
     concat (map result_bytes outs) = take (BytesConsumed b') [2, 3, 4, 5, 6]"
  using stream_transport [of 4 "[Save [[1, 2, 3], [4, 5, 6]] 1 5, send_buffer_op.Acked 2 3]" "[Arrival [Save [[1, 2, 3], [4, 5, 6]] 1 5] 2 3 7, Reading [9],
       Arrival [Save [[1, 2, 3], [4, 5, 6]] 1 5, send_buffer_op.Acked 2 3] 0 2 8, Reading [9]]" 20000]
  by (simp add: saved_stream_def acked_offsets_def kBlockSizeBytes_def) blast

end
